(* ===== verification/CBase.thy ===== *)
theory CBase
  imports Main "HOL-Library.Word" "HOL-Library.Multiset"
begin

text \<open>
  Shared vocabulary of the development: C strings, the growable arrays that every component of
  the runtime keeps (\<open>items\<close>, \<open>count\<close>, \<open>cap\<close>), removal by \<open>memmove\<close>, linear search, and
  the interfaces (locales) that several components implement.

  Conventions used by every theory. A C string is the list of its characters up to the NUL, so
  \<open>strcmp(a,b) == 0\<close> is equality and \<open>strlen\<close> is \<open>length\<close>; a pointer that the code tests
  for NULL is an \<open>option\<close>. Handles (\<open>kvstore *k\<close>, \<open>scheduler *s\<close>) are taken to be
  non-null. An operation that runs under its component's mutex is one atomic function from the
  state before to the state after. The result of the \<open>realloc\<close> that grows an array is an
  argument of the operation, so that its out-of-memory branch is part of the model.
\<close>

section \<open>Collections of rewrite rules\<close>

named_theorems vec_simps \<open>growable arrays\<close>
named_theorems find_simps \<open>linear search and removal\<close>

section \<open>C strings\<close>

type_synonym cstr = string

text \<open>\<open>snprintf(dst, n, "%s", s)\<close> into a buffer of \<open>n\<close> bytes.\<close>

definition cbuf :: "nat \<Rightarrow> cstr \<Rightarrow> cstr" where
  "cbuf n s = take (n - 1) s"

lemma length_cbuf: "0 < n \<Longrightarrow> length (cbuf n s) < n"
  by (simp add: cbuf_def)

lemma cbuf_id: "length s < n \<Longrightarrow> cbuf n s = s"
  by (simp add: cbuf_def)

lemma cbuf_idem [simp]: "cbuf n (cbuf n s) = cbuf n s"
  by (simp add: cbuf_def)

text \<open>\<open>p && *p ? p : d\<close> and \<open>p ? p : d\<close> for a string pointer \<open>p\<close>.\<close>

definition nonempty_or :: "cstr \<Rightarrow> cstr option \<Rightarrow> cstr" where
  "nonempty_or d p = (case p of None \<Rightarrow> d | Some s \<Rightarrow> if s = [] then d else s)"

definition nonnull_or :: "cstr \<Rightarrow> cstr option \<Rightarrow> cstr" where
  "nonnull_or d p = (case p of None \<Rightarrow> d | Some s \<Rightarrow> s)"

text \<open>\<open>strstr(hay, needle) != NULL\<close>.\<close>

fun str_contains :: "cstr \<Rightarrow> cstr \<Rightarrow> bool" where
  "str_contains needle [] = (needle = [])"
| "str_contains needle (c # cs) =
     (take (length needle) (c # cs) = needle \<or> str_contains needle cs)"

lemma str_contains_iff: "str_contains n s \<longleftrightarrow> (\<exists>a b. s = a @ n @ b)"
proof (induction s)
  case (Cons c cs)
  show ?case
  proof
    assume "str_contains n (c # cs)"
    then consider "take (length n) (c # cs) = n" | "str_contains n cs" by auto
    then show "\<exists>a b. c # cs = a @ n @ b"
    proof cases
      case 1
      then have "c # cs = [] @ n @ drop (length n) (c # cs)" by (metis append_Nil append_take_drop_id)
      then show ?thesis by blast
    next
      case 2
      with Cons.IH obtain a b where "c # cs = (c # a) @ n @ b" by auto
      then show ?thesis by blast
    qed
  next
    assume "\<exists>a b. c # cs = a @ n @ b"
    then obtain a b where e: "c # cs = a @ n @ b" by blast
    show "str_contains n (c # cs)"
    proof (cases a)
      case Nil
      with e have "take (length n) (c # cs) = n" by (metis append_Nil append_eq_conv_conj)
      then show ?thesis by simp
    next
      case (Cons x xs)
      with e Cons.IH show ?thesis by auto
    qed
  qed
qed auto

section \<open>Linear search and removal by index\<close>

fun find_index :: "('a \<Rightarrow> bool) \<Rightarrow> 'a list \<Rightarrow> nat option" where
  "find_index P [] = None"
| "find_index P (x # xs) = (if P x then Some 0 else map_option Suc (find_index P xs))"

lemma find_index_None_iff: "find_index P xs = None \<longleftrightarrow> (\<forall>x \<in> set xs. \<not> P x)"
  by (induction xs) auto

lemma find_index_SomeD:
  "find_index P xs = Some i \<Longrightarrow> i < length xs \<and> P (xs ! i) \<and> (\<forall>j < i. \<not> P (xs ! j))"
proof (induction xs arbitrary: i)
  case Nil
  then show ?case by simp
next
  case (Cons x xs)
  show ?case
  proof (cases "P x")
    case True
    with Cons.prems show ?thesis by simp
  next
    case False
    with Cons.prems obtain k where k: "find_index P xs = Some k" "i = Suc k" by auto
    with Cons.IH [OF k(1)] False show ?thesis by (auto simp: less_Suc_eq_0_disj)
  qed
qed

lemma find_index_Some_iff:
  "find_index P xs = Some i \<longleftrightarrow> i < length xs \<and> P (xs ! i) \<and> (\<forall>j < i. \<not> P (xs ! j))"
proof
  assume r: "i < length xs \<and> P (xs ! i) \<and> (\<forall>j < i. \<not> P (xs ! j))"
  then obtain k where k: "find_index P xs = Some k"
    by (metis find_index_None_iff nth_mem option.exhaust)
  with r find_index_SomeD [OF k] have "k = i" by (metis linorder_neqE_nat)
  with k show "find_index P xs = Some i" by simp
qed (rule find_index_SomeD)

text \<open>\<open>memmove(&a[i], &a[i+1], (count-i-1) * sizeof *a); count--\<close>.\<close>

definition remove_at :: "nat \<Rightarrow> 'a list \<Rightarrow> 'a list" where
  "remove_at i xs = take i xs @ drop (Suc i) xs"

lemma remove_at_simps [simp, find_simps]:
  "remove_at 0 (x # xs) = xs"
  "remove_at (Suc i) (x # xs) = x # remove_at i xs"
  "remove_at i [] = []"
  by (simp_all add: remove_at_def)

lemma length_remove_at [find_simps]: "i < length xs \<Longrightarrow> length (remove_at i xs) = length xs - 1"
  by (simp add: remove_at_def)

lemma set_remove_at_subset: "set (remove_at i xs) \<subseteq> set xs"
  by (auto simp: remove_at_def dest: in_set_takeD in_set_dropD)

lemma map_remove_at: "map f (remove_at i xs) = remove_at i (map f xs)"
  by (simp add: remove_at_def take_map drop_map)

lemma sorted_wrt_remove_at: "sorted_wrt P xs \<Longrightarrow> sorted_wrt P (remove_at i xs)"
proof (induction xs arbitrary: i)
  case Nil
  then show ?case by simp
next
  case (Cons x xs)
  then show ?case using set_remove_at_subset [of _ xs] by (cases i) auto
qed

lemma distinct_remove_at: "distinct xs \<Longrightarrow> distinct (remove_at i xs)"
  using sorted_wrt_remove_at [of "(\<noteq>)" xs i] by (simp add: distinct_conv_nth sorted_wrt_iff_nth_less)
     (metis linorder_neqE_nat)

lemma set_remove_at_distinct:
  "distinct xs \<Longrightarrow> i < length xs \<Longrightarrow> set (remove_at i xs) = set xs - {xs ! i}"
proof (induction xs arbitrary: i)
  case Nil
  then show ?case by simp
next
  case (Cons x xs)
  then show ?case by (cases i) auto
qed

text \<open>Removing the element a search found is removing the first match.\<close>

lemma remove_at_find_index:
  "find_index P xs = Some i \<Longrightarrow> remove_at i xs = takeWhile (Not \<circ> P) xs @ tl (dropWhile (Not \<circ> P) xs)"
  by (induction xs arbitrary: i) (auto split: if_splits)

section \<open>Growable arrays\<close>

text \<open>
  The C idiom \<open>if (count == cap) { cap = cap ? cap * 2 : init; p = realloc(...); if (!p) return; }
  p[count++] = x;\<close>. The element count is the length of the list; the capacity is kept because the
  out-of-memory branch is only reached when the array is full.
\<close>

record 'a vec =
  elems :: "'a list"
  vcap :: nat

definition vec_new :: "'a vec" where
  "vec_new = \<lparr>elems = [], vcap = 0\<rparr>"

definition grow_cap :: "nat \<Rightarrow> nat \<Rightarrow> nat" where
  "grow_cap init c = (if c = 0 then init else c * 2)"

definition vec_push :: "nat \<Rightarrow> bool \<Rightarrow> 'a \<Rightarrow> 'a vec \<Rightarrow> 'a vec option" where
  "vec_push init ok x v =
     (if length (elems v) = vcap v
      then if ok then Some (v\<lparr>elems := elems v @ [x], vcap := grow_cap init (vcap v)\<rparr>) else None
      else Some (v\<lparr>elems := elems v @ [x]\<rparr>))"

definition vec_ok :: "'a vec \<Rightarrow> bool" where
  "vec_ok v \<longleftrightarrow> length (elems v) \<le> vcap v"

lemma vec_new_simps [simp, vec_simps]: "elems vec_new = []" "vcap vec_new = 0" "vec_ok vec_new"
  by (simp_all add: vec_new_def vec_ok_def)

lemma vec_push_elems [vec_simps]: "vec_push n ok x v = Some v' \<Longrightarrow> elems v' = elems v @ [x]"
  by (auto simp: vec_push_def split: if_splits)

lemma vec_push_ok_Some [vec_simps]: "vec_push n True x v \<noteq> None"
  by (simp add: vec_push_def)

lemma vec_push_None_iff: "vec_push n ok x v = None \<longleftrightarrow> \<not> ok \<and> length (elems v) = vcap v"
  by (auto simp: vec_push_def)

lemma vec_ok_push: "vec_push n ok x v = Some v' \<Longrightarrow> 0 < n \<Longrightarrow> vec_ok v \<Longrightarrow> vec_ok v'"
  by (auto simp: vec_push_def vec_ok_def grow_cap_def split: if_splits)

lemma vec_ok_shrink: "vec_ok v \<Longrightarrow> length xs \<le> length (elems v) \<Longrightarrow> vec_ok (v\<lparr>elems := xs\<rparr>)"
  by (simp add: vec_ok_def)

section \<open>Interfaces\<close>

text \<open>
  A keyed store: what its clients may assume of lookup after insertion and removal. The key/value
  store, the blackboard and the memory-record store provide it.
\<close>

locale keyed_store =
  fixes get :: "'s \<Rightarrow> 'k \<Rightarrow> 'v option"
    and put :: "'k \<Rightarrow> 'v \<Rightarrow> 's \<Rightarrow> 's"
    and del :: "'k \<Rightarrow> 's \<Rightarrow> 's"
    and inv :: "'s \<Rightarrow> bool"
  assumes get_put: "inv s \<Longrightarrow> get (put k v s) = (get s)(k \<mapsto> v)"
    and get_del: "inv s \<Longrightarrow> get (del k s) = (get s)(k := None)"
    and inv_put: "inv s \<Longrightarrow> inv (put k v s)"
    and inv_del: "inv s \<Longrightarrow> inv (del k s)"
begin

primrec apply_ops :: "('k \<times> 'v option) list \<Rightarrow> 's \<Rightarrow> 's" where
  "apply_ops [] s = s"
| "apply_ops (kv # kvs) s =
     apply_ops kvs (case snd kv of None \<Rightarrow> del (fst kv) s | Some v \<Rightarrow> put (fst kv) v s)"

lemma inv_apply_ops: "inv s \<Longrightarrow> inv (apply_ops ops s)"
  by (induction ops arbitrary: s) (auto simp: inv_put inv_del split: option.split)

text \<open>The last operation on a key decides what is found under it.\<close>

lemma get_apply_ops:
  "inv s \<Longrightarrow> get (apply_ops ops s) k =
     (case map_of (rev ops) k of None \<Rightarrow> get s k | Some r \<Rightarrow> r)"
proof (induction ops arbitrary: s)
  case Nil
  then show ?case by simp
next
  case (Cons kv ops)
  obtain k' v where kv: "kv = (k', v)" by (cases kv)
  have i: "inv (case v of None \<Rightarrow> del k' s | Some x \<Rightarrow> put k' x s)"
    using Cons.prems by (auto simp: inv_put inv_del split: option.split)
  show ?case
    using Cons.IH [OF i] Cons.prems
    by (auto simp: kv map_add_def get_put get_del split: option.split)
qed

lemma put_put_get: "inv s \<Longrightarrow> get (put k v (put k w s)) = get (put k v s)"
  by (simp add: get_put inv_put)

lemma put_commute_get:
  "inv s \<Longrightarrow> k \<noteq> l \<Longrightarrow> get (put k v (put l w s)) = get (put l w (put k v s))"
  by (simp add: get_put inv_put fun_upd_twist)

lemma del_put_get: "inv s \<Longrightarrow> get s k = None \<Longrightarrow> get (del k (put k v s)) = get s"
  by (auto simp: get_put get_del inv_put)

end

text \<open>
  A labelled transition system with an invariant: what holds initially and is kept by every step
  holds in every reachable state.
\<close>

locale invariant_system =
  fixes start :: "'s \<Rightarrow> bool"
    and step :: "'s \<Rightarrow> 's \<Rightarrow> bool"
    and inv :: "'s \<Rightarrow> bool"
  assumes inv_start: "start s \<Longrightarrow> inv s"
    and inv_step: "inv s \<Longrightarrow> step s t \<Longrightarrow> inv t"
begin

lemma inv_reachable: "start s \<Longrightarrow> step\<^sup>*\<^sup>* s t \<Longrightarrow> inv t"
  by (rotate_tac 1, induction rule: rtranclp_induct) (auto intro: inv_start inv_step)

lemma inv_steps: "step\<^sup>*\<^sup>* s t \<Longrightarrow> inv s \<Longrightarrow> inv t"
  by (induction rule: rtranclp_induct) (auto intro: inv_step)

end

text \<open>
  A priority queue over a linear order, seen as the multiset of its entries: what the workers of
  the scheduler rely on when they pop the ready queue.
\<close>

locale priority_queue =
  fixes ins :: "'q \<Rightarrow> 'a::linorder \<Rightarrow> 'q"
    and pop :: "'q \<Rightarrow> ('a \<times> 'q) option"
    and bag :: "'q \<Rightarrow> 'a multiset"
    and inv :: "'q \<Rightarrow> bool"
  assumes bag_ins: "inv q \<Longrightarrow> bag (ins q x) = add_mset x (bag q)"
    and inv_ins: "inv q \<Longrightarrow> inv (ins q x)"
    and pop_None: "inv q \<Longrightarrow> pop q = None \<longleftrightarrow> bag q = {#}"
    and pop_min: "inv q \<Longrightarrow> pop q = Some (x, q') \<Longrightarrow> \<forall>y \<in># bag q. x \<le> y"
    and bag_pop: "inv q \<Longrightarrow> pop q = Some (x, q') \<Longrightarrow> bag q = add_mset x (bag q')"
    and inv_pop: "inv q \<Longrightarrow> pop q = Some (x, q') \<Longrightarrow> inv q'"
begin

primrec drain :: "nat \<Rightarrow> 'q \<Rightarrow> 'a list" where
  "drain 0 q = []"
| "drain (Suc n) q = (case pop q of None \<Rightarrow> [] | Some (x, q') \<Rightarrow> x # drain n q')"

lemma drain_sound:
  "inv q \<Longrightarrow> size (bag q) \<le> n \<Longrightarrow> mset (drain n q) = bag q \<and> sorted (drain n q)"
proof (induction n arbitrary: q)
  case 0
  then show ?case by simp
next
  case (Suc n)
  show ?case
  proof (cases "pop q")
    case None
    moreover from this Suc.prems(1) have "bag q = {#}" by (simp add: pop_None)
    ultimately show ?thesis by simp
  next
    case (Some xq)
    then obtain x q' where p: "pop q = Some (x, q')" by (cases xq) auto
    note b = bag_pop [OF Suc.prems(1) p]
    have "size (bag q') \<le> n" using Suc.prems(2) b by simp
    with Suc.IH [OF inv_pop [OF Suc.prems(1) p]]
    have d: "mset (drain n q') = bag q'" "sorted (drain n q')" by auto
    have "\<forall>y \<in> set (drain n q'). x \<le> y"
      using pop_min [OF Suc.prems(1) p] b d(1) by (metis set_mset_mset union_iff add_mset_add_single)
    with p d b show ?thesis by simp
  qed
qed

lemma drain_eq_sorted_list:
  "inv q \<Longrightarrow> drain (size (bag q)) q = sorted_list_of_multiset (bag q)"
  using drain_sound [of q "size (bag q)"]
  by (metis order_refl properties_for_sort sorted_list_of_multiset_mset sorted_sort_id)

lemma pop_ins_le: "inv q \<Longrightarrow> \<forall>y \<in># bag q. x < y \<Longrightarrow> \<exists>q'. pop (ins q x) = Some (x, q') \<and> bag q' = bag q"
proof -
  assume i: "inv q" and lt: "\<forall>y \<in># bag q. x < y"
  from i have i': "inv (ins q x)" by (rule inv_ins)
  have "pop (ins q x) \<noteq> None" using i by (simp add: pop_None [OF i'] bag_ins)
  then obtain y q' where p: "pop (ins q x) = Some (y, q')" by (cases "pop (ins q x)") auto
  have b: "add_mset x (bag q) = add_mset y (bag q')"
    using bag_pop [OF i' p] by (simp add: bag_ins [OF i])
  have "y \<le> x" using pop_min [OF i' p] by (simp add: bag_ins [OF i])
  moreover have "y \<in># add_mset x (bag q)" by (simp add: b)
  ultimately have "y = x" using lt by (auto simp: not_less dest!: bspec)
  with p b show ?thesis by auto
qed

end

end
