(* ===== verification/ReadyQueue.thy ===== *)
theory ReadyQueue
  imports CBase
begin

text \<open>
  The scheduler's ready queue (\<open>queue_insert\<close>, \<open>queue_pop\<close> and \<open>task_less\<close> of
  \<open>src/backend/src/runtime/scheduler.c\<close>): an array-based binary min-heap of task pointers. A
  task pointer in the queue is represented by the two immutable fields its order depends on, the
  priority (a C \<open>int\<close>) and the task id (\<open>int64_t\<close>), which identifies the task. The sift loops
  are written as the code has them: a hole moves, the displaced entries are copied into it and the
  moving entry is stored once at the end.
\<close>

section \<open>Task references and their order\<close>

datatype tref = TRef (ref_prio: int) (ref_id: int)

definition task_less :: "tref \<Rightarrow> tref \<Rightarrow> bool" where
  "task_less a b =
     (if ref_prio a \<noteq> ref_prio b then ref_prio a < ref_prio b else ref_id a < ref_id b)"

text \<open>\<open>task_less\<close> is a strict total order, so the library's order lemmas apply to the queue.\<close>

instantiation tref :: linorder
begin

definition less_tref :: "tref \<Rightarrow> tref \<Rightarrow> bool" where
  "less_tref a b = task_less a b"

definition less_eq_tref :: "tref \<Rightarrow> tref \<Rightarrow> bool" where
  "less_eq_tref a b = (task_less a b \<or> a = b)"

instance
proof
  fix x y z :: tref
  show "(x < y) = (x \<le> y \<and> \<not> y \<le> x)"
    by (cases x; cases y) (auto simp: less_tref_def less_eq_tref_def task_less_def)
  show "x \<le> x" by (simp add: less_eq_tref_def)
  show "x \<le> y \<Longrightarrow> y \<le> z \<Longrightarrow> x \<le> z"
    by (cases x; cases y; cases z) (auto simp: less_eq_tref_def task_less_def split: if_splits)
  show "x \<le> y \<Longrightarrow> y \<le> x \<Longrightarrow> x = y"
    by (cases x; cases y) (auto simp: less_eq_tref_def task_less_def split: if_splits)
  show "x \<le> y \<or> y \<le> x"
    by (cases x; cases y) (auto simp: less_eq_tref_def task_less_def)
qed

end

lemma tref_le_iff:
  "TRef p i \<le> TRef q j \<longleftrightarrow> p < q \<or> p = q \<and> i \<le> j"
  by (auto simp: less_eq_tref_def task_less_def)

section \<open>The sift loops\<close>

definition heap_parent :: "nat \<Rightarrow> nat" where
  "heap_parent i = (i - 1) div 2"

lemma heap_parent_less [simp]: "0 < i \<Longrightarrow> heap_parent i < i"
  by (simp add: heap_parent_def)

lemma heap_parent_child [simp]: "heap_parent (2 * i + 1) = i" "heap_parent (2 * i + 2) = i"
  by (simp_all add: heap_parent_def)

lemma heap_parent_cases: "0 < j \<Longrightarrow> heap_parent j = i \<longleftrightarrow> j = 2 * i + 1 \<or> j = 2 * i + 2"
  by (auto simp: heap_parent_def)

text \<open>\<open>while (i > 0) { parent; if (!task_less(t, queue[parent])) break; ... } queue[i] = t;\<close>\<close>

function sift_up :: "'a::linorder \<Rightarrow> nat \<Rightarrow> 'a list \<Rightarrow> 'a list" where
  "sift_up t i q =
     (if 0 < i \<and> t < q ! heap_parent i
      then sift_up t (heap_parent i) (q[i := q ! heap_parent i])
      else q[i := t])"
  by pat_completeness auto
termination
  by (relation "measure (\<lambda>(t, i, q). i)") auto

declare sift_up.simps [simp del]

text \<open>\<open>while (2*i+1 < qlen) { child = smaller child; if (!task_less(queue[child], last)) break; ... }
  queue[i] = last;\<close>\<close>

definition min_child :: "nat \<Rightarrow> 'a::linorder list \<Rightarrow> nat" where
  "min_child i q =
     (if 2 * i + 2 < length q \<and> q ! (2 * i + 2) < q ! (2 * i + 1) then 2 * i + 2 else 2 * i + 1)"

lemma min_child_gt [simp]: "i < min_child i q"
  by (simp add: min_child_def)

lemma min_child_length: "2 * i + 1 < length q \<Longrightarrow> min_child i q < length q"
  by (simp add: min_child_def)

lemma heap_parent_min_child [simp]: "heap_parent (min_child i q) = i"
  by (simp add: min_child_def heap_parent_def)

function sift_down :: "'a::linorder \<Rightarrow> nat \<Rightarrow> 'a list \<Rightarrow> 'a list" where
  "sift_down t i q =
     (if 2 * i + 1 < length q \<and> q ! min_child i q < t
      then sift_down t (min_child i q) (q[i := q ! min_child i q])
      else q[i := t])"
  by pat_completeness auto
termination
  by (relation "measure (\<lambda>(t, i, q). length q - i)") (auto simp: diff_less_mono2)

declare sift_down.simps [simp del]

definition queue_insert :: "'a::linorder list \<Rightarrow> 'a \<Rightarrow> 'a list" where
  "queue_insert q t = sift_up t (length q) (q @ [t])"

definition queue_pop :: "'a::linorder list \<Rightarrow> ('a \<times> 'a list) option" where
  "queue_pop q =
     (if q = [] then None
      else let t = q ! 0; last_t = q ! (length q - 1); q' = take (length q - 1) q
           in Some (t, if q' = [] then q' else sift_down last_t 0 q'))"

section \<open>Contents are permuted\<close>

lemma length_sift_up [simp]: "length (sift_up t i q) = length q"
  by (induction t i q rule: sift_up.induct) (subst sift_up.simps, simp)

lemma length_sift_down [simp]: "length (sift_down t i q) = length q"
  by (induction t i q rule: sift_down.induct) (subst sift_down.simps, simp)

lemma mset_update2:
  assumes "i < length q" "j < length q" "i \<noteq> j"
  shows "mset (q[i := q ! j, j := t]) = mset (q[i := t])"
proof -
  have "mset (q[i := q ! j, j := t]) = add_mset t (add_mset (q ! j) (mset q - {# q ! i #}) - {# q ! j #})"
    using assms by (simp add: mset_update)
  also have "\<dots> = add_mset t (mset q - {# q ! i #})" by simp
  also have "\<dots> = mset (q[i := t])" using assms by (simp add: mset_update)
  finally show ?thesis .
qed

lemma mset_sift_up: "i < length q \<Longrightarrow> mset (sift_up t i q) = mset (q[i := t])"
proof (induction t i q rule: sift_up.induct)
  case (1 t i q)
  show ?case
  proof (cases "0 < i \<and> t < q ! heap_parent i")
    case True
    then have "heap_parent i < i" by simp
    with 1 True show ?thesis
      by (subst sift_up.simps) (simp add: mset_update2)
  next
    case False
    then show ?thesis by (subst sift_up.simps) auto
  qed
qed

lemma mset_sift_down: "i < length q \<Longrightarrow> mset (sift_down t i q) = mset (q[i := t])"
proof (induction t i q rule: sift_down.induct)
  case (1 t i q)
  show ?case
  proof (cases "2 * i + 1 < length q \<and> q ! min_child i q < t")
    case True
    moreover have "min_child i q < length q" using True by (simp add: min_child_length)
    moreover have "i \<noteq> min_child i q" using min_child_gt [of i q] by linarith
    ultimately show ?thesis using 1
      by (subst sift_down.simps) (simp add: mset_update2)
  next
    case False
    then show ?thesis by (subst sift_down.simps) auto
  qed
qed

lemma mset_queue_insert: "mset (queue_insert q t) = add_mset t (mset q)"
  by (simp add: queue_insert_def mset_sift_up)

lemma take_butlast: "q \<noteq> [] \<Longrightarrow> take (length q - 1) q = butlast q"
  by (simp add: butlast_conv_take)

lemma mset_queue_pop:
  assumes "queue_pop q = Some (t, q')"
  shows "mset q = add_mset t (mset q')"
proof -
  have ne: "q \<noteq> []" and t: "t = q ! 0" using assms by (auto simp: queue_pop_def Let_def split: if_splits)
  have split: "mset q = add_mset (q ! (length q - 1)) (mset (take (length q - 1) q))"
  proof -
    have "q = take (length q - 1) q @ [q ! (length q - 1)]"
      using ne append_butlast_last_id [of q] by (simp add: butlast_conv_take last_conv_nth)
    then have "mset q = mset (take (length q - 1) q @ [q ! (length q - 1)])" by (rule arg_cong)
    then show ?thesis by simp
  qed
  show ?thesis
  proof (cases "take (length q - 1) q = []")
    case True
    with assms ne split t show ?thesis by (auto simp: queue_pop_def Let_def)
  next
    case False
    then have l: "0 < length q - 1" by simp
    then have z: "take (length q - 1) q ! 0 = q ! 0" by simp
    from assms ne False have "q' = sift_down (q ! (length q - 1)) 0 (take (length q - 1) q)"
      by (simp add: queue_pop_def Let_def)
    then have "mset q' = add_mset (q ! (length q - 1)) (mset (take (length q - 1) q) - {# q ! 0 #})"
      using l z by (simp add: mset_sift_down mset_update)
    moreover have "q ! 0 \<in># mset (take (length q - 1) q)"
      using l nth_mem [of 0 "take (length q - 1) q"] z by simp
    ultimately show ?thesis using split t by simp
  qed
qed

section \<open>The heap order\<close>

definition heap_ok :: "'a::linorder list \<Rightarrow> bool" where
  "heap_ok q \<longleftrightarrow> (\<forall>j < length q. 0 < j \<longrightarrow> q ! heap_parent j \<le> q ! j)"

text \<open>
  The invariant of the loops: the array is a heap except around the hole \<open>i\<close>, and the entry above
  the hole is below the entries under it.
\<close>

definition heap_hole :: "nat \<Rightarrow> 'a::linorder list \<Rightarrow> bool" where
  "heap_hole i q \<longleftrightarrow>
     (\<forall>j < length q. 0 < j \<longrightarrow> j \<noteq> i \<longrightarrow> heap_parent j \<noteq> i \<longrightarrow> q ! heap_parent j \<le> q ! j) \<and>
     (0 < i \<longrightarrow> (\<forall>j < length q. 0 < j \<longrightarrow> heap_parent j = i \<longrightarrow> q ! heap_parent i \<le> q ! j))"

definition above_children :: "'a::linorder \<Rightarrow> nat \<Rightarrow> 'a list \<Rightarrow> bool" where
  "above_children t i q \<longleftrightarrow> (\<forall>j < length q. 0 < j \<longrightarrow> heap_parent j = i \<longrightarrow> t \<le> q ! j)"

lemma heap_ok_fill:
  assumes "heap_hole i q" "above_children t i q" "0 < i \<longrightarrow> q ! heap_parent i \<le> t" "i < length q"
  shows "heap_ok (q[i := t])"
  unfolding heap_ok_def
proof (intro allI impI)
  fix j assume j: "j < length (q[i := t])" "0 < j"
  have neq: "heap_parent j \<noteq> j" using heap_parent_less [OF j(2)] by simp
  show "q[i := t] ! heap_parent j \<le> q[i := t] ! j"
    using assms j neq by (cases "j = i"; cases "heap_parent j = i")
      (auto simp: heap_hole_def above_children_def)
qed

lemma heap_hole_up:
  assumes h: "heap_hole i q" and i: "0 < i" "i < length q" and t: "t < q ! heap_parent i"
  shows "heap_hole (heap_parent i) (q[i := q ! heap_parent i])"
    and "above_children t (heap_parent i) (q[i := q ! heap_parent i])"
proof -
  let ?p = "heap_parent i" and ?q = "q[i := q ! heap_parent i]"
  have p: "?p < i" using i by simp
  have ge: "j < length q \<Longrightarrow> 0 < j \<Longrightarrow> heap_parent j = ?p \<Longrightarrow> q ! ?p \<le> ?q ! j" for j
    using h i by (cases "j = i") (auto simp: heap_hole_def)
  show "above_children t ?p ?q"
    using ge t by (auto simp: above_children_def intro: order_trans less_imp_le)
  have up: "0 < ?p \<Longrightarrow> q ! heap_parent ?p \<le> q ! ?p"
  proof -
    assume p0: "0 < ?p"
    have "heap_parent ?p < ?p" using p0 by simp
    with p have "heap_parent ?p \<noteq> i" "?p \<noteq> i" "?p < length q" using i by linarith+
    with p0 h show ?thesis by (simp add: heap_hole_def)
  qed
  show "heap_hole ?p ?q"
    unfolding heap_hole_def
  proof (intro conjI allI impI)
    fix j assume j: "j < length ?q" "0 < j" "j \<noteq> ?p" "heap_parent j \<noteq> ?p"
    then have "j \<noteq> i" by auto
    with j h i show "?q ! heap_parent j \<le> ?q ! j"
      by (cases "heap_parent j = i") (auto simp: heap_hole_def)
  next
    fix j assume p0: "0 < ?p" and j: "j < length ?q" "0 < j" "heap_parent j = ?p"
    have "heap_parent ?p \<noteq> i" using p0 p heap_parent_less [OF p0] by linarith
    then have "?q ! heap_parent ?p = q ! heap_parent ?p" by simp
    also have "\<dots> \<le> q ! ?p" by (rule up [OF p0])
    also have "\<dots> \<le> ?q ! j" using ge j by simp
    finally show "?q ! heap_parent ?p \<le> ?q ! j" .
  qed
qed

lemma heap_ok_sift_up:
  "i < length q \<Longrightarrow> heap_hole i q \<Longrightarrow> above_children t i q \<Longrightarrow> heap_ok (sift_up t i q)"
proof (induction t i q rule: sift_up.induct)
  case (1 t i q)
  show ?case
  proof (cases "0 < i \<and> t < q ! heap_parent i")
    case True
    moreover have "heap_parent i < length q" using True "1.prems"(1) heap_parent_less [of i] by linarith
    ultimately show ?thesis
      using 1 heap_hole_up [of i q t] by (subst sift_up.simps) simp
  next
    case False
    with "1.prems" show ?thesis by (subst sift_up.simps) (auto intro!: heap_ok_fill)
  qed
qed

lemma min_child_least:
  assumes "j < length q" "0 < j" "heap_parent j = i"
  shows "q ! min_child i q \<le> q ! j"
  using assms by (auto simp: heap_parent_cases min_child_def)

lemma heap_hole_down:
  assumes h: "heap_hole i q" and c: "2 * i + 1 < length q"
  shows "heap_hole (min_child i q) (q[i := q ! min_child i q])"
proof -
  let ?c = "min_child i q" and ?q = "q[i := q ! min_child i q]"
  have ci: "i < ?c" by (rule min_child_gt)
  then have c0: "0 < ?c" by linarith
  have cl: "?c < length q" using c by (simp add: min_child_length)
  have i: "i < length q" using c by simp
  show ?thesis
    unfolding heap_hole_def
  proof (intro conjI allI impI)
    fix j assume j: "j < length ?q" "0 < j" "j \<noteq> ?c" "heap_parent j \<noteq> ?c"
    have pj: "heap_parent j < j" using j by simp
    consider "j = i" | "j \<noteq> i" "heap_parent j = i" | "j \<noteq> i" "heap_parent j \<noteq> i" by blast
    then show "?q ! heap_parent j \<le> ?q ! j"
    proof cases
      case 1
      have "q ! heap_parent i \<le> q ! ?c" using h 1 j cl c0 by (auto simp: heap_hole_def)
      with 1 pj i show ?thesis by simp
    next
      case 2
      with min_child_least [of j q i] j i show ?thesis by simp
    next
      case 3
      with h j show ?thesis by (auto simp: heap_hole_def)
    qed
  next
    fix j assume j: "j < length ?q" "0 < j" "heap_parent j = ?c"
    have "?c < j" using j(2,3) heap_parent_less [of j] by simp
    then have "j \<noteq> i" "heap_parent j \<noteq> i" using ci j(3) by linarith+
    moreover from this have "q ! ?c \<le> q ! j" using h j by (auto simp: heap_hole_def)
    ultimately show "?q ! heap_parent ?c \<le> ?q ! j" using i by simp
  qed
qed

lemma heap_ok_sift_down:
  "i < length q \<Longrightarrow> heap_hole i q \<Longrightarrow> (0 < i \<longrightarrow> q ! heap_parent i \<le> t) \<Longrightarrow> heap_ok (sift_down t i q)"
proof (induction t i q rule: sift_down.induct)
  case (1 t i q)
  show ?case
  proof (cases "2 * i + 1 < length q \<and> q ! min_child i q < t")
    case True
    have "i \<noteq> min_child i q" using min_child_gt [of i q] by linarith
    moreover have "q ! min_child i q \<le> t" using True by (blast intro: less_imp_le)
    ultimately show ?thesis
      using True 1 heap_hole_down [of i q] min_child_length [of i q]
      by (subst sift_down.simps) simp
  next
    case False
    have "above_children t i q"
      unfolding above_children_def
    proof (intro allI impI)
      fix j assume j: "j < length q" "0 < j" "heap_parent j = i"
      then have "2 * i + 1 < length q" by (auto simp: heap_parent_cases)
      with False min_child_least [OF j] show "t \<le> q ! j" by auto
    qed
    with False "1.prems" show ?thesis by (subst sift_down.simps) (auto intro!: heap_ok_fill)
  qed
qed

lemma heap_ok_Nil [simp]: "heap_ok []"
  by (simp add: heap_ok_def)

lemma heap_ok_queue_insert:
  assumes "heap_ok q"
  shows "heap_ok (queue_insert q t)"
proof -
  have np: "heap_parent j \<noteq> length q" if "j < Suc (length q)" "0 < j" for j
    using that heap_parent_less [of j] by linarith
  have "heap_hole (length q) (q @ [t])"
    unfolding heap_hole_def
  proof (intro conjI allI impI)
    fix j assume j: "j < length (q @ [t])" "0 < j" "j \<noteq> length q"
    then have "j < length q" by simp
    moreover from this j have "heap_parent j < length q" using heap_parent_less [of j] by linarith
    ultimately have "j < length q" "heap_parent j < length q" .
    with assms j show "(q @ [t]) ! heap_parent j \<le> (q @ [t]) ! j" by (simp add: heap_ok_def nth_append)
  next
    fix j assume "j < length (q @ [t])" "0 < j" "heap_parent j = length q"
    with np show "(q @ [t]) ! heap_parent (length q) \<le> (q @ [t]) ! j" by simp
  qed
  moreover have "above_children t (length q) (q @ [t])"
    using np by (simp add: above_children_def)
  ultimately show ?thesis by (simp add: queue_insert_def heap_ok_sift_up)
qed

lemma heap_ok_take: "heap_ok q \<Longrightarrow> heap_ok (take n q)"
  unfolding heap_ok_def
proof (intro allI impI)
  fix j assume h: "\<forall>j<length q. 0 < j \<longrightarrow> q ! heap_parent j \<le> q ! j" and j: "j < length (take n q)" "0 < j"
  have "heap_parent j < length (take n q)" using j heap_parent_less [of j] by linarith
  with h j show "take n q ! heap_parent j \<le> take n q ! j" by simp
qed

lemma heap_ok_imp_hole0: "heap_ok q \<Longrightarrow> heap_hole 0 q"
  by (simp add: heap_ok_def heap_hole_def)

lemma heap_ok_queue_pop:
  assumes "heap_ok q" "queue_pop q = Some (t, q')"
  shows "heap_ok q'"
proof (cases "take (length q - 1) q = []")
  case True
  with assms show ?thesis by (auto simp: queue_pop_def Let_def split: if_splits)
next
  case False
  then have "0 < length (take (length q - 1) q)" by blast
  moreover have "heap_hole 0 (take (length q - 1) q)"
    using assms(1) by (intro heap_ok_imp_hole0 heap_ok_take)
  moreover have "q' = sift_down (q ! (length q - 1)) 0 (take (length q - 1) q)"
    using assms(2) False by (auto simp: queue_pop_def Let_def split: if_splits)
  ultimately show ?thesis by (simp add: heap_ok_sift_down)
qed

lemma heap_ok_root_min: "heap_ok q \<Longrightarrow> j < length q \<Longrightarrow> q ! 0 \<le> q ! j"
proof (induction j rule: less_induct)
  case (less j)
  show ?case
  proof (cases "j = 0")
    case False
    then have p: "heap_parent j < j" by simp
    with less have "q ! 0 \<le> q ! heap_parent j" by simp
    also have "\<dots> \<le> q ! j" using less.prems False by (simp add: heap_ok_def)
    finally show ?thesis .
  qed simp
qed

lemma queue_pop_min:
  assumes "heap_ok q" "queue_pop q = Some (t, q')"
  shows "\<forall>y \<in># mset q. t \<le> y"
  using assms heap_ok_root_min [of q]
  by (auto simp: queue_pop_def Let_def in_set_conv_nth split: if_splits)

lemma queue_pop_None: "queue_pop q = None \<longleftrightarrow> q = []"
  by (simp add: queue_pop_def Let_def)

interpretation rq: priority_queue queue_insert queue_pop mset heap_ok
  by unfold_locales
     (auto simp: mset_queue_insert heap_ok_queue_insert queue_pop_None
           dest: queue_pop_min mset_queue_pop heap_ok_queue_pop)

end
