(* ===== verification/Json.thy ===== *)
theory Json
  imports CBase Complex_Main
begin

text \<open>
  The JSON tree the runtime works on (the \<open>cJSON\<close> node of the vendored
  \<open>third_party/cJSON\<close>). Only the tree and its accessors are modelled; the text parser and printer
  of that library are parameters of the operations that call them. A number holds the exact value
  of the \<open>double\<close>.
\<close>

datatype json =
    JNull
  | JBool bool
  | JNum rat
  | JStr cstr
  | JArr "json list"
  | JObj "(cstr \<times> json) list"

text \<open>\<open>cJSON_GetObjectItemCaseSensitive\<close>: first member of that name; NULL on a non-object.\<close>

fun json_get :: "cstr \<Rightarrow> json option \<Rightarrow> json option" where
  "json_get k (Some (JObj kvs)) = map_of kvs k"
| "json_get k _ = None"

text \<open>\<open>cJSON_GetStringValue\<close>: NULL unless the node is a string.\<close>

fun json_string :: "json option \<Rightarrow> cstr option" where
  "json_string (Some (JStr s)) = Some s"
| "json_string _ = None"

fun json_is_object :: "json option \<Rightarrow> bool" where
  "json_is_object (Some (JObj _)) = True"
| "json_is_object _ = False"

fun json_items :: "json option \<Rightarrow> json list" where
  "json_items (Some (JArr js)) = js"
| "json_items _ = []"

text \<open>\<open>valueint\<close>: the double truncated towards zero and saturated to the range of \<open>int\<close>.\<close>

definition sat_int :: "rat \<Rightarrow> int" where
  "sat_int r =
     (if 2147483647 \<le> r then 2147483647
      else if r \<le> -2147483648 then -2147483648
      else if 0 \<le> r then \<lfloor>r\<rfloor> else \<lceil>r\<rceil>)"

fun json_is_int :: "int \<Rightarrow> json option \<Rightarrow> bool" where
  "json_is_int n (Some (JNum r)) = (sat_int r = n)"
| "json_is_int n _ = False"

fun json_num :: "json option \<Rightarrow> rat option" where
  "json_num (Some (JNum r)) = Some r"
| "json_num _ = None"

text \<open>\<open>if (field) cJSON_AddItemToObject(o, key, cJSON_Duplicate(field, 1))\<close> for each key in turn.\<close>

definition json_pick :: "cstr list \<Rightarrow> json option \<Rightarrow> (cstr \<times> json) list" where
  "json_pick ks j = List.map_filter (\<lambda>k. map_option (Pair k) (json_get k j)) ks"

lemma json_pick_keys: "fst ` set (json_pick ks j) \<subseteq> set ks"
  by (auto simp: json_pick_def List.map_filter_def)

lemma json_pick_get: "(k, v) \<in> set (json_pick ks j) \<Longrightarrow> json_get k j = Some v"
  by (auto simp: json_pick_def List.map_filter_def)

lemma json_pick_Nil [simp]: "json_pick [] j = []"
  by (simp add: json_pick_def List.map_filter_def)

lemma json_pick_Cons [simp]:
  "json_pick (k # ks) j = (case json_get k j of None \<Rightarrow> json_pick ks j | Some v \<Rightarrow> (k, v) # json_pick ks j)"
  by (simp add: json_pick_def List.map_filter_def split: option.split)

end
