(* ===== verification/TaskModel.thy ===== *)
theory TaskModel
  imports Json
begin

text \<open>
  The scheduler's unit of work: \<open>struct task\<close> of \<open>include/runtime/scheduler.h\<close> and the lifecycle
  helpers of \<open>src/runtime/task.c\<close>. The progress text and the trace are kept as the JSON they hold
  (the trace is only ever written by printing an array and read by parsing it). Fields no operation
  of the modelled components touches (the approval handshake, the checkpoint bookkeeping, the opaque
  \<open>userdata\<close>) are left out; the coroutine handle is the flag \<open>started\<close>.
\<close>

section \<open>State\<close>

datatype task_status = TS_QUEUED | TS_RUNNING | TS_DONE | TS_FAILED | TS_CANCELLED | TS_TIMEOUT

fun ts_num :: "task_status \<Rightarrow> nat" where
  "ts_num TS_QUEUED = 0"
| "ts_num TS_RUNNING = 1"
| "ts_num TS_DONE = 2"
| "ts_num TS_FAILED = 3"
| "ts_num TS_CANCELLED = 4"
| "ts_num TS_TIMEOUT = 5"

record task =
  t_id :: int
  priority :: int
  timeout_ms :: int
  created_ms :: int
  started_ms :: int
  finished_ms :: int
  references :: "32 word"
  completed :: bool
  borrowed :: bool
  cancel_flag :: bool
  timed_out :: bool
  status :: task_status
  execution_failed :: bool
  attachments_json :: "cstr option"
  llm_config :: "cstr option"
  acceptance_json :: "cstr option"
  workspace :: "cstr option"
  stream_preview :: bool
  permission_mode :: int
  preview_cap :: nat
  t_input :: "cstr option"
  t_output :: "cstr option"
  progress_json :: "cstr option"
  trace_json :: "json list option"
  pending_input :: "cstr option"
  updates_closed :: bool
  update_count :: nat
  tag :: "cstr option"
  thinking_mode :: bool
  coro :: bool

definition terminal :: "task_status \<Rightarrow> bool" where
  "terminal st \<longleftrightarrow> st \<in> {TS_DONE, TS_FAILED, TS_CANCELLED, TS_TIMEOUT}"

lemma terminal_iff_num: "terminal st \<longleftrightarrow> 2 \<le> ts_num st"
  by (cases st) (simp_all add: terminal_def)

text \<open>\<open>calloc\<close>: every field zero.\<close>

definition task_zero :: task where
  "task_zero = \<lparr>t_id = 0, priority = 0, timeout_ms = 0, created_ms = 0, started_ms = 0,
     finished_ms = 0, references = 0, completed = False, borrowed = False, cancel_flag = False,
     timed_out = False, status = TS_QUEUED, execution_failed = False, attachments_json = None,
     llm_config = None, acceptance_json = None, workspace = None, stream_preview = False,
     permission_mode = 0, preview_cap = 0, t_input = None, t_output = None, progress_json = None,
     trace_json = None, pending_input = None, updates_closed = False, update_count = 0, tag = None,
     thinking_mode = False, coro = False\<rparr>"

definition task_new :: "int \<Rightarrow> int \<Rightarrow> int \<Rightarrow> cstr option \<Rightarrow> int \<Rightarrow> task" where
  "task_new now tid prio inp timeout =
     task_zero\<lparr>t_id := tid, priority := prio, timeout_ms := timeout, created_ms := now,
               status := TS_QUEUED, t_input := inp\<rparr>"

section \<open>Transitions\<close>

text \<open>\<open>clock\<close> is what \<open>time_now_ms()\<close> returns when the caller passes 0.\<close>

definition task_transition :: "int \<Rightarrow> task \<Rightarrow> task_status \<Rightarrow> int \<Rightarrow> task" where
  "task_transition clock t st now_ms =
     (let now = (if now_ms = 0 then clock else now_ms);
          t1 = (if st = TS_RUNNING \<and> started_ms t = 0 then t\<lparr>started_ms := now\<rparr> else t);
          t2 = (if (st = TS_DONE \<or> st = TS_FAILED \<or> st = TS_CANCELLED \<or> st = TS_TIMEOUT)
                   \<and> finished_ms t1 = 0
                then t1\<lparr>finished_ms := now\<rparr> else t1)
      in t2\<lparr>status := st\<rparr>)"

fun task_status_name :: "task_status \<Rightarrow> cstr" where
  "task_status_name TS_QUEUED = ''queued''"
| "task_status_name TS_RUNNING = ''running''"
| "task_status_name TS_DONE = ''done''"
| "task_status_name TS_FAILED = ''failed''"
| "task_status_name TS_CANCELLED = ''cancelled''"
| "task_status_name TS_TIMEOUT = ''timeout''"

definition task_to_json :: "task \<Rightarrow> json" where
  "task_to_json t = JObj
     [(''id'', JNum (of_int (t_id t))),
      (''priority'', JNum (of_int (priority t))),
      (''status'', JStr (task_status_name (status t))),
      (''input'', JStr (nonnull_or [] (t_input t))),
      (''output'', JStr (nonnull_or [] (t_output t))),
      (''timeout_ms'', JNum (of_int (timeout_ms t)))]"

text \<open>\<open>task_should_abort\<close> (scheduler.c): cancelled, or past its deadline.\<close>

definition task_should_abort :: "int \<Rightarrow> task option \<Rightarrow> bool" where
  "task_should_abort now ot =
     (case ot of None \<Rightarrow> True
      | Some t \<Rightarrow> cancel_flag t \<or> (0 < timeout_ms t \<and> timeout_ms t < now - started_ms t))"

lemma inj_task_status_name: "task_status_name a = task_status_name b \<Longrightarrow> a = b"
  by (cases a; cases b) simp_all

text \<open>The time stamps are written once: a later transition never moves them.\<close>

lemma task_transition_stamps:
  "started_ms t \<noteq> 0 \<Longrightarrow> started_ms (task_transition c t st n) = started_ms t"
  "finished_ms t \<noteq> 0 \<Longrightarrow> finished_ms (task_transition c t st n) = finished_ms t"
  "status (task_transition c t st n) = st"
  by (auto simp: task_transition_def Let_def)

lemma task_transition_finished:
  "terminal st \<Longrightarrow> c \<noteq> 0 \<Longrightarrow> finished_ms (task_transition c t st n) \<noteq> 0"
  by (auto simp: task_transition_def Let_def terminal_def)

lemma task_transition_running:
  "c \<noteq> 0 \<Longrightarrow> started_ms (task_transition c t TS_RUNNING n) \<noteq> 0"
  by (auto simp: task_transition_def Let_def)

section \<open>The execution trace\<close>

text \<open>The metadata fields a trace event may carry, in the order of the code's table.\<close>

definition trace_names :: "cstr list" where
  "trace_names =
     [''stage'', ''activity'', ''commentary'', ''model'', ''thinking'', ''model_call'',
      ''model_failures'', ''seq'', ''tool_protocol'', ''completion_declaration'', ''elapsed_ms'',
      ''round'', ''tool_calls'', ''cur_tool'', ''llm_ms'', ''tool_ms'', ''llm_calls'',
      ''applied_updates'', ''tokens_in'', ''tokens_out'', ''tokens_reasoning'', ''usage_available'']"

definition trace_max :: nat where
  "trace_max = 128"

text \<open>One sanitised step: tool name, string target, result and duration; the image reference only
  when the step succeeded and names its attachment.\<close>

definition image_part :: "json option \<Rightarrow> json option \<Rightarrow> (cstr \<times> json) list" where
  "image_part ok preview =
     (case (json_string (json_get ''id'' preview), json_string (json_get ''session'' preview)) of
        (Some i, Some s) \<Rightarrow>
          if json_is_int 1 ok
          then [(''image_preview'', JObj ([(''id'', JStr i), (''session'', JStr s)] @
                   (case json_string (json_get ''name'' preview) of
                      None \<Rightarrow> [] | Some n \<Rightarrow> [(''name'', JStr n)])))]
          else []
      | _ \<Rightarrow> [])"

definition safe_step :: "json \<Rightarrow> json" where
  "safe_step step =
     (let j = Some step
      in JObj (json_pick [''tool''] j @
               (case json_string (json_get ''target'' j) of
                  None \<Rightarrow> [] | Some s \<Rightarrow> [(''target'', JStr s)]) @
               json_pick [''ok''] j @ json_pick [''ms''] j @
               image_part (json_get ''ok'' j) (json_get ''image_preview'' j)))"

definition trace_event :: "json \<Rightarrow> json" where
  "trace_event snapshot =
     JObj (json_pick trace_names (Some snapshot) @
           (case json_get ''steps'' (Some snapshot) of
              Some (JArr steps) \<Rightarrow> [(''steps'', JArr (map safe_step steps))]
            | _ \<Rightarrow> []))"

text \<open>
  \<open>task_trace_add\<close>: \<open>parse\<close> is \<open>cJSON_Parse\<close> and \<open>checkpoint\<close> the task's checkpoint callback.
  The oldest events are dropped while 128 are held.
\<close>

definition trace_push :: "json list \<Rightarrow> json \<Rightarrow> json list" where
  "trace_push tr ev = drop (length tr - (trace_max - 1)) tr @ [ev]"

definition task_trace_add ::
  "(cstr \<Rightarrow> json option) \<Rightarrow> (task \<Rightarrow> task) option \<Rightarrow> task \<Rightarrow> cstr option \<Rightarrow> task" where
  "task_trace_add parse checkpoint t txt =
     (case txt of None \<Rightarrow> t
      | Some s \<Rightarrow>
          (case parse s of
             Some (JObj kvs) \<Rightarrow>
               let tr = (case trace_json t of None \<Rightarrow> [] | Some tr \<Rightarrow> tr);
                   t1 = t\<lparr>trace_json := Some (trace_push tr (trace_event (JObj kvs)))\<rparr>
               in (case checkpoint of None \<Rightarrow> t1 | Some cp \<Rightarrow> cp t1)
           | _ \<Rightarrow> t))"

definition task_trace_copy :: "task \<Rightarrow> json list" where
  "task_trace_copy t = (case trace_json t of None \<Rightarrow> [] | Some tr \<Rightarrow> tr)"

definition task_set_progress ::
  "(cstr \<Rightarrow> json option) \<Rightarrow> (task \<Rightarrow> task) option \<Rightarrow> task \<Rightarrow> cstr option \<Rightarrow> task" where
  "task_set_progress parse checkpoint t txt =
     (case txt of None \<Rightarrow> t
      | Some s \<Rightarrow> task_trace_add parse checkpoint (t\<lparr>progress_json := Some s\<rparr>) txt)"

definition task_progress_copy :: "task \<Rightarrow> cstr option" where
  "task_progress_copy t = progress_json t"

lemma length_trace_push: "length tr \<le> trace_max \<Longrightarrow> length (trace_push tr ev) \<le> trace_max"
  by (simp add: trace_push_def trace_max_def)

lemma trace_push_set: "set (trace_push tr ev) \<subseteq> insert ev (set tr)"
  by (auto simp: trace_push_def dest: in_set_dropD)

definition trace_keys :: "json \<Rightarrow> cstr set" where
  "trace_keys j = (case j of JObj kvs \<Rightarrow> fst ` set kvs | _ \<Rightarrow> {})"

lemma safe_step_keys:
  "trace_keys (safe_step st) \<subseteq> {''tool'', ''target'', ''ok'', ''ms'', ''image_preview''}"
  by (auto simp: safe_step_def trace_keys_def Let_def image_part_def dest: subsetD [OF json_pick_keys, OF imageI]
      split: option.splits if_splits)

lemma trace_event_keys: "trace_keys (trace_event s) \<subseteq> insert ''steps'' (set trace_names)"
  using json_pick_keys [of trace_names "Some s"]
  by (auto simp: trace_event_def trace_keys_def split: option.splits json.splits)

lemma trace_event_steps:
  assumes "trace_event s = JObj kvs" "(''steps'', v) \<in> set kvs"
  shows "\<exists>steps. v = JArr (map safe_step steps)"
proof -
  have "(''steps'', v) \<notin> set (json_pick trace_names (Some s))"
    using json_pick_keys [of trace_names "Some s"] by (force simp: trace_names_def)
  with assms show ?thesis
    by (auto simp: trace_event_def split: option.splits json.splits)
qed

section \<open>Steering messages\<close>

text \<open>
  \<open>task_add_message\<close>, \<open>task_take_messages\<close>, \<open>task_has_messages\<close> and \<open>task_close_messages\<close>. The
  result of adding is the code's: the new revision, -1 when closed, -2 on a limit or a failed
  allocation (\<open>mem\<close>).
\<close>

definition pending_max :: nat where
  "pending_max = 16384"

definition task_add_message :: "bool \<Rightarrow> task \<Rightarrow> cstr option \<Rightarrow> int \<times> task" where
  "task_add_message mem t message =
     (case message of None \<Rightarrow> (-2, t)
      | Some m \<Rightarrow>
          if m = [] then (-2, t)
          else if updates_closed t \<or> ts_num TS_DONE \<le> ts_num (status t) \<or> cancel_flag t then (-1, t)
          else let old = (case pending_input t of None \<Rightarrow> 0 | Some p \<Rightarrow> length p)
               in if pending_max < old + length m \<or> 32 \<le> update_count t then (-2, t)
                  else if \<not> mem then (-2, t)
                  else let p = nonnull_or [] (pending_input t);
                           txt = (if old \<noteq> 0 then p @ CHR 0x0A # m else m)
                       in (int (Suc (update_count t)),
                           t\<lparr>pending_input := Some txt, update_count := Suc (update_count t)\<rparr>))"

definition task_take_messages :: "task \<Rightarrow> (cstr option \<times> nat) \<times> task" where
  "task_take_messages t = ((pending_input t, update_count t), t\<lparr>pending_input := None\<rparr>)"

definition task_has_messages :: "task \<Rightarrow> bool" where
  "task_has_messages t \<longleftrightarrow> pending_input t \<noteq> None"

definition task_close_messages :: "task \<Rightarrow> bool \<times> task" where
  "task_close_messages t =
     (let ready = (pending_input t = None)
      in (ready, if ready then t\<lparr>updates_closed := True\<rparr> else t))"

text \<open>The text handed to the runner for a batch of accepted messages: joined by newlines.\<close>

fun join_lines :: "cstr list \<Rightarrow> cstr" where
  "join_lines [] = []"
| "join_lines [m] = m"
| "join_lines (m # ms) = m @ CHR 0x0A # join_lines ms"

lemma join_lines_snoc:
  "ms \<noteq> [] \<Longrightarrow> join_lines (ms @ [m]) = join_lines ms @ CHR 0x0A # m"
  by (induction ms rule: join_lines.induct) auto

lemma join_lines_Nil_iff: "\<forall>m \<in> set ms. m \<noteq> [] \<Longrightarrow> join_lines ms = [] \<longleftrightarrow> ms = []"
  by (cases ms rule: join_lines.cases) auto

lemma task_add_message_accepted:
  assumes "task_add_message mem t msg = (r, t')" "0 < r"
  obtains m where "msg = Some m" "m \<noteq> []" "\<not> updates_closed t" "\<not> terminal (status t)"
    "\<not> cancel_flag t" "update_count t < 32" "r = int (Suc (update_count t))"
    "t' = t\<lparr>pending_input := Some (case pending_input t of None \<Rightarrow> m
              | Some p \<Rightarrow> if p = [] then m else p @ CHR 0x0A # m),
            update_count := Suc (update_count t)\<rparr>"
    "(case pending_input t of None \<Rightarrow> 0 | Some p \<Rightarrow> length p) + length m \<le> pending_max"
proof -
  obtain m where m: "msg = Some m" "m \<noteq> []"
    using assms by (auto simp: task_add_message_def split: option.splits if_splits)
  show ?thesis
    by (rule that [OF m])
       (use assms m in \<open>auto simp: task_add_message_def terminal_iff_num Let_def nonnull_or_def
          split: option.splits if_splits\<close>)
qed

lemma task_add_message_rejected:
  "task_add_message mem t msg = (r, t') \<Longrightarrow> r \<le> 0 \<Longrightarrow> t' = t"
  by (auto simp: task_add_message_def Let_def split: option.splits if_splits)

lemma task_add_message_codes:
  assumes "task_add_message mem t msg = (r, t')" "\<not> 0 < r" shows "r = -1 \<or> r = -2"
proof (cases msg)
  case None
  with assms show ?thesis by (simp add: task_add_message_def)
next
  case (Some m)
  with assms show ?thesis by (simp add: task_add_message_def Let_def split: if_split_asm)
qed

subsection \<open>Nothing accepted is lost\<close>

datatype msg_op = MAdd bool "cstr option" | MTake | MClose

text \<open>Run a sequence of operations, recording the accepted messages and the texts taken.\<close>

fun msg_run :: "msg_op list \<Rightarrow> task \<Rightarrow> cstr list \<Rightarrow> cstr list \<Rightarrow> cstr list \<times> cstr list \<times> task" where
  "msg_run [] t acc taken = (acc, taken, t)"
| "msg_run (MAdd mem m # ops) t acc taken =
     (case task_add_message mem t m of
        (r, t') \<Rightarrow> msg_run ops t' (if 0 < r then acc @ [nonnull_or [] m] else acc) taken)"
| "msg_run (MTake # ops) t acc taken =
     (case task_take_messages t of
        ((txt, _), t') \<Rightarrow>
          msg_run ops t' acc (taken @ (case txt of None \<Rightarrow> [] | Some s \<Rightarrow> [s])))"
| "msg_run (MClose # ops) t acc taken = msg_run ops (snd (task_close_messages t)) acc taken"

text \<open>
  The accepted messages split into the batches already taken and the batch still pending; the
  messages of a batch are in order and none is empty.
\<close>

definition msg_inv :: "cstr list \<Rightarrow> cstr list \<Rightarrow> task \<Rightarrow> bool" where
  "msg_inv acc taken t \<longleftrightarrow>
     (\<exists>batches pend. acc = concat batches @ pend \<and> taken = map join_lines batches \<and>
        (\<forall>b \<in> set batches. b \<noteq> []) \<and> (\<forall>m \<in> set acc. m \<noteq> []) \<and>
        pending_input t = (if pend = [] then None else Some (join_lines pend)))"

lemma msg_inv_pending_cong:
  "pending_input t' = pending_input t \<Longrightarrow> msg_inv acc taken t' = msg_inv acc taken t"
  by (simp add: msg_inv_def)

lemma msg_inv_add:
  assumes i: "msg_inv acc taken t" and a: "task_add_message mem t msg = (r, t')" and r: "0 < r"
  shows "msg_inv (acc @ [nonnull_or [] msg]) taken t'"
proof -
  from i obtain batches pend where b: "acc = concat batches @ pend" "taken = map join_lines batches"
      "\<forall>b \<in> set batches. b \<noteq> []" "\<forall>m \<in> set acc. m \<noteq> []"
      "pending_input t = (if pend = [] then None else Some (join_lines pend))"
    by (auto simp: msg_inv_def)
  from a r obtain m where m: "msg = Some m" "m \<noteq> []"
      "t' = t\<lparr>pending_input := Some (case pending_input t of None \<Rightarrow> m
              | Some p \<Rightarrow> if p = [] then m else p @ CHR 0x0A # m),
            update_count := Suc (update_count t)\<rparr>"
    by (rule task_add_message_accepted) blast
  have "pending_input t' = Some (join_lines (pend @ [m]))"
    using b m join_lines_Nil_iff [of pend] by (auto simp: join_lines_snoc)
  then show ?thesis
    using b m by (auto simp: msg_inv_def nonnull_or_def intro!: exI [of _ batches] exI [of _ "pend @ [m]"])
qed

lemma msg_inv_take:
  assumes "msg_inv acc taken t"
  shows "msg_inv acc (taken @ (case pending_input t of None \<Rightarrow> [] | Some s \<Rightarrow> [s])) (t\<lparr>pending_input := None\<rparr>)"
proof -
  from assms obtain batches pend where b: "acc = concat batches @ pend" "taken = map join_lines batches"
      "\<forall>b \<in> set batches. b \<noteq> []" "\<forall>m \<in> set acc. m \<noteq> []"
      "pending_input t = (if pend = [] then None else Some (join_lines pend))"
    by (auto simp: msg_inv_def)
  show ?thesis
  proof (cases "pend = []")
    case True
    with b show ?thesis
      by (auto simp: msg_inv_def intro!: exI [of _ batches])
  next
    case False
    with b show ?thesis
      by (auto simp: msg_inv_def intro!: exI [of _ "batches @ [pend]"])
  qed
qed

lemma msg_inv_run:
  "msg_run ops t acc taken = (acc', taken', t') \<Longrightarrow> msg_inv acc taken t \<Longrightarrow> msg_inv acc' taken' t'"
proof (induction ops t acc taken rule: msg_run.induct)
  case (2 mem m ops t acc taken)
  obtain r t1 where a: "task_add_message mem t m = (r, t1)" by fastforce
  show ?case
  proof (cases "0 < r")
    case True
    with 2 a msg_inv_add [OF "2.prems"(2) a True] show ?thesis by simp
  next
    case False
    with a have "t1 = t" by (simp add: task_add_message_rejected)
    with 2 a False show ?thesis by simp
  qed
next
  case (3 ops t acc taken)
  then show ?case by (simp add: task_take_messages_def msg_inv_take)
next
  case (4 ops t acc taken)
  have "msg_inv acc taken (snd (task_close_messages t)) = msg_inv acc taken t"
    by (rule msg_inv_pending_cong) (simp add: task_close_messages_def Let_def)
  with 4 show ?case by simp
qed simp

section \<open>Properties\<close>

text \<open>Over any sequence of additions, takes and closes on a task that starts with no
  pending input, the texts taken are, in order, newline-joined batches of the accepted messages, and
  what is still pending is the rest of them: no accepted message is lost, repeated or reordered.\<close>

theorem task_messages_delivered:
  assumes "pending_input t = None" "msg_run ops t [] [] = (acc, taken, t')"
  shows "\<exists>batches pend. acc = concat batches @ pend \<and> taken = map join_lines batches \<and>
           (\<forall>b \<in> set batches. b \<noteq> []) \<and>
           pending_input t' = (if pend = [] then None else Some (join_lines pend))"
proof -
  have "msg_inv [] [] t" using assms(1) by (auto simp: msg_inv_def intro!: exI [of _ "[]"])
  from msg_inv_run [OF assms(2) this] show ?thesis unfolding msg_inv_def by blast
qed

definition demo_msgs :: "msg_op list" where
  "demo_msgs = [MAdd True (Some ''ab''), MAdd True (Some ''c''), MAdd True None, MTake, MAdd True (Some ''d'')]"

lemma task_messages_delivered_witness:
  "\<exists>batches pend. [''ab'', ''c'', ''d''] = concat batches @ pend \<and>
     [''ab'' @ CHR 0x0A # ''c''] = map join_lines batches \<and>
     Some ''d'' = (if pend = [] then None else Some (join_lines pend))"
proof -
  let ?t = "task_zero\<lparr>pending_input := Some ''d'', update_count := 3\<rparr>"
  have r: "msg_run demo_msgs task_zero [] [] =
        ([''ab'', ''c'', ''d''], [''ab'' @ CHR 0x0A # ''c''], ?t)"
    by (simp add: demo_msgs_def task_add_message_def task_take_messages_def task_zero_def pending_max_def
        nonnull_or_def)
  have z: "pending_input task_zero = None" by (simp add: task_zero_def)
  have p: "pending_input ?t = Some ''d''" by simp
  from task_messages_delivered [OF z r] obtain batches pend where
    "[''ab'', ''c'', ''d''] = concat batches @ pend" "[''ab'' @ CHR 0x0A # ''c''] = map join_lines batches"
    "Some ''d'' = (if pend = [] then None else Some (join_lines pend))"
    unfolding p by (elim exE conjE)
  then show ?thesis by (intro exI [of _ batches] exI [of _ pend] conjI)
qed

text \<open>A message is accepted only for an open, unfinished, uncancelled task, at most 32
  times, with its revision as the answer; a refused one leaves the task as it was. The pending text
  is never longer than 16384 characters and one newline.\<close>

theorem task_message_limits:
  assumes "task_add_message mem t msg = (r, t')"
  shows "(0 < r \<longrightarrow> \<not> updates_closed t \<and> \<not> terminal (status t) \<and> \<not> cancel_flag t \<and> r \<le> 32 \<and>
            r = int (update_count t') \<and> update_count t' = Suc (update_count t) \<and>
            (\<exists>p. pending_input t' = Some p \<and> length p \<le> pending_max + 1)) \<and>
         (\<not> 0 < r \<longrightarrow> t' = t \<and> (r = -1 \<or> r = -2))"
proof (cases "0 < r")
  case True
  from assms True obtain m where m: "msg = Some m" "m \<noteq> []" "\<not> updates_closed t" "\<not> terminal (status t)"
    "\<not> cancel_flag t" "update_count t < 32" "r = int (Suc (update_count t))"
    "t' = t\<lparr>pending_input := Some (case pending_input t of None \<Rightarrow> m
              | Some p \<Rightarrow> if p = [] then m else p @ CHR 0x0A # m),
            update_count := Suc (update_count t)\<rparr>"
    "(case pending_input t of None \<Rightarrow> 0 | Some p \<Rightarrow> length p) + length m \<le> pending_max"
    by (rule task_add_message_accepted)
  from m(8,9) have p: "\<exists>p. pending_input t' = Some p \<and> length p \<le> pending_max + 1"
    by (cases "pending_input t") auto
  have "update_count t' = Suc (update_count t)" using m(8) by simp
  with m(3-7) p True show ?thesis by simp
next
  case False
  then show ?thesis
    using task_add_message_rejected [OF assms] task_add_message_codes [OF assms] by simp
qed

lemma task_message_limits_witness:
  "\<exists>p. pending_input (snd (task_add_message True task_zero (Some ''go''))) = Some p \<and>
       length p \<le> pending_max + 1"
proof -
  have r: "0 < fst (task_add_message True task_zero (Some ''go''))"
    by (simp add: task_add_message_def task_zero_def pending_max_def)
  show ?thesis
    using task_message_limits [OF prod.collapse [symmetric], of True task_zero "Some ''go''"] r by blast
qed

text \<open>A trace event kept by \<open>task_trace_add\<close> carries only the allowed metadata fields, its
  steps only tool, target, result, duration and the image reference; and the trace of a task never
  holds more than 128 events.\<close>

theorem task_trace_sanitised:
  assumes "length (task_trace_copy t) \<le> trace_max"
    and "task_trace_add parse None t txt = t'"
  shows "length (task_trace_copy t') \<le> trace_max \<and>
    (\<forall>ev \<in> set (task_trace_copy t') - set (task_trace_copy t).
       trace_keys ev \<subseteq> insert ''steps'' (set trace_names) \<and>
       (\<forall>kvs steps. ev = JObj kvs \<and> (''steps'', JArr steps) \<in> set kvs \<longrightarrow>
          (\<forall>st \<in> set steps. trace_keys st \<subseteq> {''tool'', ''target'', ''ok'', ''ms'', ''image_preview''})))"
proof (cases "t' = t")
  case True
  with assms(1) show ?thesis by simp
next
  case False
  with assms(2) obtain kvs where
    t': "task_trace_copy t' = trace_push (task_trace_copy t) (trace_event (JObj kvs))"
    by (auto simp: task_trace_add_def task_trace_copy_def Let_def split: option.splits json.splits)
  have "trace_event (JObj kvs) = JObj e \<Longrightarrow> (''steps'', JArr steps) \<in> set e \<Longrightarrow> st \<in> set steps \<Longrightarrow>
      trace_keys st \<subseteq> {''tool'', ''target'', ''ok'', ''ms'', ''image_preview''}" for e steps st
  proof -
    assume "trace_event (JObj kvs) = JObj e" "(''steps'', JArr steps) \<in> set e" and st: "st \<in> set steps"
    then obtain raw where "steps = map safe_step raw"
      using trace_event_steps [of "JObj kvs" e "JArr steps"] by blast
    with st obtain r where "st = safe_step r" by auto
    then show ?thesis using safe_step_keys [of r] by (simp only:)
  qed
  note steps = this
  have new: "ev = trace_event (JObj kvs)" if "ev \<in> set (task_trace_copy t') - set (task_trace_copy t)" for ev
    using that t' trace_push_set [of "task_trace_copy t" "trace_event (JObj kvs)"] by auto
  have len: "length (task_trace_copy t') \<le> trace_max"
    unfolding t' by (rule length_trace_push [OF assms(1)])
  show ?thesis
  proof (intro conjI ballI allI impI len)
    fix ev assume ev: "ev \<in> set (task_trace_copy t') - set (task_trace_copy t)"
    show "trace_keys ev \<subseteq> insert ''steps'' (set trace_names)"
      unfolding new [OF ev] by (rule trace_event_keys)
    fix kv ss st
    assume "ev = JObj kv \<and> (''steps'', JArr ss) \<in> set kv" "st \<in> set ss"
    with new [OF ev] steps [of kv ss st]
    show "trace_keys st \<subseteq> {''tool'', ''target'', ''ok'', ''ms'', ''image_preview''}" by metis
  qed
qed

definition demo_event :: json where
  "demo_event = JObj [(''stage'', JStr ''run''), (''secret'', JStr ''x''),
     (''steps'', JArr [JObj [(''tool'', JStr ''fs.read''), (''args'', JStr ''y'')]])]"

lemma task_trace_sanitised_witness:
  "length (task_trace_copy (task_trace_add (\<lambda>_. Some demo_event) None task_zero (Some ''e''))) \<le> trace_max"
  using task_trace_sanitised [of task_zero "\<lambda>_. Some demo_event" "Some ''e''", OF _ refl]
  by (simp add: task_trace_copy_def task_zero_def)

end
