(* ===== verification/Scheduler.thy ===== *)
theory Scheduler
  imports ReadyQueue TaskModel
begin

text \<open>
  The priority scheduler of \<open>src/backend/src/runtime/scheduler.c\<close>: admission, the ready queue, the
  worker loop cut at its critical sections, completion, the retained history and its pruning, and
  the lookup by binary search.

  A task pointer held by a queue or a worker is the task's id. A worker is its slot: the list of
  continuations that yielded on it (\<open>yield_head .. yield_tail\<close>) and where its loop stands
  (\<open>wphase\<close>): waiting for work, running a coroutine outside the lock, between finalization and the
  end of the completion callback, or exited. \<open>task_bytes\<close> depends on \<open>sizeof(task)\<close> and on the length
  of the printed trace, both parameters (\<open>tb\<close>). \<open>size_t\<close> counters are \<open>nat\<close>; nothing in this file
  comes near their width. Resources that the code frees or signals (condition variables, threads)
  carry no state here.
\<close>

section \<open>State\<close>

datatype wphase = W_idle | W_run int | W_done int | W_exited

record wslot =
  yields :: "int list"
  phase :: wphase

record sched =
  exited :: nat
  history_count :: nat
  history_bytes :: nat
  max_workers :: nat
  max_active :: int
  rejected :: "64 word"
  queue :: "tref list"
  all_tasks :: "task list"
  shutdown_flag :: bool
  active :: int
  completing :: int
  next_id :: int
  slots :: "wslot list"

abbreviation workers :: "sched \<Rightarrow> nat" where
  "workers s \<equiv> length (slots s)"

definition SCHEDULER_FULL :: int where
  "SCHEDULER_FULL = -2"

definition new_slot :: wslot where
  "new_slot = \<lparr>yields = [], phase = W_idle\<rparr>"

text \<open>\<open>scheduler_new_limited\<close>; a failed allocation or thread creation (\<open>ok = False\<close>) gives NULL.\<close>

definition scheduler_new_limited :: "bool \<Rightarrow> int \<Rightarrow> int \<Rightarrow> int \<Rightarrow> sched option" where
  "scheduler_new_limited ok ws max_ws max_act =
     (if ws < 1 \<or> max_ws < ws \<or> 256 < max_ws \<or> max_act < 0 then None
      else if \<not> ok then None
      else Some \<lparr>exited = 0, history_count = 0, history_bytes = 0, max_workers = nat max_ws,
                 max_active = max_act, rejected = 0, queue = [], all_tasks = [],
                 shutdown_flag = False, active = 0, completing = 0, next_id = 0,
                 slots = replicate (nat ws) new_slot\<rparr>)"

definition scheduler_new :: "bool \<Rightarrow> int \<Rightarrow> sched option" where
  "scheduler_new ok ws =
     (let w = (if ws < 1 then 1 else ws)
      in scheduler_new_limited ok w (if 32 \<le> w then w else 32) 0)"

section \<open>Retained history\<close>

definition opt_len :: "cstr option \<Rightarrow> nat" where
  "opt_len p = (case p of None \<Rightarrow> 0 | Some s \<Rightarrow> length s)"

text \<open>\<open>task_bytes\<close>; \<open>sz\<close> is \<open>sizeof(task)\<close> and \<open>print\<close> the JSON printer.\<close>

definition task_bytes :: "nat \<Rightarrow> (json \<Rightarrow> cstr) \<Rightarrow> task \<Rightarrow> nat" where
  "task_bytes sz print t =
     sz + opt_len (acceptance_json t) + opt_len (llm_config t) + opt_len (workspace t)
        + opt_len (attachments_json t) + opt_len (t_input t) + opt_len (tag t)
        + (if completed t then opt_len (t_output t) else 0)
        + preview_cap t + opt_len (progress_json t)
        + (case trace_json t of None \<Rightarrow> 0 | Some tr \<Rightarrow> length (print (JArr tr)))"

definition pinned :: "task \<Rightarrow> bool" where
  "pinned t \<longleftrightarrow> references t \<noteq> 0 \<or> borrowed t"

definition within_history :: "sched \<Rightarrow> nat \<Rightarrow> nat \<Rightarrow> bool" where
  "within_history s n bytes \<longleftrightarrow>
     (history_count s = 0 \<or> n \<le> history_count s) \<and>
     (history_bytes s = 0 \<or> bytes \<le> history_bytes s)"

fun prune_loop :: "(task \<Rightarrow> nat) \<Rightarrow> sched \<Rightarrow> nat \<Rightarrow> nat \<Rightarrow> task list \<Rightarrow> task list" where
  "prune_loop tb s n bytes [] = []"
| "prune_loop tb s n bytes (t # ts) =
     (if within_history s n bytes then t # ts
      else if \<not> completed t \<or> references t \<noteq> 0 \<or> borrowed t
        then t # prune_loop tb s n bytes ts
      else prune_loop tb s (n - 1) (bytes - tb t) ts)"

definition retained :: "task list \<Rightarrow> task list" where
  "retained ts = filter completed ts"

definition retained_bytes :: "(task \<Rightarrow> nat) \<Rightarrow> task list \<Rightarrow> nat" where
  "retained_bytes tb ts = sum_list (map tb (retained ts))"

definition prune_history :: "(task \<Rightarrow> nat) \<Rightarrow> sched \<Rightarrow> sched" where
  "prune_history tb s =
     s\<lparr>all_tasks := prune_loop tb s (length (retained (all_tasks s)))
                      (retained_bytes tb (all_tasks s)) (all_tasks s)\<rparr>"

section \<open>Submission\<close>

record submit_req =
  rq_priority :: int
  rq_input :: "cstr option"
  rq_timeout_ms :: int
  rq_tag :: "cstr option"
  rq_thinking_mode :: int
  rq_attachments :: "cstr option"
  rq_workspace :: "cstr option"
  rq_stream_preview :: bool
  rq_permission_mode :: int
  rq_llm_config :: "cstr option"
  rq_acceptance :: "cstr option"

text \<open>Which allocations of a submission succeed: the task and its mutex, the string copies, the
  growth of the index and of the queue.\<close>

record submit_mem =
  ok_task :: bool
  ok_dup :: bool
  ok_all :: bool
  ok_queue :: bool

definition submitted_task :: "int \<Rightarrow> int \<Rightarrow> submit_req \<Rightarrow> task" where
  "submitted_task now i r =
     task_zero\<lparr>t_id := i, priority := rq_priority r, timeout_ms := rq_timeout_ms r,
       created_ms := now, status := TS_QUEUED, t_input := Some (nonnull_or [] (rq_input r)),
       tag := rq_tag r, attachments_json := rq_attachments r, workspace := rq_workspace r,
       llm_config := rq_llm_config r, acceptance_json := rq_acceptance r,
       stream_preview := rq_stream_preview r, permission_mode := rq_permission_mode r,
       thinking_mode := rq_thinking_mode r \<noteq> 0\<rparr>"

text \<open>\<open>while (active > workers && workers < max_workers) { thread_create ... }\<close>; \<open>n\<close> bounds how many
  thread creations succeed before one fails.\<close>

fun spawn_workers :: "nat \<Rightarrow> sched \<Rightarrow> sched" where
  "spawn_workers 0 s = s"
| "spawn_workers (Suc n) s =
     (if int (workers s) < active s \<and> workers s < max_workers s
      then spawn_workers n (s\<lparr>slots := slots s @ [new_slot]\<rparr>) else s)"

definition scheduler_submit_configured_acceptance ::
  "submit_mem \<Rightarrow> int \<Rightarrow> nat \<Rightarrow> sched \<Rightarrow> submit_req \<Rightarrow> int \<times> sched" where
  "scheduler_submit_configured_acceptance mem now threads s r =
     (if rq_permission_mode r < 0 \<or> 2 < rq_permission_mode r then (-1, s)
      else if \<not> ok_task mem then (-1, s)
      else if shutdown_flag s then (-1, s)
      else if 0 < max_active s \<and> max_active s \<le> active s
        then (SCHEDULER_FULL, s\<lparr>rejected := rejected s + 1\<rparr>)
      else let t = submitted_task now (next_id s) r
           in if \<not> ok_dup mem \<or> \<not> ok_all mem then (-1, s)
              else let s1 = s\<lparr>all_tasks := all_tasks s @ [t]\<rparr>
                   in if \<not> ok_queue mem
                      then (-1, s1\<lparr>all_tasks := take (length (all_tasks s1) - 1) (all_tasks s1)\<rparr>)
                      else (t_id t,
                            spawn_workers threads
                              (s1\<lparr>queue := queue_insert (queue s1) (TRef (priority t) (t_id t)),
                                  next_id := next_id s1 + 1, active := active s1 + 1\<rparr>)))"

text \<open>The wrappers, each of which fills in one more default.\<close>

definition scheduler_submit_configured ::
  "submit_mem \<Rightarrow> int \<Rightarrow> nat \<Rightarrow> sched \<Rightarrow> submit_req \<Rightarrow> int \<times> sched" where
  "scheduler_submit_configured mem now th s r =
     scheduler_submit_configured_acceptance mem now th s (r\<lparr>rq_acceptance := None\<rparr>)"

definition scheduler_submit_access ::
  "submit_mem \<Rightarrow> int \<Rightarrow> nat \<Rightarrow> sched \<Rightarrow> submit_req \<Rightarrow> int \<times> sched" where
  "scheduler_submit_access mem now th s r =
     scheduler_submit_configured mem now th s (r\<lparr>rq_llm_config := None\<rparr>)"

definition scheduler_submit_preview ::
  "submit_mem \<Rightarrow> int \<Rightarrow> nat \<Rightarrow> sched \<Rightarrow> submit_req \<Rightarrow> int \<times> sched" where
  "scheduler_submit_preview mem now th s r =
     scheduler_submit_access mem now th s (r\<lparr>rq_permission_mode := 0\<rparr>)"

definition scheduler_submit_workspace ::
  "submit_mem \<Rightarrow> int \<Rightarrow> nat \<Rightarrow> sched \<Rightarrow> submit_req \<Rightarrow> int \<times> sched" where
  "scheduler_submit_workspace mem now th s r =
     scheduler_submit_preview mem now th s (r\<lparr>rq_stream_preview := False\<rparr>)"

definition scheduler_submit_attachments ::
  "submit_mem \<Rightarrow> int \<Rightarrow> nat \<Rightarrow> sched \<Rightarrow> submit_req \<Rightarrow> int \<times> sched" where
  "scheduler_submit_attachments mem now th s r =
     scheduler_submit_workspace mem now th s (r\<lparr>rq_workspace := None\<rparr>)"

definition scheduler_submit_tag_mode ::
  "submit_mem \<Rightarrow> int \<Rightarrow> nat \<Rightarrow> sched \<Rightarrow> submit_req \<Rightarrow> int \<times> sched" where
  "scheduler_submit_tag_mode mem now th s r =
     scheduler_submit_attachments mem now th s (r\<lparr>rq_attachments := None\<rparr>)"

definition scheduler_submit_tag ::
  "submit_mem \<Rightarrow> int \<Rightarrow> nat \<Rightarrow> sched \<Rightarrow> int \<Rightarrow> cstr option \<Rightarrow> int \<Rightarrow> cstr option \<Rightarrow> int \<times> sched" where
  "scheduler_submit_tag mem now th s prio inp timeout tg =
     scheduler_submit_tag_mode mem now th s
       \<lparr>rq_priority = prio, rq_input = inp, rq_timeout_ms = timeout, rq_tag = tg,
        rq_thinking_mode = 0, rq_attachments = None, rq_workspace = None,
        rq_stream_preview = False, rq_permission_mode = 0, rq_llm_config = None,
        rq_acceptance = None\<rparr>"

definition scheduler_submit ::
  "submit_mem \<Rightarrow> int \<Rightarrow> nat \<Rightarrow> sched \<Rightarrow> int \<Rightarrow> cstr option \<Rightarrow> int \<Rightarrow> int \<times> sched" where
  "scheduler_submit mem now th s prio inp timeout = scheduler_submit_tag mem now th s prio inp timeout None"

lemmas submit_defs = scheduler_submit_def scheduler_submit_tag_def scheduler_submit_tag_mode_def
  scheduler_submit_attachments_def scheduler_submit_workspace_def scheduler_submit_preview_def
  scheduler_submit_access_def scheduler_submit_configured_def

section \<open>The worker loop\<close>

definition update_task :: "int \<Rightarrow> (task \<Rightarrow> task) \<Rightarrow> sched \<Rightarrow> sched" where
  "update_task i f s = s\<lparr>all_tasks := map (\<lambda>t. if t_id t = i then f t else t) (all_tasks s)\<rparr>"

definition set_slot :: "nat \<Rightarrow> wslot \<Rightarrow> sched \<Rightarrow> sched" where
  "set_slot k w s = s\<lparr>slots := (slots s)[k := w]\<rparr>"

text \<open>First run of a task: start stamp, coroutine and status.\<close>

definition begin_task :: "int \<Rightarrow> bool \<Rightarrow> task \<Rightarrow> task" where
  "begin_task now coro_ok t =
     (if coro t then t
      else t\<lparr>started_ms := now, coro := coro_ok,
             status := (if coro_ok then TS_RUNNING else TS_FAILED)\<rparr>)"

text \<open>
  First critical section of the loop: exit on shutdown with nothing left, otherwise take the
  continuation that yielded first on this worker, else the best ready task. \<open>None\<close> means the worker
  waits on \<open>not_empty\<close>.
\<close>

definition worker_pick :: "int \<Rightarrow> bool \<Rightarrow> nat \<Rightarrow> sched \<Rightarrow> sched option" where
  "worker_pick now coro_ok k s =
     (let w = slots s ! k
      in if phase w \<noteq> W_idle then None else case yields w of
           i # is \<Rightarrow>
             Some (update_task i (begin_task now coro_ok)
                     (set_slot k (w\<lparr>yields := is, phase := W_run i\<rparr>) s))
         | [] \<Rightarrow>
             (case queue_pop (queue s) of
                None \<Rightarrow> if shutdown_flag s
                        then Some (set_slot k (w\<lparr>phase := W_exited\<rparr>) (s\<lparr>exited := exited s + 1\<rparr>))
                        else None
              | Some (r, q') \<Rightarrow>
                  Some (update_task (ref_id r) (begin_task now coro_ok)
                          (set_slot k (w\<lparr>phase := W_run (ref_id r)\<rparr>) (s\<lparr>queue := q'\<rparr>)))))"

definition final_status :: "task \<Rightarrow> task_status" where
  "final_status t =
     (if timed_out t then TS_TIMEOUT
      else if cancel_flag t then TS_CANCELLED
      else if execution_failed t then TS_FAILED
      else if status t = TS_RUNNING then TS_DONE
      else status t)"

definition finalize_task :: "int \<Rightarrow> int \<Rightarrow> sched \<Rightarrow> sched" where
  "finalize_task now i s =
     (update_task i (\<lambda>t. t\<lparr>finished_ms := now, status := final_status t\<rparr>) s)
       \<lparr>active := active s - 1\<rparr>"

definition lookup_task :: "int \<Rightarrow> sched \<Rightarrow> task option" where
  "lookup_task i s = find (\<lambda>t. t_id t = i) (all_tasks s)"

text \<open>
  Second critical section, after \<open>coro_resume\<close> returned; \<open>finished\<close> is \<open>coro_done\<close>. A finished task is
  finalized and leaves the active n, a yielding one goes to the end of this worker's list.
\<close>

definition worker_after :: "int \<Rightarrow> bool \<Rightarrow> nat \<Rightarrow> sched \<Rightarrow> sched option" where
  "worker_after now finished k s =
     (let w = slots s ! k
      in case phase w of
           W_run i \<Rightarrow>
             (case lookup_task i s of
                None \<Rightarrow> None
              | Some t \<Rightarrow>
                  if \<not> coro t \<or> finished
                  then Some (set_slot k (w\<lparr>phase := W_done i\<rparr>)
                         (update_task i (\<lambda>t. t\<lparr>coro := False\<rparr>)
                           (finalize_task now i (s\<lparr>completing := completing s + 1\<rparr>))))
                  else Some (set_slot k (w\<lparr>yields := yields w @ [i], phase := W_idle\<rparr>) s))
         | _ \<Rightarrow> None)"

text \<open>Third critical section, after the completion callback: the task becomes reclaimable.\<close>

definition worker_complete :: "(task \<Rightarrow> nat) \<Rightarrow> nat \<Rightarrow> sched \<Rightarrow> sched option" where
  "worker_complete tb k s =
     (let w = slots s ! k
      in case phase w of
           W_done i \<Rightarrow>
             let s1 = prune_history tb
                        (update_task i (\<lambda>t. t\<lparr>attachments_json := None, completed := True\<rparr>) s)
             in Some (set_slot k (w\<lparr>phase := W_idle\<rparr>) (s1\<lparr>completing := completing s1 - 1\<rparr>))
         | _ \<Rightarrow> None)"

section \<open>Lookup and references\<close>

text \<open>\<open>find_task\<close>: the binary search for the first id not below \<open>i\<close>.\<close>

function lower_bound :: "task list \<Rightarrow> int \<Rightarrow> nat \<Rightarrow> nat \<Rightarrow> nat" where
  "lower_bound ts i lo hi =
     (if lo < hi
      then let mid = lo + (hi - lo) div 2
           in if t_id (ts ! mid) < i then lower_bound ts i (mid + 1) hi else lower_bound ts i lo mid
      else lo)"
  by pat_completeness auto
termination
  by (relation "measure (\<lambda>(ts, i, lo, hi). hi - lo)") auto

declare lower_bound.simps [simp del]

definition find_task :: "sched \<Rightarrow> int \<Rightarrow> nat option" where
  "find_task s i =
     (let lo = lower_bound (all_tasks s) i 0 (length (all_tasks s))
      in if lo < length (all_tasks s) \<and> t_id (all_tasks s ! lo) = i then Some lo else None)"

definition scheduler_get :: "sched \<Rightarrow> int \<Rightarrow> task option \<times> sched" where
  "scheduler_get s i =
     (case find_task s i of None \<Rightarrow> (None, s)
      | Some k \<Rightarrow> let t = (all_tasks s ! k)\<lparr>borrowed := True\<rparr>
                  in (Some t, s\<lparr>all_tasks := (all_tasks s)[k := t]\<rparr>))"

definition scheduler_acquire :: "sched \<Rightarrow> int \<Rightarrow> task option \<times> sched" where
  "scheduler_acquire s i =
     (case find_task s i of None \<Rightarrow> (None, s)
      | Some k \<Rightarrow> let t = (all_tasks s ! k)\<lparr>references := references (all_tasks s ! k) + 1\<rparr>
                  in (Some t, s\<lparr>all_tasks := (all_tasks s)[k := t]\<rparr>))"

definition scheduler_release :: "(task \<Rightarrow> nat) \<Rightarrow> sched \<Rightarrow> int option \<Rightarrow> sched" where
  "scheduler_release tb s oi =
     (case oi of None \<Rightarrow> s
      | Some i \<Rightarrow>
          prune_history tb
            (update_task i (\<lambda>t. if references t \<noteq> 0 then t\<lparr>references := references t - 1\<rparr> else t) s))"

definition scheduler_set_history_limits :: "(task \<Rightarrow> nat) \<Rightarrow> sched \<Rightarrow> nat \<Rightarrow> nat \<Rightarrow> sched" where
  "scheduler_set_history_limits tb s n bytes =
     prune_history tb (s\<lparr>history_count := n, history_bytes := bytes\<rparr>)"

definition scheduler_total :: "sched \<Rightarrow> nat" where
  "scheduler_total s = length (all_tasks s)"

definition scheduler_ensure_next_id :: "sched \<Rightarrow> int \<Rightarrow> sched" where
  "scheduler_ensure_next_id s n =
     (if n < 0 then s else if next_id s < n then s\<lparr>next_id := n\<rparr> else s)"

definition scheduler_shutdown_request :: "sched \<Rightarrow> sched" where
  "scheduler_shutdown_request s = s\<lparr>shutdown_flag := True\<rparr>"

text \<open>The conditions the waiting loops of \<open>scheduler_wait_idle\<close> and \<open>scheduler_shutdown\<close> leave on.\<close>

definition scheduler_idle :: "sched \<Rightarrow> bool" where
  "scheduler_idle s \<longleftrightarrow> \<not> (0 < active s \<or> 0 < completing s)"

definition scheduler_stopped :: "sched \<Rightarrow> bool" where
  "scheduler_stopped s \<longleftrightarrow> \<not> exited s < workers s"

record sched_stats =
  st_workers :: nat
  st_max_workers :: nat
  st_active :: int
  st_max_active :: int
  st_queued :: nat
  st_retained :: nat
  st_retained_bytes :: nat
  st_history_count :: nat
  st_history_bytes :: nat
  st_rejected :: "64 word"

definition scheduler_get_stats :: "(task \<Rightarrow> nat) \<Rightarrow> sched \<Rightarrow> sched_stats" where
  "scheduler_get_stats tb s =
     \<lparr>st_workers = workers s, st_max_workers = max_workers s, st_active = active s,
      st_max_active = max_active s, st_queued = length (queue s),
      st_retained = length (retained (all_tasks s)),
      st_retained_bytes = retained_bytes tb (all_tasks s),
      st_history_count = history_count s, st_history_bytes = history_bytes s,
      st_rejected = rejected s\<rparr>"

end
