(* ===== verification/SchedulerInv.thy ===== *)
theory SchedulerInv
  imports Scheduler
begin

text \<open>
  What the scheduler keeps true. Every task that is not completed is owned exactly once: by the
  ready queue, by the list of continuations of one worker, by the worker running it, or by the
  worker finishing it; \<open>active\<close> counts the first three and \<open>completing\<close> the last. So no task pointer
  held by a queue or worker is ever freed by the pruning of the history, no task runs on two
  workers, and the scheduler is idle exactly when every task it still knows is completed.
\<close>

section \<open>Pruning\<close>

lemma prune_loop_subset: "set (prune_loop tb s n b ts) \<subseteq> set ts"
  by (induction tb s n b ts rule: prune_loop.induct) auto

lemma prune_loop_sorted:
  "sorted_wrt (<) (map t_id ts) \<Longrightarrow> sorted_wrt (<) (map t_id (prune_loop tb s n b ts))"
proof (induction tb s n b ts rule: prune_loop.induct)
  case (2 tb s n b t ts)
  then show ?case using prune_loop_subset [of tb s n b ts] by auto
qed simp

text \<open>What pruning removes is completed and not referenced.\<close>

lemma prune_loop_keeps:
  "t \<in> set ts \<Longrightarrow> \<not> completed t \<or> pinned t \<Longrightarrow> t \<in> set (prune_loop tb s n b ts)"
  by (induction tb s n b ts rule: prune_loop.induct) (auto simp: pinned_def)

lemma prune_loop_incomplete:
  "filter (\<lambda>t. \<not> completed t) (prune_loop tb s n b ts) = filter (\<lambda>t. \<not> completed t) ts"
  by (induction tb s n b ts rule: prune_loop.induct) auto

text \<open>Started with the totals of the list, the loop ends within the limits, or with nothing left that
  it may remove.\<close>

lemma prune_loop_limits:
  assumes "n = m + length (retained ts)" "b = c + retained_bytes tb ts"
  shows "let r = prune_loop tb s n b ts in
           within_history s (m + length (retained r)) (c + retained_bytes tb r) \<or>
           (\<forall>t \<in> set r. completed t \<longrightarrow> pinned t)"
  using assms
proof (induction ts arbitrary: n b m c)
  case Nil
  then show ?case by simp
next
  case (Cons t ts)
  note ih = Cons.IH
  show ?case
  proof (cases "within_history s n b")
    case True
    with Cons.prems show ?thesis by (simp add: Let_def)
  next
    case over: False
    show ?thesis
    proof (cases "\<not> completed t \<or> references t \<noteq> 0 \<or> borrowed t")
      case True
      show ?thesis
      proof (cases "completed t")
        case True
        with Cons.prems ih [of n "m + 1" b "c + tb t"] over \<open>\<not> completed t \<or> _\<close>
        show ?thesis by (auto simp: Let_def retained_def retained_bytes_def pinned_def add_ac)
      next
        case False
        with Cons.prems ih [of n m b c] over show ?thesis
          by (auto simp: Let_def retained_def retained_bytes_def)
      qed
    next
      case False
      with Cons.prems ih [of "n - 1" m "b - tb t" c] over show ?thesis
        by (auto simp: Let_def retained_def retained_bytes_def)
    qed
  qed
qed

text \<open>The loop reads nothing of the state but the limits.\<close>

lemma prune_loop_state:
  "history_count s = history_count s' \<Longrightarrow> history_bytes s = history_bytes s' \<Longrightarrow>
   prune_loop tb s n b ts = prune_loop tb s' n b ts"
  by (induction tb s n b ts rule: prune_loop.induct) (simp_all add: within_history_def)

lemma prune_loop_frame [simp]:
  "prune_loop tb (s\<lparr>all_tasks := u\<rparr>) n b ts = prune_loop tb s n b ts"
  "prune_loop tb (s\<lparr>completing := c\<rparr>) n b ts = prune_loop tb s n b ts"
  "prune_loop tb (s\<lparr>slots := w\<rparr>) n b ts = prune_loop tb s n b ts"
  by (rule prune_loop_state; simp)+

lemma prune_history_simps [simp]:
  "queue (prune_history tb s) = queue s" "slots (prune_history tb s) = slots s"
  "active (prune_history tb s) = active s" "completing (prune_history tb s) = completing s"
  "next_id (prune_history tb s) = next_id s" "exited (prune_history tb s) = exited s"
  "shutdown_flag (prune_history tb s) = shutdown_flag s"
  "max_active (prune_history tb s) = max_active s" "max_workers (prune_history tb s) = max_workers s"
  by (simp_all add: prune_history_def)

section \<open>Lookup\<close>

lemma lower_bound_spec:
  assumes "sorted_wrt (<) (map t_id ts)" "lo \<le> hi" "hi \<le> length ts"
    "\<forall>k < lo. t_id (ts ! k) < i" "\<forall>k. hi \<le> k \<longrightarrow> k < length ts \<longrightarrow> i \<le> t_id (ts ! k)"
  shows "lower_bound ts i lo hi \<le> length ts \<and>
         (\<forall>k < lower_bound ts i lo hi. t_id (ts ! k) < i) \<and>
         (\<forall>k. lower_bound ts i lo hi \<le> k \<longrightarrow> k < length ts \<longrightarrow> i \<le> t_id (ts ! k))"
  using assms
proof (induction ts i lo hi rule: lower_bound.induct)
  case (1 ts i lo hi)
  let ?P = "\<lambda>r. r \<le> length ts \<and> (\<forall>k < r. t_id (ts ! k) < i) \<and>
         (\<forall>k. r \<le> k \<longrightarrow> k < length ts \<longrightarrow> i \<le> t_id (ts ! k))"
  have mono: "j \<le> k \<Longrightarrow> k < length ts \<Longrightarrow> t_id (ts ! j) \<le> t_id (ts ! k)" for j k
    using "1.prems"(1) by (cases "j = k") (auto simp: sorted_wrt_iff_nth_less less_imp_le)
  show ?case
  proof (cases "lo < hi")
    case True
    let ?mid = "lo + (hi - lo) div 2"
    have mid: "?mid < hi" "lo \<le> ?mid" "?mid < length ts" using True "1.prems"(3) by auto
    show ?thesis
    proof (cases "t_id (ts ! ?mid) < i")
      case lt: True
      have "\<forall>k < ?mid + 1. t_id (ts ! k) < i"
      proof (intro allI impI)
        fix k assume "k < ?mid + 1"
        with mono [of k ?mid] mid lt show "t_id (ts ! k) < i" by auto
      qed
      with "1.IH"(1) [OF True refl lt] "1.prems" mid
      have "?P (lower_bound ts i (?mid + 1) hi)" by simp
      moreover have "lower_bound ts i lo hi = lower_bound ts i (?mid + 1) hi"
        using True lt by (subst lower_bound.simps) (simp add: Let_def)
      ultimately show ?thesis by simp
    next
      case ge: False
      have "\<forall>k. ?mid \<le> k \<longrightarrow> k < length ts \<longrightarrow> i \<le> t_id (ts ! k)"
        using mono ge by (auto simp: not_less intro: order_trans)
      with "1.IH"(2) [OF True refl ge] "1.prems" mid
      have "?P (lower_bound ts i lo ?mid)" by simp
      moreover have "lower_bound ts i lo hi = lower_bound ts i lo ?mid"
        using True ge by (subst lower_bound.simps) (simp add: Let_def)
      ultimately show ?thesis by simp
    qed
  next
    case False
    then have "lower_bound ts i lo hi = lo" by (subst lower_bound.simps) simp
    with False "1.prems" show ?thesis by auto
  qed
qed

lemma find_task_Some:
  "find_task s i = Some k \<Longrightarrow> k < length (all_tasks s) \<and> t_id (all_tasks s ! k) = i"
  by (auto simp: find_task_def Let_def split: if_splits)

lemma find_task_complete:
  assumes srt: "sorted_wrt (<) (map t_id (all_tasks s))" and t: "t \<in> set (all_tasks s)"
  shows "\<exists>k. find_task s (t_id t) = Some k \<and> all_tasks s ! k = t"
proof -
  let ?ts = "all_tasks s" and ?lo = "lower_bound (all_tasks s) (t_id t) 0 (length (all_tasks s))"
  from t obtain k where k: "k < length ?ts" "?ts ! k = t" by (auto simp: in_set_conv_nth)
  from lower_bound_spec [of ?ts 0 "length ?ts" "t_id t"] srt
  have sp: "\<forall>k < ?lo. t_id (?ts ! k) < t_id t" "\<forall>k. ?lo \<le> k \<longrightarrow> k < length ?ts \<longrightarrow> t_id t \<le> t_id (?ts ! k)"
    by auto
  have "\<not> k < ?lo" using sp(1) k by auto
  moreover have "\<not> ?lo < k"
  proof
    assume lt: "?lo < k"
    then have "t_id (?ts ! ?lo) < t_id (?ts ! k)" using srt k by (auto simp: sorted_wrt_iff_nth_less)
    moreover have "t_id t \<le> t_id (?ts ! ?lo)" using sp(2) lt k by auto
    ultimately show False using k by simp
  qed
  ultimately have "?lo = k" by simp
  with k show ?thesis by (simp add: find_task_def)
qed

lemma lookup_find_task:
  assumes "sorted_wrt (<) (map t_id (all_tasks s))"
  shows "lookup_task i s = map_option (\<lambda>k. all_tasks s ! k) (find_task s i)"
proof (cases "find_task s i")
  case None
  have "t \<in> set (all_tasks s) \<Longrightarrow> t_id t \<noteq> i" for t
    using find_task_complete [OF assms, of t] None by auto
  then have "lookup_task i s = None" by (auto simp: lookup_task_def find_None_iff)
  with None show ?thesis by simp
next
  case (Some k)
  note k = find_task_Some [OF Some]
  have "\<forall>j < k. t_id (all_tasks s ! j) \<noteq> i"
  proof (intro allI impI)
    fix j assume "j < k"
    with assms k have "t_id (all_tasks s ! j) < t_id (all_tasks s ! k)"
      by (auto simp: sorted_wrt_iff_nth_less)
    with k show "t_id (all_tasks s ! j) \<noteq> i" by simp
  qed
  with k Some show ?thesis by (auto simp: lookup_task_def find_Some_iff)
qed

section \<open>Ownership\<close>

definition slot_live :: "wslot \<Rightarrow> int multiset" where
  "slot_live w = mset (yields w) + (case phase w of W_run i \<Rightarrow> {#i#} | _ \<Rightarrow> {#})"

definition slot_done :: "wslot \<Rightarrow> int multiset" where
  "slot_done w = (case phase w of W_done i \<Rightarrow> {#i#} | _ \<Rightarrow> {#})"

definition queued_ids :: "sched \<Rightarrow> int multiset" where
  "queued_ids s = image_mset ref_id (mset (queue s))"

definition worker_ids :: "sched \<Rightarrow> int multiset" where
  "worker_ids s = sum_list (map slot_live (slots s))"

definition done_ids :: "sched \<Rightarrow> int multiset" where
  "done_ids s = sum_list (map slot_done (slots s))"

definition incomplete_list :: "task list \<Rightarrow> int list" where
  "incomplete_list ts = map t_id (filter (\<lambda>t. \<not> completed t) ts)"

definition incomplete_ids :: "sched \<Rightarrow> int multiset" where
  "incomplete_ids s = mset (incomplete_list (all_tasks s))"

lemma incomplete_list_simps [simp]:
  "incomplete_list [] = []"
  "incomplete_list (t # ts) = (if completed t then incomplete_list ts else t_id t # incomplete_list ts)"
  "incomplete_list (ts @ us) = incomplete_list ts @ incomplete_list us"
  by (simp_all add: incomplete_list_def)

lemma set_incomplete_list: "set (incomplete_list ts) = t_id ` {t \<in> set ts. \<not> completed t}"
  by (auto simp: incomplete_list_def)

lemma in_incomplete_ids:
  "i \<in># incomplete_ids s \<longleftrightarrow> (\<exists>t \<in> set (all_tasks s). t_id t = i \<and> \<not> completed t)"
  by (auto simp: incomplete_ids_def set_incomplete_list)

lemma incomplete_prune_loop: "incomplete_list (prune_loop tb s n b ts) = incomplete_list ts"
  by (simp add: incomplete_list_def prune_loop_incomplete)

text \<open>Ownership is read off the queue, the slots and the index only.\<close>

lemma ids_frame [simp]:
  fixes s :: sched
  shows
    "queued_ids (s\<lparr>active := a\<rparr>) = queued_ids s"
    "queued_ids (s\<lparr>completing := a\<rparr>) = queued_ids s"
    "queued_ids (s\<lparr>next_id := a\<rparr>) = queued_ids s"
    "queued_ids (s\<lparr>exited := n\<rparr>) = queued_ids s"
    "queued_ids (s\<lparr>rejected := r\<rparr>) = queued_ids s"
    "queued_ids (s\<lparr>shutdown_flag := b\<rparr>) = queued_ids s"
    "queued_ids (s\<lparr>history_count := n\<rparr>) = queued_ids s"
    "queued_ids (s\<lparr>history_bytes := n\<rparr>) = queued_ids s"
    "queued_ids (s\<lparr>all_tasks := ts\<rparr>) = queued_ids s"
    "queued_ids (s\<lparr>slots := ws\<rparr>) = queued_ids s"
    "worker_ids (s\<lparr>active := a\<rparr>) = worker_ids s"
    "worker_ids (s\<lparr>completing := a\<rparr>) = worker_ids s"
    "worker_ids (s\<lparr>next_id := a\<rparr>) = worker_ids s"
    "worker_ids (s\<lparr>exited := n\<rparr>) = worker_ids s"
    "worker_ids (s\<lparr>rejected := r\<rparr>) = worker_ids s"
    "worker_ids (s\<lparr>shutdown_flag := b\<rparr>) = worker_ids s"
    "worker_ids (s\<lparr>history_count := n\<rparr>) = worker_ids s"
    "worker_ids (s\<lparr>history_bytes := n\<rparr>) = worker_ids s"
    "worker_ids (s\<lparr>all_tasks := ts\<rparr>) = worker_ids s"
    "worker_ids (s\<lparr>queue := q\<rparr>) = worker_ids s"
    "done_ids (s\<lparr>active := a\<rparr>) = done_ids s"
    "done_ids (s\<lparr>completing := a\<rparr>) = done_ids s"
    "done_ids (s\<lparr>next_id := a\<rparr>) = done_ids s"
    "done_ids (s\<lparr>exited := n\<rparr>) = done_ids s"
    "done_ids (s\<lparr>rejected := r\<rparr>) = done_ids s"
    "done_ids (s\<lparr>shutdown_flag := b\<rparr>) = done_ids s"
    "done_ids (s\<lparr>history_count := n\<rparr>) = done_ids s"
    "done_ids (s\<lparr>history_bytes := n\<rparr>) = done_ids s"
    "done_ids (s\<lparr>all_tasks := ts\<rparr>) = done_ids s"
    "done_ids (s\<lparr>queue := q\<rparr>) = done_ids s"
    "incomplete_ids (s\<lparr>active := a\<rparr>) = incomplete_ids s"
    "incomplete_ids (s\<lparr>completing := a\<rparr>) = incomplete_ids s"
    "incomplete_ids (s\<lparr>next_id := a\<rparr>) = incomplete_ids s"
    "incomplete_ids (s\<lparr>exited := n\<rparr>) = incomplete_ids s"
    "incomplete_ids (s\<lparr>rejected := r\<rparr>) = incomplete_ids s"
    "incomplete_ids (s\<lparr>shutdown_flag := b\<rparr>) = incomplete_ids s"
    "incomplete_ids (s\<lparr>history_count := n\<rparr>) = incomplete_ids s"
    "incomplete_ids (s\<lparr>history_bytes := n\<rparr>) = incomplete_ids s"
    "incomplete_ids (s\<lparr>slots := ws\<rparr>) = incomplete_ids s"
    "incomplete_ids (s\<lparr>queue := q\<rparr>) = incomplete_ids s"
    "incomplete_ids (s\<lparr>all_tasks := ts\<rparr>) = mset (incomplete_list ts)"
    "queued_ids (s\<lparr>queue := q\<rparr>) = image_mset ref_id (mset q)"
  by (simp_all add: queued_ids_def worker_ids_def done_ids_def incomplete_ids_def)

lemma sum_list_update_mset:
  fixes f :: "'a \<Rightarrow> 'b multiset"
  assumes "k < length xs"
  shows "sum_list (map f (xs[k := x])) + f (xs ! k) = sum_list (map f xs) + f x"
  using assms
proof (induction xs arbitrary: k)
  case (Cons y ys)
  show ?case
  proof (cases k)
    case 0
    then show ?thesis by (simp add: ac_simps)
  next
    case (Suc j)
    with Cons have "sum_list (map f (ys[j := x])) + f (ys ! j) = sum_list (map f ys) + f x" by simp
    with Suc show ?thesis by (simp add: add.assoc)
  qed
qed simp

lemma in_sum_list_iff: "x \<in># sum_list (map f xs) \<longleftrightarrow> (\<exists>y \<in> set xs. x \<in># f y)"
  by (induction xs) auto

lemma worker_ids_set_slot:
  "k < workers s \<Longrightarrow> worker_ids (set_slot k w s) + slot_live (slots s ! k) = worker_ids s + slot_live w"
  by (simp add: worker_ids_def set_slot_def sum_list_update_mset)

lemma done_ids_set_slot:
  "k < workers s \<Longrightarrow> done_ids (set_slot k w s) + slot_done (slots s ! k) = done_ids s + slot_done w"
  by (simp add: done_ids_def set_slot_def sum_list_update_mset)

lemma set_slot_simps [simp]:
  "queue (set_slot k w s) = queue s" "all_tasks (set_slot k w s) = all_tasks s"
  "active (set_slot k w s) = active s" "completing (set_slot k w s) = completing s"
  "next_id (set_slot k w s) = next_id s" "exited (set_slot k w s) = exited s"
  "workers (set_slot k w s) = workers s" "slots (set_slot k w s) = (slots s)[k := w]"
  by (simp_all add: set_slot_def)

lemma update_task_simps [simp]:
  "queue (update_task i f s) = queue s" "slots (update_task i f s) = slots s"
  "active (update_task i f s) = active s" "completing (update_task i f s) = completing s"
  "next_id (update_task i f s) = next_id s" "exited (update_task i f s) = exited s"
  "length (all_tasks (update_task i f s)) = length (all_tasks s)"
  by (simp_all add: update_task_def)

lemma map_t_id_update_task:
  "(\<And>t. t_id (f t) = t_id t) \<Longrightarrow> map t_id (all_tasks (update_task i f s)) = map t_id (all_tasks s)"
  by (simp add: update_task_def)

lemma incomplete_update_task:
  assumes "\<And>t. t_id (f t) = t_id t" "\<And>t. completed (f t) = completed t"
  shows "incomplete_ids (update_task i f s) = incomplete_ids s"
proof -
  have "incomplete_list (map (\<lambda>t. if t_id t = i then f t else t) ts) = incomplete_list ts" for ts
    by (induction ts) (auto simp: assms)
  then show ?thesis by (simp add: incomplete_ids_def update_task_def)
qed

lemma incomplete_complete_task:
  assumes srt: "sorted_wrt (<) (map t_id ts)"
    and f: "\<And>t. t_id (f t) = t_id t" "\<And>t. completed (f t)"
  shows "mset (incomplete_list (map (\<lambda>t. if t_id t = i then f t else t) ts)) =
         mset (incomplete_list ts) - {#i#}"
  using srt
proof (induction ts)
  case (Cons t ts)
  have notin: "t_id t \<notin># mset (incomplete_list ts)"
    using Cons.prems by (auto simp: set_incomplete_list)
  show ?case
  proof (cases "t_id t = i")
    case True
    have "map (\<lambda>t. if t_id t = i then f t else t) ts = ts"
      using Cons.prems True by (intro map_idI) auto
    with True notin f show ?thesis by (auto simp: diff_single_trivial)
  next
    case False
    with Cons f show ?thesis by auto
  qed
qed simp

section \<open>The invariant\<close>

definition sched_inv :: "sched \<Rightarrow> bool" where
  "sched_inv s \<longleftrightarrow>
     heap_ok (queue s) \<and>
     sorted_wrt (<) (map t_id (all_tasks s)) \<and>
     (\<forall>t \<in> set (all_tasks s). t_id t < next_id s) \<and>
     queued_ids s + worker_ids s + done_ids s = incomplete_ids s \<and>
     active s = int (size (queued_ids s + worker_ids s)) \<and>
     completing s = int (size (done_ids s)) \<and>
     exited s = length (filter (\<lambda>w. phase w = W_exited) (slots s)) \<and>
     (\<forall>t \<in> set (all_tasks s). t_id t \<in># queued_ids s \<longrightarrow> \<not> coro t) \<and>
     (\<forall>t \<in> set (all_tasks s). t_id t \<in># worker_ids s \<longrightarrow> status t \<noteq> TS_QUEUED) \<and>
     (\<forall>t \<in> set (all_tasks s). completed t \<or> t_id t \<in># done_ids s \<longrightarrow> terminal (status t))"

lemma sched_invD:
  assumes "sched_inv s"
  shows "heap_ok (queue s)" "sorted_wrt (<) (map t_id (all_tasks s))"
    "\<And>t. t \<in> set (all_tasks s) \<Longrightarrow> t_id t < next_id s"
    "queued_ids s + worker_ids s + done_ids s = incomplete_ids s"
    "active s = int (size (queued_ids s + worker_ids s))"
    "completing s = int (size (done_ids s))"
    "exited s = length (filter (\<lambda>w. phase w = W_exited) (slots s))"
    "\<And>t. t \<in> set (all_tasks s) \<Longrightarrow> t_id t \<in># queued_ids s \<Longrightarrow> \<not> coro t"
    "\<And>t. t \<in> set (all_tasks s) \<Longrightarrow> t_id t \<in># worker_ids s \<Longrightarrow> status t \<noteq> TS_QUEUED"
    "\<And>t. t \<in> set (all_tasks s) \<Longrightarrow> completed t \<or> t_id t \<in># done_ids s \<Longrightarrow> terminal (status t)"
  using assms by (auto simp: sched_inv_def)

lemma incomplete_ids_count:
  assumes "sched_inv s"
  shows "count (incomplete_ids s) i \<le> 1"
proof -
  have "distinct (map t_id (all_tasks s))"
    using sched_invD(2) [OF assms] by (simp add: strict_sorted_iff)
  then have "distinct (incomplete_list (all_tasks s))"
    by (simp add: distinct_map inj_on_def incomplete_list_def)
  then show ?thesis
    unfolding incomplete_ids_def by (simp add: distinct_count_atmost_1 count_eq_zero_iff)
qed

lemma task_id_unique:
  assumes i: "sched_inv s" and t: "t \<in> set (all_tasks s)" and u: "u \<in> set (all_tasks s)"
    and e: "t_id t = t_id u"
  shows "t = u"
proof -
  have "inj_on t_id (set (all_tasks s))"
    using sched_invD(2) [OF i] by (simp add: strict_sorted_iff distinct_map)
  with t u e show ?thesis by (simp add: inj_on_def)
qed

text \<open>A task held by the queue or a worker is in the index and not completed: no dangling pointer.\<close>

lemma owned_task_exists:
  assumes "sched_inv s" "i \<in># queued_ids s + worker_ids s + done_ids s"
  shows "\<exists>t \<in> set (all_tasks s). t_id t = i \<and> \<not> completed t"
  using assms(2) sched_invD(4) [OF assms(1)] by (simp add: in_incomplete_ids)

lemma idle_all_completed:
  assumes "sched_inv s" "scheduler_idle s"
  shows "queue s = [] \<and> (\<forall>t \<in> set (all_tasks s). completed t \<and> terminal (status t))"
proof -
  have "size (queued_ids s + worker_ids s) = 0" "size (done_ids s) = 0"
    using assms sched_invD(5,6) [OF assms(1)] unfolding scheduler_idle_def by linarith+
  then have z: "queued_ids s + worker_ids s + done_ids s = {#}" by simp
  then have "queue s = []" by (simp add: queued_ids_def)
  moreover have "incomplete_ids s = {#}" using z sched_invD(4) [OF assms(1)] by simp
  then have "\<forall>t \<in> set (all_tasks s). completed t" by (auto simp: incomplete_ids_def incomplete_list_def filter_empty_conv)
  ultimately show ?thesis using sched_invD(10) [OF assms(1)] by blast
qed

section \<open>Every operation keeps the invariant\<close>

lemma heap_ids_insert: "queued_ids (s\<lparr>queue := queue_insert (queue s) r\<rparr>) = add_mset (ref_id r) (queued_ids s)"
  by (simp add: queued_ids_def mset_queue_insert)

text \<open>A change of the index that keeps ids and completion, and keeps the status facts, keeps all.\<close>

lemma sched_inv_tasks:
  assumes i: "sched_inv s"
    and ids: "map t_id ts = map t_id (all_tasks s)"
    and inc: "incomplete_list ts = incomplete_list (all_tasks s)"
    and q: "\<And>t. t \<in> set ts \<Longrightarrow> t_id t \<in># queued_ids s \<Longrightarrow> \<not> coro t"
    and w: "\<And>t. t \<in> set ts \<Longrightarrow> t_id t \<in># worker_ids s \<Longrightarrow> status t \<noteq> TS_QUEUED"
    and c: "\<And>t. t \<in> set ts \<Longrightarrow> completed t \<or> t_id t \<in># done_ids s \<Longrightarrow> terminal (status t)"
  shows "sched_inv (s\<lparr>all_tasks := ts\<rparr>)"
proof -
  have "t_id ` set ts = t_id ` set (all_tasks s)" using arg_cong [OF ids, of set] by simp
  then have "t \<in> set ts \<Longrightarrow> t_id t < next_id s" for t
    using sched_invD(3) [OF i] by (metis imageE imageI)
  with assms sched_invD [OF i] show ?thesis
    by (simp add: sched_inv_def flip: incomplete_ids_def)
qed

lemma ownership_disjoint:
  assumes "sched_inv s"
  shows "i \<in># queued_ids s \<Longrightarrow> i \<notin># worker_ids s \<and> i \<notin># done_ids s"
    and "i \<in># worker_ids s \<Longrightarrow> i \<notin># queued_ids s \<and> i \<notin># done_ids s"
    and "i \<in># done_ids s \<Longrightarrow> i \<notin># queued_ids s \<and> i \<notin># worker_ids s"
proof -
  have c: "count (queued_ids s) i + count (worker_ids s) i + count (done_ids s) i \<le> 1"
    using incomplete_ids_count [OF assms, of i] sched_invD(4) [OF assms, symmetric] by simp
  show "i \<in># queued_ids s \<Longrightarrow> i \<notin># worker_ids s \<and> i \<notin># done_ids s"
    and "i \<in># worker_ids s \<Longrightarrow> i \<notin># queued_ids s \<and> i \<notin># done_ids s"
    and "i \<in># done_ids s \<Longrightarrow> i \<notin># queued_ids s \<and> i \<notin># worker_ids s"
    using c by (auto simp: not_in_iff simp flip: count_greater_zero_iff)
qed

lemma sched_inv_prune:
  assumes "sched_inv s"
  shows "sched_inv (prune_history tb s)"
proof -
  let ?ts = "prune_loop tb s (length (retained (all_tasks s))) (retained_bytes tb (all_tasks s)) (all_tasks s)"
  have "set ?ts \<subseteq> set (all_tasks s)" by (rule prune_loop_subset)
  with sched_invD [OF assms] show ?thesis
    by (auto simp: sched_inv_def prune_history_def incomplete_prune_loop prune_loop_sorted
        simp flip: incomplete_ids_def)
qed

subsection \<open>Submission\<close>

lemma spawn_workers_simps [simp]:
  "queue (spawn_workers n s) = queue s" "all_tasks (spawn_workers n s) = all_tasks s"
  "active (spawn_workers n s) = active s" "completing (spawn_workers n s) = completing s"
  "next_id (spawn_workers n s) = next_id s" "exited (spawn_workers n s) = exited s"
  "shutdown_flag (spawn_workers n s) = shutdown_flag s" "max_active (spawn_workers n s) = max_active s"
  by (induction n arbitrary: s) auto

lemma spawn_workers_slots:
  "\<exists>m. slots (spawn_workers n s) = slots s @ replicate m new_slot \<and>
       (workers s \<le> max_workers s \<longrightarrow> workers s + m \<le> max_workers s)"
proof (induction n arbitrary: s)
  case 0
  then show ?case by (intro exI [of _ 0]) simp
next
  case (Suc n)
  show ?case
  proof (cases "int (workers s) < active s \<and> workers s < max_workers s")
    case True
    from Suc [of "s\<lparr>slots := slots s @ [new_slot]\<rparr>"] obtain m where
      "slots (spawn_workers n (s\<lparr>slots := slots s @ [new_slot]\<rparr>)) = slots s @ [new_slot] @ replicate m new_slot"
      "Suc (workers s) \<le> max_workers s \<longrightarrow> Suc (workers s) + m \<le> max_workers s" by auto
    with True show ?thesis by (intro exI [of _ "Suc m"]) auto
  next
    case False
    then show ?thesis by (intro exI [of _ 0]) auto
  qed
qed

lemma sum_list_replicate_empty: "sum_list (replicate m ({#} :: 'a multiset)) = {#}"
  by (induction m) simp_all

lemma spawn_workers_ids [simp]:
  "queued_ids (spawn_workers n s) = queued_ids s"
  "worker_ids (spawn_workers n s) = worker_ids s"
  "done_ids (spawn_workers n s) = done_ids s"
  "incomplete_ids (spawn_workers n s) = incomplete_ids s"
  "length (filter (\<lambda>w. phase w = W_exited) (slots (spawn_workers n s))) =
   length (filter (\<lambda>w. phase w = W_exited) (slots s))"
  using spawn_workers_slots [of n s]
  by (auto simp: queued_ids_def worker_ids_def done_ids_def incomplete_ids_def new_slot_def
      slot_live_def slot_done_def sum_list_replicate_empty)

lemma sched_inv_spawn: "sched_inv s \<Longrightarrow> sched_inv (spawn_workers n s)"
  by (simp add: sched_inv_def)

lemma submitted_task_simps [simp]:
  "t_id (submitted_task now i r) = i" "priority (submitted_task now i r) = rq_priority r"
  "completed (submitted_task now i r) = False" "coro (submitted_task now i r) = False"
  "status (submitted_task now i r) = TS_QUEUED"
  by (simp_all add: submitted_task_def task_zero_def)

lemma sched_inv_enqueue:
  assumes "sched_inv s"
  shows "sched_inv (s\<lparr>all_tasks := all_tasks s @ [submitted_task now (next_id s) r],
            queue := queue_insert (queue s) (TRef p (next_id s)),
            next_id := next_id s + 1, active := active s + 1\<rparr>)"
proof -
  note i = sched_invD [OF assms]
  have fresh: "next_id s \<notin># queued_ids s + worker_ids s + done_ids s"
    unfolding i(4) in_incomplete_ids using i(3) by force
  then have fr: "next_id s \<notin># queued_ids s" "next_id s \<notin># worker_ids s" "next_id s \<notin># done_ids s" by simp_all
  have lt: "x \<in> set (all_tasks s) \<Longrightarrow> t_id x \<le> next_id s" for x using i(3) [of x] by simp
  have ne: "x \<in> set (all_tasks s) \<Longrightarrow> t_id x \<noteq> next_id s" for x using i(3) [of x] by simp
  show ?thesis
    unfolding sched_inv_def
    using i(1,2,4-7) fr
    by (auto simp: mset_queue_insert heap_ok_queue_insert sorted_wrt_append lt ne i(3)
        dest: i(8-10) simp flip: queued_ids_def incomplete_ids_def)
qed

lemma submit_cases:
  "scheduler_submit_configured_acceptance mem now th s r = (rc, s') \<Longrightarrow>
   (rc < 0 \<and> (s' = s \<or> s' = s\<lparr>rejected := rejected s + 1\<rparr>)) \<or>
   (rc = next_id s \<and> s' = spawn_workers th
      (s\<lparr>all_tasks := all_tasks s @ [submitted_task now (next_id s) r],
         queue := queue_insert (queue s) (TRef (rq_priority r) (next_id s)),
         next_id := next_id s + 1, active := active s + 1\<rparr>))"
  by (auto simp: scheduler_submit_configured_acceptance_def SCHEDULER_FULL_def Let_def split: if_splits)

lemma sched_inv_submit:
  assumes "sched_inv s" "scheduler_submit_configured_acceptance mem now th s r = (rc, s')"
  shows "sched_inv s'"
proof -
  have "sched_inv (s\<lparr>rejected := rejected s + 1\<rparr>)"
    using assms(1) by (simp add: sched_inv_def)
  with submit_cases [OF assms(2)] assms(1) show ?thesis
    by (auto intro!: sched_inv_spawn sched_inv_enqueue)
qed

subsection \<open>The worker loop\<close>

text \<open>Fields of a task that ownership does not read: an update that keeps the rest keeps the invariant.\<close>

lemma sched_inv_update_task:
  assumes i: "sched_inv s"
    and id: "\<And>t. t_id (f t) = t_id t" and cp: "\<And>t. completed (f t) = completed t"
    and q: "\<And>t. k \<in># queued_ids s \<Longrightarrow> coro (f t) = coro t"
    and w: "\<And>t. k \<in># worker_ids s \<Longrightarrow> status t \<noteq> TS_QUEUED \<Longrightarrow> status (f t) \<noteq> TS_QUEUED"
    and c: "\<And>t. k \<notin># queued_ids s + worker_ids s \<Longrightarrow> terminal (status t) \<Longrightarrow> terminal (status (f t))"
  shows "sched_inv (update_task k f s)"
  unfolding update_task_def
proof (rule sched_inv_tasks [OF i])
  let ?g = "\<lambda>t. if t_id t = k then f t else t"
  show "map t_id (map ?g (all_tasks s)) = map t_id (all_tasks s)" by (simp add: id)
  have "incomplete_list (map ?g ts) = incomplete_list ts" for ts by (induction ts) (auto simp: id cp)
  then show "incomplete_list (map ?g (all_tasks s)) = incomplete_list (all_tasks s)" .
  note I = sched_invD [OF i]
  fix t assume "t \<in> set (map ?g (all_tasks s))"
  then obtain u where u: "u \<in> set (all_tasks s)" "t = ?g u" by auto
  show "\<not> coro t" if "t_id t \<in># queued_ids s" using that u q I(8) [of u] id by (auto split: if_splits)
  show "status t \<noteq> TS_QUEUED" if "t_id t \<in># worker_ids s"
    using that u w I(9) [of u] id by (auto split: if_splits)
  show "terminal (status t)" if h: "completed t \<or> t_id t \<in># done_ids s"
  proof (cases "t_id u = k")
    case False
    with h u I(10) [of u] show ?thesis by simp
  next
    case True
    with h u have h': "completed u \<or> t_id u \<in># done_ids s" by (simp add: id cp)
    have "k \<notin># queued_ids s + worker_ids s"
    proof
      assume k: "k \<in># queued_ids s + worker_ids s"
      then obtain v where v: "v \<in> set (all_tasks s)" "t_id v = k" "\<not> completed v"
        using owned_task_exists [OF i, of k] by auto
      have "v = u" using task_id_unique [OF i v(1) u(1)] v(2) True by simp
      moreover have "k \<notin># done_ids s" using k
        ownership_disjoint(1) [OF i, of k] ownership_disjoint(2) [OF i, of k] by auto
      ultimately show False using h' True v by auto
    qed
    then have "terminal (status (f u))" using I(10) [OF u(1) h'] by (rule c)
    with u(2) True show ?thesis by simp
  qed
qed

lemma exited_set_slot:
  assumes "k < workers s"
  shows "length (filter P ((slots s)[k := w])) + (if P (slots s ! k) then 1 else 0) =
         length (filter P (slots s)) + (if P w then 1 else (0::nat))"
proof -
  have "length (filter P (xs[k := x])) + (if P (xs ! k) then 1 else 0) =
        length (filter P xs) + (if P x then 1 else (0::nat))" if "k < length xs" for x and xs :: "wslot list"
    using that
  proof (induction xs arbitrary: k)
    case (Cons y ys)
    then show ?case by (cases k) auto
  qed simp
  with assms show ?thesis by simp
qed

text \<open>Both sides of a slot update, as the equations that the three critical sections use.\<close>

lemma slot_update:
  assumes "k < workers s"
  shows "worker_ids (set_slot k w s) + slot_live (slots s ! k) = worker_ids s + slot_live w"
    and "done_ids (set_slot k w s) + slot_done (slots s ! k) = done_ids s + slot_done w"
    and "queued_ids (set_slot k w s) = queued_ids s"
    and "incomplete_ids (set_slot k w s) = incomplete_ids s"
  using assms by (simp_all add: worker_ids_set_slot done_ids_set_slot queued_ids_def incomplete_ids_def)

lemma exited_keep:
  assumes "k < workers s" "phase (slots s ! k) \<noteq> W_exited" "phase w \<noteq> W_exited"
  shows "length (filter (\<lambda>w. phase w = W_exited) ((slots s)[k := w])) =
         length (filter (\<lambda>w. phase w = W_exited) (slots s))"
  using exited_set_slot [OF assms(1), of "\<lambda>w. phase w = W_exited" w] assms(2,3) by simp

lemma sched_inv_set_slot:
  assumes i: "sched_inv s" and k: "k < workers s"
    and live: "slot_live w = slot_live (slots s ! k)" and dn: "slot_done w = slot_done (slots s ! k)"
    and ph: "phase (slots s ! k) \<noteq> W_exited" "phase w \<noteq> W_exited"
  shows "sched_inv (set_slot k w s)"
proof -
  have "worker_ids (set_slot k w s) = worker_ids s" "done_ids (set_slot k w s) = done_ids s"
    using slot_update(1,2) [OF k, of w] live dn by simp_all
  with sched_invD [OF i] slot_update(3,4) [OF k, of w] exited_keep [OF k ph]
  show ?thesis by (simp add: sched_inv_def)
qed

lemma begin_task_simps [simp]:
  "t_id (begin_task now ok t) = t_id t" "completed (begin_task now ok t) = completed t"
  "references (begin_task now ok t) = references t" "borrowed (begin_task now ok t) = borrowed t"
  "priority (begin_task now ok t) = priority t"
  by (simp_all add: begin_task_def)

lemma begin_task_status:
  "\<not> coro t \<or> status t \<noteq> TS_QUEUED \<Longrightarrow> status (begin_task now ok t) \<noteq> TS_QUEUED"
  by (auto simp: begin_task_def)

text \<open>Taking a ready task: it moves from the queue to the worker.\<close>

lemma sched_inv_pick_ready:
  assumes i: "sched_inv s" and k: "k < workers s" and idle: "phase (slots s ! k) = W_idle"
    and pop: "queue_pop (queue s) = Some (r, q')"
  shows "sched_inv (update_task (ref_id r) (begin_task now ok)
           (set_slot k ((slots s ! k)\<lparr>phase := W_run (ref_id r)\<rparr>) (s\<lparr>queue := q'\<rparr>)))"
    (is "sched_inv ?s'")
proof -
  let ?w = "(slots s ! k)\<lparr>phase := W_run (ref_id r)\<rparr>"
  note I = sched_invD [OF i]
  have q: "queued_ids s = add_mset (ref_id r) (image_mset ref_id (mset q'))"
    using rq.bag_pop [OF I(1) pop] by (simp add: queued_ids_def)
  have w: "worker_ids (set_slot k ?w s) = add_mset (ref_id r) (worker_ids s)"
    using slot_update(1) [OF k, of ?w] idle by (simp add: slot_live_def)
  have d: "done_ids (set_slot k ?w s) = done_ids s"
    using slot_update(2) [OF k, of ?w] idle by (simp add: slot_done_def)
  have ids: "queued_ids ?s' = image_mset ref_id (mset q')"
    "worker_ids ?s' = add_mset (ref_id r) (worker_ids s)" "done_ids ?s' = done_ids s"
    using w d by (simp_all add: queued_ids_def worker_ids_def done_ids_def)
  have inc: "incomplete_ids ?s' = incomplete_ids s"
    by (subst incomplete_update_task) (simp_all add: incomplete_ids_def)
  have ex: "exited ?s' = length (filter (\<lambda>w. phase w = W_exited) (slots ?s'))"
    using I(7) exited_keep [OF k, of ?w] idle by simp
  have tasks: "all_tasks ?s' = map (\<lambda>t. if t_id t = ref_id r then begin_task now ok t else t) (all_tasks s)"
    by (simp add: update_task_def)
  have rq: "ref_id r \<in># queued_ids s" using q by simp
  have "count (image_mset ref_id (mset q')) (ref_id r) = 0"
    using incomplete_ids_count [OF i, of "ref_id r"] by (simp add: q flip: I(4))
  then have not_mine: "ref_id r \<notin># done_ids s" "ref_id r \<notin># image_mset ref_id (mset q')"
    using ownership_disjoint(1) [OF i rq] by (simp_all only: count_eq_zero_iff not_False_eq_True)
  have uq: "u \<in> set (all_tasks s) \<Longrightarrow> t_id u \<in># image_mset ref_id (mset q') \<Longrightarrow> \<not> coro u" for u
    using I(8) [of u] q by simp
  show ?thesis
    unfolding sched_inv_def ids inc
  proof (intro conjI)
    show "sorted_wrt (<) (map t_id (all_tasks ?s'))"
      using I(2) by (subst map_t_id_update_task) simp_all
    show "\<forall>t\<in>set (all_tasks ?s'). t_id t < next_id ?s'" by (auto simp: tasks dest: I(3))
    show "\<forall>t\<in>set (all_tasks ?s'). t_id t \<in># image_mset ref_id (mset q') \<longrightarrow> \<not> coro t"
      using uq not_mine(2) by (auto simp: tasks)
    show "\<forall>t\<in>set (all_tasks ?s'). t_id t \<in># add_mset (ref_id r) (worker_ids s) \<longrightarrow> status t \<noteq> TS_QUEUED"
      using I(8,9) rq begin_task_status [of _ now ok] by (auto simp: tasks)
    show "\<forall>t\<in>set (all_tasks ?s'). completed t \<or> t_id t \<in># done_ids s \<longrightarrow> terminal (status t)"
    proof
      fix t assume "t \<in> set (all_tasks ?s')"
      then obtain u where u: "u \<in> set (all_tasks s)"
        "t = (if t_id u = ref_id r then begin_task now ok u else u)" by (auto simp: tasks)
      show "completed t \<or> t_id t \<in># done_ids s \<longrightarrow> terminal (status t)"
      proof (cases "t_id u = ref_id r")
        case True
        obtain v where v: "v \<in> set (all_tasks s)" "t_id v = ref_id r" "\<not> completed v"
          using owned_task_exists [OF i, of "ref_id r"] rq by auto
        have "v = u" using task_id_unique [OF i v(1) u(1)] v True by simp
        with v u True not_mine show ?thesis by simp
      next
        case False
        with u I(10) [OF u(1)] show ?thesis by simp
      qed
    qed
  qed (use I q ex rq rq.inv_pop [OF I(1) pop] in \<open>simp_all\<close>)
qed

lemma worker_pick_cases:
  assumes "worker_pick now ok k s = Some s'"
  obtains (cont) i ys where "phase (slots s ! k) = W_idle" "yields (slots s ! k) = i # ys"
      "s' = update_task i (begin_task now ok)
              (set_slot k ((slots s ! k)\<lparr>yields := ys, phase := W_run i\<rparr>) s)"
    | (ready) r q' where "phase (slots s ! k) = W_idle" "yields (slots s ! k) = []"
      "queue_pop (queue s) = Some (r, q')"
      "s' = update_task (ref_id r) (begin_task now ok)
              (set_slot k ((slots s ! k)\<lparr>phase := W_run (ref_id r)\<rparr>) (s\<lparr>queue := q'\<rparr>))"
    | (leave) "phase (slots s ! k) = W_idle" "yields (slots s ! k) = []" "queue s = []" "shutdown_flag s"
      "s' = set_slot k ((slots s ! k)\<lparr>phase := W_exited\<rparr>) (s\<lparr>exited := exited s + 1\<rparr>)"
  using assms
  by (auto simp: worker_pick_def Let_def queue_pop_None split: if_splits list.splits option.splits prod.splits)

lemma sched_inv_pick:
  assumes i: "sched_inv s" and k: "k < workers s" and p: "worker_pick now ok k s = Some s'"
  shows "sched_inv s'"
  using p
proof (cases rule: worker_pick_cases)
  case (cont j ys)
  let ?w = "(slots s ! k)\<lparr>yields := ys, phase := W_run j\<rparr>"
  have "sched_inv (set_slot k ?w s)"
    by (rule sched_inv_set_slot [OF i k]) (use cont in \<open>simp_all add: slot_live_def slot_done_def\<close>)
  moreover have "queued_ids (set_slot k ?w s) = queued_ids s" by (rule slot_update(3) [OF k])
  moreover have "j \<in># worker_ids s"
    using cont k by (auto simp: worker_ids_def in_sum_list_iff slot_live_def intro!: bexI [OF _ nth_mem [OF k]])
  then have "j \<notin># queued_ids s" using ownership_disjoint(2) [OF i] by simp
  ultimately show ?thesis unfolding cont(3)
  proof (intro sched_inv_update_task)
    fix t assume n: "j \<notin># queued_ids (set_slot k ?w s) + worker_ids (set_slot k ?w s)"
    have "j \<in># worker_ids (set_slot k ?w s)"
      using k by (auto simp: worker_ids_def in_sum_list_iff slot_live_def set_slot_def
          intro!: bexI [of _ ?w] set_update_memI)
    with n show "terminal (status (begin_task now ok t))" by simp
  qed (simp_all add: begin_task_status)
next
  case (ready r q')
  with sched_inv_pick_ready [OF i k] show ?thesis by simp
next
  case leave
  let ?w = "(slots s ! k)\<lparr>phase := W_exited\<rparr>"
  have "worker_ids (set_slot k ?w s) = worker_ids s" "done_ids (set_slot k ?w s) = done_ids s"
    using slot_update(1,2) [OF k, of ?w] leave(1) by (simp_all add: slot_live_def slot_done_def)
  moreover have "worker_ids s' = worker_ids (set_slot k ?w s)" "done_ids s' = done_ids (set_slot k ?w s)"
    "queued_ids s' = queued_ids s" "incomplete_ids s' = incomplete_ids s"
    by (simp_all add: leave(5) worker_ids_def done_ids_def queued_ids_def incomplete_ids_def)
  moreover have "exited s' = length (filter (\<lambda>w. phase w = W_exited) (slots s'))"
    using sched_invD(7) [OF i] exited_set_slot [OF k, of "\<lambda>w. phase w = W_exited" ?w] leave
    by simp
  ultimately show ?thesis
    using sched_invD [OF i] by (simp add: sched_inv_def leave(5))
qed

lemma slot_owner_mem:
  assumes "k < workers s"
  shows "i \<in># slot_live (slots s ! k) \<Longrightarrow> i \<in># worker_ids s"
    and "i \<in># slot_done (slots s ! k) \<Longrightarrow> i \<in># done_ids s"
  using assms by (auto simp: worker_ids_def done_ids_def in_sum_list_iff)

lemma final_status_terminal: "status t \<noteq> TS_QUEUED \<Longrightarrow> terminal (final_status t)"
  by (cases "status t") (auto simp: final_status_def terminal_def)

definition finish_task :: "int \<Rightarrow> task \<Rightarrow> task" where
  "finish_task now t = t\<lparr>finished_ms := now, status := final_status t, coro := False\<rparr>"

lemma finish_task_simps [simp]:
  "t_id (finish_task now t) = t_id t" "completed (finish_task now t) = completed t"
  "status (finish_task now t) = final_status t" "coro (finish_task now t) = False"
  "references (finish_task now t) = references t" "borrowed (finish_task now t) = borrowed t"
  by (simp_all add: finish_task_def)

lemma worker_after_cases:
  assumes "worker_after now fin k s = Some s'"
  obtains (finished) i u where "phase (slots s ! k) = W_run i"
      "lookup_task i s = Some u" "\<not> coro u \<or> fin"
      "s' = set_slot k ((slots s ! k)\<lparr>phase := W_done i\<rparr>)
              (s\<lparr>completing := completing s + 1, active := active s - 1,
                 all_tasks := map (\<lambda>t. if t_id t = i then finish_task now t else t) (all_tasks s)\<rparr>)"
    | (yielded) i u where "phase (slots s ! k) = W_run i" "lookup_task i s = Some u" "coro u" "\<not> fin"
      "s' = set_slot k ((slots s ! k)\<lparr>yields := yields (slots s ! k) @ [i], phase := W_idle\<rparr>) s"
  using assms
  by (auto simp: worker_after_def Let_def finalize_task_def update_task_def finish_task_def if_distrib
      o_def cong: if_cong split: wphase.splits option.splits if_splits)

text \<open>Finishing: the task moves from the live work to the completing work of its worker.\<close>

lemma sched_inv_finish:
  assumes i: "sched_inv s" and k: "k < workers s" and run: "phase (slots s ! k) = W_run j"
  shows "sched_inv (set_slot k ((slots s ! k)\<lparr>phase := W_done j\<rparr>)
           (s\<lparr>completing := completing s + 1, active := active s - 1,
              all_tasks := map (\<lambda>t. if t_id t = j then finish_task now t else t) (all_tasks s)\<rparr>))" (is "sched_inv ?s'")
proof -
  let ?w = "(slots s ! k)\<lparr>phase := W_done j\<rparr>"
  let ?ts = "map (\<lambda>t. if t_id t = j then finish_task now t else t) (all_tasks s)"
  note I = sched_invD [OF i]
  have w: "worker_ids s = add_mset j (worker_ids (set_slot k ?w s))"
    using slot_update(1) [OF k, of ?w] run by (simp add: slot_live_def)
  have d: "done_ids (set_slot k ?w s) = add_mset j (done_ids s)"
    using slot_update(2) [OF k, of ?w] run by (simp add: slot_done_def)
  have ids: "queued_ids ?s' = queued_ids s" "worker_ids ?s' = worker_ids (set_slot k ?w s)"
    "done_ids ?s' = add_mset j (done_ids s)" "incomplete_ids ?s' = mset (incomplete_list ?ts)"
    using d by (simp_all add: queued_ids_def worker_ids_def done_ids_def incomplete_ids_def)
  have inc: "incomplete_list ?ts = incomplete_list (all_tasks s)"
  proof -
    have "incomplete_list (map (\<lambda>t. if t_id t = j then finish_task now t else t) ts) = incomplete_list ts" for ts
      by (induction ts) auto
    then show ?thesis .
  qed
  have ex: "exited ?s' = length (filter (\<lambda>w. phase w = W_exited) (slots ?s'))"
    using I(7) exited_keep [OF k, of ?w] run by simp
  have jw: "j \<in># worker_ids s" using w by simp
  have "count (worker_ids (set_slot k ?w s)) j = 0"
    using incomplete_ids_count [OF i, of j] by (simp add: w flip: I(4))
  then have nj: "j \<notin># worker_ids (set_slot k ?w s)" by (simp only: count_eq_zero_iff not_False_eq_True)
  have nq: "j \<notin># queued_ids s" using ownership_disjoint(2) [OF i jw] by simp
  have old: "u \<in> set (all_tasks s) \<Longrightarrow> t_id u \<in># worker_ids (set_slot k ?w s) \<Longrightarrow> status u \<noteq> TS_QUEUED" for u
    using I(9) [of u] w by simp
  have fin: "u \<in> set (all_tasks s) \<Longrightarrow> t_id u = j \<Longrightarrow> terminal (final_status u)" for u
    using I(9) [of u] jw by (auto intro: final_status_terminal)
  show ?thesis
    unfolding sched_inv_def ids inc
  proof (intro conjI)
    have "map t_id (all_tasks ?s') = map t_id (all_tasks s)" by simp
    then show "sorted_wrt (<) (map t_id (all_tasks ?s'))" using I(2) by (simp only:)
    show "\<forall>t\<in>set (all_tasks ?s'). t_id t < next_id ?s'" by (auto dest: I(3))
    show "\<forall>t\<in>set (all_tasks ?s'). t_id t \<in># queued_ids s \<longrightarrow> \<not> coro t" using I(8) by auto
    show "\<forall>t\<in>set (all_tasks ?s'). t_id t \<in># worker_ids (set_slot k ?w s) \<longrightarrow> status t \<noteq> TS_QUEUED"
      using old nj by auto
    show "\<forall>t\<in>set (all_tasks ?s'). completed t \<or> t_id t \<in># add_mset j (done_ids s) \<longrightarrow> terminal (status t)"
      using I(10) fin by auto
    show "queued_ids s + worker_ids (set_slot k ?w s) + add_mset j (done_ids s) =
          mset (incomplete_list (all_tasks s))"
      using I(4) w by (simp add: incomplete_ids_def)
  qed (use I(1,5,6) w ex in \<open>simp_all\<close>)
qed

lemma sched_inv_after:
  assumes i: "sched_inv s" and k: "k < workers s" and a: "worker_after now fin k s = Some s'"
  shows "sched_inv s'"
  using a
proof (cases rule: worker_after_cases)
  case (finished j u)
  with sched_inv_finish [OF i k] show ?thesis by simp
next
  case (yielded j u)
  show ?thesis unfolding yielded(5)
    by (rule sched_inv_set_slot [OF i k]) (use yielded in \<open>simp_all add: slot_live_def slot_done_def\<close>)
qed

definition complete_task :: "task \<Rightarrow> task" where
  "complete_task t = t\<lparr>attachments_json := None, completed := True\<rparr>"

lemma complete_task_simps [simp]:
  "t_id (complete_task t) = t_id t" "completed (complete_task t)"
  "status (complete_task t) = status t" "coro (complete_task t) = coro t"
  "references (complete_task t) = references t" "borrowed (complete_task t) = borrowed t"
  by (simp_all add: complete_task_def)

lemma prune_history_commute:
  "set_slot k w ((prune_history tb s)\<lparr>completing := c\<rparr>) =
   prune_history tb (set_slot k w (s\<lparr>completing := c\<rparr>))"
  by (rule sched.equality) (simp_all add: prune_history_def set_slot_def)

lemma worker_complete_cases:
  assumes "worker_complete tb k s = Some s'"
  obtains i where "phase (slots s ! k) = W_done i"
    "s' = prune_history tb (set_slot k ((slots s ! k)\<lparr>phase := W_idle\<rparr>)
            (s\<lparr>all_tasks := map (\<lambda>t. if t_id t = i then complete_task t else t) (all_tasks s),
               completing := completing s - 1\<rparr>))"
  using assms
  by (auto simp: worker_complete_def Let_def update_task_def prune_history_commute
      simp flip: complete_task_def split: wphase.splits)

lemma sched_inv_complete:
  assumes i: "sched_inv s" and k: "k < workers s" and c: "worker_complete tb k s = Some s'"
  shows "sched_inv s'"
  using c
proof (cases rule: worker_complete_cases)
  case (1 j)
  let ?w = "(slots s ! k)\<lparr>phase := W_idle\<rparr>"
  let ?ts = "map (\<lambda>t. if t_id t = j then complete_task t else t) (all_tasks s)"
  let ?s1 = "set_slot k ?w (s\<lparr>all_tasks := ?ts, completing := completing s - 1\<rparr>)"
  note I = sched_invD [OF i]
  have w: "worker_ids (set_slot k ?w s) = worker_ids s"
    using slot_update(1) [OF k, of ?w] 1(1) by (simp add: slot_live_def)
  have d: "done_ids s = add_mset j (done_ids (set_slot k ?w s))"
    using slot_update(2) [OF k, of ?w] 1(1) by (simp add: slot_done_def)
  have jd: "j \<in># done_ids s" using d by simp
  have inc: "mset (incomplete_list ?ts) = incomplete_ids s - {#j#}"
    unfolding incomplete_ids_def by (rule incomplete_complete_task [OF I(2)]) simp_all
  have ids: "queued_ids ?s1 = queued_ids s" "worker_ids ?s1 = worker_ids s"
    "done_ids ?s1 = done_ids (set_slot k ?w s)" "incomplete_ids ?s1 = incomplete_ids s - {#j#}"
    using w inc by (simp_all add: queued_ids_def worker_ids_def done_ids_def incomplete_ids_def)
  have ex: "exited ?s1 = length (filter (\<lambda>w. phase w = W_exited) (slots ?s1))"
    using I(7) exited_keep [OF k, of ?w] 1(1) by simp
  have sum: "queued_ids s + worker_ids s + done_ids (set_slot k ?w s) = incomplete_ids s - {#j#}"
    by (simp add: d flip: I(4))
  have "sched_inv ?s1"
    unfolding sched_inv_def ids
  proof (intro conjI)
    have "map t_id (all_tasks ?s1) = map t_id (all_tasks s)" by simp
    then show "sorted_wrt (<) (map t_id (all_tasks ?s1))" using I(2) by (simp only:)
    show "\<forall>t\<in>set (all_tasks ?s1). t_id t < next_id ?s1" by (auto dest: I(3))
    show "\<forall>t\<in>set (all_tasks ?s1). t_id t \<in># queued_ids s \<longrightarrow> \<not> coro t" using I(8) by auto
    show "\<forall>t\<in>set (all_tasks ?s1). t_id t \<in># worker_ids s \<longrightarrow> status t \<noteq> TS_QUEUED" using I(9) by auto
    show "\<forall>t\<in>set (all_tasks ?s1).
            completed t \<or> t_id t \<in># done_ids (set_slot k ?w s) \<longrightarrow> terminal (status t)"
      using I(10) d jd by auto
  qed (use I(1,5,6) d ex sum in \<open>simp_all\<close>)
  then show ?thesis unfolding 1(2) by (rule sched_inv_prune)
qed

subsection \<open>Lookup, references, limits\<close>

lemma list_update_update_task:
  assumes i: "sched_inv s" and k: "find_task s j = Some k"
  shows "s\<lparr>all_tasks := (all_tasks s)[k := f (all_tasks s ! k)]\<rparr> = update_task j f s"
proof -
  have kl: "k < length (all_tasks s)" "t_id (all_tasks s ! k) = j"
    using find_task_Some [OF k] by simp_all
  have "(all_tasks s)[k := f (all_tasks s ! k)] =
        map (\<lambda>t. if t_id t = j then f t else t) (all_tasks s)"
  proof (rule nth_equalityI)
    fix n assume n: "n < length ((all_tasks s)[k := f (all_tasks s ! k)])"
    have "n \<noteq> k \<Longrightarrow> t_id (all_tasks s ! n) \<noteq> j"
      using sched_invD(2) [OF i] kl n by (metis distinct_conv_nth length_list_update length_map nth_map strict_sorted_iff)
    with n kl show "(all_tasks s)[k := f (all_tasks s ! k)] ! n =
        map (\<lambda>t. if t_id t = j then f t else t) (all_tasks s) ! n"
      by (cases "n = k") auto
  qed simp
  then show ?thesis by (simp add: update_task_def)
qed

lemma sched_inv_get:
  assumes "sched_inv s" shows "sched_inv (snd (scheduler_get s j))"
  using assms
  by (auto simp: scheduler_get_def Let_def list_update_update_task [of s j _ "\<lambda>t. t\<lparr>borrowed := True\<rparr>"]
      split: option.split intro!: sched_inv_update_task)

lemma sched_inv_acquire:
  assumes "sched_inv s" shows "sched_inv (snd (scheduler_acquire s j))"
  using assms
  by (auto simp: scheduler_acquire_def Let_def
      list_update_update_task [of s j _ "\<lambda>t. t\<lparr>references := references t + 1\<rparr>"]
      split: option.split intro!: sched_inv_update_task)

lemma sched_inv_release: "sched_inv s \<Longrightarrow> sched_inv (scheduler_release tb s oi)"
  by (auto simp: scheduler_release_def split: option.split if_splits intro!: sched_inv_prune sched_inv_update_task)

lemma sched_inv_limits: "sched_inv s \<Longrightarrow> sched_inv (scheduler_set_history_limits tb s n b)"
  unfolding scheduler_set_history_limits_def by (rule sched_inv_prune) (simp add: sched_inv_def)

lemma sched_inv_next_id: "sched_inv s \<Longrightarrow> sched_inv (scheduler_ensure_next_id s n)"
  by (auto simp: scheduler_ensure_next_id_def sched_inv_def dest!: bspec)

lemma sched_inv_shutdown: "sched_inv s \<Longrightarrow> sched_inv (scheduler_shutdown_request s)"
  by (simp add: scheduler_shutdown_request_def sched_inv_def)

lemma sched_inv_new: "scheduler_new_limited ok a b c = Some s \<Longrightarrow> sched_inv s"
  by (auto simp: scheduler_new_limited_def sched_inv_def queued_ids_def worker_ids_def done_ids_def
      incomplete_ids_def new_slot_def slot_live_def slot_done_def sum_list_replicate_empty
      split: if_splits)

end
