(* ===== verification/SchedulerRun.thy ===== *)
theory SchedulerRun
  imports SchedulerInv
begin

text \<open>
  Runs of the scheduler: every critical section of \<open>scheduler.c\<close> as an action, their interleavings
  as a step relation, and what holds in every reachable state. The runner and the rest of the
  runtime touch a task through the pointer they hold; that is the action \<open>A_run\<close>, an arbitrary change
  of the fields the scheduler does not own.
\<close>

section \<open>Actions and steps\<close>

text \<open>What the runner of a task may do to it: anything but its identity, the scheduler's bookkeeping
  and the way back to \<open>TS_QUEUED\<close>, which only a submission writes.\<close>

definition runner_effect :: "(task \<Rightarrow> task) \<Rightarrow> task \<Rightarrow> task" where
  "runner_effect f t =
     (f t)\<lparr>t_id := t_id t, priority := priority t, references := references t, borrowed := borrowed t,
           completed := completed t, coro := coro t,
           status := (if status (f t) = TS_QUEUED then status t else status (f t))\<rparr>"

datatype action =
    A_submit submit_mem int nat submit_req
  | A_pick int bool nat
  | A_run nat "task \<Rightarrow> task"
  | A_after int bool nat
  | A_complete nat
  | A_cancel int
  | A_get int
  | A_acquire int
  | A_release "int option"
  | A_limits nat nat
  | A_next_id int
  | A_shutdown

text \<open>\<open>None\<close>: the action is not enabled. A request to cancel sets \<open>cancel_flag\<close> (the code does so
  through an acquired pointer).\<close>

definition on_worker :: "sched \<Rightarrow> nat \<Rightarrow> sched option \<Rightarrow> sched option" where
  "on_worker s k r = (if k < workers s then r else None)"

fun sched_exec :: "(task \<Rightarrow> nat) \<Rightarrow> action \<Rightarrow> sched \<Rightarrow> sched option" where
  "sched_exec tb (A_submit mem now th r) s = Some (snd (scheduler_submit_configured_acceptance mem now th s r))"
| "sched_exec tb (A_pick now ok k) s = on_worker s k (worker_pick now ok k s)"
| "sched_exec tb (A_run k f) s =
     on_worker s k (case phase (slots s ! k) of
        W_run i \<Rightarrow> Some (update_task i (runner_effect f) s) | _ \<Rightarrow> None)"
| "sched_exec tb (A_after now fin k) s = on_worker s k (worker_after now fin k s)"
| "sched_exec tb (A_complete k) s = on_worker s k (worker_complete tb k s)"
| "sched_exec tb (A_cancel i) s = Some (update_task i (\<lambda>t. t\<lparr>cancel_flag := True\<rparr>) s)"
| "sched_exec tb (A_get i) s = Some (snd (scheduler_get s i))"
| "sched_exec tb (A_acquire i) s = Some (snd (scheduler_acquire s i))"
| "sched_exec tb (A_release oi) s = Some (scheduler_release tb s oi)"
| "sched_exec tb (A_limits n b) s = Some (scheduler_set_history_limits tb s n b)"
| "sched_exec tb (A_next_id n) s = Some (scheduler_ensure_next_id s n)"
| "sched_exec tb A_shutdown s = Some (scheduler_shutdown_request s)"

inductive sched_step :: "(task \<Rightarrow> nat) \<Rightarrow> sched \<Rightarrow> sched \<Rightarrow> bool" for tb where
  exec: "sched_exec tb a s = Some s' \<Longrightarrow> sched_step tb s s'"

inductive_cases sched_stepE [elim!]: "sched_step tb s s'"

definition sched_start :: "sched \<Rightarrow> bool" where
  "sched_start s \<longleftrightarrow> (\<exists>ok w mw ma. scheduler_new_limited ok w mw ma = Some s)"

fun sched_run :: "(task \<Rightarrow> nat) \<Rightarrow> action list \<Rightarrow> sched \<Rightarrow> sched option" where
  "sched_run tb [] s = Some s"
| "sched_run tb (a # as) s = (case sched_exec tb a s of None \<Rightarrow> None | Some s' \<Rightarrow> sched_run tb as s')"

lemma sched_run_steps: "sched_run tb as s = Some s' \<Longrightarrow> (sched_step tb)\<^sup>*\<^sup>* s s'"
  by (induction as arbitrary: s)
     (auto split: option.splits intro: converse_rtranclp_into_rtranclp sched_step.exec)

section \<open>The pool\<close>

text \<open>The rest of the invariant: the pool and the admission limit, and what an exited worker leaves.\<close>

definition pool_ok :: "sched \<Rightarrow> bool" where
  "pool_ok s \<longleftrightarrow>
     0 < workers s \<and> workers s \<le> max_workers s \<and>
     (0 < max_active s \<longrightarrow> active s \<le> max_active s) \<and>
     (\<forall>w \<in> set (slots s). phase w = W_exited \<longrightarrow> yields w = [] \<and> shutdown_flag s \<and> queue s = [])"

definition sched_ok :: "sched \<Rightarrow> bool" where
  "sched_ok s \<longleftrightarrow> sched_inv s \<and> pool_ok s"

lemma runner_effect_simps [simp]:
  "t_id (runner_effect f t) = t_id t" "completed (runner_effect f t) = completed t"
  "coro (runner_effect f t) = coro t" "references (runner_effect f t) = references t"
  "borrowed (runner_effect f t) = borrowed t"
  "status t \<noteq> TS_QUEUED \<Longrightarrow> status (runner_effect f t) \<noteq> TS_QUEUED"
  by (auto simp: runner_effect_def)

lemma sched_inv_run:
  assumes i: "sched_inv s" and k: "k < workers s" and r: "phase (slots s ! k) = W_run j"
  shows "sched_inv (update_task j (runner_effect f) s)"
proof (rule sched_inv_update_task [OF i])
  have "j \<in># worker_ids s" by (rule slot_owner_mem(1) [OF k]) (simp add: slot_live_def r)
  then show "terminal (status (runner_effect f t))" if "j \<notin># queued_ids s + worker_ids s" for t
    using that by simp
qed auto

lemma exec_inv:
  assumes i: "sched_inv s" and e: "sched_exec tb a s = Some s'"
  shows "sched_inv s'"
proof (cases a)
  case (A_submit mem now th r)
  with e sched_inv_submit [OF i prod.collapse [symmetric], of mem now th r] show ?thesis by simp
next
  case (A_run k f)
  with e sched_inv_run [OF i] show ?thesis
    by (auto simp: on_worker_def split: if_splits wphase.splits)
next
  case (A_cancel j)
  with e i show ?thesis by (auto intro: sched_inv_update_task)
qed (use e i in \<open>auto simp: on_worker_def sched_inv_get sched_inv_acquire sched_inv_release sched_inv_limits
      sched_inv_next_id sched_inv_shutdown intro: sched_inv_pick sched_inv_after sched_inv_complete
      split: if_splits\<close>)

lemma pool_ok_frame:
  "slots s' = slots s \<Longrightarrow> queue s' = queue s \<Longrightarrow> shutdown_flag s' = (shutdown_flag s \<or> b) \<Longrightarrow>
   max_active s' = max_active s \<Longrightarrow> max_workers s' = max_workers s \<Longrightarrow> active s' = active s \<Longrightarrow>
   pool_ok s \<Longrightarrow> pool_ok s'"
  by (auto simp: pool_ok_def)

lemma update_task_pool [simp]:
  "shutdown_flag (update_task i f s) = shutdown_flag s" "max_active (update_task i f s) = max_active s"
  "max_workers (update_task i f s) = max_workers s"
  by (simp_all add: update_task_def)

lemma set_slot_pool [simp]:
  "shutdown_flag (set_slot k w s) = shutdown_flag s" "max_active (set_slot k w s) = max_active s"
  "max_workers (set_slot k w s) = max_workers s"
  by (simp_all add: set_slot_def)

lemma spawn_workers_max [simp]: "max_workers (spawn_workers n s) = max_workers s"
  by (induction n arbitrary: s) auto

lemma pool_ok_spawn:
  assumes "pool_ok s" shows "pool_ok (spawn_workers n s)"
proof -
  obtain m where m: "slots (spawn_workers n s) = slots s @ replicate m new_slot"
    "workers s \<le> max_workers s \<longrightarrow> workers s + m \<le> max_workers s"
    using spawn_workers_slots [of n s] by blast
  have "workers s + m \<le> max_workers s" using m(2) assms by (simp add: pool_ok_def)
  moreover have "w \<in> set (replicate m new_slot) \<Longrightarrow> phase w = W_idle" for w by (auto simp: new_slot_def)
  ultimately show ?thesis using assms m(1) by (auto simp: pool_ok_def)
qed

lemma pool_ok_set_slot:
  assumes p: "pool_ok s"
    and w: "phase w = W_exited \<longrightarrow> yields w = [] \<and> shutdown_flag s \<and> queue s = []"
  shows "pool_ok (set_slot k w s)"
proof -
  have "v \<in> set ((slots s)[k := w]) \<Longrightarrow> v = w \<or> v \<in> set (slots s)" for v
    using set_update_subset_insert [of "slots s" k w] by auto
  with p w show ?thesis by (auto simp: pool_ok_def)
qed

lemma pool_ok_submit:
  assumes p: "pool_ok s" and r: "scheduler_submit_configured_acceptance mem now th s r = (rc, s')"
  shows "pool_ok s'"
proof (cases "rc < 0 \<and> (s' = s \<or> s' = s\<lparr>rejected := rejected s + 1\<rparr>)")
  case True
  with p show ?thesis by (auto simp: pool_ok_def)
next
  case False
  let ?s = "s\<lparr>all_tasks := all_tasks s @ [submitted_task now (next_id s) r],
         queue := queue_insert (queue s) (TRef (rq_priority r) (next_id s)),
         next_id := next_id s + 1, active := active s + 1\<rparr>"
  have g: "\<not> shutdown_flag s" "\<not> (0 < max_active s \<and> max_active s \<le> active s)"
    using r False by (auto simp: scheduler_submit_configured_acceptance_def SCHEDULER_FULL_def split: if_splits)
  have "pool_ok ?s" using p g by (auto simp: pool_ok_def)
  with submit_cases [OF r] False show ?thesis by (auto intro: pool_ok_spawn)
qed

lemma pool_ok_active: "pool_ok s \<Longrightarrow> pool_ok (s\<lparr>completing := c, active := active s - 1, all_tasks := ts\<rparr>)"
  by (auto simp: pool_ok_def)

lemma pool_ok_pick:
  assumes p: "pool_ok s" and e: "worker_pick now ok k s = Some s'"
  shows "pool_ok s'"
  using e
proof (cases rule: worker_pick_cases)
  case (cont i ys)
  have "pool_ok (set_slot k ((slots s ! k)\<lparr>yields := ys, phase := W_run i\<rparr>) s)"
    by (rule pool_ok_set_slot [OF p]) simp
  then show ?thesis unfolding cont(3) by (rule pool_ok_frame [rotated 6, where b = False]) simp_all
next
  case (ready r q')
  have "queue s \<noteq> []" using ready(3) queue_pop_None [of "queue s"] by auto
  then have "pool_ok (s\<lparr>queue := q'\<rparr>)" using p by (auto simp: pool_ok_def)
  then have "pool_ok (set_slot k ((slots s ! k)\<lparr>phase := W_run (ref_id r)\<rparr>) (s\<lparr>queue := q'\<rparr>))"
    by (rule pool_ok_set_slot) simp
  then show ?thesis unfolding ready(4) by (rule pool_ok_frame [rotated 6, where b = False]) simp_all
next
  case leave
  have "pool_ok (s\<lparr>exited := exited s + 1\<rparr>)" using p by (simp add: pool_ok_def)
  then show ?thesis unfolding leave(5) by (rule pool_ok_set_slot) (use leave in simp)
qed

lemma pool_ok_after:
  assumes p: "pool_ok s" and e: "worker_after now fin k s = Some s'"
  shows "pool_ok s'"
  using e by (cases rule: worker_after_cases) (use p in \<open>auto intro!: pool_ok_set_slot pool_ok_active\<close>)

lemma pool_ok_complete:
  assumes p: "pool_ok s" and e: "worker_complete tb k s = Some s'"
  shows "pool_ok s'"
  using e
proof (cases rule: worker_complete_cases)
  case (1 i)
  let ?s = "set_slot k ((slots s ! k)\<lparr>phase := W_idle\<rparr>)
            (s\<lparr>all_tasks := map (\<lambda>t. if t_id t = i then complete_task t else t) (all_tasks s),
               completing := completing s - 1\<rparr>)"
  have "pool_ok ?s" using p by (intro pool_ok_set_slot) (auto simp: pool_ok_def)
  then show ?thesis unfolding 1(2) by (rule pool_ok_frame [rotated 6, where b = False]) simp_all
qed

lemma exec_pool:
  assumes p: "pool_ok s" and e: "sched_exec tb a s = Some s'"
  shows "pool_ok s'"
proof (cases a)
  case (A_submit mem now th r)
  with e pool_ok_submit [OF p prod.collapse [symmetric], of mem now th r] show ?thesis by simp
next
  case (A_pick now ok k)
  with e p show ?thesis by (auto simp: on_worker_def intro: pool_ok_pick split: if_splits)
next
  case (A_after now ok k)
  with e p show ?thesis by (auto simp: on_worker_def intro: pool_ok_after split: if_splits)
next
  case (A_complete k)
  with e p show ?thesis by (auto simp: on_worker_def intro: pool_ok_complete split: if_splits)
next
  case A_shutdown
  with e p show ?thesis by (auto simp: scheduler_shutdown_request_def pool_ok_def)
next
  case (A_run k f)
  with e obtain i where "s' = update_task i (runner_effect f) s"
    by (auto simp: on_worker_def split: if_splits wphase.splits)
  with p show ?thesis by (simp add: pool_ok_def)
qed (use e p in \<open>auto simp: scheduler_get_def scheduler_acquire_def scheduler_release_def
      scheduler_set_history_limits_def scheduler_ensure_next_id_def pool_ok_def Let_def
      split: if_splits option.splits\<close>)

interpretation sched_sys: invariant_system sched_start "sched_step tb" sched_ok for tb
proof
  fix s assume "sched_start s"
  then show "sched_ok s"
    by (auto simp: sched_start_def sched_ok_def pool_ok_def scheduler_new_limited_def new_slot_def
        intro: sched_inv_new split: if_splits)
next
  fix s s' assume "sched_ok s" "sched_step tb s s'"
  then show "sched_ok s'" by (auto simp: sched_ok_def intro: exec_inv exec_pool)
qed

section \<open>What a step does to one task\<close>

lemma task_in_update:
  "t \<in> set (all_tasks s) \<Longrightarrow> (if t_id t = i then f t else t) \<in> set (all_tasks (update_task i f s))"
  by (auto simp: update_task_def)


lemma all_tasks_spawn: "all_tasks (spawn_workers n s) = all_tasks s" by simp


text \<open>The image of a task under an action, before any pruning.\<close>

fun task_effect :: "action \<Rightarrow> sched \<Rightarrow> task \<Rightarrow> task" where
  "task_effect (A_pick now ok k) s t =
     (let w = slots s ! k
      in if case yields w of i # _ \<Rightarrow> t_id t = i
           | [] \<Rightarrow> (case queue_pop (queue s) of None \<Rightarrow> False | Some (r, _) \<Rightarrow> t_id t = ref_id r)
         then begin_task now ok t else t)"
| "task_effect (A_run k f) s t = (if phase (slots s ! k) = W_run (t_id t) then runner_effect f t else t)"
| "task_effect (A_after now fin k) s t =
     (case phase (slots s ! k) of
        W_run i \<Rightarrow> if t_id t = i \<and> (fin \<or> (case lookup_task i s of None \<Rightarrow> False | Some u \<Rightarrow> \<not> coro u))
                  then finish_task now t else t
      | _ \<Rightarrow> t)"
| "task_effect (A_complete k) s t = (if phase (slots s ! k) = W_done (t_id t) then complete_task t else t)"
| "task_effect (A_cancel i) s t = (if t_id t = i then t\<lparr>cancel_flag := True\<rparr> else t)"
| "task_effect (A_get i) s t = (if t_id t = i then t\<lparr>borrowed := True\<rparr> else t)"
| "task_effect (A_acquire i) s t = (if t_id t = i then t\<lparr>references := references t + 1\<rparr> else t)"
| "task_effect (A_release oi) s t =
     (if oi = Some (t_id t) \<and> references t \<noteq> 0 then t\<lparr>references := references t - 1\<rparr> else t)"
| "task_effect _ s t = t"

lemma task_effect_id [simp]: "t_id (task_effect a s t) = t_id t"
  by (cases a) (auto split: wphase.splits)

lemma update_task_lookup_missing:
  "i \<notin> t_id ` set (all_tasks s) \<Longrightarrow> update_task i f s = s"
proof -
  assume "i \<notin> t_id ` set (all_tasks s)"
  then have "map (\<lambda>t. if t_id t = i then f t else t) (all_tasks s) = all_tasks s" by (intro map_idI) auto
  then show ?thesis by (simp add: update_task_def)
qed

lemma get_as_update:
  assumes "sched_inv s"
  shows "all_tasks (snd (scheduler_get s i)) = all_tasks (update_task i (\<lambda>t. t\<lparr>borrowed := True\<rparr>) s)"
    and "all_tasks (snd (scheduler_acquire s i)) =
         all_tasks (update_task i (\<lambda>t. t\<lparr>references := references t + 1\<rparr>) s)"
proof -
  have "update_task i f s = s" if "find_task s i = None" for f
    using that find_task_complete [OF sched_invD(2) [OF assms]]
    by (intro update_task_lookup_missing) force
  then show "all_tasks (snd (scheduler_get s i)) = all_tasks (update_task i (\<lambda>t. t\<lparr>borrowed := True\<rparr>) s)"
    and "all_tasks (snd (scheduler_acquire s i)) =
         all_tasks (update_task i (\<lambda>t. t\<lparr>references := references t + 1\<rparr>) s)"
    using list_update_update_task [OF assms, of i _ "\<lambda>t. t\<lparr>borrowed := True\<rparr>"]
      list_update_update_task [OF assms, of i _ "\<lambda>t. t\<lparr>references := references t + 1\<rparr>"]
    by (auto simp: scheduler_get_def scheduler_acquire_def Let_def split: option.split)
qed


lemma prune_history_subset: "t \<in> set (all_tasks (prune_history tb s)) \<Longrightarrow> t \<in> set (all_tasks s)"
  by (auto simp: prune_history_def dest: subsetD [OF prune_loop_subset])

text \<open>And nothing else is in the index afterwards, but the task of a submission.\<close>

lemma exec_task_rev:
  assumes i: "sched_inv s" and e: "sched_exec tb a s = Some s'" and t: "t' \<in> set (all_tasks s')"
  shows "t' \<in> task_effect a s ` set (all_tasks s) \<or> t_id t' = next_id s"
proof (cases a)
  case (A_submit mem now th r)
  with e t submit_cases [OF prod.collapse [symmetric], of mem now th s r] show ?thesis by auto
next
  case (A_pick now ok k)
  with e have "worker_pick now ok k s = Some s'" by (auto simp: on_worker_def split: if_splits)
  then show ?thesis using t A_pick
    by (cases rule: worker_pick_cases) (auto simp: update_task_def queue_pop_None [THEN iffD2])
next
  case (A_run k f)
  with e obtain i where "phase (slots s ! k) = W_run i" "s' = update_task i (runner_effect f) s"
    by (auto simp: on_worker_def split: if_splits wphase.splits)
  with A_run have "all_tasks s' = map (task_effect a s) (all_tasks s)" by (simp add: update_task_def)
  with t show ?thesis by simp
next
  case (A_after now fin k)
  with e have "worker_after now fin k s = Some s'" by (auto simp: on_worker_def split: if_splits)
  then show ?thesis using t A_after by (cases rule: worker_after_cases) auto
next
  case (A_complete k)
  with e have "worker_complete tb k s = Some s'" by (auto simp: on_worker_def split: if_splits)
  then show ?thesis
  proof (cases rule: worker_complete_cases)
    case (1 i)
    with t have "t' \<in> set (map (\<lambda>t. if t_id t = i then complete_task t else t) (all_tasks s))"
      by (auto dest!: prune_history_subset)
    with 1(1) A_complete show ?thesis by auto
  qed
next
  case (A_release oi)
  show ?thesis
  proof (cases oi)
    case None
    with e t A_release show ?thesis by (auto simp: scheduler_release_def)
  next
    case (Some j)
    let ?f = "\<lambda>t. if references t \<noteq> 0 then t\<lparr>references := references t - 1\<rparr> else t"
    have "s' = prune_history tb (update_task j ?f s)"
      using e A_release Some by (simp add: scheduler_release_def)
    with t have "t' \<in> set (all_tasks (update_task j ?f s))" by (simp only: prune_history_subset)
    moreover have "all_tasks (update_task j ?f s) = map (task_effect a s) (all_tasks s)"
      by (simp add: update_task_def A_release Some)
    ultimately show ?thesis by simp
  qed
next
  case (A_limits n b)
  with e t have "t' \<in> set (all_tasks s)"
    by (auto simp: scheduler_set_history_limits_def dest!: prune_history_subset)
  with A_limits show ?thesis by simp
next
  case (A_get j)
  with e get_as_update(1) [OF i, of j] have "all_tasks s' = map (task_effect a s) (all_tasks s)"
    by (simp add: update_task_def)
  with t show ?thesis by simp
next
  case (A_acquire j)
  with e get_as_update(2) [OF i, of j] have "all_tasks s' = map (task_effect a s) (all_tasks s)"
    by (simp add: update_task_def)
  with t show ?thesis by simp
next
  case (A_cancel j)
  with e have "all_tasks s' = map (task_effect a s) (all_tasks s)"
    by (auto simp: update_task_def)
  with t show ?thesis by simp
qed (use e t in \<open>auto simp: update_task_def scheduler_ensure_next_id_def scheduler_shutdown_request_def split: if_splits\<close>)

lemma completed_not_owned:
  assumes i: "sched_inv s" and t: "t \<in> set (all_tasks s)" "completed t"
  shows "t_id t \<notin># queued_ids s + worker_ids s + done_ids s"
proof
  assume "t_id t \<in># queued_ids s + worker_ids s + done_ids s"
  then obtain u where u: "u \<in> set (all_tasks s)" "t_id u = t_id t" "\<not> completed u"
    using owned_task_exists [OF i] by blast
  with task_id_unique [OF i u(1) t(1) u(2)] t(2) show False by simp
qed

text \<open>No action of a worker reaches a completed task.\<close>

lemma completed_effect:
  assumes i: "sched_inv s" and e: "sched_exec tb a s = Some s'"
    and t: "t \<in> set (all_tasks s)" "completed t"
  shows "completed (task_effect a s t) \<and> status (task_effect a s t) = status t \<and>
         t_output (task_effect a s t) = t_output t \<and> finished_ms (task_effect a s t) = finished_ms t"
proof -
  note no = completed_not_owned [OF i t]
  have run: "k < workers s \<Longrightarrow> phase (slots s ! k) \<noteq> W_run (t_id t)" for k
    using slot_owner_mem(1) [of k s "t_id t"] no by (auto simp: slot_live_def)
  have dn: "k < workers s \<Longrightarrow> phase (slots s ! k) \<noteq> W_done (t_id t)" for k
    using slot_owner_mem(2) [of k s "t_id t"] no by (auto simp: slot_done_def)
  have yl: "k < workers s \<Longrightarrow> yields (slots s ! k) \<noteq> t_id t # ys" for k ys
    using slot_owner_mem(1) [of k s "t_id t"] no by (auto simp: slot_live_def)
  have qu: "queue_pop (queue s) = Some (r, q') \<Longrightarrow> ref_id r \<noteq> t_id t" for r q'
    using rq.bag_pop [OF sched_invD(1) [OF i], of r q'] no by (auto simp: queued_ids_def)
  show ?thesis
    using e t(2) run dn yl qu
    by (cases a) (auto simp: on_worker_def Let_def split: if_splits wphase.splits list.splits option.splits)
qed

lemma sum_list_empty_iff: "sum_list (map f xs) = {#} \<longleftrightarrow> (\<forall>x \<in> set xs. f x = {#})"
  by (induction xs) auto

lemma idle_owned:
  assumes "sched_inv s"
  shows "scheduler_idle s \<longleftrightarrow> queued_ids s = {#} \<and> worker_ids s = {#} \<and> done_ids s = {#}"
proof -
  have "scheduler_idle s \<longleftrightarrow> size (queued_ids s + worker_ids s) = 0 \<and> size (done_ids s) = 0"
    using sched_invD(5,6) [OF assms] unfolding scheduler_idle_def by linarith
  then show ?thesis by simp
qed

section \<open>Properties\<close>

text \<open>C1: in every reachable state of the scheduler each id held by the ready queue, by a
  worker's list of continuations, by a running or a finishing worker is held exactly once, and the task it points to
  is still in the index and not completed, where the binary search finds it; so no pruning leaves
  a dangling pointer and no task runs on two workers.\<close>

theorem sched_reachable_owned:
  assumes "sched_start s0" "(sched_step tb)\<^sup>*\<^sup>* s0 s"
    and "i \<in># queued_ids s + worker_ids s + done_ids s"
  shows "count (queued_ids s + worker_ids s + done_ids s) i = 1 \<and>
         (\<exists>k. find_task s i = Some k \<and> \<not> completed (all_tasks s ! k))"
proof -
  have ok: "sched_inv s" using sched_sys.inv_reachable [OF assms(1,2)] by (simp add: sched_ok_def)
  have "count (queued_ids s + worker_ids s + done_ids s) i \<le> 1"
    unfolding sched_invD(4) [OF ok] by (rule incomplete_ids_count [OF ok])
  moreover have "0 < count (queued_ids s + worker_ids s + done_ids s) i"
    using assms(3) by (simp only: count_greater_zero_iff)
  ultimately have "count (queued_ids s + worker_ids s + done_ids s) i = 1" by linarith
  moreover obtain t where "t \<in> set (all_tasks s)" "t_id t = i" "\<not> completed t"
    using owned_task_exists [OF ok assms(3)] by blast
  ultimately show ?thesis using find_task_complete [OF sched_invD(2) [OF ok], of t] by metis
qed

definition demo_req :: "int \<Rightarrow> submit_req" where
  "demo_req p = \<lparr>rq_priority = p, rq_input = None, rq_timeout_ms = 0, rq_tag = None, rq_thinking_mode = 0,
     rq_attachments = None, rq_workspace = None, rq_stream_preview = False, rq_permission_mode = 0,
     rq_llm_config = None, rq_acceptance = None\<rparr>"

definition demo_mem :: submit_mem where
  "demo_mem = \<lparr>ok_task = True, ok_dup = True, ok_all = True, ok_queue = True\<rparr>"

definition demo_start :: sched where
  "demo_start = the (scheduler_new_limited True 2 4 3)"

definition demo_acts :: "action list" where
  "demo_acts = [A_submit demo_mem 10 8 (demo_req 5), A_submit demo_mem 11 8 (demo_req 1),
                A_pick 12 True 0, A_pick 13 True 1, A_after 14 True 0, A_acquire 1,
                A_after 15 False 1, A_submit demo_mem 16 8 (demo_req 3)]"

definition demo_state :: sched where
  "demo_state = the (sched_run (\<lambda>_. 1) demo_acts demo_start)"

lemma demo_start_ok: "sched_start demo_start"
  unfolding sched_start_def demo_start_def
  by (rule exI [of _ True], rule exI [of _ 2], rule exI [of _ 4], rule exI [of _ 3])
     (simp add: scheduler_new_limited_def)

lemma demo_run: "sched_run (\<lambda>_. 1) demo_acts demo_start = Some demo_state"
  by code_simp

lemma demo_reach: "(sched_step (\<lambda>_. 1))\<^sup>*\<^sup>* demo_start demo_state"
  by (rule sched_run_steps [OF demo_run])

lemma sched_reachable_owned_witness:
  "count (queued_ids demo_state + worker_ids demo_state + done_ids demo_state) 0 = 1 \<and>
   (\<exists>k. find_task demo_state 0 = Some k \<and> \<not> completed (all_tasks demo_state ! k))"
  by (rule sched_reachable_owned [OF demo_start_ok demo_reach]) code_simp



text \<open>C4: once a task is completed (its completion callback returned), no later step
  changes its status, output or finish stamp, whatever workers and clients do.\<close>

theorem sched_completed_frozen:
  assumes "sched_start s0" "(sched_step tb)\<^sup>*\<^sup>* s0 s" "sched_step tb s s'"
    and "t \<in> set (all_tasks s)" "completed t" "t' \<in> set (all_tasks s')" "t_id t' = t_id t"
  shows "completed t' \<and> terminal (status t') \<and> status t' = status t \<and> t_output t' = t_output t \<and>
         finished_ms t' = finished_ms t"
proof -
  have ok: "sched_inv s" using sched_sys.inv_reachable [OF assms(1,2)] by (simp add: sched_ok_def)
  obtain a where e: "sched_exec tb a s = Some s'" using assms(3) by blast
  have "t_id t \<noteq> next_id s" using sched_invD(3) [OF ok assms(4)] by simp
  then obtain u where u: "u \<in> set (all_tasks s)" "t' = task_effect a s u"
    using exec_task_rev [OF ok e assms(6)] assms(7) by auto
  have "u = t" using task_id_unique [OF ok u(1) assms(4)] assms(7) u(2) by simp
  with completed_effect [OF ok e assms(4,5)] sched_invD(10) [OF ok assms(4)] assms(5) u(2)
  show ?thesis by simp
qed

definition demo_done :: sched where
  "demo_done = the (sched_run (\<lambda>_. 1) [A_complete 0] demo_state)"

definition demo_cancelled :: sched where
  "demo_cancelled = update_task 1 (\<lambda>t. t\<lparr>cancel_flag := True\<rparr>) demo_done"

lemma demo_done_reach: "(sched_step (\<lambda>_. 1))\<^sup>*\<^sup>* demo_start demo_done"
proof -
  have "sched_run (\<lambda>_. 1) [A_complete 0] demo_state = Some demo_done" by code_simp
  from rtranclp_trans [OF demo_reach sched_run_steps [OF this]] show ?thesis .
qed

lemma demo_done_step: "sched_step (\<lambda>_. 1) demo_done demo_cancelled"
  by (rule sched_step.exec [of _ "A_cancel 1"]) (simp add: demo_cancelled_def)

lemma sched_completed_frozen_witness:
  "completed (all_tasks demo_cancelled ! 1) \<and> terminal (status (all_tasks demo_cancelled ! 1)) \<and>
   status (all_tasks demo_cancelled ! 1) = status (all_tasks demo_done ! 1) \<and>
   t_output (all_tasks demo_cancelled ! 1) = t_output (all_tasks demo_done ! 1) \<and>
   finished_ms (all_tasks demo_cancelled ! 1) = finished_ms (all_tasks demo_done ! 1)"
proof -
  have t: "all_tasks demo_done ! 1 \<in> set (all_tasks demo_done)" "completed (all_tasks demo_done ! 1)"
    by code_simp+
  have v: "all_tasks demo_cancelled ! 1 \<in> set (all_tasks demo_cancelled)"
    "t_id (all_tasks demo_cancelled ! 1) = t_id (all_tasks demo_done ! 1)"
    by code_simp+
  show ?thesis by (rule sched_completed_frozen [OF demo_start_ok demo_done_reach demo_done_step t v])
qed

definition demo_idle :: sched where
  "demo_idle = the (sched_run (\<lambda>_. 1) [A_submit demo_mem 10 8 (demo_req 5), A_pick 12 True 0,
     A_after 14 True 0, A_complete 0] demo_start)"

lemma demo_idle_reach: "(sched_step (\<lambda>_. 1))\<^sup>*\<^sup>* demo_start demo_idle"
proof (rule sched_run_steps)
  show "sched_run (\<lambda>_. 1) [A_submit demo_mem 10 8 (demo_req 5), A_pick 12 True 0,
     A_after 14 True 0, A_complete 0] demo_start = Some demo_idle" by code_simp
qed

text \<open>When \<open>scheduler_wait_idle\<close> returns 0, the ready queue is empty, no worker holds
  a task, and every task still in the index is completed with a terminal status.\<close>

theorem sched_idle_all_finished:
  assumes "sched_start s0" "(sched_step tb)\<^sup>*\<^sup>* s0 s" "scheduler_idle s"
  shows "queue s = [] \<and> (\<forall>w \<in> set (slots s). yields w = [] \<and> (phase w = W_idle \<or> phase w = W_exited)) \<and>
         (\<forall>t \<in> set (all_tasks s). completed t \<and> terminal (status t))"
proof -
  have ok: "sched_inv s" using sched_sys.inv_reachable [OF assms(1,2)] by (simp add: sched_ok_def)
  have "worker_ids s = {#}" "done_ids s = {#}"
    using assms(3) by (simp_all add: idle_owned [OF ok])
  then have "w \<in> set (slots s) \<Longrightarrow> slot_live w = {#} \<and> slot_done w = {#}" for w
    by (auto simp: worker_ids_def done_ids_def sum_list_empty_iff)
  moreover have "slot_live w = {#} \<and> slot_done w = {#} \<Longrightarrow>
      yields w = [] \<and> (phase w = W_idle \<or> phase w = W_exited)" for w
    by (cases "phase w") (auto simp: slot_live_def slot_done_def)
  ultimately show ?thesis using idle_all_completed [OF ok assms(3)] by blast
qed

lemma sched_idle_all_finished_witness:
  "queue demo_idle = [] \<and> completed (all_tasks demo_idle ! 0) \<and> terminal (status (all_tasks demo_idle ! 0))"
proof -
  have "scheduler_idle demo_idle" "0 < length (all_tasks demo_idle)" by code_simp+
  then show ?thesis
    using sched_idle_all_finished [OF demo_start_ok demo_idle_reach] nth_mem by blast
qed

text \<open>C2: the scheduler never wedges: in every reachable state that is not idle, some worker has an
  enabled step (it can take a task, return from one, or finish a completion).\<close>

theorem sched_progress:
  assumes "sched_start s0" "(sched_step tb)\<^sup>*\<^sup>* s0 s" "\<not> scheduler_idle s"
  shows "\<exists>k < workers s. worker_pick now ok k s \<noteq> None \<or> worker_after now fin k s \<noteq> None \<or>
           worker_complete tb k s \<noteq> None"
proof -
  have inv: "sched_inv s" and pool: "pool_ok s"
    using sched_sys.inv_reachable [OF assms(1,2)] by (simp_all add: sched_ok_def)
  have slot: "\<exists>k < workers s. slots s ! k = w" if "w \<in> set (slots s)" for w
    using that by (auto simp: in_set_conv_nth)
  show ?thesis
  proof (cases "\<exists>w \<in> set (slots s). (\<exists>i. phase w = W_run i \<or> phase w = W_done i) \<or>
                   phase w = W_idle \<and> yields w \<noteq> []")
    case True
    then obtain k where k: "k < workers s" and w: "(\<exists>i. phase (slots s ! k) = W_run i \<or> phase (slots s ! k) = W_done i) \<or>
                   phase (slots s ! k) = W_idle \<and> yields (slots s ! k) \<noteq> []"
      using slot by metis
    have "lookup_task i s \<noteq> None" if "phase (slots s ! k) = W_run i" for i
    proof -
      have "i \<in># worker_ids s" using that by (intro slot_owner_mem(1) [OF k]) (simp add: slot_live_def)
      then obtain t where "t \<in> set (all_tasks s)" "t_id t = i" using owned_task_exists [OF inv, of i] by auto
      then show ?thesis by (auto simp: lookup_task_def find_None_iff)
    qed
    with w k show ?thesis
      by (intro exI [of _ k])
         (auto simp: worker_pick_def worker_after_def worker_complete_def Let_def
           split: list.splits option.splits)
  next
    case False
    then have none: "w \<in> set (slots s) \<Longrightarrow> slot_live w = {#} \<and> slot_done w = {#}" for w
      using pool by (cases "phase w") (auto simp: slot_live_def slot_done_def pool_ok_def)
    then have "worker_ids s = {#}" "done_ids s = {#}"
      by (auto simp: worker_ids_def done_ids_def sum_list_empty_iff)
    then have "queue s \<noteq> []"
      using assms(3) by (auto simp: idle_owned [OF inv] queued_ids_def)
    moreover have k: "0 < workers s" using pool by (simp add: pool_ok_def)
    moreover have "slots s ! 0 \<in> set (slots s)" using k by (rule nth_mem)
    then have "phase (slots s ! 0) = W_idle \<and> yields (slots s ! 0) = []"
      using False pool \<open>queue s \<noteq> []\<close> by (cases "phase (slots s ! 0)") (auto simp: pool_ok_def)
    ultimately have "worker_pick now ok 0 s \<noteq> None"
      by (auto simp: worker_pick_def Let_def queue_pop_None split: option.splits)
    with k show ?thesis by blast
  qed
qed

lemma sched_progress_witness:
  "\<exists>k < workers demo_state. worker_pick 20 True k demo_state \<noteq> None \<or>
     worker_after 20 True k demo_state \<noteq> None \<or> worker_complete (\<lambda>_. 1) k demo_state \<noteq> None"
  by (rule sched_progress [OF demo_start_ok demo_reach]) code_simp

text \<open>A worker with no continuation of its own takes from the ready queue the task with
  the least priority number and, among equals, the one submitted first; every other ready task stays
  ready.\<close>

theorem sched_dispatch_best:
  assumes "sched_start s0" "(sched_step tb)\<^sup>*\<^sup>* s0 s" "worker_pick now ok k s = Some s'"
    and "k < workers s" "yields (slots s ! k) = []" "phase (slots s' ! k) = W_run i"
  shows "\<exists>r \<in> set (queue s). ref_id r = i \<and> mset (queue s) = add_mset r (mset (queue s')) \<and>
           (\<forall>q \<in> set (queue s'). ref_prio r < ref_prio q \<or> ref_prio r = ref_prio q \<and> i < ref_id q)"
proof -
  have inv: "sched_inv s" using sched_sys.inv_reachable [OF assms(1,2)] by (simp add: sched_ok_def)
  note h = sched_invD(1) [OF inv]
  show ?thesis using assms(3)
  proof (cases rule: worker_pick_cases)
    case (ready r q')
    have b: "mset (queue s) = add_mset r (mset q')" by (rule rq.bag_pop [OF h ready(3)])
    have i: "ref_id r = i" and q: "queue s' = q'" using ready(4) assms(4,6) by simp_all
    have nin: "ref_id r \<notin># image_mset ref_id (mset q')"
    proof
      assume "ref_id r \<in># image_mset ref_id (mset q')"
      then have "2 \<le> count (queued_ids s) (ref_id r)"
        using b by (simp add: queued_ids_def Suc_le_eq del: count_image_mset)
      then show False
        using incomplete_ids_count [OF inv, of "ref_id r"] sched_invD(4) [OF inv, symmetric] by simp
    qed
    have ne: "q \<in> set q' \<Longrightarrow> ref_id q \<noteq> i" for q using nin i by (metis in_image_mset imageI set_mset_mset)
    have "ref_prio r < ref_prio q \<or> ref_prio r = ref_prio q \<and> i < ref_id q" if q: "q \<in> set q'" for q
    proof -
      have "r \<le> q" using rq.pop_min [OF h ready(3)] b q by simp
      with ne [OF q] i show ?thesis by (cases r; cases q) (auto simp: tref_le_iff)
    qed
    then have "\<forall>q \<in> set q'. ref_prio r < ref_prio q \<or> ref_prio r = ref_prio q \<and> i < ref_id q" by blast
    moreover have "r \<in> set (queue s)" using b by (metis set_mset_mset union_single_eq_member)
    ultimately show ?thesis using b i q by blast
  qed (use assms in simp_all)
qed

lemma sched_dispatch_best_witness:
  "\<exists>r \<in> set (queue demo_done). ref_id r = 2 \<and>
     mset (queue demo_done) = add_mset r (mset (queue (the (worker_pick 30 True 0 demo_done))))"
proof -
  have p: "worker_pick 30 True 0 demo_done = Some (the (worker_pick 30 True 0 demo_done))" by code_simp
  have "0 < workers demo_done" "yields (slots demo_done ! 0) = []"
    "phase (slots (the (worker_pick 30 True 0 demo_done)) ! 0) = W_run 2" by code_simp+
  from sched_dispatch_best [OF demo_start_ok demo_done_reach p this] show ?thesis by blast
qed

lemma submit_outcome:
  assumes "scheduler_submit_configured_acceptance mem now th s r = (rc, s')"
  shows "(rc = -1 \<and> s' = s) \<or>
    (rc = SCHEDULER_FULL \<and> 0 < max_active s \<and> max_active s \<le> active s \<and> s' = s\<lparr>rejected := rejected s + 1\<rparr>) \<or>
    (rc = next_id s \<and> \<not> shutdown_flag s \<and> (0 < max_active s \<longrightarrow> active s < max_active s) \<and>
     s' = spawn_workers th (s\<lparr>all_tasks := all_tasks s @ [submitted_task now (next_id s) r],
         queue := queue_insert (queue s) (TRef (rq_priority r) (next_id s)),
         next_id := next_id s + 1, active := active s + 1\<rparr>))"
  using assms
  by (simp add: scheduler_submit_configured_acceptance_def Let_def not_le split: if_splits) auto

text \<open>What a submission answers in a reachable state: an id never used before for a task that is
  then queued under it, or \<open>SCHEDULER_FULL\<close> exactly when the limit of active tasks is reached (counted
  in \<open>rejected\<close>, no id consumed), or \<open>-1\<close> with the state unchanged.\<close>

theorem sched_admission:
  assumes "sched_start s0" "(sched_step tb)\<^sup>*\<^sup>* s0 s"
    and "scheduler_submit_configured_acceptance mem now th s r = (rc, s')"
  shows "(rc = next_id s \<and> \<not> shutdown_flag s \<and> (0 < max_active s \<longrightarrow> active s < max_active s) \<and>
            (\<forall>t \<in> set (all_tasks s). t_id t < rc) \<and> rc \<in># queued_ids s' \<and>
            (\<exists>k. find_task s' rc = Some k \<and> all_tasks s' ! k = submitted_task now rc r) \<and>
            next_id s' = rc + 1 \<and> active s' = active s + 1) \<or>
         (rc = SCHEDULER_FULL \<and> 0 < max_active s \<and> active s = max_active s \<and>
            s' = s\<lparr>rejected := rejected s + 1\<rparr>) \<or>
         (rc = -1 \<and> s' = s)"
proof -
  have inv: "sched_inv s" and pool: "pool_ok s"
    using sched_sys.inv_reachable [OF assms(1,2)] by (simp_all add: sched_ok_def)
  have inv': "sched_inv s'" by (rule sched_inv_submit [OF inv assms(3)])
  let ?t = "submitted_task now (next_id s) r"
  let ?s = "s\<lparr>all_tasks := all_tasks s @ [?t],
         queue := queue_insert (queue s) (TRef (rq_priority r) (next_id s)),
         next_id := next_id s + 1, active := active s + 1\<rparr>"
  have lim: "0 < max_active s \<longrightarrow> active s \<le> max_active s" using pool by (simp add: pool_ok_def)
  note out = submit_outcome [OF assms(3)]
  then consider "rc = -1" "s' = s"
    | "rc = SCHEDULER_FULL" "0 < max_active s" "max_active s \<le> active s" "s' = s\<lparr>rejected := rejected s + 1\<rparr>"
    | "rc = next_id s" "s' = spawn_workers th ?s" "\<not> shutdown_flag s"
      "0 < max_active s \<longrightarrow> active s < max_active s"
    by metis
  then show ?thesis
  proof cases
    case 3
    have "?t \<in> set (all_tasks s')" by (simp add: 3)
    from find_task_complete [OF sched_invD(2) [OF inv'] this]
    have "\<exists>k. find_task s' rc = Some k \<and> all_tasks s' ! k = submitted_task now rc r" by (simp add: 3)
    moreover have "rc \<in># queued_ids s'" by (simp add: 3 mset_queue_insert)
    ultimately show ?thesis using 3 sched_invD(3) [OF inv] by auto
  qed (use lim in auto)
qed

lemma sched_admission_witness:
  "fst (scheduler_submit_configured_acceptance demo_mem 40 8 demo_state (demo_req 2)) = 3 \<and>
   3 \<in># queued_ids (snd (scheduler_submit_configured_acceptance demo_mem 40 8 demo_state (demo_req 2))) \<and>
   next_id (snd (scheduler_submit_configured_acceptance demo_mem 40 8 demo_state (demo_req 2))) = 4"
proof -
  let ?r = "scheduler_submit_configured_acceptance demo_mem 40 8 demo_state (demo_req 2)"
  have "fst ?r = 3" "(3::int) \<noteq> SCHEDULER_FULL" "(3::int) \<noteq> -1" by code_simp+
  with sched_admission [OF demo_start_ok demo_reach prod.collapse [symmetric], of demo_mem 40 8 "demo_req 2"]
  show ?thesis by auto
qed

text \<open>After the history limits are set, either the completed tasks that stay are within
  both limits (0 means no limit), or every completed task that stays is referenced or borrowed; the
  tasks that are not completed all stay.\<close>

theorem sched_history_bounded:
  fixes s tb n b
  defines "s' \<equiv> scheduler_set_history_limits tb s n b"
  shows "((n = 0 \<or> length (retained (all_tasks s')) \<le> n) \<and>
          (b = 0 \<or> retained_bytes tb (all_tasks s') \<le> b) \<or>
          (\<forall>t \<in> set (retained (all_tasks s')). pinned t)) \<and>
         incomplete_list (all_tasks s') = incomplete_list (all_tasks s) \<and>
         set (all_tasks s') \<subseteq> set (all_tasks s)"
proof -
  let ?s = "s\<lparr>history_count := n, history_bytes := b\<rparr>"
  have eq: "all_tasks s' = prune_loop tb ?s (length (retained (all_tasks s))) (retained_bytes tb (all_tasks s)) (all_tasks s)"
    by (simp add: s'_def scheduler_set_history_limits_def prune_history_def)
  from prune_loop_limits [of _ 0 "all_tasks s" _ 0 tb ?s]
  have "within_history ?s (length (retained (all_tasks s'))) (retained_bytes tb (all_tasks s')) \<or>
        (\<forall>t \<in> set (all_tasks s'). completed t \<longrightarrow> pinned t)"
    by (simp add: eq Let_def)
  then show ?thesis
    using prune_loop_subset by (auto simp: within_history_def retained_def eq incomplete_prune_loop dest: subsetD)
qed

lemma sched_history_bounded_witness:
  "incomplete_list (all_tasks (scheduler_set_history_limits (\<lambda>_. 1) demo_done 1 1)) =
   incomplete_list (all_tasks demo_done)"
  using sched_history_bounded [of 1 "\<lambda>_. 1" demo_done 1] by blast

end
