(* ===== verification/RingConc.thy ===== *)
theory RingConc
  imports CBase
begin

text \<open>
  The ring buffer of \<open>src/backend/src/infra/ringbuf.c\<close> under concurrency: any number of threads inside
  \<open>ringbuf_push\<close> and \<open>ringbuf_pop\<close>, interleaved at every atomic access of the code (load of the
  position, load of the sequence number with its test, compare-and-swap, store or load of the slot,
  store of the sequence number). A weak compare-and-swap may fail for no reason.

  Positions are natural numbers here: the wrap-around at 64 bits, which \<open>RingBuf\<close> treats, would take
  \<open>2 ^ 64\<close> operations during the delay of one thread. The memory order of the code makes the slot
  store visible before the sequence store that publishes it; the interleaving model has that order.

  \<open>claims\<close> and \<open>taken\<close> are history: the item whose push won position \<open>p\<close>, and the pops in the order in
  which they read their slot.
\<close>

section \<open>Threads and steps\<close>














section \<open>The invariant\<close>













subsection \<open>Steps that only move a thread\<close>




subsection \<open>Winning a position\<close>





subsection \<open>Using and giving on an owned slot\<close>








section \<open>Every step\<close>






section \<open>Properties\<close>






end
