(* ===== verification/RingBuf.thy ===== *)
theory RingBuf
  imports CBase
begin

unbundle bit_operations_syntax

text \<open>
  The bounded ring buffer of \<open>src/backend/src/infra/ringbuf.c\<close>: a slot array with a sequence number
  per slot, positions that only grow (and wrap at 64 bits), the slot of a position being its low bits.
  Here each call runs to completion alone; its compare-and-swap then succeeds. The third branch of the
  code's loop, reloading the position because another thread moved it, is the answer \<open>RB_retry\<close>; it
  is shown not to occur. The interleaved behaviour is in \<open>RingConc\<close>.

  The buffer refines a bounded first-in first-out list (\<open>rb_holds\<close>), which is what the event bus
  relies on (locale \<open>bounded_fifo\<close>).
\<close>

section \<open>The interface\<close>

locale bounded_fifo =
  fixes push :: "'a \<Rightarrow> 'q \<Rightarrow> bool \<times> 'q"
    and pop :: "'q \<Rightarrow> ('a \<times> 'q) option"
    and items :: "'q \<Rightarrow> 'a list"
    and room :: "'q \<Rightarrow> nat"
    and inv :: "'q \<Rightarrow> bool"
  assumes push_ok: "inv q \<Longrightarrow> length (items q) < room q \<Longrightarrow>
      \<exists>q'. push x q = (True, q') \<and> items q' = items q @ [x] \<and> room q' = room q \<and> inv q'"
    and push_full: "inv q \<Longrightarrow> length (items q) = room q \<Longrightarrow> push x q = (False, q)"
    and items_le: "inv q \<Longrightarrow> length (items q) \<le> room q"
    and pop_empty: "inv q \<Longrightarrow> items q = [] \<Longrightarrow> pop q = None"
    and pop_front: "inv q \<Longrightarrow> items q = x # xs \<Longrightarrow>
      \<exists>q'. pop q = Some (x, q') \<and> items q' = xs \<and> room q' = room q \<and> inv q'"
begin

primrec push_all :: "'a list \<Rightarrow> 'q \<Rightarrow> nat \<times> 'q" where
  "push_all [] q = (0, q)"
| "push_all (x # xs) q =
     (let (ok, q1) = push x q; (n, q2) = push_all xs q1 in (if ok then n else n + 1, q2))"

text \<open>Pushing a batch keeps a prefix of it, in order, and reports how many did not fit.\<close>

lemma push_all_spec:
  "inv q \<Longrightarrow> \<exists>q'. push_all xs q = (length xs - (room q - length (items q)), q') \<and>
     items q' = items q @ take (room q - length (items q)) xs \<and> room q' = room q \<and> inv q'"
proof (induction xs arbitrary: q)
  case Nil
  then show ?case by simp
next
  case (Cons x xs)
  show ?case
  proof (cases "length (items q) < room q")
    case True
    from push_ok [OF Cons.prems True] obtain q1 where
      q1: "push x q = (True, q1)" "items q1 = items q @ [x]" "room q1 = room q" "inv q1" by blast
    from Cons.IH [OF q1(4)] obtain q2 where
      q2: "push_all xs q1 = (length xs - (room q1 - length (items q1)), q2)"
        "items q2 = items q1 @ take (room q1 - length (items q1)) xs" "room q2 = room q1" "inv q2" by blast
    obtain d where d: "room q - length (items q) = Suc d" using True by (metis Suc_diff_Suc)
    then have "room q - Suc (length (items q)) = d" by simp
    with q1 q2 d show ?thesis by simp
  next
    case False
    with items_le [OF Cons.prems] have full: "length (items q) = room q" by simp
    from Cons.IH [OF Cons.prems] full push_full [OF Cons.prems full] show ?thesis by auto
  qed
qed

lemma pop_Some_items:
  "inv q \<Longrightarrow> pop q = Some (x, q') \<Longrightarrow> items q = x # items q' \<and> room q' = room q \<and> inv q'"
  by (cases "items q") (use pop_empty pop_front in fastforce)+

lemma pop_None_iff: "inv q \<Longrightarrow> pop q = None \<longleftrightarrow> items q = []"
  by (cases "items q") (use pop_empty pop_front in fastforce)+

end

section \<open>The slots\<close>

type_synonym pos = "64 word"

record 'a ringbuf =
  rdata :: "'a option list"
  rseq :: "pos list"
  rmask :: pos
  enqueue_pos :: pos
  dequeue_pos :: pos

text \<open>The size test and the initial sequence numbers; allocation failure is \<open>ok = False\<close>.\<close>

definition ringbuf_new :: "bool \<Rightarrow> pos \<Rightarrow> 'a ringbuf option" where
  "ringbuf_new ok n =
     (if n < 2 \<or> n AND (n - 1) \<noteq> 0 then None
      else if \<not> ok then None
      else Some \<lparr>rdata = replicate (unat n) None, rseq = map of_nat [0..<unat n],
                 rmask = n - 1, enqueue_pos = 0, dequeue_pos = 0\<rparr>)"

definition cell :: "'a ringbuf \<Rightarrow> pos \<Rightarrow> nat" where
  "cell r p = unat (p AND rmask r)"

text \<open>\<open>(intptr_t)seq - (intptr_t)pos\<close>, a two's complement difference.\<close>

definition seq_diff :: "pos \<Rightarrow> pos \<Rightarrow> int" where
  "seq_diff s p = sint (s - p)"

datatype rb_answer = RB_ok | RB_none | RB_retry

definition ringbuf_push :: "'a \<Rightarrow> 'a ringbuf \<Rightarrow> rb_answer \<times> 'a ringbuf" where
  "ringbuf_push x r =
     (let p = enqueue_pos r; c = cell r p; diff = seq_diff (rseq r ! c) p
      in if diff = 0
         then (RB_ok, r\<lparr>enqueue_pos := p + 1, rdata := (rdata r)[c := Some x], rseq := (rseq r)[c := p + 1]\<rparr>)
         else if diff < 0 then (RB_none, r)
         else (RB_retry, r))"

definition ringbuf_pop :: "'a ringbuf \<Rightarrow> rb_answer \<times> 'a option \<times> 'a ringbuf" where
  "ringbuf_pop r =
     (let p = dequeue_pos r; c = cell r p; diff = seq_diff (rseq r ! c) (p + 1)
      in if diff = 0
         then (RB_ok, rdata r ! c, r\<lparr>dequeue_pos := p + 1, rseq := (rseq r)[c := p + rmask r + 1]\<rparr>)
         else if diff < 0 then (RB_none, None, r)
         else (RB_retry, None, r))"

definition ringbuf_empty :: "'a ringbuf \<Rightarrow> bool" where
  "ringbuf_empty r \<longleftrightarrow> seq_diff (rseq r ! cell r (dequeue_pos r)) (dequeue_pos r + 1) < 0"

section \<open>Refinement of a bounded queue\<close>

text \<open>
  \<open>rb_holds k d q r\<close>: the buffer has \<open>2^k\<close> slots, \<open>d\<close> elements were removed in all, and \<open>q\<close> is what it
  holds: the slots of the positions \<open>d .. d + length q - 1\<close> carry their items and the next sequence
  number, the others wait for their next position.
\<close>

definition rb_holds :: "nat \<Rightarrow> nat \<Rightarrow> 'a list \<Rightarrow> 'a ringbuf \<Rightarrow> bool" where
  "rb_holds k d q r \<longleftrightarrow>
     0 < k \<and> k < 62 \<and> length q \<le> 2 ^ k \<and>
     length (rdata r) = 2 ^ k \<and> length (rseq r) = 2 ^ k \<and>
     rmask r = mask k \<and>
     dequeue_pos r = of_nat d \<and> enqueue_pos r = of_nat (d + length q) \<and>
     (\<forall>i < 2 ^ k. rseq r ! ((d + i) mod 2 ^ k) = of_nat (if i < length q then d + i + 1 else d + i)) \<and>
     (\<forall>i < length q. rdata r ! ((d + i) mod 2 ^ k) = Some (q ! i))"

lemma cell_of_nat:
  assumes "rmask r = mask k" "k < 62"
  shows "cell r (of_nat n) = n mod 2 ^ k"
proof -
  have "unat ((of_nat n :: pos) AND mask k) = take_bit k (unat (of_nat n :: pos))"
    by (simp add: take_bit_eq_mask [symmetric] unsigned_take_bit_eq)
  also have "\<dots> = take_bit (min k 64) n" by (simp add: unsigned_of_nat min.commute)
  also have "\<dots> = n mod 2 ^ k" using assms(2) by (simp add: take_bit_eq_mod)
  finally show ?thesis using assms(1) by (simp add: cell_def)
qed

lemma seq_diff_of_nat:
  assumes "\<bar>int a - int b\<bar> < 2 ^ 62"
  shows "seq_diff (of_nat a) (of_nat b) = int a - int b"
proof -
  have "(of_nat a :: pos) - of_nat b = of_int (int a - int b)" by simp
  then have "seq_diff (of_nat a) (of_nat b) = signed_take_bit 63 (int a - int b)"
    by (simp only: seq_diff_def signed_of_int) simp
  also have "\<dots> = int a - int b"
    using assms by (subst signed_take_bit_int_eq_self_iff) auto
  finally show ?thesis .
qed

lemma slot_eq:
  assumes "i < 2 ^ k" "j < (2::nat) ^ k"
  shows "(d + i) mod 2 ^ k = (d + j) mod 2 ^ k \<longleftrightarrow> i = j"
proof
  assume "(d + i) mod 2 ^ k = (d + j) mod 2 ^ k"
  then obtain a b where "d + i + 2 ^ k * a = d + j + 2 ^ k * b" by (auto simp: nat_mod_eq_iff)
  then have "i + 2 ^ k * a = j + 2 ^ k * b" by simp
  then have "i mod 2 ^ k = j mod 2 ^ k" by (metis mod_mult_self2)
  with assms show "i = j" by simp
qed simp

lemma rb_holdsD:
  assumes "rb_holds k d q r"
  shows "0 < k" "k < 62" "length q \<le> 2 ^ k" "length (rdata r) = 2 ^ k" "length (rseq r) = 2 ^ k"
    "rmask r = mask k" "dequeue_pos r = of_nat d" "enqueue_pos r = of_nat (d + length q)"
    "i < 2 ^ k \<Longrightarrow> rseq r ! ((d + i) mod 2 ^ k) = of_nat (if i < length q then d + i + 1 else d + i)"
    "i < length q \<Longrightarrow> rdata r ! ((d + i) mod 2 ^ k) = Some (q ! i)"
  using assms by (simp_all only: rb_holds_def)

text \<open>\<open>n & (n - 1) == 0\<close> recognises the powers of two.\<close>

lemma power_of_two_test:
  fixes n :: pos
  assumes "n AND (n - 1) = 0" "0 < unat n"
  shows "\<exists>k. unat n = 2 ^ k"
proof -
  define m where "m = unat n"
  have m1: "unat (n - 1) = m - 1" using assms(2) by (simp add: m_def unat_minus_one unat_gt_0)
  obtain k where k: "2 ^ k \<le> m" "m < 2 ^ (k + 1)" using ex_power_ivl1 [of 2 m] assms(2) by (auto simp: m_def)
  have bitk: "bit j k" if "2 ^ k \<le> j" "j \<le> m" for j :: nat
  proof -
    have "j div 2 ^ k = 1" using that k by (intro div_nat_eqI) auto
    then show ?thesis by (simp add: bit_iff_odd)
  qed
  have "m = 2 ^ k"
  proof (rule ccontr)
    assume "m \<noteq> 2 ^ k"
    with k have "bit m k \<and> bit (m - 1) k" by (auto intro!: bitk)
    then have "bit (unat n) k" "bit (unat (n - 1)) k" by (simp_all add: m_def m1)
    then have "bit (n AND (n - 1)) k" by (auto simp: bit_and_iff bit_unsigned_iff)
    with assms(1) show False by simp
  qed
  then show ?thesis by (auto simp: m_def)
qed

lemma rb_holds_new:
  assumes "ringbuf_new ok n = Some r" "n \<le> 2 ^ 61"
  shows "\<exists>k. unat n = 2 ^ k \<and> rb_holds k 0 [] r"
proof -
  have n: "2 \<le> n" "n AND (n - 1) = 0"
    and r: "r = \<lparr>rdata = replicate (unat n) None, rseq = map of_nat [0..<unat n],
                 rmask = n - 1, enqueue_pos = 0, dequeue_pos = 0\<rparr>"
    using assms(1) by (auto simp: ringbuf_new_def split: if_splits)
  have two: "2 \<le> unat n" using n(1) by (simp add: word_le_nat_alt)
  obtain k where k: "unat n = 2 ^ k" using power_of_two_test [OF n(2)] two by auto
  have "(2::nat) ^ k \<le> 2 ^ 61" using assms(2) k by (simp add: word_le_nat_alt)
  then have "k \<le> 61" by (rule power_le_imp_le_exp [rotated]) simp
  moreover have "0 < k" using two k by (cases k) auto
  moreover have "of_nat (unat n) = n" by simp
  then have "n = 2 ^ k" by (simp only: k of_nat_power of_nat_numeral)
  then have "rmask r = mask k" by (simp add: r mask_eq_decr_exp)
  ultimately have "rb_holds k 0 [] r" using k by (auto simp: rb_holds_def r)
  with k show ?thesis by blast
qed

lemma rb_holds_push:
  assumes h: "rb_holds k d q r" and l: "length q < 2 ^ k"
  shows "\<exists>r'. ringbuf_push x r = (RB_ok, r') \<and> rb_holds k d (q @ [x]) r'"
proof -
  note H = rb_holdsD [OF h]
  let ?e = "d + length q"
  have c: "cell r (of_nat n) = n mod 2 ^ k" for n using H(2,6) by (intro cell_of_nat) auto
  have s: "rseq r ! (?e mod 2 ^ k) = of_nat ?e" using H(9) [OF l] by simp
  have diff: "seq_diff (rseq r ! cell r (enqueue_pos r)) (enqueue_pos r) = 0"
    unfolding H(8) c s by (simp add: seq_diff_of_nat del: of_nat_add)
  let ?r = "r\<lparr>enqueue_pos := enqueue_pos r + 1, rdata := (rdata r)[?e mod 2 ^ k := Some x],
      rseq := (rseq r)[?e mod 2 ^ k := enqueue_pos r + 1]\<rparr>"
  have "ringbuf_push x r = (RB_ok, ?r)"
    using diff unfolding ringbuf_push_def Let_def H(8) c by simp
  moreover have "rb_holds k d (q @ [x]) ?r"
    unfolding rb_holds_def
  proof (intro conjI allI impI)
    fix i assume i: "i < (2::nat) ^ k"
    show "rseq ?r ! ((d + i) mod 2 ^ k) =
        of_nat (if i < length (q @ [x]) then d + i + 1 else d + i)"
      using H(5,8) H(9) [OF i] i l slot_eq [OF l i, of d] by (auto simp: nth_list_update)
  next
    fix i assume i: "i < length (q @ [x])"
    with l have "i < 2 ^ k" by simp
    then show "rdata ?r ! ((d + i) mod 2 ^ k) = Some ((q @ [x]) ! i)"
      using H(4) H(10) [of i] i l slot_eq [OF _ l, of i d] by (auto simp: nth_list_update nth_append less_Suc_eq)
  qed (use H(1-8) l in \<open>simp_all\<close>)
  ultimately show ?thesis by blast
qed

lemma rb_holds_push_full:
  assumes h: "rb_holds k d q r" and l: "length q = 2 ^ k"
  shows "ringbuf_push x r = (RB_none, r)"
proof -
  note H = rb_holdsD [OF h]
  have c: "cell r (of_nat n) = n mod 2 ^ k" for n using H(2,6) by (intro cell_of_nat) auto
  have "rseq r ! ((d + length q) mod 2 ^ k) = of_nat (d + 1)" using H(9) [of 0] l by simp
  moreover have "1 < length q" "length q < 2 ^ 62" using H(1) power_strict_increasing [OF H(2), of "2::nat"] one_less_power [of "2::nat" k] l by simp_all
  then have "seq_diff (of_nat (d + 1)) (of_nat (d + length q)) < 0"
    by (subst seq_diff_of_nat) auto
  ultimately show ?thesis unfolding ringbuf_push_def Let_def H(8) c by simp
qed

lemma rb_holds_pop:
  assumes h: "rb_holds k d (x # q) r"
  shows "\<exists>r'. ringbuf_pop r = (RB_ok, Some x, r') \<and> rb_holds k (d + 1) q r'"
proof -
  note H = rb_holdsD [OF h]
  have c: "cell r (of_nat n) = n mod 2 ^ k" for n using H(2,6) by (intro cell_of_nat) auto
  have s: "rseq r ! (d mod 2 ^ k) = of_nat (d + 1)" using H(9) [of 0] by simp
  have dt: "rdata r ! (d mod 2 ^ k) = Some x" using H(10) [of 0] by simp
  have diff: "seq_diff (rseq r ! cell r (dequeue_pos r)) (dequeue_pos r + 1) = 0"
    unfolding H(7) c s by (simp add: seq_diff_def)
  let ?r = "r\<lparr>dequeue_pos := dequeue_pos r + 1, rseq := (rseq r)[d mod 2 ^ k := dequeue_pos r + rmask r + 1]\<rparr>"
  have "ringbuf_pop r = (RB_ok, Some x, ?r)"
    using diff dt unfolding ringbuf_pop_def Let_def H(7) c by simp
  moreover have "rb_holds k (d + 1) q ?r"
    unfolding rb_holds_def
  proof (intro conjI allI impI)
    fix i assume i: "i < (2::nat) ^ k"
    have last: "dequeue_pos r + rmask r + 1 = of_nat (d + 2 ^ k)"
      using H(6,7) by (simp add: mask_eq_decr_exp)
    show "rseq ?r ! ((d + 1 + i) mod 2 ^ k) =
        of_nat (if i < length q then d + 1 + i + 1 else d + 1 + i)"
    proof (cases "i + 1 = 2 ^ k")
      case True
      then have e: "d + 1 + i = d + 2 ^ k" by simp
      have "\<not> i < length q" using H(3) True by simp
      moreover have "d mod 2 ^ k < length (rseq r)" using H(5) by simp
      moreover have "(d + 2 ^ k) mod 2 ^ k = d mod 2 ^ k" by simp
      ultimately show ?thesis unfolding e last by (simp add: last del: mod_add_self2)
    next
      case False
      with i have i1: "i + 1 < 2 ^ k" by simp
      then have "(d + (i + 1)) mod 2 ^ k \<noteq> (d + 0) mod 2 ^ k" by (subst slot_eq) auto
      then have ne: "d mod 2 ^ k \<noteq> Suc (d + i) mod 2 ^ k" by simp
      from H(9) [OF i1] have "rseq r ! (Suc (d + i) mod 2 ^ k) =
          of_nat (if i + 1 < length (x # q) then d + (i + 1) + 1 else d + (i + 1))" by simp
      with ne show ?thesis by (simp add: nth_list_update)
    qed
  next
    fix i assume "i < length q"
    with H(10) [of "i + 1"] show "rdata ?r ! ((d + 1 + i) mod 2 ^ k) = Some (q ! i)" by simp
  qed (use H(1-8) in \<open>simp_all add: ac_simps\<close>)
  ultimately show ?thesis by blast
qed

lemma rb_holds_pop_empty:
  assumes h: "rb_holds k d [] r"
  shows "ringbuf_pop r = (RB_none, None, r)" "ringbuf_empty r"
proof -
  note H = rb_holdsD [OF h]
  have c: "cell r (of_nat n) = n mod 2 ^ k" for n using H(2,6) by (intro cell_of_nat) auto
  have "rseq r ! (d mod 2 ^ k) = of_nat d" using H(9) [of 0] by simp
  moreover have "seq_diff (of_nat d) (of_nat (d + 1)) < 0" by (subst seq_diff_of_nat) auto
  then have "seq_diff (of_nat d) (of_nat d + 1) < 0" by (simp add: add.commute)
  ultimately show "ringbuf_pop r = (RB_none, None, r)" "ringbuf_empty r"
    unfolding ringbuf_pop_def ringbuf_empty_def Let_def H(7) c by simp_all
qed

lemma rb_holds_not_empty: "rb_holds k d (x # q) r \<Longrightarrow> \<not> ringbuf_empty r"
  using rb_holds_pop [of k d x q r]
  by (auto simp: ringbuf_pop_def ringbuf_empty_def Let_def split: if_splits)

section \<open>The interface, provided\<close>

definition rb_items :: "'a ringbuf \<Rightarrow> 'a list" where
  "rb_items r = map (\<lambda>i. the (rdata r ! cell r (dequeue_pos r + of_nat i)))
                  [0..<unat (enqueue_pos r - dequeue_pos r)]"

definition rb_room :: "'a ringbuf \<Rightarrow> nat" where
  "rb_room r = length (rdata r)"

definition rb_inv :: "'a ringbuf \<Rightarrow> bool" where
  "rb_inv r \<longleftrightarrow> (\<exists>k d q. rb_holds k d q r)"

definition rb_push :: "'a \<Rightarrow> 'a ringbuf \<Rightarrow> bool \<times> 'a ringbuf" where
  "rb_push x r = (case ringbuf_push x r of (a, r') \<Rightarrow> (a = RB_ok, r'))"

definition rb_pop :: "'a ringbuf \<Rightarrow> ('a \<times> 'a ringbuf) option" where
  "rb_pop r = (case ringbuf_pop r of (RB_ok, Some x, r') \<Rightarrow> Some (x, r') | _ \<Rightarrow> None)"

lemma rb_items_holds:
  assumes h: "rb_holds k d q r" shows "rb_items r = q" "rb_room r = 2 ^ k"
proof -
  note H = rb_holdsD [OF h]
  have c: "cell r (of_nat n) = n mod 2 ^ k" for n using H(2,6) by (intro cell_of_nat) auto
  have "(2::nat) ^ k < 2 ^ 64" using H(2) by (intro power_strict_increasing) simp_all
  then have "length q < 2 ^ 64" using H(3) by linarith
  then have "unat (enqueue_pos r - dequeue_pos r) = length q"
    using H(7,8) by (simp add: unat_of_nat)
  moreover have "the (rdata r ! cell r (dequeue_pos r + of_nat i)) = q ! i" if "i < length q" for i
    unfolding H(7) c [of "d + i", unfolded of_nat_add] H(10) [OF that] by simp
  ultimately show "rb_items r = q" by (intro nth_equalityI) (simp_all add: rb_items_def)
  show "rb_room r = 2 ^ k" using H(4) by (simp add: rb_room_def)
qed

interpretation rb: bounded_fifo rb_push rb_pop rb_items rb_room rb_inv
proof
  fix r :: "'a ringbuf" and x :: 'a
  assume "rb_inv r"
  then obtain k d q where h: "rb_holds k d q r" by (auto simp: rb_inv_def)
  note it = rb_items_holds [OF h]
  show "\<exists>r'. rb_push x r = (True, r') \<and> rb_items r' = rb_items r @ [x] \<and> rb_room r' = rb_room r \<and> rb_inv r'"
    if l: "length (rb_items r) < rb_room r"
  proof -
    obtain r' where r': "ringbuf_push x r = (RB_ok, r')" "rb_holds k d (q @ [x]) r'"
      using rb_holds_push [OF h] l it by auto
    with rb_items_holds [OF r'(2)] it show ?thesis by (auto simp: rb_push_def rb_inv_def)
  qed
  show "rb_push x r = (False, r)" if "length (rb_items r) = rb_room r"
    using rb_holds_push_full [OF h, of x] that it by (simp add: rb_push_def)
  show "length (rb_items r) \<le> rb_room r" using it rb_holdsD(3) [OF h] by simp
  show "rb_pop r = None" if "rb_items r = []"
    using h that it rb_holds_pop_empty [of k d r] by (simp add: rb_pop_def)
  show "\<exists>r'. rb_pop r = Some (x, r') \<and> rb_items r' = xs \<and> rb_room r' = rb_room r \<and> rb_inv r'"
    if "rb_items r = x # xs" for xs
  proof -
    have "rb_holds k d (x # xs) r" using h that it by simp
    from rb_holds_pop [OF this]
    obtain r' where r': "ringbuf_pop r = (RB_ok, Some x, r')" "rb_holds k (d + 1) xs r'" by auto
    with rb_items_holds [OF r'(2)] it show ?thesis by (auto simp: rb_pop_def rb_inv_def)
  qed
qed

lemma rb_new:
  assumes "ringbuf_new ok n = Some r" "n \<le> 2 ^ 61"
  shows "rb_inv r" "rb_items r = []" "rb_room r = unat n"
  using rb_holds_new [OF assms] rb_items_holds by (fastforce simp: rb_inv_def)+

lemma rb_empty_iff: "rb_inv r \<Longrightarrow> ringbuf_empty r \<longleftrightarrow> rb_items r = []"
proof -
  assume "rb_inv r"
  then obtain k d q where h: "rb_holds k d q r" by (auto simp: rb_inv_def)
  then show ?thesis
    using rb_items_holds(1) [OF h] rb_holds_pop_empty(2) [of k d r] rb_holds_not_empty [of k d _ _ r] by (cases q) auto
qed

section \<open>Properties\<close>

text \<open>C5: called one at a time, the ring buffer is a bounded first-in first-out queue for
  as many operations as wanted, across the wrap-around of its 64-bit positions: a push appends when
  there is room and is refused when all slots are taken, a pop returns the oldest item, and neither
  ever asks for a retry.\<close>

theorem ringbuf_refines_fifo:
  assumes "rb_holds k d q r"
  shows "(if length q < 2 ^ k
          then \<exists>r'. ringbuf_push x r = (RB_ok, r') \<and> rb_holds k d (q @ [x]) r'
          else ringbuf_push x r = (RB_none, r)) \<and>
         (case q of [] \<Rightarrow> ringbuf_pop r = (RB_none, None, r)
          | y # ys \<Rightarrow> \<exists>r'. ringbuf_pop r = (RB_ok, Some y, r') \<and> rb_holds k (d + 1) ys r') \<and>
         (ringbuf_empty r \<longleftrightarrow> q = [])"
proof -
  have "length q = 2 ^ k" if "\<not> length q < 2 ^ k" using that rb_holdsD(3) [OF assms] by simp
  then show ?thesis
    using assms rb_holds_push [OF assms] rb_holds_push_full [OF assms] rb_holds_pop [of k d _ _ r]
      rb_holds_pop_empty [of k d r] rb_holds_not_empty [of k d _ _ r] by (cases q) auto
qed

text \<open>Two items at the positions before the wrap; the buffer is full.\<close>

lemma ringbuf_refines_fifo_witness:
  "\<exists>r'. ringbuf_pop \<lparr>rdata = [Some (7::nat), Some 9], rseq = [2 ^ 64 - 1, 0], rmask = 1,
          enqueue_pos = 0, dequeue_pos = 2 ^ 64 - 2\<rparr> = (RB_ok, Some 7, r') \<and> rb_holds 1 (2 ^ 64 - 1) [9] r'"
proof -
  have "rb_holds 1 (2 ^ 64 - 2) [7::nat, 9] \<lparr>rdata = [Some 7, Some 9], rseq = [2 ^ 64 - 1, 0], rmask = 1,
          enqueue_pos = 0, dequeue_pos = 2 ^ 64 - 2\<rparr>"
    by (auto simp: rb_holds_def less_Suc_eq)
  from ringbuf_refines_fifo [OF this, of 0] show ?thesis by simp
qed

end
