(* ===== verification/EventBus.thy ===== *)
theory EventBus
  imports RingBuf Json
begin

text \<open>
  The publish/subscribe bus of \<open>src/backend/src/runtime/event_bus.c\<close>: events go through the ring
  buffer (1024 slots), and the publisher that finds no one draining drains it, dispatching every event
  to the subscribers of its type, at most 4096 events per call. Overflow drops the event and counts it.

  A subscriber is its callback and user data, here one number. What a callback publishes while it runs
  is a parameter (\<open>react\<close>): those events go to the ring, and the nested \<open>drain\<close> returns at once because
  the flag is set. The ring is used through the laws of \<open>bounded_fifo\<close>.
\<close>

record event =
  ev_type :: int
  ev_source :: cstr
  ev_ts :: int
  ev_payload :: "json option"

record subscription =
  sub_type :: int
  sub_handler :: nat

record event_bus =
  bqueue :: "event ringbuf"
  subs :: "subscription vec"
  dropped :: "64 word"
  draining :: bool

definition ring_capacity :: "64 word" where
  "ring_capacity = 1024"

definition max_dispatch :: nat where
  "max_dispatch = 4096"

definition event_bus_new :: "bool \<Rightarrow> bool \<Rightarrow> event_bus option" where
  "event_bus_new ok ring_ok =
     (if \<not> ok then None
      else case ringbuf_new ring_ok ring_capacity of
             None \<Rightarrow> None
           | Some q \<Rightarrow> Some \<lparr>bqueue = q, subs = vec_new, dropped = 0, draining = False\<rparr>)"

text \<open>\<open>fn = NULL\<close> is \<open>None\<close>; \<open>grow\<close> is the outcome of the reallocation.\<close>

definition event_bus_subscribe :: "bool \<Rightarrow> event_bus \<Rightarrow> int \<Rightarrow> nat option \<Rightarrow> int \<times> event_bus" where
  "event_bus_subscribe grow b ty fn =
     (case fn of
        None \<Rightarrow> (-1, b)
      | Some h \<Rightarrow>
          (case vec_push 8 grow \<lparr>sub_type = ty, sub_handler = h\<rparr> (subs b) of
             None \<Rightarrow> (-1, b)
           | Some v \<Rightarrow> (int (length (elems (subs b))), b\<lparr>subs := v\<rparr>)))"

text \<open>The deliveries of one event, in subscription order; \<open>snap\<close> is the outcome of copying the table.\<close>

definition dispatch_one :: "bool \<Rightarrow> event_bus \<Rightarrow> event \<Rightarrow> (nat \<times> event) list" where
  "dispatch_one snap b ev =
     (if \<not> snap then []
      else map (\<lambda>s. (sub_handler s, ev))
             (filter (\<lambda>s. sub_type s = ev_type ev \<or> sub_type s = -1) (elems (subs b))))"

definition enqueue :: "event \<Rightarrow> event_bus \<Rightarrow> event_bus" where
  "enqueue ev b =
     (case rb_push ev (bqueue b) of
        (True, q) \<Rightarrow> b\<lparr>bqueue := q\<rparr>
      | (False, q) \<Rightarrow> b\<lparr>bqueue := q, dropped := dropped b + 1\<rparr>)"

definition enqueue_all :: "event list \<Rightarrow> event_bus \<Rightarrow> event_bus" where
  "enqueue_all evs b = fold enqueue evs b"

text \<open>What the callbacks of a list of deliveries publish, in the order of the calls.\<close>

definition reactions :: "(nat \<Rightarrow> event \<Rightarrow> event list) \<Rightarrow> (nat \<times> event) list \<Rightarrow> event list" where
  "reactions react clog = concat (map (\<lambda>(h, ev). react h ev) clog)"

text \<open>The inner loop of \<open>drain\<close>: \<open>n\<close> is what is left of the 4096 dispatches.\<close>

fun drain_inner ::
  "(nat \<Rightarrow> event \<Rightarrow> event list) \<Rightarrow> nat \<Rightarrow> event_bus \<Rightarrow> (nat \<times> event) list \<times> event_bus \<times> nat" where
  "drain_inner react 0 b = ([], b, 0)"
| "drain_inner react (Suc n) b =
     (case rb_pop (bqueue b) of
        None \<Rightarrow> ([], b, Suc n)
      | Some (ev, q) \<Rightarrow>
          let calls = dispatch_one True b ev;
              b1 = enqueue_all (reactions react calls) (b\<lparr>bqueue := q\<rparr>);
              (clog, b2, m) = drain_inner react n b1
          in (calls @ clog, b2, m))"

lemma drain_inner_le: "drain_inner react n b = (clog, b', m) \<Longrightarrow> m \<le> n"
proof (induction n arbitrary: b clog)
  case (Suc n)
  then show ?case by (fastforce simp: Let_def split: option.splits prod.splits)
qed simp

text \<open>The outer loop: drain, clear the flag, look again. \<open>None\<close> would be the spin on a ring that is not
  empty but yields nothing, which needs another thread inside \<open>ringbuf_push\<close>.\<close>

function drain ::
  "(nat \<Rightarrow> event \<Rightarrow> event list) \<Rightarrow> nat \<Rightarrow> event_bus \<Rightarrow> ((nat \<times> event) list \<times> event_bus) option" where
  "drain react n b =
     (if draining b then Some ([], b)
      else case drain_inner react n (b\<lparr>draining := True\<rparr>) of
             (clog, b1, m) \<Rightarrow>
               let b2 = b1\<lparr>draining := False\<rparr>
               in if m = 0 then Some (clog, b2)
                  else if ringbuf_empty (bqueue b2) then Some (clog, b2)
                  else if m = n then None
                  else map_option (\<lambda>(clog', b3). (clog @ clog', b3)) (drain react m b2))"
  by pat_completeness auto
termination
  by (relation "measure (\<lambda>(react, n, b). n)") (auto dest!: drain_inner_le [OF sym])

declare drain.simps [simp del]

definition event_bus_flush ::
  "(nat \<Rightarrow> event \<Rightarrow> event list) \<Rightarrow> event_bus \<Rightarrow> ((nat \<times> event) list \<times> event_bus) option" where
  "event_bus_flush react b = drain react max_dispatch b"

text \<open>\<open>ok\<close>: the allocation of the event. A full ring drops and counts, without draining.\<close>

definition event_bus_publish ::
  "(nat \<Rightarrow> event \<Rightarrow> event list) \<Rightarrow> bool \<Rightarrow> int \<Rightarrow> event_bus \<Rightarrow> int \<Rightarrow> cstr \<Rightarrow> json option \<Rightarrow>
     ((nat \<times> event) list \<times> event_bus) option" where
  "event_bus_publish react ok now b ty source payload =
     (if \<not> ok then Some ([], b)
      else let ev = \<lparr>ev_type = ty, ev_source = source, ev_ts = now, ev_payload = payload\<rparr>
           in case rb_push ev (bqueue b) of
                (False, q) \<Rightarrow> Some ([], b\<lparr>bqueue := q, dropped := dropped b + 1\<rparr>)
              | (True, q) \<Rightarrow> drain react max_dispatch (b\<lparr>bqueue := q\<rparr>))"

definition event_bus_publish_json ::
  "(cstr \<Rightarrow> json option) \<Rightarrow> (nat \<Rightarrow> event \<Rightarrow> event list) \<Rightarrow> bool \<Rightarrow> int \<Rightarrow> event_bus \<Rightarrow> int \<Rightarrow> cstr \<Rightarrow>
     cstr option \<Rightarrow> ((nat \<times> event) list \<times> event_bus) option" where
  "event_bus_publish_json parse react ok now b ty source txt =
     event_bus_publish react ok now b ty source
       (case txt of None \<Rightarrow> None
        | Some s \<Rightarrow> (case parse s of None \<Rightarrow> Some (JStr s) | Some p \<Rightarrow> Some p))"

definition event_bus_dropped :: "event_bus \<Rightarrow> 64 word" where
  "event_bus_dropped b = dropped b"

section \<open>Invariant\<close>

definition bus_ok :: "event_bus \<Rightarrow> bool" where
  "bus_ok b \<longleftrightarrow> rb_inv (bqueue b) \<and> rb_room (bqueue b) = 1024 \<and> vec_ok (subs b)"

abbreviation pending :: "event_bus \<Rightarrow> event list" where
  "pending b \<equiv> rb_items (bqueue b)"

lemma bus_ok_new: "event_bus_new ok rok = Some b \<Longrightarrow> bus_ok b \<and> pending b = [] \<and> \<not> draining b"
  using rb_new [of rok ring_capacity]
  by (auto simp: event_bus_new_def bus_ok_def ring_capacity_def split: if_splits option.splits)

lemma bus_ok_subscribe: "bus_ok b \<Longrightarrow> event_bus_subscribe g b ty fn = (r, b') \<Longrightarrow> bus_ok b'"
  by (auto simp: event_bus_subscribe_def bus_ok_def split: option.splits intro: vec_ok_push)

text \<open>Publishing a batch from callbacks: a prefix fits, the rest is counted as dropped.\<close>

lemma enqueue_all_spec:
  "bus_ok b \<Longrightarrow>
     bus_ok (enqueue_all evs b) \<and>
     pending (enqueue_all evs b) = pending b @ take (1024 - length (pending b)) evs \<and>
     dropped (enqueue_all evs b) = dropped b + of_nat (length evs - (1024 - length (pending b))) \<and>
     subs (enqueue_all evs b) = subs b \<and> draining (enqueue_all evs b) = draining b"
proof (induction evs arbitrary: b)
  case Nil
  then show ?case by (simp add: enqueue_all_def)
next
  case (Cons ev evs)
  note ok = Cons.prems [unfolded bus_ok_def]
  show ?case
  proof (cases "length (pending b) < 1024")
    case True
    then obtain q where q: "rb_push ev (bqueue b) = (True, q)" "rb_items q = pending b @ [ev]"
      "rb_room q = 1024" "rb_inv q" using rb.push_ok ok by metis
    let ?b = "b\<lparr>bqueue := q\<rparr>"
    have "bus_ok ?b" using ok q by (simp add: bus_ok_def)
    from Cons.IH [OF this] q show ?thesis
      using True by (simp add: enqueue_all_def enqueue_def take_Cons')
  next
    case False
    then have full: "length (pending b) = rb_room (bqueue b)" using rb.items_le [of "bqueue b"] ok False by simp
    have q: "rb_push ev (bqueue b) = (False, bqueue b)"
      by (rule rb.push_full [OF _ full]) (use ok in simp)
    let ?b = "b\<lparr>dropped := dropped b + 1\<rparr>"
    have "bus_ok ?b" using ok by (simp add: bus_ok_def)
    note ih = Cons.IH [OF this]
    have z: "1024 - length (pending b) = 0" using full ok by simp
    have "enqueue ev b = ?b" using q by (intro event_bus.equality) (simp_all add: enqueue_def)
    then have e: "enqueue_all (ev # evs) b = enqueue_all evs ?b" by (simp add: enqueue_all_def)
    show ?thesis unfolding e using ih by (simp add: z)
  qed
qed

section \<open>What a drain delivers\<close>

text \<open>
  \<open>drained react b evs acc b'\<close>: \<open>evs\<close> were dispatched, \<open>acc\<close> of what the callbacks published found
  room, the rest was counted as dropped, and the ring kept first-in first-out order.
\<close>

definition deliveries :: "event_bus \<Rightarrow> event list \<Rightarrow> (nat \<times> event) list" where
  "deliveries b evs = concat (map (dispatch_one True b) evs)"

definition drained ::
  "(nat \<Rightarrow> event \<Rightarrow> event list) \<Rightarrow> event_bus \<Rightarrow> event list \<Rightarrow> event list \<Rightarrow> event_bus \<Rightarrow> bool" where
  "drained react b evs acc b' \<longleftrightarrow>
     pending b @ acc = evs @ pending b' \<and>
     dropped b' + of_nat (length acc) = dropped b + of_nat (length (reactions react (deliveries b evs))) \<and>
     subs b' = subs b \<and> draining b' = draining b \<and> bus_ok b'"

lemma dispatch_one_cong: "subs b' = subs b \<Longrightarrow> dispatch_one sn b' ev = dispatch_one sn b ev"
  by (simp add: dispatch_one_def)

lemma deliveries_cong: "subs b' = subs b \<Longrightarrow> deliveries b' evs = deliveries b evs"
proof -
  assume "subs b' = subs b"
  then have "dispatch_one True b' = dispatch_one True b" by (intro ext dispatch_one_cong)
  then show ?thesis by (simp add: deliveries_def)
qed

lemma reactions_append [simp]: "reactions react (xs @ ys) = reactions react xs @ reactions react ys"
  by (simp add: reactions_def)

lemma drop_count:
  fixes x :: "64 word"
  assumes "x + a = d + p' + r" "f + p' = p" shows "x + (f + a) = d + (p + r)"
proof -
  have "x + (f + a) = (x + a) + f" by (simp add: ac_simps)
  also have "\<dots> = d + ((f + p') + r)" unfolding assms(1) by (simp only: ac_simps)
  finally show ?thesis by (simp add: assms(2))
qed

lemma drain_inner_spec:
  "bus_ok b \<Longrightarrow> drain_inner react n b = (clog, b', m) \<Longrightarrow>
   \<exists>evs acc. drained react b evs acc b' \<and> clog = deliveries b evs \<and> length evs + m = n \<and>
     (m = 0 \<or> pending b' = [])"
proof (induction n arbitrary: b clog)
  case 0
  then show ?case by (intro exI [of _ "[]"]) (simp add: drained_def deliveries_def reactions_def)
next
  case (Suc n)
  note inv = Suc.prems(1) [unfolded bus_ok_def]
  show ?case
  proof (cases "rb_pop (bqueue b)")
    case None
    with inv rb.pop_None_iff [of "bqueue b"] have "pending b = []" by simp
    with None Suc.prems show ?thesis
      by (intro exI [of _ "[]"]) (simp add: drained_def deliveries_def reactions_def)
  next
    case (Some eq)
    obtain ev q where p: "rb_pop (bqueue b) = Some (ev, q)" using Some by (cases eq) simp
    have q: "pending b = ev # rb_items q" "rb_room q = 1024" "rb_inv q"
      using rb.pop_Some_items [OF _ p] inv by simp_all
    let ?calls = "dispatch_one True b ev" and ?b0 = "b\<lparr>bqueue := q\<rparr>"
    let ?pub = "reactions react ?calls"
    let ?b1 = "enqueue_all ?pub ?b0"
    have "bus_ok ?b0" using inv q by (simp add: bus_ok_def)
    note e = enqueue_all_spec [OF this, of ?pub]
    obtain l2 where l2: "drain_inner react n ?b1 = (l2, b', m)" "clog = ?calls @ l2"
      using Suc.prems(2) p by (auto simp: Let_def split: prod.splits)
    from Suc.IH [OF _ l2(1)] e obtain evs acc where
      d: "drained react ?b1 evs acc b'" "l2 = deliveries ?b1 evs" "length evs + m = n" "m = 0 \<or> pending b' = []"
      by blast
    let ?fit = "take (1024 - length (rb_items q)) ?pub"
    have sb: "subs ?b1 = subs b" using e by simp
    have "drained react b (ev # evs) (?fit @ acc) b'"
    proof -
      have "pending b @ ?fit @ acc = (ev # evs) @ pending b'"
        using d(1) e q by (simp add: drained_def)
      have "dropped b' + of_nat (length acc) =
          dropped b + of_nat (length ?pub - (1024 - length (rb_items q))) +
          of_nat (length (reactions react (deliveries b evs)))"
        using d(1) e by (simp add: drained_def deliveries_cong [OF sb])
      moreover have "length ?fit + (length ?pub - (1024 - length (rb_items q))) = length ?pub" by simp
      then have "(of_nat (length ?fit) :: 64 word) + of_nat (length ?pub - (1024 - length (rb_items q))) =
          of_nat (length ?pub)" by (simp only: flip: of_nat_add)
      moreover have "deliveries b (ev # evs) = ?calls @ deliveries b evs" by (simp add: deliveries_def)
      ultimately have "dropped b' + of_nat (length (?fit @ acc)) =
          dropped b + of_nat (length (reactions react (deliveries b (ev # evs))))"
        by (simp only: length_append reactions_append of_nat_add) (rule drop_count)
      moreover have "subs b' = subs b" "draining b' = draining b" "bus_ok b'"
        using d(1) e by (simp_all add: drained_def)
      ultimately show ?thesis using \<open>pending b @ ?fit @ acc = (ev # evs) @ pending b'\<close>
        by (simp only: drained_def)
    qed
    moreover have "clog = deliveries b (ev # evs)"
      using l2(2) d(2) deliveries_cong [OF sb] by (simp add: deliveries_def)
    ultimately show ?thesis using d(3,4) by (intro exI [of _ "ev # evs"] exI [of _ "?fit @ acc"]) simp
  qed
qed

lemma drain_spec:
  assumes "bus_ok b" "\<not> draining b"
  shows "\<exists>evs acc b'. drain react n b = Some (deliveries b evs, b') \<and> drained react b evs acc b' \<and>
     length evs \<le> n \<and> (length evs = n \<or> pending b' = [])"
proof -
  let ?b = "b\<lparr>draining := True\<rparr>"
  obtain clog b1 m where r: "drain_inner react n ?b = (clog, b1, m)" by (metis surj_pair)
  have "bus_ok ?b" using assms(1) by (simp add: bus_ok_def)
  from drain_inner_spec [OF this r] obtain evs acc where
    d: "drained react ?b evs acc b1" "clog = deliveries ?b evs" "length evs + m = n" "m = 0 \<or> pending b1 = []"
    by blast
  let ?b' = "b1\<lparr>draining := False\<rparr>"
  have dl: "deliveries ?b evs = deliveries b evs" for evs by (rule deliveries_cong) simp
  have d': "drained react b evs acc ?b'"
  proof -
    have "bus_ok b1" using d(1) by (simp add: drained_def)
    then have "bus_ok ?b'" by (simp add: bus_ok_def)
    with d(1) assms(2) show ?thesis by (simp add: drained_def dl)
  qed
  have "m \<noteq> 0 \<longrightarrow> ringbuf_empty (bqueue ?b')"
    using d(1,4) rb_empty_iff [of "bqueue b1"] by (auto simp: drained_def bus_ok_def)
  then have "drain react n b = Some (deliveries b evs, ?b')"
    using assms(2) r d(2) by (subst drain.simps) (auto simp: Let_def dl)
  with d' d(3,4) show ?thesis by (intro exI [of _ evs] exI [of _ acc] exI [of _ ?b']) auto
qed

section \<open>Properties\<close>

text \<open>Publishing on an idle bus always returns; with room in the ring it dispatches, in
  first-in first-out order, the pending events, the new one and whatever the callbacks publish, each
  to exactly the subscribers of its type (or of all types) in subscription order, until the ring is
  empty or 4096 events were dispatched; every event not dispatched is still in the ring or was counted
  in \<open>dropped\<close>. With a full ring the event is dropped and counted.\<close>

theorem event_bus_publish_delivers:
  assumes "bus_ok b" "\<not> draining b"
  shows "\<exists>b' evs acc. event_bus_publish react True now b ty src pl = Some (deliveries b evs, b') \<and>
     bus_ok b' \<and> \<not> draining b' \<and> subs b' = subs b \<and>
     (if length (pending b) < 1024
      then pending b @ \<lparr>ev_type = ty, ev_source = src, ev_ts = now, ev_payload = pl\<rparr> # acc = evs @ pending b' \<and>
           dropped b' + of_nat (length acc) =
             dropped b + of_nat (length (reactions react (deliveries b evs))) \<and>
           length evs \<le> 4096 \<and> (length evs = 4096 \<or> pending b' = [])
      else evs = [] \<and> pending b' = pending b \<and> dropped b' = dropped b + 1)"
proof -
  let ?ev = "\<lparr>ev_type = ty, ev_source = src, ev_ts = now, ev_payload = pl\<rparr>"
  note ok = assms(1) [unfolded bus_ok_def]
  show ?thesis
  proof (cases "length (pending b) < 1024")
    case True
    then obtain q where q: "rb_push ?ev (bqueue b) = (True, q)" "rb_items q = pending b @ [?ev]"
      "rb_room q = 1024" "rb_inv q" using rb.push_ok [of "bqueue b" ?ev] ok by auto
    let ?b = "b\<lparr>bqueue := q\<rparr>"
    have "bus_ok ?b" "\<not> draining ?b" using ok q assms(2) by (simp_all add: bus_ok_def)
    from drain_spec [OF this, of react max_dispatch] obtain evs acc b' where
      d: "drain react max_dispatch ?b = Some (deliveries ?b evs, b')" "drained react ?b evs acc b'"
      "length evs \<le> max_dispatch" "length evs = max_dispatch \<or> pending b' = []" by blast
    have dl: "deliveries ?b evs = deliveries b evs" by (rule deliveries_cong) simp
    have "event_bus_publish react True now b ty src pl = Some (deliveries b evs, b')"
      using d(1) q(1) by (simp add: event_bus_publish_def dl)
    with d(2-4) q True assms(2) show ?thesis
      by (intro exI [of _ b'] exI [of _ evs] exI [of _ acc]) (simp add: drained_def max_dispatch_def dl)
  next
    case False
    have full: "length (pending b) = rb_room (bqueue b)" using rb.items_le [of "bqueue b"] ok False by simp
    have q: "rb_push ?ev (bqueue b) = (False, bqueue b)" by (rule rb.push_full [OF _ full]) (use ok in simp)
    show ?thesis
      by (intro exI [of _ "b\<lparr>dropped := dropped b + 1\<rparr>"] exI [of _ "[]"])
         (use False q ok assms(2) in \<open>simp add: event_bus_publish_def deliveries_def bus_ok_def\<close>)
  qed
qed

definition demo_bus :: event_bus where
  "demo_bus = snd (event_bus_subscribe True (the (event_bus_new True True)) (-1) (Some 5))"

lemma event_bus_publish_delivers_witness:
  "\<exists>b' evs acc. event_bus_publish (\<lambda>_ _. []) True 9 demo_bus 1 ''src'' None = Some (deliveries demo_bus evs, b') \<and>
     bus_ok b' \<and> \<not> draining b' \<and> subs b' = subs demo_bus"
proof -
  let ?b0 = "the (event_bus_new True True)"
  have r: "ringbuf_new True ring_capacity \<noteq> (None :: event ringbuf option)"
    by (simp add: ringbuf_new_def ring_capacity_def)
  then have "event_bus_new True True = Some ?b0" by (auto simp: event_bus_new_def)
  from bus_ok_new [OF this] have b0: "bus_ok ?b0" "\<not> draining ?b0" by auto
  have "bus_ok demo_bus" unfolding demo_bus_def
    using bus_ok_subscribe [OF b0(1) prod.collapse [symmetric]] .
  moreover have "\<not> draining demo_bus"
    using b0(2) by (auto simp: demo_bus_def event_bus_subscribe_def split: option.splits)
  ultimately show ?thesis using event_bus_publish_delivers [of demo_bus "\<lambda>_ _. []" 9 1 "''src''" None] by blast
qed

end
