(* ===== verification/Hooks.thy ===== *)
theory Hooks
  imports CBase Json
begin

text \<open>
  The hook registry of \<open>src/backend/src/runtime/hook.c\<close> and the cognitive pipeline of
  \<open>src/backend/src/runtime/state_machine.c\<close>, which notifies it at every stage.

  A callback with its user data is a number; what it answers is the parameter \<open>fire\<close>. The registry is
  the linked list from its head, so the newest hook comes first. A stage handler is a function from
  the working value to its return code and the value it stored, if any.
\<close>

section \<open>The registry\<close>

record hook =
  h_id :: int
  h_event :: cstr
  h_fn :: nat

record hook_registry =
  hooks :: "hook list"
  h_next :: int

definition hook_registry_new :: "bool \<Rightarrow> hook_registry option" where
  "hook_registry_new ok = (if ok then Some \<lparr>hooks = [], h_next = 1\<rparr> else None)"

definition hook_register :: "bool \<Rightarrow> hook_registry \<Rightarrow> cstr option \<Rightarrow> nat option \<Rightarrow> int \<times> hook_registry" where
  "hook_register ok h ev fn =
     (case (ev, fn) of
        (Some e, Some f) \<Rightarrow>
          if e = [] then (-1, h)
          else if \<not> ok then (-1, h)
          else (h_next h, h\<lparr>hooks := \<lparr>h_id = h_next h, h_event = e, h_fn = f\<rparr> # hooks h, h_next := h_next h + 1\<rparr>)
      | _ \<Rightarrow> (-1, h))"

fun unlink_hook :: "int \<Rightarrow> hook list \<Rightarrow> hook list option" where
  "unlink_hook i [] = None"
| "unlink_hook i (k # ks) = (if h_id k = i then Some ks else map_option ((#) k) (unlink_hook i ks))"

definition hook_unregister :: "hook_registry \<Rightarrow> int \<Rightarrow> int \<times> hook_registry" where
  "hook_unregister h i =
     (if i \<le> 0 then (-1, h)
      else case unlink_hook i (hooks h) of None \<Rightarrow> (-1, h) | Some ks \<Rightarrow> (0, h\<lparr>hooks := ks\<rparr>))"

definition hook_max :: nat where
  "hook_max = 64"

definition hook_matches :: "cstr \<Rightarrow> hook \<Rightarrow> bool" where
  "hook_matches e k \<longleftrightarrow> h_event k = e \<or> h_event k = ''*''"

text \<open>The collection loop, \<open>n\<close> hooks found so far.\<close>

fun collect_hooks :: "cstr \<Rightarrow> nat \<Rightarrow> hook list \<Rightarrow> hook list" where
  "collect_hooks e n [] = []"
| "collect_hooks e n (k # ks) =
     (if n < hook_max
      then if hook_matches e k then k # collect_hooks e (n + 1) ks else collect_hooks e n ks
      else [])"

text \<open>The calls in the order they are made, and the answer: -1 on bad arguments, 1 when a hook blocked.\<close>

definition hook_dispatch ::
  "(nat \<Rightarrow> cstr \<Rightarrow> cstr option \<Rightarrow> int) \<Rightarrow> hook_registry \<Rightarrow> cstr option \<Rightarrow> cstr option \<Rightarrow> int \<times> nat list" where
  "hook_dispatch fire h ev payload =
     (case ev of
        None \<Rightarrow> (-1, [])
      | Some e \<Rightarrow>
          if e = [] then (-1, [])
          else let calls = map h_fn (rev (collect_hooks e 0 (hooks h)))
               in (if \<exists>f \<in> set calls. fire f e payload \<noteq> 0 then 1 else 0, calls))"

definition hook_registry_json :: "hook_registry \<Rightarrow> json" where
  "hook_registry_json h =
     JArr (map (\<lambda>k. JObj [(''id'', JNum (of_int (h_id k))), (''event'', JStr (h_event k))]) (hooks h))"

text \<open>The line the built-in audit hook appends.\<close>

definition hook_audit_line :: "int \<Rightarrow> cstr \<Rightarrow> cstr option \<Rightarrow> json" where
  "hook_audit_line now e payload =
     JObj [(''ts_ms'', JNum (of_int now)), (''event'', JStr e), (''payload'', JStr (nonnull_or [] payload))]"

definition registry_ok :: "hook_registry \<Rightarrow> bool" where
  "registry_ok h \<longleftrightarrow> sorted_wrt (>) (map h_id (hooks h)) \<and> (\<forall>k \<in> set (hooks h). 0 < h_id k \<and> h_id k < h_next h) \<and>
     0 < h_next h"

lemma registry_ok_new: "hook_registry_new ok = Some h \<Longrightarrow> registry_ok h"
  by (auto simp: hook_registry_new_def registry_ok_def split: if_splits)

lemma registry_ok_register:
  "registry_ok h \<Longrightarrow> hook_register ok h ev fn = (r, h') \<Longrightarrow> registry_ok h'"
  by (auto simp: hook_register_def registry_ok_def less_imp_le split: option.splits if_splits)

lemma unlink_hook_Some:
  "unlink_hook i ks = Some ks' \<Longrightarrow> \<exists>as k bs. ks = as @ k # bs \<and> ks' = as @ bs \<and> h_id k = i \<and> (\<forall>a \<in> set as. h_id a \<noteq> i)"
proof (induction ks arbitrary: ks')
  case (Cons a ks)
  show ?case
  proof (cases "h_id a = i")
    case True
    with Cons.prems show ?thesis by (intro exI [of _ "[]"]) auto
  next
    case False
    with Cons.prems obtain ks1 where "unlink_hook i ks = Some ks1" "ks' = a # ks1" by auto
    with Cons.IH False obtain as k bs where
      "a # ks = (a # as) @ k # bs" "ks' = (a # as) @ bs" "h_id k = i" "\<forall>x \<in> set (a # as). h_id x \<noteq> i" by auto
    then show ?thesis by blast
  qed
qed simp

lemma unlink_hook_None: "unlink_hook i ks = None \<longleftrightarrow> (\<forall>k \<in> set ks. h_id k \<noteq> i)"
  by (induction ks) auto

lemma registry_ok_unregister:
  "registry_ok h \<Longrightarrow> hook_unregister h i = (r, h') \<Longrightarrow> registry_ok h'"
  by (auto simp: hook_unregister_def registry_ok_def sorted_wrt_append split: option.splits if_splits
      dest!: unlink_hook_Some)

lemma collect_hooks_take: "collect_hooks e n ks = take (hook_max - n) (filter (hook_matches e) ks)"
proof (induction ks arbitrary: n)
  case (Cons k ks)
  then show ?case by (cases "n < hook_max") (auto simp: take_Cons' Suc_diff_Suc)
qed simp

section \<open>The cognitive pipeline\<close>

datatype stage = ST_RECEIVE | ST_UNDERSTAND | ST_REASON | ST_PLAN | ST_ACT | ST_VERIFY | ST_LEARN | ST_DONE | ST_FAILED

type_synonym handler = "cstr \<Rightarrow> int \<times> cstr option"

record state_machine =
  stages :: "stage \<Rightarrow> handler option"
  current :: stage

fun state_name :: "stage \<Rightarrow> cstr" where
  "state_name ST_RECEIVE = ''RECEIVE''"
| "state_name ST_UNDERSTAND = ''UNDERSTAND''"
| "state_name ST_REASON = ''REASON''"
| "state_name ST_PLAN = ''PLAN''"
| "state_name ST_ACT = ''ACT''"
| "state_name ST_VERIFY = ''VERIFY''"
| "state_name ST_LEARN = ''LEARN''"
| "state_name ST_DONE = ''DONE''"
| "state_name ST_FAILED = ''FAILED''"

definition cognitive_order :: "stage list" where
  "cognitive_order = [ST_RECEIVE, ST_UNDERSTAND, ST_REASON, ST_PLAN, ST_ACT, ST_VERIFY, ST_LEARN]"

definition state_machine_new :: state_machine where
  "state_machine_new = \<lparr>stages = (\<lambda>_. None), current = ST_RECEIVE\<rparr>"

definition state_machine_set_handler :: "state_machine \<Rightarrow> stage \<Rightarrow> handler option \<Rightarrow> state_machine" where
  "state_machine_set_handler sm st fn =
     (if st = ST_DONE \<or> st = ST_FAILED then sm else sm\<lparr>stages := (stages sm)(st := fn)\<rparr>)"

text \<open>The payload of the notification of a stage entry.\<close>

definition sm_payload :: "stage \<Rightarrow> cstr" where
  "sm_payload st = cbuf 64 (''{\"state\":\"'' @ state_name st @ ''\"}'')"

text \<open>The loop over the stages: the result pointer, the notifications made, the state reached.\<close>

fun run_stages :: "state_machine \<Rightarrow> stage list \<Rightarrow> cstr \<Rightarrow> stage \<times> cstr option \<times> stage list \<times> state_machine" where
  "run_stages sm [] v = (ST_DONE, Some v, [], sm\<lparr>current := ST_DONE\<rparr>)"
| "run_stages sm (st # sts) v =
     (let sm1 = sm\<lparr>current := st\<rparr>
      in case stages sm1 st of
           None \<Rightarrow>
             (case run_stages sm1 sts v of (r, res, ns, sm2) \<Rightarrow> (r, res, st # ns, sm2))
         | Some fn \<Rightarrow>
             (case fn v of (rc, out) \<Rightarrow>
                if rc \<noteq> 0 then (ST_FAILED, out, [st], sm1\<lparr>current := ST_FAILED\<rparr>)
                else (case run_stages sm1 sts (nonnull_or v out) of
                        (r, res, ns, sm2) \<Rightarrow> (r, res, st # ns, sm2))))"

definition state_machine_run :: "state_machine \<Rightarrow> cstr option \<Rightarrow> stage \<times> cstr option \<times> stage list \<times> state_machine" where
  "state_machine_run sm inp =
     run_stages (sm\<lparr>current := ST_RECEIVE\<rparr>) cognitive_order (nonnull_or [] inp)"

text \<open>One stage as a partial transformer of the working value.\<close>

definition stage_step :: "state_machine \<Rightarrow> stage \<Rightarrow> cstr \<Rightarrow> cstr option" where
  "stage_step sm st v =
     (case stages sm st of None \<Rightarrow> Some v
      | Some fn \<Rightarrow> if fst (fn v) = 0 then Some (nonnull_or v (snd (fn v))) else None)"

fun stage_values :: "state_machine \<Rightarrow> stage list \<Rightarrow> cstr \<Rightarrow> cstr option" where
  "stage_values sm [] v = Some v"
| "stage_values sm (st # sts) v =
     (case stage_step sm st v of None \<Rightarrow> None | Some w \<Rightarrow> stage_values sm sts w)"

lemma stage_step_current [simp]: "stage_step (sm\<lparr>current := c\<rparr>) = stage_step sm"
  by (simp add: fun_eq_iff stage_step_def)

lemma stage_values_current [simp]: "stage_values (sm\<lparr>current := c\<rparr>) sts v = stage_values sm sts v"
  by (induction sts arbitrary: v) (auto split: option.split)

lemma stage_values_snoc:
  "stage_values sm (sts @ [st]) v = (case stage_values sm sts v of None \<Rightarrow> None | Some w \<Rightarrow> stage_step sm st w)"
  by (induction sts arbitrary: v) (auto split: option.split)

text \<open>Success runs every stage; failure stops at the first failing one with its diagnostic.\<close>

lemma run_stages_spec:
  "run_stages sm sts v = (r, res, ns, sm') \<Longrightarrow>
   stages sm' = stages sm \<and> current sm' = r \<and>
   ((r = ST_DONE \<and> ns = sts \<and> res = stage_values sm sts v \<and> res \<noteq> None) \<or>
    (r = ST_FAILED \<and> (\<exists>pre st rest w fn. sts = pre @ st # rest \<and> ns = pre @ [st] \<and>
       stage_values sm pre v = Some w \<and> stages sm st = Some fn \<and> fst (fn w) \<noteq> 0 \<and> res = snd (fn w))))"
proof (induction sts arbitrary: sm v r res ns sm')
  case (Cons st sts)
  show ?case
  proof (cases "stage_step sm st v")
    case None
    then obtain fn where fn: "stages sm st = Some fn" "fst (fn v) \<noteq> 0"
      by (auto simp: stage_step_def split: option.splits if_splits)
    with Cons.prems have "r = ST_FAILED" "res = snd (fn v)" "ns = [st]" "sm' = sm\<lparr>current := ST_FAILED\<rparr>"
      by (auto simp: Let_def split: prod.splits)
    with fn show ?thesis
      by (intro conjI disjI2 exI [of _ "[]"] exI [of _ st] exI [of _ sts] exI [of _ v] exI [of _ fn]) auto
  next
    case (Some w)
    obtain r1 res1 ns1 sm1 where r1: "run_stages (sm\<lparr>current := st\<rparr>) sts w = (r1, res1, ns1, sm1)"
      by (metis surj_pair)
    have e: "r = r1" "res = res1" "ns = st # ns1" "sm' = sm1"
      using Cons.prems Some r1
      by (auto simp: Let_def stage_step_def nonnull_or_def split: option.splits prod.splits if_splits)
    from Cons.IH [OF r1] show ?thesis
    proof (elim conjE disjE exE)
      fix pre s rest w' fn
      assume h: "stages sm1 = stages (sm\<lparr>current := st\<rparr>)" "current sm1 = r1" "r1 = ST_FAILED"
        "sts = pre @ s # rest" "ns1 = pre @ [s]"
        "stage_values (sm\<lparr>current := st\<rparr>) pre w = Some w'"
        "stages (sm\<lparr>current := st\<rparr>) s = Some fn" "fst (fn w') \<noteq> 0" "res1 = snd (fn w')"
      show ?thesis
        using h e Some
        by (intro conjI disjI2 exI [of _ "st # pre"] exI [of _ s] exI [of _ rest] exI [of _ w'] exI [of _ fn]) auto
    qed (use e Some in auto)
  qed
qed auto

section \<open>Properties\<close>

text \<open>A dispatch calls the hooks of the event and the wildcard hooks, oldest first, but only
  the 64 youngest of them; it answers 1 exactly when one of those it called refused.\<close>

theorem hook_dispatch_order:
  assumes "e \<noteq> []"
  shows "let m = rev (filter (hook_matches e) (hooks h));
             calls = map h_fn (drop (length m - 64) m)
         in hook_dispatch fire h (Some e) payload =
            (if \<forall>f \<in> set calls. fire f e payload = 0 then 0 else 1, calls)"
  using assms by (simp add: hook_dispatch_def collect_hooks_take hook_max_def rev_take Let_def)

definition demo_hooks :: hook_registry where
  "demo_hooks = \<lparr>hooks = [\<lparr>h_id = 2, h_event = ''*'', h_fn = 8\<rparr>, \<lparr>h_id = 1, h_event = ''e'', h_fn = 7\<rparr>], h_next = 3\<rparr>"

lemma hook_dispatch_order_witness:
  "hook_dispatch (\<lambda>f _ _. if f = 8 then 1 else 0) demo_hooks (Some ''e'') None = (1, [7, 8])"
  using hook_dispatch_order [of "''e''" demo_hooks "\<lambda>f _ _. if f = 8 then 1 else 0" None]
  by (simp add: Let_def demo_hooks_def hook_matches_def)

text \<open>Registration hands out positive ids in strictly increasing order, and removing the
  hook just registered gives the registry back except for the id counter; an id that is not
  registered is answered -1 and nothing changes.\<close>

theorem hook_register_unregister:
  assumes "registry_ok h" "hook_register True h (Some e) (Some f) = (i, h')" "e \<noteq> []"
  shows "registry_ok h' \<and> 0 < i \<and> hook_unregister h' i = (0, h\<lparr>h_next := i + 1\<rparr>) \<and>
         (\<forall>k \<in> set (hooks h). h_id k < i) \<and> hook_unregister h i = (-1, h)"
proof -
  have i: "i = h_next h" and h': "hooks h' = \<lparr>h_id = i, h_event = e, h_fn = f\<rparr> # hooks h" "h_next h' = i + 1"
    and e: "h' = h\<lparr>hooks := \<lparr>h_id = i, h_event = e, h_fn = f\<rparr> # hooks h, h_next := i + 1\<rparr>"
    using assms(2,3) by (auto simp: hook_register_def)
  have lt: "\<forall>k \<in> set (hooks h). h_id k < i" "0 < i" using assms(1) i by (auto simp: registry_ok_def)
  then have "unlink_hook i (hooks h) = None" by (auto simp: unlink_hook_None)
  moreover have "hook_unregister h' i = (0, h\<lparr>h_next := i + 1\<rparr>)"
    using lt(2) by (simp add: hook_unregister_def h'(1)) (simp add: e)
  ultimately show ?thesis
    using lt registry_ok_register [OF assms(1,2)] by (auto simp: hook_unregister_def)
qed

lemma hook_register_unregister_witness:
  "hook_unregister (snd (hook_register True demo_hooks (Some ''x'') (Some 9))) 3 = (0, demo_hooks\<lparr>h_next := 4\<rparr>)"
proof -
  have "registry_ok demo_hooks" by (simp add: registry_ok_def demo_hooks_def)
  moreover have "hook_register True demo_hooks (Some ''x'') (Some 9) =
      (3, snd (hook_register True demo_hooks (Some ''x'') (Some 9)))"
    by (simp add: hook_register_def demo_hooks_def)
  ultimately show ?thesis using hook_register_unregister [of demo_hooks "''x''" 9 3] by simp
qed

text \<open>The pipeline either runs all seven stages in order and returns DONE with the composition
  of their handlers, or stops at the first stage whose handler fails, returns FAILED with that stage's
  diagnostic, and never enters (or notifies) a later stage.\<close>

theorem state_machine_pipeline:
  assumes "state_machine_run sm inp = (r, res, ns, sm')"
  shows "current sm' = r \<and> stages sm' = stages sm \<and>
    ((r = ST_DONE \<and> ns = cognitive_order \<and>
      res = stage_values sm cognitive_order (nonnull_or [] inp) \<and> res \<noteq> None) \<or>
     (r = ST_FAILED \<and> (\<exists>pre st rest w fn. cognitive_order = pre @ st # rest \<and> ns = pre @ [st] \<and>
        stage_values sm pre (nonnull_or [] inp) = Some w \<and> stages sm st = Some fn \<and>
        fst (fn w) \<noteq> 0 \<and> res = snd (fn w))))"
  using run_stages_spec [OF assms [unfolded state_machine_run_def]] by simp

definition demo_sm :: state_machine where
  "demo_sm = state_machine_set_handler (state_machine_set_handler state_machine_new ST_REASON
       (Some (\<lambda>v. (0, Some (v @ ''!'')))))
     ST_ACT (Some (\<lambda>v. (-1, Some ''no'')))"

lemma state_machine_pipeline_witness:
  "current (snd (snd (snd (state_machine_run demo_sm (Some ''hi''))))) = ST_FAILED \<and>
   fst (snd (state_machine_run demo_sm (Some ''hi''))) = Some ''no''"
proof -
  have "state_machine_run demo_sm (Some ''hi'') =
      (ST_FAILED, Some ''no'', [ST_RECEIVE, ST_UNDERSTAND, ST_REASON, ST_PLAN, ST_ACT],
       snd (snd (snd (state_machine_run demo_sm (Some ''hi'')))))"
    by (simp add: state_machine_run_def cognitive_order_def demo_sm_def state_machine_set_handler_def
        state_machine_new_def nonnull_or_def)
  from state_machine_pipeline [OF this] show ?thesis
    by (simp add: state_machine_run_def cognitive_order_def demo_sm_def state_machine_set_handler_def
        state_machine_new_def nonnull_or_def)
qed

end
