(* ===== verification/KvStore.thy ===== *)
theory KvStore
  imports CBase Json
begin

text \<open>
  The two string-keyed stores: the key/value memory of \<open>src/backend/src/memory/kv.c\<close> and the
  multi-agent blackboard of \<open>src/backend/src/cognition/blackboard.c\<close>. Both keep an array of entries
  that is searched linearly, overwritten in place, appended to, and closed up on removal; that common
  layer (\<open>kv_...\<close>) provides the interface \<open>keyed_store\<close>.

  The blackboard's persist file is in the state \<open>disk\<close> (path to text); \<open>print\<close> and \<open>parse\<close> are the JSON
  printer and parser. \<open>grow\<close> is the outcome of the reallocation, \<open>wr\<close> that of writing the file.
\<close>

section \<open>The entry array\<close>

type_synonym 'v kvs = "(cstr \<times> 'v) vec"

definition kv_index :: "cstr \<Rightarrow> 'v kvs \<Rightarrow> nat option" where
  "kv_index k s = find_index (\<lambda>e. fst e = k) (elems s)"

definition kv_lookup :: "'v kvs \<Rightarrow> cstr \<Rightarrow> 'v option" where
  "kv_lookup s k = map_option (\<lambda>i. snd (elems s ! i)) (kv_index k s)"

text \<open>\<open>None\<close>: the array could not grow.\<close>

definition kv_upsert :: "bool \<Rightarrow> cstr \<Rightarrow> 'v \<Rightarrow> 'v kvs \<Rightarrow> 'v kvs option" where
  "kv_upsert grow k v s =
     (case kv_index k s of
        Some i \<Rightarrow> Some (s\<lparr>elems := (elems s)[i := (fst (elems s ! i), v)]\<rparr>)
      | None \<Rightarrow> vec_push 8 grow (k, v) s)"

definition kv_delete :: "cstr \<Rightarrow> 'v kvs \<Rightarrow> bool \<times> 'v kvs" where
  "kv_delete k s =
     (case kv_index k s of
        Some i \<Rightarrow> (True, s\<lparr>elems := remove_at i (elems s)\<rparr>)
      | None \<Rightarrow> (False, s))"

definition kv_ok :: "'v kvs \<Rightarrow> bool" where
  "kv_ok s \<longleftrightarrow> distinct (map fst (elems s)) \<and> vec_ok s"

lemma kv_lookup_map_of: "kv_lookup s = map_of (elems s)"
proof -
  have "map_option (\<lambda>i. snd (xs ! i)) (find_index (\<lambda>e. fst e = k) xs) = map_of xs k" for k and xs :: "(cstr \<times> 'a) list"
    by (induction xs) (auto simp: option.map_comp o_def)
  then show ?thesis by (auto simp: kv_lookup_def kv_index_def fun_eq_iff)
qed

lemma kv_index_None: "kv_index k s = None \<longleftrightarrow> k \<notin> dom (kv_lookup s)"
  by (force simp: kv_index_def find_index_None_iff kv_lookup_map_of dom_map_of_conv_image_fst)

lemma kv_index_Some: "kv_index k s = Some i \<Longrightarrow> i < length (elems s) \<and> fst (elems s ! i) = k"
  by (auto simp: kv_index_def dest: find_index_SomeD)

lemma map_of_update_at:
  "distinct (map fst xs) \<Longrightarrow> i < length xs \<Longrightarrow> map_of (xs[i := (fst (xs ! i), v)]) = (map_of xs)(fst (xs ! i) \<mapsto> v)"
proof (induction xs arbitrary: i)
  case (Cons x xs)
  show ?case
  proof (cases i)
    case (Suc j)
    with Cons.prems have "xs ! j \<in> set xs" "fst x \<notin> fst ` set xs" by simp_all
    then have "fst (xs ! j) \<noteq> fst x" by (metis imageI)
    with Cons Suc show ?thesis by (auto simp: fun_eq_iff)
  qed (use Cons in \<open>simp add: fun_eq_iff\<close>)
qed simp

lemma map_of_snoc:
  "k \<notin> fst ` set xs \<Longrightarrow> map_of (xs @ [(k, v)]) = (map_of xs)(k \<mapsto> v)"
  by (induction xs) (auto simp: fun_eq_iff)

lemma map_of_remove_at:
  "distinct (map fst xs) \<Longrightarrow> i < length xs \<Longrightarrow> map_of (remove_at i xs) = (map_of xs)(fst (xs ! i) := None)"
proof (induction xs arbitrary: i)
  case (Cons x xs)
  show ?case
  proof (cases i)
    case 0
    with Cons.prems show ?thesis by (auto simp: fun_eq_iff map_of_eq_None_iff)
  next
    case (Suc j)
    with Cons.prems have "xs ! j \<in> set xs" "fst x \<notin> fst ` set xs" by simp_all
    then have "fst (xs ! j) \<noteq> fst x" by (metis imageI)
    with Cons Suc show ?thesis by (auto simp: fun_eq_iff)
  qed
qed simp

lemma kv_upsert_spec:
  assumes ok: "kv_ok s" and u: "kv_upsert g k v s = Some s'"
  shows "kv_ok s' \<and> kv_lookup s' = (kv_lookup s)(k \<mapsto> v)"
proof (cases "kv_index k s")
  case None
  with u have p: "vec_push 8 g (k, v) s = Some s'" by (simp add: kv_upsert_def)
  note e = vec_push_elems [OF p]
  have "k \<notin> fst ` set (elems s)"
    using None by (simp add: kv_index_None kv_lookup_map_of dom_map_of_conv_image_fst)
  with ok e vec_ok_push [OF p] show ?thesis
    by (simp add: kv_ok_def kv_lookup_map_of map_of_snoc del: map_of_append)
next
  case (Some i)
  note i = kv_index_Some [OF Some]
  have e: "elems s' = (elems s)[i := (k, v)]" "vcap s' = vcap s"
    using u Some i by (auto simp: kv_upsert_def)
  have "map fst (elems s') = map fst (elems s)" using e i by (simp add: map_update)
    (metis list_update_id length_map nth_map)
  then show ?thesis
    using ok e i map_of_update_at [of "elems s" i v] by (simp add: kv_ok_def vec_ok_def kv_lookup_map_of)
qed

lemma kv_upsert_None: "kv_upsert g k v s = None \<Longrightarrow> \<not> g"
  by (auto simp: kv_upsert_def vec_push_None_iff split: option.splits)

lemma kv_delete_spec:
  assumes ok: "kv_ok s" and d: "kv_delete k s = (f, s')"
  shows "kv_ok s' \<and> kv_lookup s' = (kv_lookup s)(k := None) \<and> (f \<longleftrightarrow> kv_lookup s k \<noteq> None)"
proof (cases "kv_index k s")
  case None
  with d have "s' = s" "\<not> f" by (simp_all add: kv_delete_def)
  with ok None show ?thesis by (auto simp: kv_index_None)
next
  case (Some i)
  note i = kv_index_Some [OF Some]
  from d Some have s': "s' = s\<lparr>elems := remove_at i (elems s)\<rparr>" "f" by (simp_all add: kv_delete_def)
  have "kv_lookup s k \<noteq> None" using Some by (simp add: kv_lookup_def)
  with s' ok i map_of_remove_at [of "elems s" i] show ?thesis
    by (auto simp: kv_ok_def kv_lookup_map_of map_remove_at distinct_remove_at vec_ok_def length_remove_at)
qed

definition kv_put :: "cstr \<Rightarrow> 'v \<Rightarrow> 'v kvs \<Rightarrow> 'v kvs" where
  "kv_put k v s = (case kv_upsert True k v s of Some s' \<Rightarrow> s' | None \<Rightarrow> s)"

definition kv_drop :: "cstr \<Rightarrow> 'v kvs \<Rightarrow> 'v kvs" where
  "kv_drop k s = snd (kv_delete k s)"

interpretation kv: keyed_store kv_lookup kv_put kv_drop kv_ok
proof
  fix s :: "'v kvs" and k v
  assume ok: "kv_ok s"
  obtain s' where u: "kv_upsert True k v s = Some s'" using kv_upsert_None [of True k v s] by blast
  with kv_upsert_spec [OF ok u] show "kv_lookup (kv_put k v s) = (kv_lookup s)(k \<mapsto> v)" "kv_ok (kv_put k v s)"
    by (simp_all add: kv_put_def)
  obtain f t where d: "kv_delete k s = (f, t)" by fastforce
  with kv_delete_spec [OF ok d] show "kv_lookup (kv_drop k s) = (kv_lookup s)(k := None)" "kv_ok (kv_drop k s)"
    by (simp_all add: kv_drop_def)
qed

lemma kv_ok_new [simp]: "kv_ok vec_new" "kv_lookup vec_new = Map.empty"
  by (simp_all add: kv_ok_def kv_lookup_map_of)

section \<open>The key/value store\<close>

definition kvstore_new :: "cstr kvs" where
  "kvstore_new = vec_new"

definition kvstore_set :: "bool \<Rightarrow> cstr kvs \<Rightarrow> cstr option \<Rightarrow> cstr option \<Rightarrow> cstr kvs" where
  "kvstore_set grow s key val =
     (case key of
        None \<Rightarrow> s
      | Some k \<Rightarrow>
          if k = [] then s
          else case val of
                 None \<Rightarrow> snd (kv_delete k s)
               | Some v \<Rightarrow> (case kv_upsert grow k v s of None \<Rightarrow> s | Some s' \<Rightarrow> s'))"

definition kvstore_get :: "cstr kvs \<Rightarrow> cstr option \<Rightarrow> cstr option" where
  "kvstore_get s key = (case key of None \<Rightarrow> None | Some k \<Rightarrow> kv_lookup s k)"

definition kvstore_remove :: "cstr kvs \<Rightarrow> cstr option \<Rightarrow> bool \<times> cstr kvs" where
  "kvstore_remove s key = (case key of None \<Rightarrow> (False, s) | Some k \<Rightarrow> kv_delete k s)"

definition kvstore_count :: "'v kvs \<Rightarrow> nat" where
  "kvstore_count s = length (elems s)"

definition kvstore_snapshot_json :: "cstr kvs \<Rightarrow> json" where
  "kvstore_snapshot_json s = JObj (map (\<lambda>(k, v). (k, JStr v)) (elems s))"

lemma kvstore_count_card: "kv_ok s \<Longrightarrow> kvstore_count s = card (dom (kv_lookup s))"
  by (metis distinct_card dom_map_of_conv_image_fst kv_lookup_map_of kv_ok_def kvstore_count_def length_map set_map)

text \<open>An operation with a usable key is an operation of the interface.\<close>

lemma kvstore_set_ops:
  "k \<noteq> [] \<Longrightarrow> kvstore_set True s (Some k) val = kv.apply_ops [(k, val)] s"
  by (auto simp: kvstore_set_def kv_put_def kv_drop_def split: option.split)

section \<open>The blackboard\<close>

record blackboard =
  bb_items :: "cstr option kvs"
  persist_path :: "cstr option"

type_synonym disk = "cstr \<Rightarrow> cstr option"

definition blackboard_new :: blackboard where
  "blackboard_new = \<lparr>bb_items = vec_new, persist_path = None\<rparr>"

definition bb_snapshot :: "blackboard \<Rightarrow> json" where
  "bb_snapshot b = JObj (map (\<lambda>(k, v). (k, JStr (nonnull_or [] v))) (elems (bb_items b)))"

definition save_locked :: "(json \<Rightarrow> cstr) \<Rightarrow> bool \<Rightarrow> blackboard \<Rightarrow> disk \<Rightarrow> disk" where
  "save_locked print wr b d =
     (case persist_path b of None \<Rightarrow> d
      | Some p \<Rightarrow> if wr then d(p \<mapsto> print (bb_snapshot b)) else d)"

definition blackboard_put ::
  "(json \<Rightarrow> cstr) \<Rightarrow> bool \<Rightarrow> bool \<Rightarrow> blackboard \<times> disk \<Rightarrow> cstr option \<Rightarrow> cstr option \<Rightarrow> blackboard \<times> disk" where
  "blackboard_put print grow wr bd key val =
     (case (key, bd) of
        (None, _) \<Rightarrow> bd
      | (Some k, (b, d)) \<Rightarrow>
          (case kv_upsert grow k val (bb_items b) of
             None \<Rightarrow> (b, d)
           | Some s \<Rightarrow> let b' = b\<lparr>bb_items := s\<rparr> in (b', save_locked print wr b' d)))"

definition blackboard_get :: "blackboard \<Rightarrow> cstr option \<Rightarrow> cstr option" where
  "blackboard_get b key =
     (case key of None \<Rightarrow> None | Some k \<Rightarrow> Option.bind (kv_lookup (bb_items b) k) (\<lambda>v. v))"

definition blackboard_remove ::
  "(json \<Rightarrow> cstr) \<Rightarrow> bool \<Rightarrow> blackboard \<times> disk \<Rightarrow> cstr option \<Rightarrow> bool \<times> blackboard \<times> disk" where
  "blackboard_remove print wr bd key =
     (case (key, bd) of
        (None, _) \<Rightarrow> (False, bd)
      | (Some k, (b, d)) \<Rightarrow>
          (case kv_delete k (bb_items b) of
             (False, _) \<Rightarrow> (False, b, d)
           | (True, s) \<Rightarrow> let b' = b\<lparr>bb_items := s\<rparr> in (True, b', save_locked print wr b' d)))"

definition blackboard_count :: "blackboard \<Rightarrow> nat" where
  "blackboard_count b = length (elems (bb_items b))"

definition blackboard_set_persist :: "blackboard \<Rightarrow> cstr option \<Rightarrow> blackboard" where
  "blackboard_set_persist b path =
     b\<lparr>persist_path := (case path of None \<Rightarrow> None | Some p \<Rightarrow> if p = [] then None else Some p)\<rparr>"

text \<open>The merge loop of \<open>blackboard_load_json\<close>; it stops when the array cannot grow.\<close>

fun load_items :: "bool \<Rightarrow> (cstr \<times> json) list \<Rightarrow> cstr option kvs \<Rightarrow> cstr option kvs" where
  "load_items grow [] s = s"
| "load_items grow ((k, j) # kvs) s =
     (case kv_upsert grow k (json_string (Some j)) s of
        None \<Rightarrow> s
      | Some s' \<Rightarrow> load_items grow kvs s')"

definition blackboard_load_json ::
  "(cstr \<Rightarrow> json option) \<Rightarrow> bool \<Rightarrow> blackboard \<Rightarrow> disk \<Rightarrow> cstr option \<Rightarrow> int \<times> blackboard" where
  "blackboard_load_json parse grow b d path =
     (case path of
        None \<Rightarrow> (-1, b)
      | Some p \<Rightarrow>
          if p = [] then (-1, b)
          else case Option.bind (d p) parse of
                 Some (JObj kvs) \<Rightarrow> (0, b\<lparr>bb_items := load_items grow kvs (bb_items b)\<rparr>)
               | _ \<Rightarrow> (-1, b))"

definition bb_ok :: "blackboard \<Rightarrow> bool" where
  "bb_ok b \<longleftrightarrow> kv_ok (bb_items b)"

lemma bb_ok_put: "bb_ok b \<Longrightarrow> blackboard_put print g wr (b, d) key val = (b', d') \<Longrightarrow> bb_ok b'"
  by (auto simp: blackboard_put_def bb_ok_def Let_def split: option.splits dest: kv_upsert_spec)

lemma load_items_spec:
  "kv_ok s \<Longrightarrow> kv_ok (load_items True kvs s) \<and>
     kv_lookup (load_items True kvs s) =
       kv_lookup s ++ map_of (rev (map (\<lambda>(k, j). (k, json_string (Some j))) kvs))"
proof (induction kvs arbitrary: s)
  case (Cons kj kvs)
  obtain k j where kj: "kj = (k, j)" by (cases kj)
  obtain s' where u: "kv_upsert True k (json_string (Some j)) s = Some s'"
    using kv_upsert_None [of True k "json_string (Some j)" s] by blast
  note sp = kv_upsert_spec [OF Cons.prems u]
  from Cons.IH [of s'] sp u kj show ?case by (auto simp: fun_eq_iff map_add_def split: option.split)
qed simp

lemma map_of_rev_distinct: "distinct (map fst xs) \<Longrightarrow> map_of (rev xs) = map_of xs"
proof (induction xs)
  case (Cons x xs)
  then have "fst x \<notin> fst ` set (rev xs)" by simp
  with Cons map_of_snoc [of "fst x" "rev xs" "snd x"] show ?case by (simp add: fun_eq_iff del: map_of_append)
qed simp

section \<open>Properties\<close>

text \<open>After any sequence of sets and deletions (with non-empty keys and memory to grow) from an
  empty store, a key holds exactly what its last operation left, and the count is the number of keys
  held.\<close>

theorem kvstore_last_write:
  assumes "\<forall>(k, v) \<in> set ops. k \<noteq> []"
  shows "let s = fold (\<lambda>(k, v) s. kvstore_set True s (Some k) v) ops kvstore_new
         in (\<forall>k. kvstore_get s (Some k) = (case map_of (rev ops) k of None \<Rightarrow> None | Some r \<Rightarrow> r)) \<and>
            kvstore_count s = card {k. kvstore_get s (Some k) \<noteq> None}"
proof -
  have e: "fold (\<lambda>(k, v) s. kvstore_set True s (Some k) v) ops s = kv.apply_ops ops s" for s
    using assms
  proof (induction ops arbitrary: s)
    case (Cons kv ops)
    then show ?case by (cases kv) (simp add: kvstore_set_ops)
  qed simp
  let ?s = "kv.apply_ops ops kvstore_new"
  have ok: "kv_ok ?s" by (rule kv.inv_apply_ops) (simp add: kvstore_new_def)
  have get: "kvstore_get ?s (Some k) = (case map_of (rev ops) k of None \<Rightarrow> None | Some r \<Rightarrow> r)" for k
    using kv.get_apply_ops [of kvstore_new ops k] by (simp add: kvstore_get_def kvstore_new_def split: option.split)
  have "kvstore_count ?s = card (dom (kv_lookup ?s))" by (rule kvstore_count_card [OF ok])
  also have "dom (kv_lookup ?s) = {k. kvstore_get ?s (Some k) \<noteq> None}"
    by (simp add: dom_def kvstore_get_def)
  finally show ?thesis using get by (simp add: e Let_def)
qed

lemma kvstore_last_write_witness:
  "kvstore_get (fold (\<lambda>(k, v) s. kvstore_set True s (Some k) v)
      [(''a'', Some ''1''), (''b'', Some ''2''), (''a'', None), (''b'', Some ''3'')] kvstore_new) (Some ''b'') = Some ''3''"
  using kvstore_last_write [of "[(''a'', Some ''1''), (''b'', Some ''2''), (''a'', None), (''b'', Some ''3'')]"]
  by (simp add: Let_def)

text \<open>C7: with a persist path set, after any put the file on disk holds the board: a new
  process that loads it gets, for every key, what the running board holds, except that an entry whose
  value is NULL comes back as the empty string. The hypothesis on \<open>parse\<close> is that the JSON parser
  reads back what the printer wrote.\<close>

theorem blackboard_survives_restart:
  assumes "bb_ok b" "persist_path b = Some p" "p \<noteq> []"
    and "blackboard_put print True True (b, d) (Some k) v = (b', d')"
    and "parse (print (bb_snapshot b')) = Some (bb_snapshot b')"
    and "blackboard_load_json parse True blackboard_new d' (Some p) = (rc, b2)"
  shows "rc = 0 \<and> blackboard_get b' (Some k) = v \<and>
         (\<forall>x. kv_lookup (bb_items b2) x = map_option (\<lambda>w. Some (nonnull_or [] w)) (kv_lookup (bb_items b') x))"
proof -
  obtain s where u: "kv_upsert True k v (bb_items b) = Some s"
    using kv_upsert_None [of True k v "bb_items b"] by blast
  have b': "b' = b\<lparr>bb_items := s\<rparr>" "d' = save_locked print True b' d"
    using assms(4) u by (auto simp: blackboard_put_def Let_def)
  have sp: "kv_ok s" "kv_lookup s = (kv_lookup (bb_items b))(k \<mapsto> v)"
    using kv_upsert_spec [OF _ u] assms(1) by (simp_all add: bb_ok_def)
  have d': "d' p = Some (print (bb_snapshot b'))"
    using b' assms(2) by (simp add: save_locked_def)
  let ?kvs = "map (\<lambda>(k, v). (k, JStr (nonnull_or [] v))) (elems s)"
  have snap: "bb_snapshot b' = JObj ?kvs" using b'(1) by (simp add: bb_snapshot_def)
  have load: "rc = 0" "b2 = blackboard_new\<lparr>bb_items := load_items True ?kvs vec_new\<rparr>"
    using assms(3,6) d' assms(5) snap by (auto simp: blackboard_load_json_def blackboard_new_def)
  have dist: "distinct (map fst (elems s))" using sp(1) by (simp add: kv_ok_def)
  have mm: "map (\<lambda>(k, j). (k, json_string (Some j))) ?kvs = map (\<lambda>(k, w). (k, Some (nonnull_or [] w))) (elems s)"
    by (simp add: split_beta)
  have "kv_lookup (bb_items b2) = map_of (rev (map (\<lambda>(k, w). (k, Some (nonnull_or [] w))) (elems s)))"
    using load_items_spec [of "vec_new" ?kvs] load(2) unfolding mm by simp
  also have "\<dots> = map_of (map (\<lambda>(k, w). (k, Some (nonnull_or [] w))) (elems s))"
    by (rule map_of_rev_distinct) (use dist in \<open>simp add: split_beta o_def\<close>)
  also have "\<dots> = (\<lambda>x. map_option (\<lambda>w. Some (nonnull_or [] w)) (map_of (elems s) x))"
    by (simp add: map_of_map fun_eq_iff)
  finally have "\<forall>x. kv_lookup (bb_items b2) x = map_option (\<lambda>w. Some (nonnull_or [] w)) (kv_lookup (bb_items b') x)"
    using b'(1) by (simp add: kv_lookup_map_of)
  moreover have "blackboard_get b' (Some k) = v" using b'(1) sp(2) by (simp add: blackboard_get_def)
  ultimately show ?thesis using load(1) by blast
qed

definition demo_board :: blackboard where
  "demo_board = blackboard_set_persist blackboard_new (Some ''bb.json'')"

lemma blackboard_survives_restart_witness:
  "kv_lookup (bb_items (snd (blackboard_load_json (\<lambda>_. Some (JObj [(''k'', JStr [])])) True blackboard_new
     (snd (blackboard_put (\<lambda>_. ''t'') True True (demo_board, Map.empty) (Some ''k'') None)) (Some ''bb.json'')))) ''k''
   = Some (Some [])"
proof -
  let ?parse = "\<lambda>_ :: cstr. Some (JObj [(''k'', JStr [])])"
  let ?put = "blackboard_put (\<lambda>_. ''t'') True True (demo_board, Map.empty) (Some ''k'') None"
  let ?load = "blackboard_load_json ?parse True blackboard_new (snd ?put) (Some ''bb.json'')"
  have ok: "bb_ok demo_board" "persist_path demo_board = Some ''bb.json''"
    by (simp_all add: demo_board_def blackboard_set_persist_def blackboard_new_def bb_ok_def)
  have snap: "bb_snapshot (fst ?put) = JObj [(''k'', JStr [])]"
    by (simp add: demo_board_def blackboard_set_persist_def blackboard_new_def blackboard_put_def kv_upsert_def
        kv_index_def vec_push_def vec_new_def grow_cap_def bb_snapshot_def nonnull_or_def Let_def)
  have look: "kv_lookup (bb_items (fst ?put)) ''k'' = Some None"
    by (simp add: demo_board_def blackboard_set_persist_def blackboard_new_def blackboard_put_def kv_upsert_def
        kv_index_def vec_push_def vec_new_def grow_cap_def kv_lookup_def Let_def)
  have "?parse ((\<lambda>_. ''t'') (bb_snapshot (fst ?put))) = Some (bb_snapshot (fst ?put))" using snap by simp
  from blackboard_survives_restart [OF ok _ prod.collapse [symmetric] this prod.collapse [symmetric]] look
  show ?thesis by (simp add: nonnull_or_def)
qed

end
