(* ===== verification/Policy.thy ===== *)
theory Policy
  imports CBase Json
begin

text \<open>
  What a tool call is allowed to do: the rule engine of \<open>src/backend/src/runtime/policy_engine.c\<close>,
  the capability tokens of \<open>plugin_runtime/capability.c\<close> and the deny list of
  \<open>plugin_runtime/sandbox.c\<close>.

  The ask callback is an optional function of the tool and its arguments. The rule file is its parsed
  JSON text; a rule array that cannot grow is not modelled (the code does not test that \<open>realloc\<close>).
\<close>

section \<open>Rules\<close>

datatype policy_decision = POLICY_ALLOW | POLICY_DENY | POLICY_ASK

record rule =
  r_tool :: cstr
  r_decision :: policy_decision
  r_reason :: "cstr option"

record policy_engine =
  rules :: "rule list"
  ask_cb :: "(cstr \<Rightarrow> cstr option \<Rightarrow> bool) option"

definition policy_engine_new :: policy_engine where
  "policy_engine_new = \<lparr>rules = [], ask_cb = None\<rparr>"

definition parse_action :: "cstr option \<Rightarrow> policy_decision" where
  "parse_action action =
     (case action of
        None \<Rightarrow> POLICY_DENY
      | Some a \<Rightarrow>
          if a = ''allow'' then POLICY_ALLOW
          else if a = ''deny'' then POLICY_DENY
          else if a = ''ask'' then POLICY_ASK
          else POLICY_DENY)"

definition policy_add_rule :: "policy_engine \<Rightarrow> cstr option \<Rightarrow> cstr option \<Rightarrow> cstr option \<Rightarrow> policy_engine" where
  "policy_add_rule pe tool action reason =
     (case tool of
        None \<Rightarrow> pe
      | Some t \<Rightarrow> pe\<lparr>rules := rules pe @ [\<lparr>r_tool = t, r_decision = parse_action action, r_reason = reason\<rparr>]\<rparr>)"

text \<open>The scan keeps the last exact and the last wildcard match.\<close>

fun policy_scan :: "cstr \<Rightarrow> rule option \<Rightarrow> rule option \<Rightarrow> rule list \<Rightarrow> rule option \<times> rule option" where
  "policy_scan t ex wild [] = (ex, wild)"
| "policy_scan t ex wild (r # rs) =
     (if r_tool r = t then policy_scan t (Some r) wild rs
      else if r_tool r = ''*'' then policy_scan t ex (Some r) rs
      else policy_scan t ex wild rs)"

definition policy_check :: "policy_engine \<Rightarrow> cstr \<Rightarrow> cstr option \<Rightarrow> policy_decision \<times> cstr" where
  "policy_check pe t args =
     (case policy_scan t None None (rules pe) of
        (ex, wild) \<Rightarrow>
          (case (if ex \<noteq> None then ex else wild) of
             Some m \<Rightarrow>
               if r_decision m = POLICY_ASK
               then if (case ask_cb pe of None \<Rightarrow> False | Some cb \<Rightarrow> cb t args)
                    then (POLICY_ALLOW, nonnull_or ''rule match'' (r_reason m))
                    else (POLICY_DENY, ''ask denied'')
               else (r_decision m, nonnull_or ''rule match'' (r_reason m))
           | None \<Rightarrow> (if rules pe = [] then POLICY_ALLOW else POLICY_ASK, ''no rule'')))"

definition policy_rule_count :: "policy_engine \<Rightarrow> nat" where
  "policy_rule_count pe = length (rules pe)"

fun decision_str :: "policy_decision \<Rightarrow> cstr" where
  "decision_str POLICY_ALLOW = ''allow''"
| "decision_str POLICY_DENY = ''deny''"
| "decision_str POLICY_ASK = ''ask''"

definition policy_rule_get :: "policy_engine \<Rightarrow> nat \<Rightarrow> (cstr \<times> cstr \<times> cstr option) option" where
  "policy_rule_get pe i =
     (if length (rules pe) \<le> i then None
      else let r = rules pe ! i in Some (r_tool r, decision_str (r_decision r), r_reason r))"

definition policy_remove_rule :: "policy_engine \<Rightarrow> nat \<Rightarrow> policy_engine" where
  "policy_remove_rule pe i =
     (if length (rules pe) \<le> i then pe else pe\<lparr>rules := remove_at i (rules pe)\<rparr>)"

definition policy_save_file :: "policy_engine \<Rightarrow> json" where
  "policy_save_file pe =
     JArr (map (\<lambda>r. JObj [(''tool'', JStr (r_tool r)), (''action'', JStr (decision_str (r_decision r))),
                         (''reason'', JStr (nonnull_or [] (r_reason r)))]) (rules pe))"

text \<open>\<open>policy_load_file\<close> on the parsed file; the answer is the number of rules loaded.\<close>

fun policy_load_items :: "json list \<Rightarrow> policy_engine \<Rightarrow> int \<Rightarrow> int \<times> policy_engine" where
  "policy_load_items [] pe n = (n, pe)"
| "policy_load_items (it # its) pe n =
     (case json_string (json_get ''tool'' (Some it)) of
        None \<Rightarrow> policy_load_items its pe n
      | Some t \<Rightarrow>
          policy_load_items its
            (policy_add_rule pe (Some t)
               (Some (nonnull_or ''deny'' (json_string (json_get ''action'' (Some it)))))
               (json_string (json_get ''reason'' (Some it)))) (n + 1))"

definition policy_load_file :: "policy_engine \<Rightarrow> json option \<Rightarrow> int \<times> policy_engine" where
  "policy_load_file pe file =
     (case file of Some (JArr its) \<Rightarrow> policy_load_items its pe 0 | _ \<Rightarrow> (-1, pe))"

definition danger_words :: "cstr list" where
  "danger_words = [''rm '', ''del '', ''drop '', ''format'', ''mkfs'',
                   ''chmod 777'', ''shutdown'', ''reboot'', ''--force'', ''rmdir'']"

definition args_contain_dangerous :: "cstr option \<Rightarrow> bool" where
  "args_contain_dangerous args =
     (case args of None \<Rightarrow> False | Some a \<Rightarrow> \<exists>w \<in> set danger_words. str_contains w a)"

definition policy_risk :: "cstr option \<Rightarrow> cstr option \<Rightarrow> int" where
  "policy_risk tool args =
     (case tool of
        None \<Rightarrow> 0
      | Some t \<Rightarrow>
          let base = (if t = ''shell'' then 70 else if t = ''file_write'' then 40
                      else if t = ''file_delete'' then 60 else if t = ''git'' then 30
                      else if t = ''mcp'' then 35 else if t = ''file_read'' then 5 else 25);
              risk = (if args_contain_dangerous args then base + 25 else base)
          in if 100 < risk then 100 else risk)"

subsection \<open>The scan\<close>

definition last_rule :: "(cstr \<Rightarrow> bool) \<Rightarrow> rule list \<Rightarrow> rule option" where
  "last_rule P rs = find (\<lambda>r. P (r_tool r)) (rev rs)"

lemma last_rule_Nil [simp]: "last_rule P [] = None"
  by (simp add: last_rule_def)

lemma last_rule_snoc [simp]: "last_rule P (rs @ [r]) = (if P (r_tool r) then Some r else last_rule P rs)"
  by (simp add: last_rule_def)

lemma find_append: "find P (xs @ ys) = (case find P xs of None \<Rightarrow> find P ys | Some x \<Rightarrow> Some x)"
  by (induction xs) auto

lemma last_rule_Cons:
  "last_rule P (r # rs) = (case last_rule P rs of None \<Rightarrow> if P (r_tool r) then Some r else None | Some x \<Rightarrow> Some x)"
  by (simp add: last_rule_def find_append split: option.split)

lemma policy_scan_last:
  "policy_scan t ex wild rs =
     (case last_rule (\<lambda>n. n = t) rs of None \<Rightarrow> ex | Some r \<Rightarrow> Some r,
      case last_rule (\<lambda>n. n \<noteq> t \<and> n = ''*'') rs of None \<Rightarrow> wild | Some r \<Rightarrow> Some r)"
  by (induction rs arbitrary: ex wild) (auto simp: last_rule_Cons split: option.split)

text \<open>The rule that decides for a tool.\<close>

definition deciding_rule :: "rule list \<Rightarrow> cstr \<Rightarrow> rule option" where
  "deciding_rule rs t =
     (case last_rule (\<lambda>n. n = t) rs of Some r \<Rightarrow> Some r | None \<Rightarrow> last_rule (\<lambda>n. n = ''*'') rs)"

lemma last_rule_cong: "(\<And>r. r \<in> set rs \<Longrightarrow> P (r_tool r) = Q (r_tool r)) \<Longrightarrow> last_rule P rs = last_rule Q rs"
  unfolding last_rule_def by (rule find_cong) auto

lemma last_rule_None: "last_rule P rs = None \<longleftrightarrow> (\<forall>r \<in> set rs. \<not> P (r_tool r))"
  by (auto simp: last_rule_def find_None_iff)

lemma policy_scan_deciding:
  "(case policy_scan t None None rs of (ex, wild) \<Rightarrow> if ex \<noteq> None then ex else wild) = deciding_rule rs t"
proof (cases "last_rule (\<lambda>n. n = t) rs")
  case None
  then have "last_rule (\<lambda>n. n \<noteq> t \<and> n = ''*'') rs = last_rule (\<lambda>n. n = ''*'') rs"
    by (intro last_rule_cong) (auto simp: last_rule_None)
  with None show ?thesis by (simp add: policy_scan_last deciding_rule_def split: option.split)
next
  case (Some r)
  then show ?thesis by (simp add: policy_scan_last deciding_rule_def)
qed

lemma policy_check_deciding:
  "policy_check pe t args =
     (case deciding_rule (rules pe) t of
        None \<Rightarrow> (if rules pe = [] then POLICY_ALLOW else POLICY_ASK, ''no rule'')
      | Some m \<Rightarrow>
          if r_decision m = POLICY_ASK
          then if (case ask_cb pe of None \<Rightarrow> False | Some cb \<Rightarrow> cb t args)
               then (POLICY_ALLOW, nonnull_or ''rule match'' (r_reason m))
               else (POLICY_DENY, ''ask denied'')
          else (r_decision m, nonnull_or ''rule match'' (r_reason m)))"
  unfolding policy_scan_deciding [symmetric] policy_check_def by (simp split: prod.split)

lemma parse_decision_str [simp]: "parse_action (Some (decision_str d)) = d"
  by (cases d) (simp_all add: parse_action_def)

lemma deciding_rule_in: "deciding_rule rs t = Some r \<Longrightarrow> r \<in> set rs \<and> (r_tool r = t \<or> r_tool r = ''*'')"
  by (auto simp: deciding_rule_def last_rule_def find_Some_iff split: option.splits)
     (metis length_rev nth_mem set_rev)+

section \<open>Capabilities\<close>

text \<open>The granted names, in the order of the grants; \<open>grow\<close> is the outcome of the reallocation.\<close>

definition find_cap :: "cstr vec \<Rightarrow> cstr \<Rightarrow> int" where
  "find_cap c cap = (case find_index (\<lambda>x. x = cap) (elems c) of None \<Rightarrow> -1 | Some i \<Rightarrow> int i)"

definition capability_grant :: "bool \<Rightarrow> cstr vec \<Rightarrow> cstr option \<Rightarrow> int \<times> cstr vec" where
  "capability_grant grow c cap =
     (case cap of
        None \<Rightarrow> (-1, c)
      | Some x \<Rightarrow>
          if x = [] then (-1, c)
          else if 0 \<le> find_cap c x then (-1, c)
          else case vec_push 8 grow x c of None \<Rightarrow> (-1, c) | Some c' \<Rightarrow> (0, c'))"

definition capability_revoke :: "cstr vec \<Rightarrow> cstr option \<Rightarrow> int \<times> cstr vec" where
  "capability_revoke c cap =
     (case cap of
        None \<Rightarrow> (0, c)
      | Some x \<Rightarrow>
          let i = find_cap c x
          in if i < 0 then (0, c) else (1, c\<lparr>elems := remove_at (nat i) (elems c)\<rparr>))"

definition capability_has :: "cstr vec \<Rightarrow> cstr option \<Rightarrow> bool" where
  "capability_has c cap = (case cap of None \<Rightarrow> False | Some x \<Rightarrow> 0 \<le> find_cap c x)"

definition capability_count :: "cstr vec \<Rightarrow> nat" where
  "capability_count c = length (elems c)"

definition wild_match :: "cstr \<Rightarrow> cstr \<Rightarrow> bool" where
  "wild_match pat s =
     (case find_index (\<lambda>c. c = CHR ''*'') pat of
        None \<Rightarrow> pat = s
      | Some plen \<Rightarrow>
          let pfix = (if 0 < plen \<and> pat ! (plen - 1) = CHR ''.'' then plen - 1 else plen)
          in if length s < pfix then False else take pfix pat = take pfix s)"

definition capability_match :: "cstr vec \<Rightarrow> cstr option \<Rightarrow> bool" where
  "capability_match c pat =
     (case pat of None \<Rightarrow> False | Some p \<Rightarrow> \<exists>x \<in> set (elems c). wild_match p x)"

definition capability_json :: "cstr vec \<Rightarrow> json" where
  "capability_json c = JArr (map JStr (elems c))"

definition caps_ok :: "cstr vec \<Rightarrow> bool" where
  "caps_ok c \<longleftrightarrow> distinct (elems c) \<and> [] \<notin> set (elems c) \<and> vec_ok c"

lemma find_cap_iff: "0 \<le> find_cap c x \<longleftrightarrow> x \<in> set (elems c)"
proof (cases "find_index (\<lambda>y. y = x) (elems c)")
  case None
  then have "x \<notin> set (elems c)" by (auto simp: find_index_None_iff)
  with None show ?thesis by (simp add: find_cap_def)
next
  case (Some i)
  then have "x \<in> set (elems c)" using find_index_SomeD [OF Some] nth_mem [of i "elems c"] by auto
  with Some show ?thesis by (simp add: find_cap_def)
qed

lemma capability_grant_spec:
  assumes "caps_ok c" "capability_grant True c (Some x) = (rc, c')"
  shows "caps_ok c' \<and> (if x = [] \<or> x \<in> set (elems c) then rc = -1 \<and> c' = c
           else rc = 0 \<and> set (elems c') = insert x (set (elems c)))"
proof (cases "x = [] \<or> x \<in> set (elems c)")
  case True
  with assms show ?thesis by (auto simp: capability_grant_def find_cap_iff split: if_splits)
next
  case False
  obtain v where v: "vec_push 8 True x c = Some v" using vec_push_ok_Some [of 8 x c] by blast
  from False assms(2) v have "rc = 0" "c' = v" by (simp_all add: capability_grant_def find_cap_iff)
  with False assms(1) vec_push_elems [OF v] vec_ok_push [OF v] show ?thesis by (auto simp: caps_ok_def)
qed

lemma capability_revoke_spec:
  assumes "caps_ok c" "capability_revoke c (Some x) = (rc, c')"
  shows "caps_ok c' \<and> rc = (if x \<in> set (elems c) then 1 else 0) \<and> set (elems c') = set (elems c) - {x}"
proof (cases "find_index (\<lambda>y. y = x) (elems c)")
  case None
  then have "x \<notin> set (elems c)" by (auto simp: find_index_None_iff)
  with None assms show ?thesis by (simp add: capability_revoke_def find_cap_def)
next
  case (Some i)
  note i = find_index_SomeD [OF Some]
  from Some assms(2) have "rc = 1" "c' = c\<lparr>elems := remove_at i (elems c)\<rparr>"
    by (simp_all add: capability_revoke_def find_cap_def)
  moreover have "distinct (elems c)" using assms(1) by (simp add: caps_ok_def)
  ultimately show ?thesis
    using assms(1) i set_remove_at_distinct [of "elems c" i] nth_mem [of i "elems c"]
    by (auto simp: caps_ok_def distinct_remove_at vec_ok_def length_remove_at)
qed

text \<open>A pattern without a star is a name; otherwise what precedes the star (and its dot) is a prefix.\<close>

lemma wild_match_plain: "CHR ''*'' \<notin> set pat \<Longrightarrow> wild_match pat s \<longleftrightarrow> pat = s"
proof -
  assume "CHR ''*'' \<notin> set pat"
  then have "find_index (\<lambda>c. c = CHR ''*'') pat = None" by (auto simp: find_index_None_iff)
  then show ?thesis by (simp add: wild_match_def)
qed

lemma find_index_append: "(\<forall>x \<in> set xs. \<not> P x) \<Longrightarrow> find_index P (xs @ ys) = map_option (\<lambda>i. length xs + i) (find_index P ys)"
  by (induction xs) (auto simp: map_option_case split: option.split)

lemma wild_match_dot_star:
  assumes "CHR ''*'' \<notin> set p" "p = [] \<or> last p \<noteq> CHR ''.''"
  shows "wild_match (p @ ''.*'' @ rest) s \<longleftrightarrow> (\<exists>t. s = p @ t)"
    and "wild_match (p @ ''*'' @ rest) s \<longleftrightarrow> (\<exists>t. s = p @ t)"
proof -
  have take: "length p \<le> length s \<and> take (length p) s = p \<longleftrightarrow> (\<exists>t. s = p @ t)"
    by (metis append_eq_conv_conj append_take_drop_id le_add1 length_append)
  have "find_index (\<lambda>c. c = CHR ''*'') (p @ ''.*'' @ rest) = Some (length p + 1)"
    "find_index (\<lambda>c. c = CHR ''*'') (p @ ''*'' @ rest) = Some (length p)"
    using assms(1) by (subst find_index_append; force)+
  then show "wild_match (p @ ''.*'' @ rest) s \<longleftrightarrow> (\<exists>t. s = p @ t)"
    "wild_match (p @ ''*'' @ rest) s \<longleftrightarrow> (\<exists>t. s = p @ t)"
    using assms(2) take by (auto simp: wild_match_def Let_def nth_append last_conv_nth not_less)
qed

section \<open>The deny list\<close>

definition lower_byte :: "char \<Rightarrow> nat" where
  "lower_byte c = (let n = of_char c in if 65 \<le> n \<and> n \<le> 90 then n + 32 else n)"

definition ci_contains :: "cstr \<Rightarrow> cstr \<Rightarrow> bool" where
  "ci_contains hay needle =
     (if needle = [] \<or> length hay < length needle then False
      else \<exists>i \<in> {0..length hay - length needle}.
             map lower_byte (take (length needle) (drop i hay)) = map lower_byte needle)"

definition forbidden_words :: "cstr list" where
  "forbidden_words = [''rm -rf'', ''rm -fr'', ''mkfs'', ''format c:'', ''shutdown'', ''reboot'',
     ''dd if='', '':(){'', ''fork bomb'', ''del /s'', ''del /q'', ''rd /s'',
     ''> /dev/sda'', ''chmod 777 /'', ''sudo rm'', ''del /f /s'']"

definition sandbox_forbidden :: "cstr option \<Rightarrow> bool" where
  "sandbox_forbidden cmd = (case cmd of None \<Rightarrow> False | Some c \<Rightarrow> \<exists>w \<in> set forbidden_words. ci_contains c w)"

section \<open>Properties\<close>

text \<open>C8: the decision for a tool is made by the last rule of exactly its name, else by the last
  wildcard rule, whatever the order of the two kinds; an ASK rule is granted only by an installed
  callback that agrees and is a denial otherwise, so a matching rule never answers ASK; only without
  any matching rule is the answer ALLOW (no rules at all) or ASK.\<close>

theorem policy_check_spec:
  "fst (policy_check pe t args) =
     (case deciding_rule (rules pe) t of
        Some r \<Rightarrow>
          (case r_decision r of
             POLICY_ALLOW \<Rightarrow> POLICY_ALLOW
           | POLICY_DENY \<Rightarrow> POLICY_DENY
           | POLICY_ASK \<Rightarrow> if \<exists>cb. ask_cb pe = Some cb \<and> cb t args then POLICY_ALLOW else POLICY_DENY)
      | None \<Rightarrow> if rules pe = [] then POLICY_ALLOW else POLICY_ASK)"
  by (auto simp: policy_check_deciding split: option.splits policy_decision.splits)

text \<open>Adding a rule for one tool decides that tool by the new rule and leaves the decision for
  every other tool as it was, provided the engine already had a rule (the first rule also ends the
  allow-everything default).\<close>

theorem policy_rule_local:
  assumes "t \<noteq> ''*''" "rules pe \<noteq> []"
  shows "deciding_rule (rules (policy_add_rule pe (Some t) act why)) t =
           Some \<lparr>r_tool = t, r_decision = parse_action act, r_reason = why\<rparr> \<and>
         (u \<noteq> t \<longrightarrow> policy_check (policy_add_rule pe (Some t) act why) u args = policy_check pe u args)"
  using assms by (auto simp: policy_check_deciding policy_add_rule_def deciding_rule_def split: option.split)

definition demo_policy :: policy_engine where
  "demo_policy = policy_add_rule policy_engine_new (Some ''*'') (Some ''ask'') None"

lemma policy_rule_local_witness:
  "policy_check (policy_add_rule demo_policy (Some ''shell'') (Some ''allow'') None) ''git'' None =
   policy_check demo_policy ''git'' None"
  using policy_rule_local [of "''shell''" demo_policy "Some ''allow''" None "''git''" None]
  by (simp add: demo_policy_def policy_add_rule_def policy_engine_new_def)

lemma policy_load_saved:
  "policy_load_items (json_items (Some (policy_save_file \<lparr>rules = rs, ask_cb = cb\<rparr>))) pe n =
   (n + int (length rs),
    pe\<lparr>rules := rules pe @ map (\<lambda>r. r\<lparr>r_reason := Some (nonnull_or [] (r_reason r))\<rparr>) rs\<rparr>)"
proof (induction rs arbitrary: pe n)
  case (Cons r rs)
  have "r\<lparr>r_reason := Some (nonnull_or [] (r_reason r))\<rparr> =
        \<lparr>r_tool = r_tool r, r_decision = r_decision r, r_reason = Some (nonnull_or [] (r_reason r))\<rparr>" by simp
  with Cons show ?case by (simp add: policy_save_file_def policy_add_rule_def nonnull_or_def)
qed (simp add: policy_save_file_def)

lemma deciding_rule_map:
  assumes "\<And>r. r_tool (f r) = r_tool r"
  shows "deciding_rule (map f rs) t = map_option f (deciding_rule rs t)"
proof -
  have "last_rule P (map f rs) = map_option f (last_rule P rs)" for P
    by (simp add: last_rule_def rev_map) (induction rs rule: rev_induct; simp add: assms)
  then show ?thesis by (simp add: deciding_rule_def split: option.split)
qed

text \<open>A rule set saved and loaded into a fresh engine with the same callback takes the same
  decision for every call.\<close>

theorem policy_file_roundtrip:
  assumes "policy_load_file (policy_engine_new\<lparr>ask_cb := ask_cb pe\<rparr>) (Some (policy_save_file pe)) = (n, pe')"
  shows "n = int (policy_rule_count pe) \<and> fst (policy_check pe' t args) = fst (policy_check pe t args)"
proof -
  obtain its where its: "policy_save_file pe = JArr its" by (simp add: policy_save_file_def)
  have pe: "policy_save_file \<lparr>rules = rules pe, ask_cb = ask_cb pe\<rparr> = policy_save_file pe"
    by (simp add: policy_save_file_def)
  have "policy_load_items its (policy_engine_new\<lparr>ask_cb := ask_cb pe\<rparr>) 0 = (n, pe')"
    using assms its by (simp add: policy_load_file_def)
  moreover have "json_items (Some (policy_save_file \<lparr>rules = rules pe, ask_cb = ask_cb pe\<rparr>)) = its"
    using its pe by simp
  ultimately have n: "n = int (length (rules pe))" and r: "rules pe' = map (\<lambda>r. r\<lparr>r_reason := Some (nonnull_or [] (r_reason r))\<rparr>) (rules pe)"
    "ask_cb pe' = ask_cb pe"
    using policy_load_saved [of "rules pe" "ask_cb pe" "policy_engine_new\<lparr>ask_cb := ask_cb pe\<rparr>" 0]
    by (auto simp: policy_engine_new_def)
  have "deciding_rule (rules pe') t =
      map_option (\<lambda>r. r\<lparr>r_reason := Some (nonnull_or [] (r_reason r))\<rparr>) (deciding_rule (rules pe) t)"
    unfolding r(1) by (rule deciding_rule_map) simp
  then show ?thesis
    using n r by (auto simp: policy_check_deciding policy_rule_count_def split: option.split)
qed

lemma policy_file_roundtrip_witness:
  "fst (policy_check (snd (policy_load_file (policy_engine_new\<lparr>ask_cb := ask_cb demo_policy\<rparr>)
     (Some (policy_save_file demo_policy)))) ''x'' None) = fst (policy_check demo_policy ''x'' None)"
  using policy_file_roundtrip [OF prod.collapse [symmetric], of demo_policy "''x''" None] by blast

text \<open>The risk score is always between 0 and 100, and arguments that contain a dangerous word
  never lower it.\<close>

theorem policy_risk_bounds:
  "0 \<le> policy_risk tool args \<and> policy_risk tool args \<le> 100 \<and>
   policy_risk tool None \<le> policy_risk tool args"
  by (auto simp: policy_risk_def Let_def args_contain_dangerous_def split: option.split)

text \<open>The tokens behave as a set: a grant adds exactly its name (and is refused for the empty
  name or a duplicate), a revocation takes it away, membership and the wildcard test read the set.\<close>

theorem capability_tokens:
  assumes "caps_ok c" "capability_grant True c (Some x) = (rc, c1)" "capability_revoke c1 (Some y) = (rv, c2)"
  shows "caps_ok c1 \<and> caps_ok c2 \<and>
    (rc = 0 \<longleftrightarrow> x \<noteq> [] \<and> \<not> capability_has c (Some x)) \<and>
    (rv = 1 \<longleftrightarrow> capability_has c1 (Some y)) \<and>
    (\<forall>z. capability_has c2 (Some z) \<longleftrightarrow> z \<noteq> y \<and> (capability_has c (Some z) \<or> x \<noteq> [] \<and> z = x)) \<and>
    (\<forall>p. capability_match c2 (Some p) \<longleftrightarrow> (\<exists>z. capability_has c2 (Some z) \<and> wild_match p z))"
proof -
  note g = capability_grant_spec [OF assms(1,2)]
  then have "caps_ok c1" by simp
  note r = capability_revoke_spec [OF this assms(3)]
  have ne: "[] \<notin> set (elems c)" using assms(1) by (simp add: caps_ok_def)
  show ?thesis
    using g r ne
    by (auto simp: capability_has_def find_cap_iff capability_match_def split: if_splits)
qed

lemma capability_tokens_witness:
  "capability_has (snd (capability_revoke (snd (capability_grant True vec_new (Some ''net''))) (Some ''fs''))) (Some ''net'')"
proof -
  have "caps_ok vec_new" by (simp add: caps_ok_def)
  from capability_tokens [OF this prod.collapse [symmetric] prod.collapse [symmetric], of "''net''" "''fs''"]
  show ?thesis by simp
qed

text \<open>A pattern with a star, \<open>p.*\<close> as well as \<open>p*\<close>, matches every name that begins with
  \<open>p\<close>, whatever follows; so \<open>net.*\<close> covers \<open>net\<close> and \<open>net.http\<close> as intended but also \<open>network\<close>. A
  pattern without a star matches only itself.\<close>

theorem capability_wildcard_scope:
  assumes "CHR ''*'' \<notin> set p" "p = [] \<or> last p \<noteq> CHR ''.''"
  shows "(wild_match (p @ ''.*'') s \<longleftrightarrow> take (length p) s = p) \<and>
         (wild_match (p @ ''*'') s \<longleftrightarrow> take (length p) s = p) \<and>
         (wild_match p s \<longleftrightarrow> p = s)"
proof -
  have "(\<exists>t. s = p @ t) \<longleftrightarrow> take (length p) s = p" by (metis append_eq_conv_conj append_take_drop_id)
  then show ?thesis
    using wild_match_dot_star [OF assms, of "[]" s] wild_match_plain [OF assms(1), of s] by simp
qed

lemma capability_wildcard_scope_witness: "wild_match ''net.*'' ''network''"
  using capability_wildcard_scope [of "''net''" "''network''"] by simp

text \<open>The deny list refuses a command exactly when one of its words occurs in it, with letters
  compared without case, wherever it stands.\<close>

theorem sandbox_deny_list:
  "sandbox_forbidden (Some cmd) \<longleftrightarrow>
     (\<exists>w \<in> set forbidden_words. \<exists>a b c. cmd = a @ b @ c \<and> map lower_byte b = map lower_byte w)"
proof -
  have ci: "ci_contains cmd w \<longleftrightarrow> (\<exists>a b c. cmd = a @ b @ c \<and> map lower_byte b = map lower_byte w)"
    if w: "w \<noteq> []" for w
  proof
    assume "ci_contains cmd w"
    then obtain i where "i \<le> length cmd - length w"
      "map lower_byte (take (length w) (drop i cmd)) = map lower_byte w"
      using w by (auto simp: ci_contains_def split: if_splits)
    moreover have "cmd = take i cmd @ take (length w) (drop i cmd) @ drop (length w) (drop i cmd)"
      by (simp only: append_take_drop_id)
    ultimately show "\<exists>a b c. cmd = a @ b @ c \<and> map lower_byte b = map lower_byte w" by blast
  next
    assume "\<exists>a b c. cmd = a @ b @ c \<and> map lower_byte b = map lower_byte w"
    then obtain a b c where e: "cmd = a @ b @ c" "map lower_byte b = map lower_byte w" by blast
    then have "length b = length w" by (metis length_map)
    with e w show "ci_contains cmd w"
      by (auto simp: ci_contains_def intro!: bexI [of _ "length a"])
  qed
  have "\<forall>w \<in> set forbidden_words. w \<noteq> []" by (simp add: forbidden_words_def)
  with ci show ?thesis by (auto simp: sandbox_forbidden_def)
qed

lemma sandbox_deny_list_witness: "sandbox_forbidden (Some ''cd /; SUDO rm x'')"
proof -
  have "''sudo rm'' \<in> set forbidden_words" by (simp add: forbidden_words_def)
  moreover have "''cd /; SUDO rm x'' = ''cd /; '' @ ''SUDO rm'' @ '' x''" by simp
  moreover have "map lower_byte ''SUDO rm'' = map lower_byte ''sudo rm''"
    by (simp add: lower_byte_def of_char_def)
  ultimately show ?thesis using sandbox_deny_list [of "''cd /; SUDO rm x''"] by blast
qed

end
