(* ===== verification/Util.thy ===== *)
theory Util
  imports CBase KvStore
begin

text \<open>
  The shared utilities of \<open>src/backend/src/infra/util.c\<close>: UTF-8 validation and sanitising, the FNV-1a hash
  and its hexadecimal form, path joining, the growing string buffer and the string map.

  A byte is a character of a \<open>cstr\<close>, read as the number \<open>byte c\<close>. The decoder's \<open>unsigned int\<close> holds at
  most 21 bits, so its shifts are taken on natural numbers; the hash is on 64-bit words, where the
  multiplication wraps.
\<close>

unbundle bit_operations_syntax

section \<open>UTF-8\<close>

definition byte :: "char \<Rightarrow> nat" where
  "byte c = of_char c"

definition utf8_seq_len :: "nat \<Rightarrow> nat" where
  "utf8_seq_len b =
     (if b < 0x80 then 1
      else if b AND 0xE0 = 0xC0 then 2
      else if b AND 0xF0 = 0xE0 then 3
      else if b AND 0xF8 = 0xF0 then 4
      else 0)"

text \<open>The continuation bytes \<open>s[i+1], ..., s[i+l-1]\<close>.\<close>

definition utf8_conts :: "nat \<Rightarrow> cstr \<Rightarrow> bool" where
  "utf8_conts l s = list_all (\<lambda>c. byte c AND 0xC0 = 0x80) (take (l - 1) (tl s))"

definition utf8_cp :: "nat \<Rightarrow> cstr \<Rightarrow> nat" where
  "utf8_cp l s =
     (let b = (\<lambda>i. byte (s ! i)) in
      if l = 1 then b 0
      else if l = 2 then push_bit 6 (b 0 AND 0x1F) OR (b 1 AND 0x3F)
      else if l = 3 then (push_bit 12 (b 0 AND 0x0F) OR push_bit 6 (b 1 AND 0x3F)) OR (b 2 AND 0x3F)
      else ((push_bit 18 (b 0 AND 0x07) OR push_bit 12 (b 1 AND 0x3F)) OR push_bit 6 (b 2 AND 0x3F)) OR (b 3 AND 0x3F))"

definition utf8_bad_cp :: "nat \<Rightarrow> nat \<Rightarrow> bool" where
  "utf8_bad_cp l cp \<longleftrightarrow>
     (l = 2 \<and> cp < 0x80) \<or> (l = 3 \<and> cp < 0x800) \<or> (l = 4 \<and> cp < 0x10000) \<or>
     (0xD800 \<le> cp \<and> cp \<le> 0xDFFF) \<or> 0x10FFFF < cp"

text \<open>The checks of one loop iteration, the same in both loops: the length of the sequence at the front.\<close>

definition utf8_first :: "cstr \<Rightarrow> nat option" where
  "utf8_first s =
     (let l = utf8_seq_len (byte (hd s)) in
      if 0 < l \<and> l \<le> length s \<and> utf8_conts l s \<and> \<not> utf8_bad_cp l (utf8_cp l s) then Some l else None)"

lemma utf8_first_pos: "utf8_first s = Some l \<Longrightarrow> 0 < l"
  by (auto simp: utf8_first_def Let_def split: if_splits)

function utf8_valid :: "cstr \<Rightarrow> bool" where
  "utf8_valid [] = True"
| "utf8_valid (c # cs) =
     (case utf8_first (c # cs) of None \<Rightarrow> False | Some l \<Rightarrow> utf8_valid (drop l (c # cs)))"
  by pat_completeness auto
termination by (relation "measure length") (auto dest: utf8_first_pos)

text \<open>\<open>n < 0\<close>: up to the NUL; otherwise the first \<open>n\<close> bytes of the buffer.\<close>

definition str_utf8_valid_n :: "cstr option \<Rightarrow> int \<Rightarrow> bool" where
  "str_utf8_valid_n p n =
     (case p of None \<Rightarrow> True | Some s \<Rightarrow> utf8_valid (if n < 0 then s else take (nat n) s))"

function utf8_sanitize :: "cstr \<Rightarrow> cstr" where
  "utf8_sanitize [] = []"
| "utf8_sanitize (c # cs) =
     (case utf8_first (c # cs) of
        None \<Rightarrow> CHR ''?'' # utf8_sanitize cs
      | Some l \<Rightarrow> take l (c # cs) @ utf8_sanitize (drop l (c # cs)))"
  by pat_completeness auto
termination by (relation "measure length") (auto dest: utf8_first_pos)

definition str_utf8_sanitize :: "cstr option \<Rightarrow> cstr option" where
  "str_utf8_sanitize p = map_option utf8_sanitize p"

subsection \<open>The encoding of the standard\<close>

definition scalar_value :: "nat \<Rightarrow> bool" where
  "scalar_value cp \<longleftrightarrow> cp \<le> 0x10FFFF \<and> \<not> (0xD800 \<le> cp \<and> cp \<le> 0xDFFF)"

definition utf8_encode :: "nat \<Rightarrow> cstr" where
  "utf8_encode cp =
     map char_of
       (if cp < 0x80 then [cp]
        else if cp < 0x800 then [0xC0 + cp div 64, 0x80 + cp mod 64]
        else if cp < 0x10000 then [0xE0 + cp div 4096, 0x80 + cp div 64 mod 64, 0x80 + cp mod 64]
        else [0xF0 + cp div 262144, 0x80 + cp div 4096 mod 64, 0x80 + cp div 64 mod 64, 0x80 + cp mod 64])"

lemma byte_less [simp]: "byte c < 256"
  by (simp add: byte_def)

lemma byte_char_of [simp]: "b < 256 \<Longrightarrow> byte (char_of b) = b"
  by (simp add: byte_def)

lemma char_of_byte [simp]: "char_of (byte c) = c"
  by (simp add: byte_def)

lemma and_high_bits:
  fixes b :: nat
  shows "b AND push_bit k (mask j) = push_bit k (take_bit j (drop_bit k b))"
  by (rule bit_eqI) (auto simp: bit_simps)

lemma lead_byte:
  fixes b :: nat
  assumes "b < 256"
  shows "b AND 0xE0 = 0xC0 \<longleftrightarrow> 0xC0 \<le> b \<and> b < 0xE0" "b AND 0xF0 = 0xE0 \<longleftrightarrow> 0xE0 \<le> b \<and> b < 0xF0"
    "b AND 0xF8 = 0xF0 \<longleftrightarrow> 0xF0 \<le> b \<and> b < 0xF8" "b AND 0xC0 = 0x80 \<longleftrightarrow> 0x80 \<le> b \<and> b < 0xC0"
proof -
  have e: "b AND 0xE0 = b div 32 * 32" "b AND 0xF0 = b div 16 * 16" "b AND 0xF8 = b div 8 * 8" "b AND 0xC0 = b div 64 * 64"
    using and_high_bits [of b 5 3] and_high_bits [of b 4 4] and_high_bits [of b 3 5] and_high_bits [of b 6 2] assms
    by (simp_all add: mask_eq_exp_minus_1 push_bit_eq_mult take_bit_eq_mod drop_bit_eq_div)
  show "b AND 0xE0 = 0xC0 \<longleftrightarrow> 0xC0 \<le> b \<and> b < 0xE0" "b AND 0xF0 = 0xE0 \<longleftrightarrow> 0xE0 \<le> b \<and> b < 0xF0"
    "b AND 0xF8 = 0xF0 \<longleftrightarrow> 0xF0 \<le> b \<and> b < 0xF8" "b AND 0xC0 = 0x80 \<longleftrightarrow> 0x80 \<le> b \<and> b < 0xC0"
    unfolding e by (auto; presburger)+
qed

lemma or_disjoint:
  fixes x y :: nat
  assumes "2 ^ n dvd x" "y < 2 ^ n"
  shows "x OR y = x + y"
proof -
  from assms(1) obtain k where x: "x = push_bit n k" by (auto simp: push_bit_eq_mult mult.commute elim: dvdE)
  from assms(2) have y: "y = take_bit n y" by (simp add: take_bit_eq_mod)
  have "\<not> bit x m \<or> \<not> bit y m" for m
    by (subst y) (auto simp: x bit_push_bit_iff bit_take_bit_iff)
  then show ?thesis by (rule disjunctive_add [symmetric])
qed

lemma low_bits:
  fixes b :: nat
  shows "b AND 0x3F = b mod 64" "b AND 0x1F = b mod 32" "b AND 0x0F = b mod 16" "b AND 0x07 = b mod 8"
  using take_bit_eq_mask [of 6 b] take_bit_eq_mask [of 5 b] take_bit_eq_mask [of 4 b] take_bit_eq_mask [of 3 b]
  by (simp_all add: mask_eq_exp_minus_1 take_bit_eq_mod)

lemma or2: "push_bit 6 (a AND 0x1F) OR (b AND 0x3F) = (a mod 32) * 64 + b mod 64" for a b :: nat
  by (subst or_disjoint [of 6]) (auto simp: low_bits push_bit_eq_mult)

lemma or3:
  "(push_bit 12 (a AND 0x0F) OR push_bit 6 (b AND 0x3F)) OR (c AND 0x3F) = (a mod 16) * 4096 + (b mod 64) * 64 + c mod 64"
  for a b c :: nat
proof -
  have 1: "push_bit 12 (a mod 16) OR push_bit 6 (b mod 64) = (a mod 16) * 4096 + (b mod 64) * 64"
    by (subst or_disjoint [of 12]) (auto simp: push_bit_eq_mult)
  show ?thesis unfolding low_bits 1
    by (rule or_disjoint [of 6]) (simp_all add: dvd_mult)
qed

lemma or4:
  "((push_bit 18 (a AND 0x07) OR push_bit 12 (b AND 0x3F)) OR push_bit 6 (c AND 0x3F)) OR (d AND 0x3F)
     = (a mod 8) * 262144 + (b mod 64) * 4096 + (c mod 64) * 64 + d mod 64"
  for a b c d :: nat
proof -
  have 1: "push_bit 18 (a mod 8) OR push_bit 12 (b mod 64) = (a mod 8) * 262144 + (b mod 64) * 4096"
    by (subst or_disjoint [of 18]) (auto simp: push_bit_eq_mult)
  have 2: "((a mod 8) * 262144 + (b mod 64) * 4096) OR push_bit 6 (c mod 64) = (a mod 8) * 262144 + (b mod 64) * 4096 + (c mod 64) * 64"
    by (subst or_disjoint [of 12]) (auto simp: push_bit_eq_mult)
  show ?thesis unfolding low_bits 1 2
    by (rule or_disjoint [of 6]) (simp_all add: dvd_mult)
qed

lemma utf8_cp_arith:
  "utf8_cp (Suc 0) (a # s) = byte a"
  "utf8_cp 2 (a # b # s) = (byte a mod 32) * 64 + byte b mod 64"
  "utf8_cp 3 (a # b # c # s) = (byte a mod 16) * 4096 + (byte b mod 64) * 64 + byte c mod 64"
  "utf8_cp 4 (a # b # c # d # s) = (byte a mod 8) * 262144 + (byte b mod 64) * 4096 + (byte c mod 64) * 64 + byte d mod 64"
proof -
  show "utf8_cp (Suc 0) (a # s) = byte a" by (simp add: utf8_cp_def)
  show "utf8_cp 2 (a # b # s) = (byte a mod 32) * 64 + byte b mod 64"
    by (subst or2 [symmetric]) (simp add: utf8_cp_def)
  show "utf8_cp 3 (a # b # c # s) = (byte a mod 16) * 4096 + (byte b mod 64) * 64 + byte c mod 64"
    by (subst or3 [symmetric]) (simp add: utf8_cp_def)
  show "utf8_cp 4 (a # b # c # d # s) = (byte a mod 8) * 262144 + (byte b mod 64) * 4096 + (byte c mod 64) * 64 + byte d mod 64"
    by (subst or4 [symmetric]) (simp add: utf8_cp_def)
qed

text \<open>One iteration of the loop in arithmetic: what the front of the string must be.\<close>

definition cont :: "nat \<Rightarrow> bool" where
  "cont b \<longleftrightarrow> 0x80 \<le> b \<and> b < 0xC0"

lemma seq_len_cases:
  "b < 256 \<Longrightarrow> utf8_seq_len b =
     (if b < 0x80 then 1 else if 0xC0 \<le> b \<and> b < 0xE0 then 2 else if 0xE0 \<le> b \<and> b < 0xF0 then 3
      else if 0xF0 \<le> b \<and> b < 0xF8 then 4 else 0)"
  by (simp add: utf8_seq_len_def lead_byte)

lemma utf8_first_1: "byte a < 0x80 \<Longrightarrow> utf8_first (a # s) = Some 1"
  by (simp add: utf8_first_def seq_len_cases utf8_conts_def utf8_cp_arith utf8_bad_cp_def)

lemma utf8_first_2:
  assumes "0xC0 \<le> byte a" "byte a < 0xE0"
  shows "utf8_first (a # b # s) =
     (if cont (byte b) \<and> 0x80 \<le> (byte a mod 32) * 64 + byte b mod 64 then Some 2 else None)" "utf8_first [a] = None"
proof -
  have "(byte a mod 32) * 64 + byte b mod 64 \<le> 31 * 64 + 63"
    by (intro add_mono mult_mono) (simp_all add: less_Suc_eq_le [symmetric])
  then show "utf8_first (a # b # s) =
      (if cont (byte b) \<and> 0x80 \<le> (byte a mod 32) * 64 + byte b mod 64 then Some 2 else None)" "utf8_first [a] = None"
    using assms by (simp_all add: utf8_first_def seq_len_cases utf8_conts_def utf8_cp_arith utf8_bad_cp_def cont_def lead_byte not_less)
qed

lemma utf8_first_3:
  assumes "0xE0 \<le> byte a" "byte a < 0xF0"
  shows "utf8_first (a # b # c # s) =
        (let cp = (byte a mod 16) * 4096 + (byte b mod 64) * 64 + byte c mod 64 in
         if cont (byte b) \<and> cont (byte c) \<and> 0x800 \<le> cp \<and> \<not> (0xD800 \<le> cp \<and> cp \<le> 0xDFFF) then Some 3 else None)"
    "length s' < 2 \<Longrightarrow> utf8_first (a # s') = None"
proof -
  have "(byte a mod 16) * 4096 + (byte b mod 64) * 64 + byte c mod 64 \<le> 15 * 4096 + 63 * 64 + 63"
    by (intro add_mono mult_mono) (simp_all add: less_Suc_eq_le [symmetric])
  then show "utf8_first (a # b # c # s) =
        (let cp = (byte a mod 16) * 4096 + (byte b mod 64) * 64 + byte c mod 64 in
         if cont (byte b) \<and> cont (byte c) \<and> 0x800 \<le> cp \<and> \<not> (0xD800 \<le> cp \<and> cp \<le> 0xDFFF) then Some 3 else None)"
    using assms by (simp add: utf8_first_def seq_len_cases utf8_conts_def utf8_cp_arith utf8_bad_cp_def cont_def lead_byte not_less Let_def)
  show "length s' < 2 \<Longrightarrow> utf8_first (a # s') = None"
    using assms by (simp add: utf8_first_def seq_len_cases)
qed

lemma utf8_first_4:
  assumes "0xF0 \<le> byte a" "byte a < 0xF8"
  shows "utf8_first (a # b # c # d # s) =
        (let cp = (byte a mod 8) * 262144 + (byte b mod 64) * 4096 + (byte c mod 64) * 64 + byte d mod 64 in
         if cont (byte b) \<and> cont (byte c) \<and> cont (byte d) \<and> 0x10000 \<le> cp \<and> cp \<le> 0x10FFFF then Some 4 else None)"
    "length s' < 3 \<Longrightarrow> utf8_first (a # s') = None"
proof -
  have l: "utf8_seq_len (byte a) = 4" using assms by (simp add: seq_len_cases)
  have b: "\<not> utf8_bad_cp 4 x \<longleftrightarrow> 0x10000 \<le> x \<and> x \<le> 0x10FFFF" for x by (auto simp: utf8_bad_cp_def)
  have "utf8_first (a # b # c # d # s) =
      (if cont (byte b) \<and> cont (byte c) \<and> cont (byte d) \<and> \<not> utf8_bad_cp 4 (utf8_cp 4 (a # b # c # d # s)) then Some 4 else None)"
    by (simp add: utf8_first_def l utf8_conts_def cont_def lead_byte)
  then show "utf8_first (a # b # c # d # s) =
        (let cp = (byte a mod 8) * 262144 + (byte b mod 64) * 4096 + (byte c mod 64) * 64 + byte d mod 64 in
         if cont (byte b) \<and> cont (byte c) \<and> cont (byte d) \<and> 0x10000 \<le> cp \<and> cp \<le> 0x10FFFF then Some 4 else None)"
    unfolding b utf8_cp_arith Let_def .
  show "length s' < 3 \<Longrightarrow> utf8_first (a # s') = None" by (simp add: utf8_first_def l)
qed

lemma utf8_first_0: "(0x80 \<le> byte a \<and> byte a < 0xC0) \<or> 0xF8 \<le> byte a \<Longrightarrow> utf8_first (a # s) = None"
proof -
  assume "(0x80 \<le> byte a \<and> byte a < 0xC0) \<or> 0xF8 \<le> byte a"
  then have "utf8_seq_len (byte a) = 0" by (subst seq_len_cases [OF byte_less]) auto
  then show ?thesis by (simp add: utf8_first_def)
qed


text \<open>An iteration accepts exactly the encoding of a scalar value.\<close>

lemma radix64:
  fixes n :: nat
  shows "n div 64 * 64 + n mod 64 = n" "n div 4096 * 64 + n div 64 mod 64 = n div 64"
    "n div 262144 * 64 + n div 4096 mod 64 = n div 4096"
proof -
  have "n div 4096 = n div 64 div 64" "n div 262144 = n div 4096 div 64"
    by (simp_all add: div_mult2_eq [symmetric])
  then show "n div 64 * 64 + n mod 64 = n" "n div 4096 * 64 + n div 64 mod 64 = n div 64"
    "n div 262144 * 64 + n div 4096 mod 64 = n div 4096"
    by simp_all
qed

lemma lead_mod:
  fixes x :: nat
  shows "x < 64 \<Longrightarrow> (0x80 + x) mod 64 = x" "x < 32 \<Longrightarrow> (0xC0 + x) mod 32 = x" "x < 16 \<Longrightarrow> (0xE0 + x) mod 16 = x" "x < 8 \<Longrightarrow> (0xF0 + x) mod 8 = x"
  using mod_mult_self1 [of x 2 64] mod_mult_self1 [of x 6 32] mod_mult_self1 [of x 14 16] mod_mult_self1 [of x 30 8]
  by (simp_all add: add.commute)

lemma utf8_first_encode: "scalar_value cp \<Longrightarrow> utf8_first (utf8_encode cp @ r) = Some (length (utf8_encode cp))"
proof -
  assume sv: "scalar_value cp"
  define x y z w where xyz: "x = cp div 262144" "y = cp div 4096 mod 64" "z = cp div 64 mod 64" "w = cp mod 64"
  have lt: "y < 64" "z < 64" "w < 64" by (simp_all add: xyz)
  consider "cp < 0x80" | "0x80 \<le> cp" "cp < 0x800" | "0x800 \<le> cp" "cp < 0x10000" | "0x10000 \<le> cp" by linarith
  then show ?thesis
  proof cases
    case 1
    then show ?thesis by (simp add: utf8_encode_def utf8_first_1)
  next
    case 2
    define q where "q = cp div 64"
    have d: "q < 32" "q * 64 + w = cp" using 2 radix64(1) [of cp] by (simp_all add: q_def xyz)
    have e: "utf8_encode cp = map char_of [0xC0 + q, 0x80 + w]" using 2 by (simp add: utf8_encode_def q_def xyz)
    show ?thesis unfolding e using 2 d lt by (simp add: utf8_first_2 cont_def lead_mod)
  next
    case 3
    define q where "q = cp div 4096"
    have d: "q < 16" "q * 4096 + z * 64 + w = cp" unfolding q_def xyz using 3 radix64(1,2) [of cp] by linarith+
    have e: "utf8_encode cp = map char_of [0xE0 + q, 0x80 + z, 0x80 + w]" using 3 by (simp add: utf8_encode_def q_def xyz)
    show ?thesis unfolding e using 3 d lt sv by (simp add: utf8_first_3 cont_def lead_mod scalar_value_def Let_def)
  next
    case 4
    with sv have le: "cp \<le> 0x10FFFF" by (simp add: scalar_value_def)
    then have d: "x < 8" "x * 262144 + y * 4096 + z * 64 + w = cp" unfolding xyz using radix64 [of cp] by linarith+
    have e: "utf8_encode cp = map char_of [0xF0 + x, 0x80 + y, 0x80 + z, 0x80 + w]" using 4 by (simp add: utf8_encode_def xyz)
    show ?thesis unfolding e using 4 le d lt by (simp add: utf8_first_4 cont_def lead_mod Let_def)
  qed
qed

lemma digits64:
  fixes x y z w :: nat
  assumes "y < 64" "z < 64" "w < 64"
  shows "(x * 64 + w) div 64 = x" "(x * 64 + w) mod 64 = w"
    "(x * 4096 + z * 64 + w) div 64 = x * 64 + z" "(x * 4096 + z * 64 + w) div 4096 = x" "(x * 4096 + z * 64 + w) mod 64 = w"
    "(x * 262144 + y * 4096 + z * 64 + w) div 64 = x * 4096 + y * 64 + z"
    "(x * 262144 + y * 4096 + z * 64 + w) div 4096 = x * 64 + y"
    "(x * 262144 + y * 4096 + z * 64 + w) div 262144 = x" "(x * 262144 + y * 4096 + z * 64 + w) mod 64 = w"
proof -
  have q: "(u * 64 + v) div 64 = u" "(u * 64 + v) mod 64 = v" if "v < 64" for u v :: nat using that by simp_all
  show "(x * 64 + w) div 64 = x" "(x * 64 + w) mod 64 = w" using assms by simp_all
  have d: "n div 4096 = n div 64 div 64" "n div 262144 = n div 64 div 64 div 64" for n :: nat
    by (simp_all add: div_mult2_eq [symmetric])
  have e: "x * 4096 + z * 64 + w = (x * 64 + z) * 64 + w"
    "x * 262144 + y * 4096 + z * 64 + w = ((x * 64 + y) * 64 + z) * 64 + w" by simp_all
  have f: "x * 4096 + y * 64 + z = (x * 64 + y) * 64 + z" by simp
  show "(x * 4096 + z * 64 + w) div 64 = x * 64 + z" "(x * 4096 + z * 64 + w) div 4096 = x" "(x * 4096 + z * 64 + w) mod 64 = w"
    unfolding d e by (simp_all only: q assms)
  show "(x * 262144 + y * 4096 + z * 64 + w) div 64 = x * 4096 + y * 64 + z"
    "(x * 262144 + y * 4096 + z * 64 + w) div 4096 = x * 64 + y"
    "(x * 262144 + y * 4096 + z * 64 + w) div 262144 = x" "(x * 262144 + y * 4096 + z * 64 + w) mod 64 = w"
    unfolding d e f by (simp_all only: q assms)
qed

lemma byte_split: "k \<le> byte a \<Longrightarrow> \<exists>x. byte a = k + x \<and> char_of (k + x) = a"
  by (metis char_of_byte le_iff_add)

lemma utf8_first_decode:
  assumes f: "utf8_first (a # s) = Some l"
  shows "\<exists>cp. scalar_value cp \<and> take l (a # s) = utf8_encode cp"
proof -
  consider "byte a < 0x80" | "(0x80 \<le> byte a \<and> byte a < 0xC0) \<or> 0xF8 \<le> byte a" | "0xC0 \<le> byte a" "byte a < 0xE0"
    | "0xE0 \<le> byte a" "byte a < 0xF0" | "0xF0 \<le> byte a" "byte a < 0xF8" by linarith
  then show ?thesis
  proof cases
    case 1
    with f have "l = 1" by (simp add: utf8_first_1)
    with 1 show ?thesis by (intro exI [of _ "byte a"]) (simp add: scalar_value_def utf8_encode_def)
  next
    case 2
    with f show ?thesis by (simp add: utf8_first_0)
  next
    case 3
    then obtain b r where s: "s = b # r" using f utf8_first_2(2) [OF 3] by (cases s) auto
    from 3 f have c: "cont (byte b)" "0x80 \<le> byte a mod 32 * 64 + byte b mod 64" "l = 2"
      by (auto simp: s utf8_first_2(1) split: if_splits)
    from byte_split [OF 3(1)] byte_split [of "0x80" b] c(1)
    obtain x y where xy: "byte a = 0xC0 + x" "char_of (0xC0 + x) = a" "byte b = 0x80 + y" "char_of (0x80 + y) = b"
      by (auto simp: cont_def)
    have lt: "x < 32" "y < 64" using xy 3 c(1) by (simp_all add: cont_def)
    with c have lo: "0x80 \<le> x * 64 + y" by (simp add: xy lead_mod)
    have "utf8_encode (x * 64 + y) = [a, b]"
      using lo lt xy by (simp add: utf8_encode_def digits64)
    then show ?thesis using lt lo c(3) by (intro exI [of _ "x * 64 + y"]) (simp add: scalar_value_def s)
  next
    case 4
    have "2 \<le> length s" using f utf8_first_3(2) [OF 4, of s] by (cases "length s < 2") auto
    then obtain b c r where s: "s = b # c # r" by (metis Suc_le_length_iff numeral_2_eq_2)
    define cp where "cp = byte a mod 16 * 4096 + byte b mod 64 * 64 + byte c mod 64"
    from 4 f have c: "cont (byte b)" "cont (byte c)" "0x800 \<le> cp" "\<not> (0xD800 \<le> cp \<and> cp \<le> 0xDFFF)" "l = 3"
      unfolding s utf8_first_3(1) [OF 4] cp_def [symmetric] Let_def by (auto split: if_splits)
    from byte_split [OF 4(1)] byte_split [of "0x80" b] byte_split [of "0x80" c] c(1,2)
    obtain x y z where xy: "byte a = 0xE0 + x" "char_of (0xE0 + x) = a" "byte b = 0x80 + y" "char_of (0x80 + y) = b"
      "byte c = 0x80 + z" "char_of (0x80 + z) = c" by (auto simp: cont_def)
    have lt: "x < 16" "y < 64" "z < 64" using xy 4 c(1,2) by (simp_all add: cont_def)
    have e: "cp = x * 4096 + y * 64 + z" using lt by (simp add: cp_def xy lead_mod)
    have hi: "cp < 0x10000" using lt by (simp add: e)
    have "utf8_encode cp = [a, b, c]"
      using c(3) hi lt xy unfolding e by (simp add: utf8_encode_def digits64)
    then show ?thesis using hi c by (intro exI [of _ cp]) (simp add: scalar_value_def s)
  next
    case 5
    have "3 \<le> length s" using f utf8_first_4(2) [OF 5, of s] by (cases "length s < 3") auto
    then obtain b c d r where s: "s = b # c # d # r" by (metis Suc_le_length_iff numeral_3_eq_3)
    define cp where "cp = byte a mod 8 * 262144 + byte b mod 64 * 4096 + byte c mod 64 * 64 + byte d mod 64"
    from 5 f have c: "cont (byte b)" "cont (byte c)" "cont (byte d)" "0x10000 \<le> cp" "cp \<le> 0x10FFFF" "l = 4"
      unfolding s utf8_first_4(1) [OF 5] cp_def [symmetric] Let_def by (auto split: if_splits)
    from byte_split [OF 5(1)] byte_split [of "0x80" b] byte_split [of "0x80" c] byte_split [of "0x80" d] c(1-3)
    obtain x y z w where xy: "byte a = 0xF0 + x" "char_of (0xF0 + x) = a" "byte b = 0x80 + y" "char_of (0x80 + y) = b"
      "byte c = 0x80 + z" "char_of (0x80 + z) = c" "byte d = 0x80 + w" "char_of (0x80 + w) = d" by (auto simp: cont_def)
    have lt: "x < 8" "y < 64" "z < 64" "w < 64" using xy 5 c(1-3) by (simp_all add: cont_def)
    have e: "cp = x * 262144 + y * 4096 + z * 64 + w" using lt by (simp add: cp_def xy lead_mod)
    have "utf8_encode cp = [a, b, c, d]"
      using c(4) lt xy unfolding e by (simp add: utf8_encode_def digits64)
    then show ?thesis using c by (intro exI [of _ cp]) (simp add: scalar_value_def s)
  qed
qed

lemma utf8_encode_nonempty [simp]: "utf8_encode cp \<noteq> []"
  by (simp add: utf8_encode_def)

lemma utf8_first_le: "utf8_first (a # s) = Some l \<Longrightarrow> l \<le> length (a # s)"
  by (auto simp: utf8_first_def Let_def split: if_splits)

lemma utf8_valid_encode: "scalar_value cp \<Longrightarrow> utf8_valid (utf8_encode cp @ s) = utf8_valid s"
  using utf8_first_encode [of cp s] by (cases "utf8_encode cp @ s") (auto simp: append_eq_Cons_conv)

lemma utf8_valid_iff: "utf8_valid s \<longleftrightarrow> (\<exists>cps. list_all scalar_value cps \<and> s = concat (map utf8_encode cps))"
proof
  show "utf8_valid s \<Longrightarrow> \<exists>cps. list_all scalar_value cps \<and> s = concat (map utf8_encode cps)"
  proof (induction s rule: utf8_valid.induct)
    case 1
    show ?case by (intro exI [of _ "[]"]) simp
  next
    case (2 c cs)
    then obtain l where l: "utf8_first (c # cs) = Some l" "utf8_valid (drop l (c # cs))" by (auto split: option.splits)
    from 2(1) [OF l] obtain cps where cps: "list_all scalar_value cps" "drop l (c # cs) = concat (map utf8_encode cps)" by blast
    from utf8_first_decode [OF l(1)] obtain cp where "scalar_value cp" "take l (c # cs) = utf8_encode cp" by blast
    with cps show ?case by (intro exI [of _ "cp # cps"]) (metis append_take_drop_id concat.simps(2) list.pred_inject(2) list.simps(9))
  qed
next
  have "list_all scalar_value cps \<Longrightarrow> utf8_valid (concat (map utf8_encode cps))" for cps
    by (induction cps) (simp_all add: utf8_valid_encode)
  then show "\<exists>cps. list_all scalar_value cps \<and> s = concat (map utf8_encode cps) \<Longrightarrow> utf8_valid s" by blast
qed

lemma utf8_sanitize_valid: "utf8_valid (utf8_sanitize s) \<and> length (utf8_sanitize s) \<le> length s"
proof (induction s rule: utf8_sanitize.induct)
  case (2 c cs)
  show ?case
  proof (cases "utf8_first (c # cs)")
    case None
    with 2 show ?thesis by (simp add: utf8_first_1 byte_def)
  next
    case (Some l)
    from utf8_first_decode [OF this] obtain cp where "scalar_value cp" "take l (c # cs) = utf8_encode cp" by blast
    moreover from this utf8_first_le [OF Some] have "length (utf8_encode cp) = l" by (metis length_take min.absorb2)
    ultimately show ?thesis using 2(2) [OF Some] Some utf8_valid_encode [of cp] utf8_first_le [OF Some] by auto
  qed
qed simp

lemma utf8_sanitize_id: "utf8_valid s \<Longrightarrow> utf8_sanitize s = s"
  by (induction s rule: utf8_valid.induct) (auto split: option.splits)

section \<open>Hashing\<close>

definition hash64 :: "cstr \<Rightarrow> 64 word" where
  "hash64 s = foldl (\<lambda>h c. (h XOR of_nat (byte c)) * 0x100000001b3) 0xcbf29ce484222325 s"

definition hexc :: cstr where
  "hexc = ''0123456789abcdef''"

text \<open>The loop runs from the last digit to the first.\<close>

primrec hash_digits :: "nat \<Rightarrow> 64 word \<Rightarrow> cstr" where
  "hash_digits 0 h = []"
| "hash_digits (Suc n) h = hash_digits n (drop_bit 4 h) @ [hexc ! unat (h AND 0xF)]"

definition hash_hex :: "64 word \<Rightarrow> cstr" where
  "hash_hex h = hash_digits 16 h"

text \<open>Reading the digits back.\<close>

definition digit_value :: "char \<Rightarrow> nat" where
  "digit_value c = (case find_index (\<lambda>x. x = c) hexc of Some i \<Rightarrow> i | None \<Rightarrow> 0)"

definition hex_value :: "cstr \<Rightarrow> nat" where
  "hex_value = foldl (\<lambda>n c. n * 16 + digit_value c) 0"

lemma length_hash_digits [simp]: "length (hash_digits n h) = n"
  by (induction n arbitrary: h) simp_all

lemma length_hash_hex [simp]: "length (hash_hex h) = 16"
  by (simp add: hash_hex_def)

lemma digit_value_hexc: "i < 16 \<Longrightarrow> digit_value (hexc ! i) = i"
proof -
  have "list_all (\<lambda>i. digit_value (hexc ! i) = i) [0..<16]" by code_simp
  then show "i < 16 \<Longrightarrow> digit_value (hexc ! i) = i" by (simp add: list_all_iff)
qed

lemma hex_value_digits: "hex_value (hash_digits n h) = unat h mod 16 ^ n"
proof (induction n arbitrary: h)
  case 0
  then show ?case by (simp add: hex_value_def)
next
  case (Suc n)
  have m: "unat (h AND 0xF) = unat h mod 16"
    using take_bit_eq_mask [of 4 h] unsigned_take_bit_eq [of 4 h, where 'a = nat]
    by (simp add: mask_eq_exp_minus_1 take_bit_eq_mod)
  have d: "unat (drop_bit 4 h) = unat h div 16" using unat_drop_bit_eq [of 4 h] by (simp add: drop_bit_eq_div)
  have "hex_value (hash_digits (Suc n) h) = hex_value (hash_digits n (drop_bit 4 h)) * 16 + digit_value (hexc ! unat (h AND 0xF))"
    by (simp add: hex_value_def)
  also have "\<dots> = (unat h div 16 mod 16 ^ n) * 16 + unat h mod 16"
    by (simp add: Suc.IH d digit_value_hexc m)
  also have "\<dots> = unat h mod 16 ^ Suc n" by (simp add: mod_mult2_eq)
  finally show ?case .
qed

lemma hash_hex_inj: "hash_hex g = hash_hex h \<longleftrightarrow> g = h"
proof
  assume e: "hash_hex g = hash_hex h"
  have "unat x < 16 ^ 16" for x :: "64 word" using unsigned_less [of x, where ?'a = nat] by simp
  then have "hex_value (hash_hex x) = unat x" for x by (simp add: hash_hex_def hex_value_digits)
  with e show "g = h" by (metis word_unat_eq_iff)
qed simp

text \<open>One step of the hash is a bijection of the state for a fixed byte, and injective in the byte.\<close>

definition fnv_step :: "64 word \<Rightarrow> char \<Rightarrow> 64 word" where
  "fnv_step h c = (h XOR of_nat (byte c)) * 0x100000001b3"

lemma fnv_cancel: "x * 0x100000001b3 = y * 0x100000001b3 \<Longrightarrow> x = y" for x y :: "64 word"
proof -
  have q: "(0x100000001b3 :: 64 word) * 0xce965057aff6957b = 1" by simp
  assume "x * 0x100000001b3 = y * 0x100000001b3"
  then have "(x * 0x100000001b3) * 0xce965057aff6957b = (y * 0x100000001b3) * 0xce965057aff6957b" by (simp only:)
  then show "x = y" by (simp only: mult.assoc q mult_1_right)
qed

lemma xor_cancel: "x XOR a = y XOR a \<longleftrightarrow> x = y" "a XOR x = a XOR y \<longleftrightarrow> x = y" for a x y :: "64 word"
proof -
  show *: "x XOR a = y XOR a \<longleftrightarrow> x = y" for x y :: "64 word"
  proof
    assume e: "x XOR a = y XOR a"
    have "bit (x XOR a) n = bit (y XOR a) n" for n by (simp add: e)
    then show "x = y" by (intro bit_word_eqI) (auto simp: bit_xor_iff)
  qed simp
  show "a XOR x = a XOR y \<longleftrightarrow> x = y" using * [of x y] by (simp add: ac_simps)
qed

lemma fnv_step_inj: "fnv_step h c = fnv_step h' c \<longleftrightarrow> h = h'" "fnv_step h c = fnv_step h d \<longleftrightarrow> c = d"
proof -
  show "fnv_step h c = fnv_step h' c \<longleftrightarrow> h = h'"
    using fnv_cancel [of "h XOR of_nat (byte c)" "h' XOR of_nat (byte c)"] by (auto simp: fnv_step_def xor_cancel)
  have "(of_nat (byte c) :: 64 word) = of_nat (byte d) \<Longrightarrow> c = d"
  proof -
    assume e: "(of_nat (byte c) :: 64 word) = of_nat (byte d)"
    have "unat (of_nat (byte x) :: 64 word) = byte x" for x
      using less_trans [OF byte_less [of x], of "2 ^ 64"] by (simp add: unat_of_nat)
    with e have "byte c = byte d" by metis
    then show "c = d" by (metis char_of_byte)
  qed
  then show "fnv_step h c = fnv_step h d \<longleftrightarrow> c = d"
    using fnv_cancel [of "h XOR of_nat (byte c)" "h XOR of_nat (byte d)"] by (auto simp: fnv_step_def xor_cancel)
qed

lemma fnv_fold_inj: "foldl fnv_step h s = foldl fnv_step h' s \<longleftrightarrow> h = h'"
  by (induction s arbitrary: h h') (simp_all add: fnv_step_inj)

lemma hash64_foldl: "hash64 s = foldl fnv_step 0xcbf29ce484222325 s"
  by (simp add: hash64_def fnv_step_def [abs_def])

section \<open>Paths\<close>

text \<open>The POSIX build: the separator is a slash. Writing into a buffer of \<open>n > 0\<close> bytes.\<close>

definition path_join :: "nat \<Rightarrow> cstr option \<Rightarrow> cstr option \<Rightarrow> cstr" where
  "path_join n a b =
     (let a' = nonnull_or [] a; b' = nonnull_or [] b in
      cbuf n (if a' = [] then b'
              else if last a' \<noteq> CHR ''/'' \<and> last a' \<noteq> CHR 0x5C then a' @ ''/'' @ b'
              else a' @ b'))"

definition path_resolve :: "nat \<Rightarrow> cstr option \<Rightarrow> cstr option \<Rightarrow> cstr" where
  "path_resolve n workspace path =
     (case path of
        None \<Rightarrow> cbuf n (nonnull_or [] workspace)
      | Some p \<Rightarrow>
          if p = [] then cbuf n (nonnull_or [] workspace)
          else if hd p = CHR ''/'' \<or> hd p = CHR 0x5C then cbuf n p
          else if nonnull_or [] workspace \<noteq> [] then path_join n workspace (Some p)
          else cbuf n p)"

section \<open>The string buffer\<close>

definition SIZE_MAX :: nat where
  "SIZE_MAX = 2 ^ 64 - 1"

text \<open>\<open>sb_buf\<close> holds the \<open>len\<close> bytes before the NUL.\<close>

record strbuf =
  sb_buf :: cstr
  sb_cap :: nat

definition strbuf_init :: strbuf where
  "strbuf_init = \<lparr>sb_buf = [], sb_cap = 0\<rparr>"

text \<open>The doubling loop; \<open>None\<close> would be a loop that never ends.\<close>

partial_function (option) grow_loop :: "nat \<Rightarrow> nat \<Rightarrow> nat option" where
  [code]: "grow_loop cap need =
     (if cap < need then if SIZE_MAX div 2 < cap then Some need else grow_loop (cap * 2) need else Some cap)"

text \<open>\<open>ok\<close>: the reallocation succeeds. The boolean of the result: the buffer is large enough.\<close>

definition strbuf_grow :: "bool \<Rightarrow> strbuf \<Rightarrow> nat \<Rightarrow> (bool \<times> strbuf) option" where
  "strbuf_grow ok sb need =
     (if need \<le> sb_cap sb then Some (True, sb)
      else map_option (\<lambda>cap. if ok then (True, sb\<lparr>sb_cap := cap\<rparr>) else (False, sb))
             (grow_loop (if sb_cap sb = 0 then 64 else sb_cap sb) need))"

definition strbuf_append_n :: "bool \<Rightarrow> strbuf \<Rightarrow> cstr option \<Rightarrow> nat \<Rightarrow> strbuf option" where
  "strbuf_append_n ok sb p n =
     (case p of
        None \<Rightarrow> Some sb
      | Some s \<Rightarrow>
          if SIZE_MAX - length (sb_buf sb) - 1 < n then Some sb
          else map_option (\<lambda>(grown, sb'). if grown then sb'\<lparr>sb_buf := sb_buf sb' @ take n s\<rparr> else sb)
                 (strbuf_grow ok sb (length (sb_buf sb) + n + 1)))"

definition strbuf_append :: "bool \<Rightarrow> strbuf \<Rightarrow> cstr \<Rightarrow> strbuf option" where
  "strbuf_append ok sb s = strbuf_append_n ok sb (Some s) (length s)"

text \<open>\<open>fmt\<close>: what \<open>vsnprintf\<close> produces, \<open>None\<close> when it fails.\<close>

definition strbuf_appendf :: "bool \<Rightarrow> strbuf \<Rightarrow> cstr option \<Rightarrow> strbuf option" where
  "strbuf_appendf ok sb fmt =
     (case fmt of
        None \<Rightarrow> Some sb
      | Some s \<Rightarrow>
          if SIZE_MAX - length (sb_buf sb) - 1 < length s then Some sb
          else map_option (\<lambda>(grown, sb'). if grown then sb'\<lparr>sb_buf := sb_buf sb' @ s\<rparr> else sb)
                 (strbuf_grow ok sb (length (sb_buf sb) + length s + 1)))"

definition strbuf_detach :: "strbuf \<Rightarrow> cstr \<times> strbuf" where
  "strbuf_detach sb = (sb_buf sb, strbuf_init)"

text \<open>A buffer is unallocated or has room for its text and the NUL.\<close>

definition sb_ok :: "strbuf \<Rightarrow> bool" where
  "sb_ok sb \<longleftrightarrow> (if sb_cap sb = 0 then sb_buf sb = [] else length (sb_buf sb) < sb_cap sb \<and> sb_cap sb \<le> SIZE_MAX)"

lemma grow_loop_returns:
  "0 < cap \<Longrightarrow> cap \<le> SIZE_MAX \<Longrightarrow> need \<le> SIZE_MAX \<Longrightarrow> \<exists>c. grow_loop cap need = Some c \<and> need \<le> c \<and> c \<le> SIZE_MAX"
proof (induction "need - cap" arbitrary: cap rule: less_induct)
  case less
  show ?case
  proof (cases "cap < need \<and> cap \<le> SIZE_MAX div 2")
    case True
    with less.prems(1) have "need - cap * 2 < need - cap" "0 < cap * 2" "cap * 2 \<le> SIZE_MAX" by linarith+
    from less.hyps [OF this less.prems(3)] True show ?thesis by (subst grow_loop.simps) simp
  next
    case False
    with less.prems show ?thesis by (subst grow_loop.simps) auto
  qed
qed

lemma strbuf_grow_returns:
  assumes "sb_ok sb" "need \<le> SIZE_MAX"
  shows "\<exists>g sb'. strbuf_grow ok sb need = Some (g, sb') \<and> sb_buf sb' = sb_buf sb \<and> sb_cap sb \<le> sb_cap sb' \<and>
    sb_cap sb' \<le> SIZE_MAX \<and> (ok \<longrightarrow> g) \<and> (if g then need \<le> sb_cap sb' else sb' = sb)"
proof (cases "need \<le> sb_cap sb")
  case True
  with assms show ?thesis by (auto simp: strbuf_grow_def sb_ok_def split: if_splits)
next
  case False
  have "0 < (if sb_cap sb = 0 then 64 else sb_cap sb)" "(if sb_cap sb = 0 then 64 else sb_cap sb) \<le> SIZE_MAX"
    using assms(1) by (simp_all add: sb_ok_def SIZE_MAX_def split: if_splits)
  from grow_loop_returns [OF this assms(2)]
  obtain c where "grow_loop (if sb_cap sb = 0 then 64 else sb_cap sb) need = Some c" "need \<le> c" "c \<le> SIZE_MAX" by blast
  with False assms show ?thesis
    by (intro exI [of _ ok] exI [of _ "if ok then sb\<lparr>sb_cap := c\<rparr> else sb"]) (auto simp: strbuf_grow_def sb_ok_def split: if_splits)
qed

section \<open>Printing numbers\<close>

text \<open>\<open>%u\<close> and \<open>%lld\<close>.\<close>

fun nat_str :: "nat \<Rightarrow> cstr" where
  "nat_str n = (if n < 10 then [char_of (48 + n)] else nat_str (n div 10) @ [char_of (48 + n mod 10)])"

declare nat_str.simps [simp del]

definition int_str :: "int \<Rightarrow> cstr" where
  "int_str i = (if i < 0 then CHR ''-'' # nat_str (nat (- i)) else nat_str (nat i))"

definition str_nat :: "cstr \<Rightarrow> nat" where
  "str_nat = foldl (\<lambda>n c. n * 10 + (byte c - 48)) 0"

lemma str_nat_str [simp]: "str_nat (nat_str n) = n"
proof (induction n rule: nat_str.induct)
  case (1 n)
  then show ?case by (subst nat_str.simps) (auto simp: str_nat_def)
qed

lemma nat_str_inj [simp]: "nat_str m = nat_str n \<longleftrightarrow> m = n"
  by (metis str_nat_str)

lemma nat_str_digits: "c \<in> set (nat_str n) \<Longrightarrow> 48 \<le> byte c \<and> byte c < 58"
proof (induction n rule: nat_str.induct)
  case (1 n)
  from "1.prems" show ?case
    by (subst (asm) nat_str.simps) (auto split: if_splits dest: "1.IH")
qed

lemma nat_str_no_dash: "CHR ''-'' \<notin> set (nat_str n)"
  using nat_str_digits [of "CHR ''-''" n] by (auto simp: byte_def)

lemma length_nat_str: "n < 10 ^ Suc k \<Longrightarrow> length (nat_str n) \<le> Suc k"
proof (induction k arbitrary: n)
  case 0
  then show ?case by (subst nat_str.simps) simp
next
  case (Suc k)
  then have "n div 10 < 10 ^ Suc k" by (simp add: less_mult_imp_div_less)
  from Suc.IH [OF this] show ?case by (subst nat_str.simps) simp
qed

section \<open>The string map\<close>

type_synonym strmap = "cstr option kvs"

text \<open>\<open>grow\<close>, \<open>kdup\<close>, \<open>vdup\<close>: the array grows, the key and the value can be copied. An entry is 16 bytes.\<close>

definition strmap_reserve :: "bool \<Rightarrow> strmap \<Rightarrow> strmap option" where
  "strmap_reserve grow m =
     (if length (elems m) = vcap m
      then if SIZE_MAX div 2 < vcap m \<or> SIZE_MAX div 16 < grow_cap 8 (vcap m) \<or> \<not> grow then None
           else Some (m\<lparr>vcap := grow_cap 8 (vcap m)\<rparr>)
      else Some m)"

definition strmap_set :: "bool \<Rightarrow> bool \<Rightarrow> bool \<Rightarrow> strmap \<Rightarrow> cstr option \<Rightarrow> cstr option \<Rightarrow> strmap" where
  "strmap_set grow kdup vdup m key val =
     (case key of
        None \<Rightarrow> m
      | Some k \<Rightarrow>
          (case kv_index k m of
             Some i \<Rightarrow>
               if val \<noteq> None \<and> \<not> vdup then m
               else m\<lparr>elems := (elems m)[i := (fst (elems m ! i), val)]\<rparr>
           | None \<Rightarrow>
               (case strmap_reserve grow m of
                  None \<Rightarrow> m
                | Some m' \<Rightarrow>
                    if \<not> kdup \<or> (val \<noteq> None \<and> \<not> vdup) then m'
                    else m'\<lparr>elems := elems m' @ [(k, val)]\<rparr>)))"

definition strmap_get :: "strmap \<Rightarrow> cstr \<Rightarrow> cstr option" where
  "strmap_get m k = (case kv_lookup m k of None \<Rightarrow> None | Some v \<Rightarrow> v)"

lemma strmap_reserve_lookup:
  "strmap_reserve g m = Some m' \<Longrightarrow> kv_ok m \<Longrightarrow> elems m' = elems m \<and> length (elems m) < vcap m'"
  by (auto simp: strmap_reserve_def kv_ok_def vec_ok_def grow_cap_def split: if_splits)

text \<open>A set either takes effect for its key alone or, when memory runs out, changes no lookup.\<close>

lemma strmap_set_lookup:
  assumes ok: "kv_ok m" and m'_def: "m' = strmap_set g kd vd m (Some k) v"
  shows "kv_ok m' \<and> (kv_lookup m' = (kv_lookup m)(k \<mapsto> v) \<or> kv_lookup m' = kv_lookup m \<and> \<not> (g \<and> kd \<and> vd \<and> vcap m \<le> SIZE_MAX div 32))"
proof (cases "kv_index k m")
  case (Some i)
  note i = kv_index_Some [OF Some]
  show ?thesis
  proof (cases "v \<noteq> None \<and> \<not> vd")
    case True
    with Some ok show ?thesis by (auto simp: m'_def strmap_set_def)
  next
    case False
    have "kv_upsert True k v m = Some m'" using False Some by (auto simp: m'_def strmap_set_def kv_upsert_def)
    from kv_upsert_spec [OF ok this] show ?thesis by blast
  qed
next
  case None
  show ?thesis
  proof (cases "strmap_reserve g m")
    case r: None
    then have "\<not> (g \<and> vcap m \<le> SIZE_MAX div 32)"
      by (auto simp: strmap_reserve_def grow_cap_def SIZE_MAX_def split: if_splits)
    with ok None r show ?thesis by (auto simp: m'_def strmap_set_def)
  next
    case (Some q)
    note q = strmap_reserve_lookup [OF Some ok]
    have n: "k \<notin> fst ` set (elems m)"
      using None by (simp add: kv_index_None kv_lookup_map_of dom_map_of_conv_image_fst)
    show ?thesis
    proof (cases "\<not> kd \<or> (v \<noteq> None \<and> \<not> vd)")
      case True
      with None Some have "m' = q" by (simp add: m'_def strmap_set_def)
      with True q ok show ?thesis by (auto simp: kv_ok_def vec_ok_def kv_lookup_map_of)
    next
      case False
      with None Some have "m' = q\<lparr>elems := elems q @ [(k, v)]\<rparr>" by (auto simp: m'_def strmap_set_def)
      with q ok n show ?thesis by (simp add: kv_ok_def vec_ok_def kv_lookup_map_of map_of_snoc del: map_of_append)
    qed
  qed
qed

section \<open>Properties\<close>

text \<open>C35: the validator accepts a string exactly when it is a sequence of encodings, as the Unicode
standard defines them, of scalar values: no overlong form, no surrogate, nothing above U+10FFFF, nothing cut short.\<close>

theorem utf8_valid_language:
  "str_utf8_valid_n (Some s) (-1) \<longleftrightarrow> (\<exists>cps. list_all scalar_value cps \<and> s = concat (map utf8_encode cps))"
  by (simp add: str_utf8_valid_n_def utf8_valid_iff)

text \<open>Sanitising always yields valid UTF-8 that is no longer than the input, and leaves the input
unchanged exactly when it was valid.\<close>

theorem utf8_sanitize_spec:
  "\<exists>t. str_utf8_sanitize (Some s) = Some t \<and> str_utf8_valid_n (Some t) (-1) \<and> length t \<le> length s \<and>
       (t = s \<longleftrightarrow> str_utf8_valid_n (Some s) (-1))"
proof -
  have "utf8_sanitize s = s \<longleftrightarrow> utf8_valid s" by (metis utf8_sanitize_valid utf8_sanitize_id)
  then show ?thesis by (simp add: str_utf8_sanitize_def str_utf8_valid_n_def utf8_sanitize_valid)
qed

text \<open>A block name is 16 hexadecimal digits that determine the hash, and two contents that differ in
exactly one byte never share a name.\<close>

theorem content_hash_byte:
  "length (hash_hex (hash64 (a @ [c] @ b))) = 16 \<and>
   hex_value (hash_hex h) = unat h \<and>
   (hash_hex (hash64 (a @ [c] @ b)) = hash_hex (hash64 (a @ [d] @ b)) \<longleftrightarrow> c = d)"
proof -
  have "unat h < 16 ^ 16" using unsigned_less [of h, where ?'a = nat] by simp
  then show ?thesis
    by (simp add: hash_hex_inj hash64_foldl fnv_fold_inj fnv_step_inj hex_value_digits [of 16 h, folded hash_hex_def])
qed

text \<open>Appending to a well-formed buffer always returns, the doubling loop included; the buffer
stays well-formed, with room for the NUL, and holds the old text followed by the new one, unless memory ran out or
the size would pass the address space, when it is unchanged.\<close>

theorem strbuf_append_returns:
  assumes "sb_ok sb"
  shows "\<exists>sb'. strbuf_append ok sb s = Some sb' \<and> sb_ok sb' \<and>
    (sb_buf sb' = sb_buf sb @ s \<or> sb' = sb \<and> (\<not> ok \<or> SIZE_MAX \<le> length (sb_buf sb) + length s))"
proof (cases "SIZE_MAX - length (sb_buf sb) - 1 < length s")
  case True
  then have "SIZE_MAX \<le> length (sb_buf sb) + length s" using assms by (auto simp: sb_ok_def split: if_splits)
  with True assms show ?thesis by (simp add: strbuf_append_def strbuf_append_n_def)
next
  case False
  then have le: "length (sb_buf sb) + length s + 1 \<le> SIZE_MAX"
    using assms by (auto simp: sb_ok_def SIZE_MAX_def split: if_splits)
  from strbuf_grow_returns [OF assms le]
  obtain g sb' where g: "strbuf_grow ok sb (length (sb_buf sb) + length s + 1) = Some (g, sb')" "sb_buf sb' = sb_buf sb"
    "sb_cap sb' \<le> SIZE_MAX" "ok \<longrightarrow> g" "if g then length (sb_buf sb) + length s + 1 \<le> sb_cap sb' else sb' = sb" by blast
  from False g assms show ?thesis
    by (auto simp: strbuf_append_def strbuf_append_n_def sb_ok_def split: if_splits)
qed

theorem strbuf_append_returns_witness:
  "\<exists>sb'. strbuf_append True strbuf_init ''hello'' = Some sb' \<and> sb_ok sb' \<and> sb_buf sb' = ''hello''"
proof -
  have "sb_ok strbuf_init" by (simp add: sb_ok_def strbuf_init_def)
  from strbuf_append_returns [OF this, of True "''hello''"] show ?thesis by (auto simp: strbuf_init_def SIZE_MAX_def)
qed

end
