(* ===== verification/Fs.thy ===== *)
theory Fs
  imports Util "HOL-Library.AList"
begin

text \<open>
  The file layer \<open>src/backend/src/os/posix/fs.c\<close> over a file system: an association list from paths to
  directories and files. A file holds its bytes and whether it can be opened for reading; \<open>denied\<close> lists the paths
  at which the system refuses to create, overwrite or remove (permissions, a missing parent, a full disk). Two
  path strings name two objects: links and \<open>a/../b\<close> forms are outside the model, and so is a write cut short.
\<close>

section \<open>Files\<close>

datatype node = Dir int | File cstr bool

record fsys =
  nodes :: "(cstr \<times> node) list"
  denied :: "cstr list"

definition fs_get :: "fsys \<Rightarrow> cstr \<Rightarrow> node option" where
  "fs_get fs p = map_of (nodes fs) p"

text \<open>What a caller sees of a buffer that it measures with \<open>strlen\<close>.\<close>

definition c_string :: "cstr \<Rightarrow> cstr" where
  "c_string b = takeWhile (\<lambda>c. c \<noteq> CHR 0x00) b"

definition fs_exists :: "fsys \<Rightarrow> cstr \<Rightarrow> bool" where
  "fs_exists fs p \<longleftrightarrow> fs_get fs p \<noteq> None"

fun node_is_dir :: "node option \<Rightarrow> bool" where
  "node_is_dir (Some (Dir _)) = True"
| "node_is_dir _ = False"

definition fs_is_dir :: "fsys \<Rightarrow> cstr \<Rightarrow> bool" where
  "fs_is_dir fs p = node_is_dir (fs_get fs p)"

definition fs_file_size :: "fsys \<Rightarrow> cstr \<Rightarrow> int" where
  "fs_file_size fs p =
     (case fs_get fs p of None \<Rightarrow> -1 | Some (Dir n) \<Rightarrow> n | Some (File b _) \<Rightarrow> int (length b))"

text \<open>\<open>None\<close> for a missing or unreadable file, and for a directory, whose size the allocation cannot serve.\<close>

definition fs_read_file :: "fsys \<Rightarrow> cstr \<Rightarrow> cstr option" where
  "fs_read_file fs p = (case fs_get fs p of Some (File b True) \<Rightarrow> Some b | _ \<Rightarrow> None)"

text \<open>Bytes read, their number and whether there are more.\<close>

definition fs_read_file_slice :: "fsys \<Rightarrow> cstr \<Rightarrow> nat \<Rightarrow> nat \<Rightarrow> (cstr \<times> nat \<times> bool) option" where
  "fs_read_file_slice fs p offset max_bytes =
     (if max_bytes = SIZE_MAX \<or> 2 ^ 63 - 1 < offset then None
      else case fs_get fs p of
             Some (File b True) \<Rightarrow>
               (let got = take (max_bytes + 1) (drop offset b) in
                Some (take max_bytes got, min (length got) max_bytes, max_bytes < length got))
           | _ \<Rightarrow> None)"

definition put_node :: "cstr \<Rightarrow> node \<Rightarrow> fsys \<Rightarrow> fsys" where
  "put_node p n fs = fs\<lparr>nodes := AList.update p n (nodes fs)\<rparr>"

definition del_node :: "cstr \<Rightarrow> fsys \<Rightarrow> fsys" where
  "del_node p fs = fs\<lparr>nodes := AList.delete p (nodes fs)\<rparr>"

text \<open>A file keeps its mode when it is overwritten; a new one is readable.\<close>

definition fs_write_file :: "cstr \<Rightarrow> cstr \<Rightarrow> fsys \<Rightarrow> int \<times> fsys" where
  "fs_write_file p data fs =
     (if p \<in> set (denied fs) then (-1, fs)
      else case fs_get fs p of
             Some (Dir _) \<Rightarrow> (-1, fs)
           | Some (File _ r) \<Rightarrow> (0, put_node p (File data r) fs)
           | None \<Rightarrow> (0, put_node p (File data True) fs))"

definition fs_append_file :: "cstr \<Rightarrow> cstr \<Rightarrow> fsys \<Rightarrow> int \<times> fsys" where
  "fs_append_file p data fs =
     (if p \<in> set (denied fs) then (-1, fs)
      else case fs_get fs p of
             Some (Dir _) \<Rightarrow> (-1, fs)
           | Some (File b r) \<Rightarrow> (0, put_node p (File (b @ data) r) fs)
           | None \<Rightarrow> (0, put_node p (File data True) fs))"

definition below :: "cstr \<Rightarrow> cstr \<Rightarrow> bool" where
  "below p q \<longleftrightarrow> take (Suc (length p)) q = p @ ''/''"

text \<open>\<open>remove()\<close>: files, and directories with nothing in them.\<close>

definition fs_remove :: "cstr \<Rightarrow> fsys \<Rightarrow> int \<times> fsys" where
  "fs_remove p fs =
     (if p \<in> set (denied fs) then (-1, fs)
      else case fs_get fs p of
             None \<Rightarrow> (-1, fs)
           | Some (Dir _) \<Rightarrow> if list_ex (\<lambda>(q, _). below p q) (nodes fs) then (-1, fs) else (0, del_node p fs)
           | Some (File _ _) \<Rightarrow> (0, del_node p fs))"

text \<open>\<open>mkdir\<close> with \<open>EEXIST\<close> accepted; the boolean is success.\<close>

definition mkdir :: "cstr \<Rightarrow> fsys \<Rightarrow> bool \<times> fsys" where
  "mkdir p fs =
     (if fs_exists fs p then (True, fs)
      else if p \<in> set (denied fs) then (False, fs)
      else (True, put_node p (Dir 4096) fs))"

text \<open>The prefixes that end before a slash at a position from 1 on, then the whole path.\<close>

fun mkdir_steps :: "cstr list \<Rightarrow> fsys \<Rightarrow> int \<times> fsys" where
  "mkdir_steps [] fs = (0, fs)"
| "mkdir_steps (p # ps) fs = (case mkdir p fs of (False, fs') \<Rightarrow> (-1, fs') | (True, fs') \<Rightarrow> mkdir_steps ps fs')"

definition fs_mkdirs :: "cstr \<Rightarrow> fsys \<Rightarrow> int \<times> fsys" where
  "fs_mkdirs path fs =
     (let tmp = cbuf 1024 path in
      if tmp = [] then (-1, fs)
      else mkdir_steps (map (\<lambda>i. take i tmp) (filter (\<lambda>i. tmp ! i = CHR ''/'') [1..<length tmp]) @ [tmp]) fs)"

text \<open>The entries directly below a directory, in the order in which the system lists them.\<close>

definition fs_list_dir :: "fsys \<Rightarrow> cstr \<Rightarrow> (cstr \<times> bool) list option" where
  "fs_list_dir fs p =
     (if fs_is_dir fs p
      then Some (List.map_filter (\<lambda>(q, n). let r = drop (Suc (length p)) q in
                   if below p q \<and> r \<noteq> [] \<and> CHR ''/'' \<notin> set r then Some (r, node_is_dir (Some n)) else None) (nodes fs))
      else None)"

section \<open>Laws\<close>

lemma fs_get_put [simp]: "fs_get (put_node p n fs) = (fs_get fs)(p \<mapsto> n)"
  by (simp add: fs_get_def put_node_def fun_eq_iff update_conv')

lemma fs_get_del [simp]: "fs_get (del_node p fs) = (fs_get fs)(p := None)"
  by (simp add: fs_get_def del_node_def fun_eq_iff delete_conv')

lemma denied_put [simp]: "denied (put_node p n fs) = denied fs" "denied (del_node p fs) = denied fs"
  by (simp_all add: put_node_def del_node_def)

lemma denied_write [simp]: "denied (snd (fs_write_file p d fs)) = denied fs" "denied (snd (fs_remove p fs)) = denied fs"
  by (simp_all add: fs_write_file_def fs_remove_def split: option.split node.split)

lemma fs_write_other: "q \<noteq> p \<Longrightarrow> fs_get (snd (fs_write_file p d fs)) q = fs_get fs q"
  by (simp add: fs_write_file_def split: option.split node.split)

lemma fs_remove_other: "q \<noteq> p \<Longrightarrow> fs_get (snd (fs_remove p fs)) q = fs_get fs q"
  by (simp add: fs_remove_def split: option.split node.split)

lemma fs_write_get:
  "p \<notin> set (denied fs) \<Longrightarrow> \<not> fs_is_dir fs p \<Longrightarrow>
   fs_write_file p d fs = (0, put_node p (File d (case fs_get fs p of Some (File _ r) \<Rightarrow> r | _ \<Rightarrow> True)) fs)"
  by (auto simp: fs_write_file_def fs_is_dir_def split: option.split node.split)

lemma fs_remove_get:
  "p \<notin> set (denied fs) \<Longrightarrow> \<not> fs_is_dir fs p \<Longrightarrow> fs_get (snd (fs_remove p fs)) p = None"
  by (auto simp: fs_remove_def fs_is_dir_def split: option.split node.split)

lemma fs_write_read: "fs_write_file p d fs = (0, fs') \<Longrightarrow> fs_get fs p = None \<Longrightarrow> fs_read_file fs' p = Some d"
  by (auto simp: fs_write_file_def fs_read_file_def split: if_splits)

lemma c_string_id: "CHR 0x00 \<notin> set s \<Longrightarrow> c_string s = s"
  unfolding c_string_def takeWhile_eq_all_conv by (metis)

end
