(* ===== verification/SshSecrets.thy ===== *)
theory SshSecrets
  imports Util Json "HOL-Library.Product_Lexorder"
begin

text \<open>
  The registry of known SSH passwords and their redaction from text
  (\<open>src/backend/src/security/ssh_passwords.c\<close>): registration of a password and of its JSON-escaped form, the scan for
  occurrences, the merging of overlapping spans, and the replacement. The registry is the list of its values, newest
  first. \<open>print\<close> is the JSON printer, \<open>ok\<close> the outcome of the allocations.
\<close>

section \<open>Registration\<close>

definition register_value :: "bool \<Rightarrow> cstr option \<Rightarrow> cstr list \<Rightarrow> int \<times> cstr list" where
  "register_value ok password ps =
     (let v = nonnull_or [] password in
      if length v = 0 \<or> 6144 < length v then (-1, ps)
      else if v \<in> set ps then (0, ps)
      else if ok then (0, v # ps) else (-1, ps))"

text \<open>The escaped form is the printed JSON string without its quotes.\<close>

definition secret_register_ssh_password ::
  "bool \<Rightarrow> (json \<Rightarrow> cstr option) \<Rightarrow> cstr option \<Rightarrow> cstr list \<Rightarrow> int \<times> cstr list" where
  "secret_register_ssh_password ok print password ps =
     (let v = nonnull_or [] password in
      if v = [] \<or> 1024 < length v then (-1, ps)
      else case register_value ok password ps of (rc, ps') \<Rightarrow>
        if rc \<noteq> 0 then (-1, ps')
        else case print (JStr v) of
               None \<Rightarrow> (-1, ps')
             | Some json \<Rightarrow> register_value ok (Some (butlast (tl json))) ps')"

definition secret_ssh_password_max_length :: "cstr list \<Rightarrow> nat" where
  "secret_ssh_password_max_length ps = foldl (\<lambda>n p. if n < length p then length p else n) 0 ps"

section \<open>Scanning\<close>

record secret_match =
  ms_start :: nat
  ms_end :: nat

text \<open>\<open>strchr\<close> also finds the terminating NUL.\<close>

definition label_sep :: "char \<Rightarrow> bool" where
  "label_sep c \<longleftrightarrow> c \<in> set [CHR '' '', CHR 0x09, CHR '':'', CHR ''='', CHR 0x22, CHR 0x27, CHR 0x00]"

primrec label_begin :: "cstr \<Rightarrow> nat \<Rightarrow> nat" where
  "label_begin text 0 = 0"
| "label_begin text (Suc b) = (if label_sep (text ! b) then label_begin text b else Suc b)"

definition c_tolower :: "char \<Rightarrow> nat" where
  "c_tolower c = (if 65 \<le> byte c \<and> byte c \<le> 90 then byte c + 32 else byte c)"

definition password_labels :: "cstr list" where
  "password_labels =
     [''password'', ''passwd'', ''pwd'', map char_of [0xE5 :: nat, 0xAF, 0x86, 0xE7, 0xA0, 0x81],
      map char_of [0xE5 :: nat, 0x8F, 0xA3, 0xE4, 0xBB, 0xA4]]"

definition short_password_label :: "cstr \<Rightarrow> nat \<Rightarrow> bool" where
  "short_password_label text i =
     (let b = label_begin text i in
      list_ex (\<lambda>l. length l \<le> b \<and> map c_tolower (take (length l) (drop (b - length l) text)) = map c_tolower l) password_labels)"

definition password_at :: "cstr \<Rightarrow> cstr \<Rightarrow> nat \<Rightarrow> bool" where
  "password_at text p i \<longleftrightarrow> take (length p) (drop i text) = p \<and> (4 \<le> length p \<or> short_password_label text i)"

definition password_matches :: "cstr \<Rightarrow> cstr \<Rightarrow> secret_match list" where
  "password_matches text p =
     (if length text < length p then []
      else map (\<lambda>i. \<lparr>ms_start = i, ms_end = i + length p\<rparr>) (filter (password_at text p) [0..<length text - length p + 1]))"

text \<open>\<open>match_order\<close>: by start, the longer one first.\<close>

definition match_key :: "secret_match \<Rightarrow> nat \<times> int" where
  "match_key m = (ms_start m, - int (ms_end m))"

definition merge_match :: "secret_match list \<Rightarrow> secret_match \<Rightarrow> secret_match list" where
  "merge_match kept m =
     (if kept \<noteq> [] \<and> ms_start m < ms_end (last kept)
      then if ms_end (last kept) < ms_end m then butlast kept @ [(last kept)\<lparr>ms_end := ms_end m\<rparr>] else kept
      else kept @ [m])"

text \<open>\<open>None\<close>: the match array could not grow. The text is the buffer of \<open>len\<close> bytes.\<close>

definition secret_scan_ssh_passwords :: "bool \<Rightarrow> cstr list \<Rightarrow> cstr \<Rightarrow> secret_match list option" where
  "secret_scan_ssh_passwords ok ps text =
     (if text = [] then Some []
      else let ms = concat (map (password_matches text) ps) in
        if \<not> ok \<and> ms \<noteq> [] then None
        else Some (foldl merge_match [] (sort_key match_key ms)))"

section \<open>Redaction\<close>

fun redact_from :: "cstr \<Rightarrow> cstr \<Rightarrow> nat \<Rightarrow> secret_match list \<Rightarrow> cstr" where
  "redact_from text rep pos [] = drop pos text"
| "redact_from text rep pos (m # ms) = take (ms_start m - pos) (drop pos text) @ rep @ redact_from text rep (ms_end m) ms"

definition secret_redact_ssh_passwords :: "bool \<Rightarrow> cstr list \<Rightarrow> cstr \<Rightarrow> cstr option \<Rightarrow> cstr option" where
  "secret_redact_ssh_passwords ok ps text replacement =
     (case secret_scan_ssh_passwords ok ps text of
        None \<Rightarrow> None
      | Some ms \<Rightarrow>
          if ms = [] then Some text
          else Some (redact_from text (nonnull_or ''[REDACTED:ssh_password]'' replacement) 0 ms))"

section \<open>Spans\<close>

text \<open>Spans in order, each nonempty, none overlapping the one before.\<close>

fun chain :: "nat \<Rightarrow> secret_match list \<Rightarrow> bool" where
  "chain pos [] = True"
| "chain pos (m # ms) = (pos \<le> ms_start m \<and> ms_start m < ms_end m \<and> chain (ms_end m) ms)"

definition last_end :: "nat \<Rightarrow> secret_match list \<Rightarrow> nat" where
  "last_end pos ms = (if ms = [] then pos else ms_end (last ms))"

lemma chain_snoc: "chain pos (ms @ [m]) \<longleftrightarrow> chain pos ms \<and> last_end pos ms \<le> ms_start m \<and> ms_start m < ms_end m"
  by (induction ms arbitrary: pos) (auto simp: last_end_def)

definition spans :: "secret_match \<Rightarrow> secret_match \<Rightarrow> bool" where
  "spans k m \<longleftrightarrow> ms_start k \<le> ms_start m \<and> ms_end m \<le> ms_end k"

lemma merge_match_inv:
  assumes "chain 0 kept" "\<forall>k \<in> set kept. ms_start k \<le> ms_start m" "ms_start m < ms_end m"
  shows "chain 0 (merge_match kept m)" "\<exists>k \<in> set (merge_match kept m). spans k m"
    "\<forall>k \<in> set kept. \<exists>k' \<in> set (merge_match kept m). spans k' k" "\<forall>k \<in> set (merge_match kept m). ms_start k \<le> ms_start m"
proof -
  have "chain 0 (merge_match kept m) \<and> (\<exists>k \<in> set (merge_match kept m). spans k m) \<and>
    (\<forall>k \<in> set kept. \<exists>k' \<in> set (merge_match kept m). spans k' k) \<and> (\<forall>k \<in> set (merge_match kept m). ms_start k \<le> ms_start m)"
  proof (cases "kept \<noteq> [] \<and> ms_start m < ms_end (last kept)")
    case False
    then have "merge_match kept m = kept @ [m]" "last_end 0 kept \<le> ms_start m" by (auto simp: merge_match_def last_end_def)
    with assms show ?thesis by (auto simp: chain_snoc spans_def)
  next
    case True
    then obtain ks k where k: "kept = ks @ [k]" by (metis append_butlast_last_id)
    with True have lt: "ms_start m < ms_end k" by simp
    with assms(1,2) show ?thesis
      by (auto simp: merge_match_def k chain_snoc spans_def)
  qed
  then show "chain 0 (merge_match kept m)" "\<exists>k \<in> set (merge_match kept m). spans k m"
    "\<forall>k \<in> set kept. \<exists>k' \<in> set (merge_match kept m). spans k' k" "\<forall>k \<in> set (merge_match kept m). ms_start k \<le> ms_start m"
    by blast+
qed

lemma spans_trans: "spans a b \<Longrightarrow> spans b c \<Longrightarrow> spans a c"
  by (auto simp: spans_def)

lemma merge_all:
  assumes "chain 0 kept" "sorted (map ms_start ms)" "\<forall>m \<in> set ms. ms_start m < ms_end m"
    and "\<forall>k \<in> set kept. \<forall>m \<in> set ms. ms_start k \<le> ms_start m"
  shows "chain 0 (foldl merge_match kept ms) \<and> (\<forall>m \<in> set ms \<union> set kept. \<exists>k \<in> set (foldl merge_match kept ms). spans k m)"
  using assms
proof (induction ms arbitrary: kept)
  case Nil
  then show ?case by (auto simp: spans_def)
next
  case (Cons m ms)
  have pre: "\<forall>k \<in> set kept. ms_start k \<le> ms_start m" "ms_start m < ms_end m" using Cons.prems by simp_all
  note i = merge_match_inv [OF Cons.prems(1) pre]
  have "\<forall>k \<in> set (merge_match kept m). \<forall>m' \<in> set ms. ms_start k \<le> ms_start m'"
    using i(4) Cons.prems(2) by (auto intro: order_trans)
  then have IH: "chain 0 (foldl merge_match (merge_match kept m) ms)"
    "\<forall>x \<in> set ms \<union> set (merge_match kept m). \<exists>k \<in> set (foldl merge_match (merge_match kept m) ms). spans k x"
    using Cons.IH [OF i(1)] Cons.prems(2,3) by simp_all
  have "\<exists>k \<in> set (foldl merge_match (merge_match kept m) ms). spans k x" if "x \<in> set (m # ms) \<union> set kept" for x
  proof -
    have "x \<in> set ms \<or> (\<exists>k \<in> set (merge_match kept m). spans k x)" using that i(2,3) by auto
    with IH(2) show ?thesis by (meson UnCI spans_trans)
  qed
  with IH(1) show ?case by simp
qed

text \<open>The text between the spans.\<close>

fun pieces :: "cstr \<Rightarrow> nat \<Rightarrow> secret_match list \<Rightarrow> cstr list" where
  "pieces text pos [] = [drop pos text]"
| "pieces text pos (m # ms) = take (ms_start m - pos) (drop pos text) # pieces text (ms_end m) ms"

fun join :: "cstr \<Rightarrow> cstr list \<Rightarrow> cstr" where
  "join rep [] = []"
| "join rep [s] = s"
| "join rep (s # ss) = s @ rep @ join rep ss"

lemma pieces_nonempty [simp]: "pieces text pos ms \<noteq> []"
  by (cases ms) auto

lemma redact_join: "redact_from text rep pos ms = join rep (pieces text pos ms)"
proof (induction ms arbitrary: pos)
  case (Cons m ms)
  obtain s ss where "pieces text (ms_end m) ms = s # ss" by (cases "pieces text (ms_end m) ms") auto
  with Cons show ?case by simp
qed simp

lemma occurrence:
  assumes "drop pos text = a @ p @ b" "p \<noteq> []"
  shows "take (length p) (drop (pos + length a) text) = p" "pos + length a + length p \<le> length text"
proof -
  have "drop (pos + length a) text = drop (length a) (drop pos text)" by (simp add: add.commute)
  then have d: "drop (pos + length a) text = p @ b" by (simp add: assms(1))
  then show "take (length p) (drop (pos + length a) text) = p" by simp
  from d have "length text - (pos + length a) = length p + length b" by (metis length_append length_drop)
  with assms(2) show "pos + length a + length p \<le> length text" by (cases p) simp_all
qed

lemma chain_ge: "chain pos ms \<Longrightarrow> m \<in> set ms \<Longrightarrow> pos \<le> ms_start m"
  by (induction ms arbitrary: pos) force+

lemma pieces_gap:
  assumes "chain pos ms" "s \<in> set (pieces text pos ms)" "s = a @ p @ b" "p \<noteq> []"
  shows "\<exists>i. pos \<le> i \<and> take (length p) (drop i text) = p \<and> i + length p \<le> length text \<and>
    (\<forall>m \<in> set ms. ms_end m \<le> i \<or> i + length p \<le> ms_start m)"
  using assms
proof (induction ms arbitrary: pos)
  case Nil
  then have "drop pos text = a @ p @ b" by simp
  from occurrence [OF this Nil.prems(4)] show ?case by (intro exI [of _ "pos + length a"]) simp
next
  case (Cons m ms)
  from Cons.prems(2) consider "s = take (ms_start m - pos) (drop pos text)" | "s \<in> set (pieces text (ms_end m) ms)" by auto
  then show ?case
  proof cases
    case 1
    then have "drop pos text = a @ p @ (b @ drop (ms_start m - pos) (drop pos text))"
      using Cons.prems(3) by (metis append.assoc append_take_drop_id)
    note o = occurrence [OF this Cons.prems(4)]
    have "length a + length p + length b \<le> ms_start m - pos" using 1 Cons.prems(3)
      by (metis length_append length_take min.cobounded2 min.commute add.assoc)
    moreover have "pos \<le> ms_start m" using Cons.prems(1) by simp
    ultimately have le: "pos + length a + length p \<le> ms_start m" by linarith
    have "ms_start m \<le> ms_start m'" if "m' \<in> set ms" for m'
      using Cons.prems(1) that chain_ge [of "ms_end m" ms m'] by simp
    with o le show ?thesis by (intro exI [of _ "pos + length a"]) (auto intro: order_trans)
  next
    case 2
    with Cons obtain i where "ms_end m \<le> i" "take (length p) (drop i text) = p" "i + length p \<le> length text"
      "\<forall>m \<in> set ms. ms_end m \<le> i \<or> i + length p \<le> ms_start m" by auto
    with Cons.prems(1) show ?thesis by (intro exI [of _ i]) auto
  qed
qed

lemma matches_bounds: "m \<in> set (password_matches text p) \<Longrightarrow> ms_end m = ms_start m + length p \<and> ms_end m \<le> length text"
  by (auto simp: password_matches_def split: if_splits)

lemma matches_complete:
  "4 \<le> length p \<Longrightarrow> take (length p) (drop i text) = p \<Longrightarrow> i + length p \<le> length text \<Longrightarrow>
   \<lparr>ms_start = i, ms_end = i + length p\<rparr> \<in> set (password_matches text p)"
  by (auto simp: password_matches_def password_at_def image_iff simp del: upt_Suc)

text \<open>What the scan returns: spans in order that cover every match.\<close>

lemma scan_spec:
  assumes ne: "\<forall>p \<in> set ps. p \<noteq> []" and s: "secret_scan_ssh_passwords ok ps text = Some ms"
  shows "chain 0 ms" "p \<in> set ps \<Longrightarrow> 4 \<le> length p \<Longrightarrow> take (length p) (drop i text) = p \<Longrightarrow> i + length p \<le> length text \<Longrightarrow>
    \<exists>k \<in> set ms. ms_start k \<le> i \<and> i + length p \<le> ms_end k"
proof -
  let ?all = "sort_key match_key (concat (map (password_matches text) ps))"
  have "sorted (map match_key ?all)" by (rule sorted_sort_key)
  then have "sorted (map ms_start ?all)"
    by (simp add: sorted_map match_key_def) (erule sorted_wrt_mono_rel [rotated], auto)
  moreover have "\<forall>m \<in> set ?all. ms_start m < ms_end m" using ne by (force dest: matches_bounds)
  ultimately have m: "chain 0 (foldl merge_match [] ?all)" "\<forall>m \<in> set ?all. \<exists>k \<in> set (foldl merge_match [] ?all). spans k m"
    using merge_all [of "[]" ?all] by simp_all
  show "chain 0 ms" using s m(1) by (auto simp: secret_scan_ssh_passwords_def Let_def split: if_splits)
  assume p: "p \<in> set ps" "4 \<le> length p" "take (length p) (drop i text) = p" "i + length p \<le> length text"
  then have "ms = foldl merge_match [] ?all" "\<lparr>ms_start = i, ms_end = i + length p\<rparr> \<in> set ?all"
    using s matches_complete [OF p(2-4)] by (auto simp: secret_scan_ssh_passwords_def Let_def split: if_splits)
  with m(2) show "\<exists>k \<in> set ms. ms_start k \<le> i \<and> i + length p \<le> ms_end k" by (force simp: spans_def)
qed

lemma scan_nothing:
  "(\<forall>p \<in> set ps. \<not> str_contains p text) \<Longrightarrow> secret_scan_ssh_passwords ok ps text = Some []"
proof -
  assume n: "\<forall>p \<in> set ps. \<not> str_contains p text"
  have "password_matches text p = []" if "p \<in> set ps" for p
  proof -
    have "\<not> password_at text p i" for i
    proof
      assume "password_at text p i"
      then have "text = take i text @ p @ drop (length p) (drop i text)"
        by (metis append_take_drop_id password_at_def)
      with n that show False by (metis str_contains_iff)
    qed
    then show ?thesis by (simp add: password_matches_def)
  qed
  then have c: "concat (map (password_matches text) ps) = []" by simp
  show ?thesis unfolding secret_scan_ssh_passwords_def Let_def c by simp
qed

text \<open>The registry never holds the empty string.\<close>

lemma register_value_nonempty:
  "register_value ok pw ps = (rc, ps') \<Longrightarrow> \<forall>p \<in> set ps. p \<noteq> [] \<Longrightarrow> \<forall>p \<in> set ps'. p \<noteq> []"
  by (auto simp: register_value_def Let_def split: if_splits)

lemma register_password_nonempty:
  "secret_register_ssh_password ok print pw ps = (rc, ps') \<Longrightarrow> \<forall>p \<in> set ps. p \<noteq> [] \<Longrightarrow> \<forall>p \<in> set ps'. p \<noteq> []"
  by (auto simp: secret_register_ssh_password_def Let_def split: if_splits option.splits prod.splits
      dest!: register_value_nonempty)

section \<open>Properties\<close>

text \<open>C37: the redacted text is made of pieces of the original joined by the replacement, and no
piece contains a registered password of four bytes or more, overlapping and adjacent occurrences included; a text
without any registered password comes back unchanged.\<close>

theorem ssh_redaction_complete:
  assumes "\<forall>p \<in> set ps. p \<noteq> []" "secret_redact_ssh_passwords ok ps text rep = Some out"
  shows "(\<exists>ms. out = join (nonnull_or ''[REDACTED:ssh_password]'' rep) (pieces text 0 ms) \<and> chain 0 ms \<and>
      (\<forall>p \<in> set ps. 4 \<le> length p \<longrightarrow> (\<forall>s \<in> set (pieces text 0 ms). \<not> str_contains p s))) \<and>
    ((\<forall>p \<in> set ps. \<not> str_contains p text) \<longrightarrow> out = text)"
proof -
  obtain ms where ms: "secret_scan_ssh_passwords ok ps text = Some ms"
    and out: "out = (if ms = [] then text else redact_from text (nonnull_or ''[REDACTED:ssh_password]'' rep) 0 ms)"
    using assms(2) by (auto simp: secret_redact_ssh_passwords_def split: option.splits if_splits)
  note sc = scan_spec [OF assms(1) ms]
  have "\<not> str_contains p s" if p: "p \<in> set ps" "4 \<le> length p" and s: "s \<in> set (pieces text 0 ms)" for p s
  proof
    assume "str_contains p s"
    then obtain a b where "s = a @ p @ b" by (auto simp: str_contains_iff)
    moreover have "p \<noteq> []" using p(2) by auto
    ultimately obtain i where i: "take (length p) (drop i text) = p" "i + length p \<le> length text"
      "\<forall>m \<in> set ms. ms_end m \<le> i \<or> i + length p \<le> ms_start m"
      using pieces_gap [OF sc(1) s] by blast
    from sc(2) [OF p i(1,2)] obtain k where "k \<in> set ms" "ms_start k \<le> i" "i + length p \<le> ms_end k" by blast
    with i(3) p(2) show False by fastforce
  qed
  moreover have "out = join (nonnull_or ''[REDACTED:ssh_password]'' rep) (pieces text 0 ms)"
    by (simp add: out redact_join)
  moreover have "out = text" if "\<forall>p \<in> set ps. \<not> str_contains p text"
    using scan_nothing [OF that, of ok] ms out by simp
  ultimately show ?thesis using sc(1) by blast
qed

theorem ssh_redaction_complete_witness:
  "\<exists>out ms. secret_redact_ssh_passwords True [''hunter2'', ''er2x''] ''pw=hunter2x!'' None = Some out \<and>
     out = join ''[REDACTED:ssh_password]'' (pieces ''pw=hunter2x!'' 0 ms) \<and> \<not> str_contains ''er2x'' (last (pieces ''pw=hunter2x!'' 0 ms))"
proof -
  have "secret_redact_ssh_passwords True [''hunter2'', ''er2x''] ''pw=hunter2x!'' None = Some ''pw=[REDACTED:ssh_password]!''"
    by code_simp
  from ssh_redaction_complete [OF _ this] obtain ms where
    "''pw=[REDACTED:ssh_password]!'' = join (nonnull_or ''[REDACTED:ssh_password]'' None) (pieces ''pw=hunter2x!'' 0 ms)"
    "\<forall>s \<in> set (pieces ''pw=hunter2x!'' 0 ms). \<not> str_contains ''er2x'' s" by auto
  moreover from this(2) have "\<not> str_contains ''er2x'' (last (pieces ''pw=hunter2x!'' 0 ms))"
    using last_in_set [OF pieces_nonempty] by blast
  ultimately show ?thesis
    using \<open>secret_redact_ssh_passwords True _ _ None = _\<close> by (auto simp: nonnull_or_def)
qed

end
