(* ===== verification/Tools.thy ===== *)
theory Tools
  imports Policy Fs SshSecrets
begin

text \<open>
  The metrics sink (\<open>src/backend/src/infra/metrics.c\<close>) and the tool registry with its execution gate
  (\<open>src/backend/src/action/tools.c\<close>): registration and lookup, argument validation against a JSON schema, the policy
  check, the cap on a tool's output, and the bookkeeping after a call.

  A tool's \<open>execute\<close> is a function from its arguments and the file system to its result and the file system
  after. What a call reads from outside is a record of parameters: the JSON parser and printer, the clock, the
  resolution of a path by the system, the known SSH passwords.
\<close>

unbundle bit_operations_syntax

section \<open>Metrics\<close>

datatype metric_kind = M_COUNTER | M_GAUGE | M_HIST

record metric =
  mt_name :: cstr
  mt_kind :: metric_kind
  mt_value :: rat
  mt_sum :: rat
  mt_buckets :: "rat list"

type_synonym metrics = "metric list"

text \<open>The index of the metric and the metrics with it; the array is taken to grow.\<close>

definition find_or_add :: "metrics \<Rightarrow> cstr \<Rightarrow> metric_kind \<Rightarrow> nat \<times> metrics" where
  "find_or_add m name k =
     (case find_index (\<lambda>x. mt_name x = name) m of
        Some i \<Rightarrow> (i, m)
      | None \<Rightarrow> (length m, m @ [\<lparr>mt_name = name, mt_kind = k, mt_value = 0, mt_sum = 0, mt_buckets = replicate 6 0\<rparr>]))"

definition metrics_add :: "metrics \<Rightarrow> cstr \<Rightarrow> rat \<Rightarrow> metrics" where
  "metrics_add m name v =
     (case find_or_add m name M_COUNTER of (i, m') \<Rightarrow> m'[i := (m' ! i)\<lparr>mt_value := mt_value (m' ! i) + v\<rparr>])"

definition metrics_inc :: "metrics \<Rightarrow> cstr \<Rightarrow> metrics" where
  "metrics_inc m name = metrics_add m name 1"

definition metrics_set :: "metrics \<Rightarrow> cstr \<Rightarrow> rat \<Rightarrow> metrics" where
  "metrics_set m name v =
     (case find_or_add m name M_GAUGE of (i, m') \<Rightarrow> m'[i := (m' ! i)\<lparr>mt_value := v\<rparr>])"

fun kind_name :: "metric_kind \<Rightarrow> cstr" where
  "kind_name M_COUNTER = ''counter''"
| "kind_name M_GAUGE = ''gauge''"
| "kind_name M_HIST = ''histogram''"

text \<open>\<open>g\<close> prints a number as \<open>%g\<close> does.\<close>

definition render_metric :: "(rat \<Rightarrow> cstr) \<Rightarrow> metric \<Rightarrow> cstr" where
  "render_metric g mt =
     ''# TYPE coa_'' @ mt_name mt @ '' '' @ kind_name (mt_kind mt) @ [CHR 0x0A] @ ''cagent_'' @ mt_name mt @ '' '' @ g (mt_value mt) @ [CHR 0x0A]
     @ (if mt_kind mt = M_HIST
        then concat (map (\<lambda>(bound, b). ''coa_'' @ mt_name mt @ ''_bucket{le='' @ [CHR 0x22] @ g bound @ [CHR 0x22] @ ''} '' @ g b @ [CHR 0x0A])
               (zip [1 / 1000, 1 / 100, 1 / 10, 1, 10, 100] (mt_buckets mt)))
             @ ''coa_'' @ mt_name mt @ ''_bucket{le='' @ [CHR 0x22] @ ''+Inf'' @ [CHR 0x22] @ ''} '' @ g (mt_value mt) @ [CHR 0x0A]
             @ ''coa_'' @ mt_name mt @ ''_sum '' @ g (mt_sum mt) @ [CHR 0x0A]
        else [])"

definition metrics_render :: "(rat \<Rightarrow> cstr) \<Rightarrow> metrics \<Rightarrow> cstr" where
  "metrics_render g m = concat (map (render_metric g) m)"

text \<open>The value a name has; names are distinct.\<close>

definition metric_value :: "metrics \<Rightarrow> cstr \<Rightarrow> rat option" where
  "metric_value m = map_of (map (\<lambda>x. (mt_name x, mt_value x)) m)"

definition metrics_ok :: "metrics \<Rightarrow> bool" where
  "metrics_ok m \<longleftrightarrow> distinct (map mt_name m)"

text \<open>Arrays of named records seen as maps.\<close>

lemma map_of_named_update:
  assumes "distinct (map f xs)" "i < length xs" "f x = f (xs ! i)"
  shows "map_of (map (\<lambda>y. (f y, g y)) (xs[i := x])) = (map_of (map (\<lambda>y. (f y, g y)) xs))(f x \<mapsto> g x)"
    "map f (xs[i := x]) = map f xs"
proof -
  show "map f (xs[i := x]) = map f xs" using assms(2,3) by (simp add: map_update) (metis list_update_id nth_map)
  have d: "distinct (map fst (map (\<lambda>y. (f y, g y)) xs))" using assms(1) by (simp add: comp_def)
  have "map (\<lambda>y. (f y, g y)) (xs[i := x]) = (map (\<lambda>y. (f y, g y)) xs)[i := (f (xs ! i), g x)]"
    using assms(2,3) by (simp add: map_update)
  with map_of_update_at [OF d, of i "g x"] assms(2,3)
  show "map_of (map (\<lambda>y. (f y, g y)) (xs[i := x])) = (map_of (map (\<lambda>y. (f y, g y)) xs))(f x \<mapsto> g x)" by simp
qed

lemma map_of_named_snoc:
  "find_index (\<lambda>y. f y = f x) xs = None \<Longrightarrow>
   map_of (map (\<lambda>y. (f y, g y)) (xs @ [x])) = (map_of (map (\<lambda>y. (f y, g y)) xs))(f x \<mapsto> g x)"
proof -
  assume "find_index (\<lambda>y. f y = f x) xs = None"
  then have "f x \<notin> fst ` set (map (\<lambda>y. (f y, g y)) xs)" by (auto simp: find_index_None_iff)
  from map_of_snoc [OF this, of "g x"] show ?thesis by simp
qed

lemma map_of_named_find:
  "map_of (map (\<lambda>y. (f y, g y)) xs) n = map_option (\<lambda>i. g (xs ! i)) (find_index (\<lambda>y. f y = n) xs)"
  by (induction xs) (auto simp: option.map_comp o_def)

lemma metrics_add_value:
  assumes "metrics_ok m"
  shows "metrics_ok (metrics_add m name v) \<and>
    metric_value (metrics_add m name v) = (metric_value m)(name \<mapsto> (case metric_value m name of None \<Rightarrow> 0 | Some w \<Rightarrow> w) + v)"
proof (cases "find_index (\<lambda>x. mt_name x = name) m")
  case None
  let ?x = "\<lparr>mt_name = name, mt_kind = M_COUNTER, mt_value = v, mt_sum = 0, mt_buckets = replicate 6 0\<rparr>"
  have e: "metrics_add m name v = m @ [?x]" using None by (simp add: metrics_add_def find_or_add_def)
  have "metric_value m name = None" using None by (simp add: metric_value_def map_of_named_find)
  moreover have "name \<notin> mt_name ` set m" using None by (auto simp: find_index_None_iff)
  ultimately show ?thesis using assms map_of_named_snoc [of mt_name ?x m mt_value] None
    by (simp add: e metrics_ok_def metric_value_def)
next
  case (Some i)
  from find_index_SomeD [OF Some] have i: "i < length m" "mt_name (m ! i) = name" by simp_all
  let ?x = "(m ! i)\<lparr>mt_value := mt_value (m ! i) + v\<rparr>"
  have e: "metrics_add m name v = m[i := ?x]" using Some by (simp add: metrics_add_def find_or_add_def)
  have "metric_value m name = Some (mt_value (m ! i))" using Some by (simp add: metric_value_def map_of_named_find)
  with assms map_of_named_update(1) [of mt_name m i ?x mt_value] map_of_named_update(2) [of mt_name m i ?x] i show ?thesis
    by (simp add: e metrics_ok_def metric_value_def)
qed

section \<open>The registry\<close>

record tool_result =
  ok :: bool
  t_output :: cstr

record tool =
  t_name :: cstr
  t_description :: cstr
  t_schema :: "cstr option"
  is_write :: bool
  execute :: "cstr option \<Rightarrow> fsys \<Rightarrow> tool_result option \<times> fsys"

type_synonym tool_registry = "tool vec"

definition tool_registry_new :: tool_registry where
  "tool_registry_new = vec_new"

definition tool_index :: "tool_registry \<Rightarrow> cstr \<Rightarrow> nat option" where
  "tool_index reg name = find_index (\<lambda>t. t_name t = name) (elems reg)"

definition tool_register_ex :: "bool \<Rightarrow> tool_registry \<Rightarrow> tool \<Rightarrow> bool \<Rightarrow> int \<times> tool_registry" where
  "tool_register_ex grow reg t replace =
     (case tool_index reg (t_name t) of
        Some i \<Rightarrow> if \<not> replace then (-1, reg) else (0, reg\<lparr>elems := (elems reg)[i := t]\<rparr>)
      | None \<Rightarrow> (case vec_push 8 grow t reg of None \<Rightarrow> (-1, reg) | Some reg' \<Rightarrow> (0, reg')))"

definition tool_register :: "bool \<Rightarrow> tool_registry \<Rightarrow> tool \<Rightarrow> int \<times> tool_registry" where
  "tool_register grow reg t = tool_register_ex grow reg t False"

definition tool_find :: "tool_registry \<Rightarrow> cstr \<Rightarrow> tool option" where
  "tool_find reg name = map_option (nth (elems reg)) (tool_index reg name)"

definition tool_unregister :: "tool_registry \<Rightarrow> cstr option \<Rightarrow> bool \<times> tool_registry" where
  "tool_unregister reg name =
     (case name of
        None \<Rightarrow> (False, reg)
      | Some n \<Rightarrow>
          (case tool_index reg n of
             None \<Rightarrow> (False, reg)
           | Some i \<Rightarrow> (True, reg\<lparr>elems := remove_at i (elems reg)\<rparr>)))"

definition tool_registry_count :: "tool_registry \<Rightarrow> nat" where
  "tool_registry_count reg = length (elems reg)"

definition tool_registry_get :: "tool_registry \<Rightarrow> nat \<Rightarrow> tool option" where
  "tool_registry_get reg i = (if i < length (elems reg) then Some (elems reg ! i) else None)"

text \<open>The built-in tools, in their order.\<close>

definition tool_register_builtins :: "bool \<Rightarrow> tool list \<Rightarrow> tool_registry \<Rightarrow> tool_registry" where
  "tool_register_builtins grow builtins reg = fold (\<lambda>t r. snd (tool_register grow r t)) builtins reg"

definition reg_ok :: "tool_registry \<Rightarrow> bool" where
  "reg_ok reg \<longleftrightarrow> distinct (map t_name (elems reg)) \<and> vec_ok reg"

lemma tool_find_map: "tool_find reg = map_of (map (\<lambda>t. (t_name t, t)) (elems reg))"
  by (simp add: fun_eq_iff map_of_named_find tool_find_def tool_index_def)

lemma tool_register_ex_spec:
  assumes o: "reg_ok reg" and r: "tool_register_ex grow reg t replace = (rc, reg')"
  shows "reg_ok reg' \<and> (if rc = 0 then tool_find reg' = (tool_find reg)(t_name t \<mapsto> t) else rc = -1 \<and> reg' = reg) \<and>
    (rc = -1 \<longleftrightarrow> (if tool_find reg (t_name t) \<noteq> None then \<not> replace else \<not> grow \<and> length (elems reg) = vcap reg))"
proof (cases "tool_index reg (t_name t)")
  case None
  then have i: "find_index (\<lambda>y. t_name y = t_name t) (elems reg) = None" by (simp add: tool_index_def)
  have n: "tool_find reg (t_name t) = None" using None by (simp add: tool_find_def)
  show ?thesis
  proof (cases "vec_push 8 grow t reg")
    case v: None
    with r None o n show ?thesis by (auto simp: tool_register_ex_def vec_push_None_iff)
  next
    case (Some q)
    note e = vec_push_elems [OF Some]
    have "t_name t \<notin> t_name ` set (elems reg)" using i by (auto simp: find_index_None_iff)
    moreover have "\<not> (\<not> grow \<and> length (elems reg) = vcap reg)" using Some vec_push_None_iff by (metis option.distinct(1))
    ultimately show ?thesis
      using r None o n Some e vec_ok_push [OF Some] map_of_named_snoc [OF i, of "\<lambda>t. t"]
      by (auto simp: tool_register_ex_def reg_ok_def tool_find_map)
  qed
next
  case (Some i)
  then have i: "i < length (elems reg)" "t_name (elems reg ! i) = t_name t"
    using find_index_SomeD by (fastforce simp: tool_index_def)+
  have "tool_find reg (t_name t) \<noteq> None" using Some by (simp add: tool_find_def)
  then show ?thesis
    using r Some o i map_of_named_update(1) [of t_name "elems reg" i t "\<lambda>t. t"] map_of_named_update(2) [of t_name "elems reg" i t]
    by (auto simp: tool_register_ex_def reg_ok_def tool_find_map vec_ok_def split: if_splits)
qed

lemma tool_unregister_spec:
  assumes o: "reg_ok reg" and r: "tool_unregister reg (Some n) = (f, reg')"
  shows "reg_ok reg' \<and> tool_find reg' = (tool_find reg)(n := None) \<and> (f \<longleftrightarrow> tool_find reg n \<noteq> None)"
proof (cases "tool_index reg n")
  case None
  with o r show ?thesis by (auto simp: tool_unregister_def tool_find_def fun_eq_iff)
next
  case (Some i)
  then have i: "i < length (elems reg)" "t_name (elems reg ! i) = n"
    using find_index_SomeD by (fastforce simp: tool_index_def)+
  from r Some have e: "reg' = reg\<lparr>elems := remove_at i (elems reg)\<rparr>" "f" by (simp_all add: tool_unregister_def)
  have d: "distinct (map fst (map (\<lambda>t. (t_name t, t)) (elems reg)))" using o by (simp add: reg_ok_def comp_def)
  have "tool_find reg n \<noteq> None" using Some by (simp add: tool_find_def)
  then show ?thesis
    using o i e map_of_remove_at [OF d, of i]
    by (auto simp: reg_ok_def tool_find_map map_remove_at distinct_remove_at vec_ok_def length_remove_at)
qed

section \<open>Validating arguments\<close>

text \<open>An integer is a number equal to itself cast to \<open>long long\<close>; the cast of a larger one gives no equal value.\<close>

definition json_type_matches :: "json \<Rightarrow> cstr option \<Rightarrow> bool" where
  "json_type_matches v type =
     (case type of
        None \<Rightarrow> True
      | Some ty \<Rightarrow>
          if ty = ''string'' then (case v of JStr _ \<Rightarrow> True | _ \<Rightarrow> False)
          else if ty = ''integer'' then (case v of JNum r \<Rightarrow> r = of_int \<lfloor>r\<rfloor> \<and> - (2 ^ 63) \<le> r \<and> r < 2 ^ 63 | _ \<Rightarrow> False)
          else if ty = ''number'' then (case v of JNum _ \<Rightarrow> True | _ \<Rightarrow> False)
          else if ty = ''boolean'' then (case v of JBool _ \<Rightarrow> True | _ \<Rightarrow> False)
          else if ty = ''object'' then (case v of JObj _ \<Rightarrow> True | _ \<Rightarrow> False)
          else if ty = ''array'' then (case v of JArr _ \<Rightarrow> True | _ \<Rightarrow> False)
          else if ty = ''null'' then v = JNull
          else True)"

definition valid_file_path :: "cstr \<Rightarrow> bool" where
  "valid_file_path path \<longleftrightarrow> path \<noteq> [] \<and> list_all (\<lambda>c. \<not> (byte c < 32 \<or> byte c = 127)) path"

text \<open>\<open>None\<close>: nothing missing. The key of an entry that is not a string is not required.\<close>

fun check_required :: "json list \<Rightarrow> json option \<Rightarrow> cstr option" where
  "check_required [] args = None"
| "check_required (JStr k # rs) args =
     (if json_get k args = None then Some (''missing required arg '' @ [CHR 0x27] @ k @ [CHR 0x27]) else check_required rs args)"
| "check_required (_ # rs) args = check_required rs args"

definition bad_path_message :: cstr where
  "bad_path_message = ''path must be a nonempty single-line filesystem path; pass other parameters as separate JSON keys, never inside path''"

fun check_props :: "json option \<Rightarrow> (cstr \<times> json) list \<Rightarrow> cstr option" where
  "check_props props [] = None"
| "check_props props ((k, child) # kvs) =
     (case json_get k props of
        None \<Rightarrow> check_props props kvs
      | Some pspec \<Rightarrow>
          let format = json_string (json_get ''format'' (Some pspec));
              tname = json_string (json_get ''type'' (Some pspec)) in
          if format = Some ''file-path'' \<and> (case child of JStr p \<Rightarrow> \<not> valid_file_path p | _ \<Rightarrow> False)
          then Some bad_path_message
          else if \<not> json_type_matches child tname
          then Some (''arg '' @ [CHR 0x27] @ k @ [CHR 0x27] @ '' expected type '' @ nonnull_or ''any'' tname)
          else check_props props kvs)"

fun json_members :: "json option \<Rightarrow> (cstr \<times> json) list" where
  "json_members (Some (JObj kvs)) = kvs"
| "json_members _ = []"

text \<open>\<open>None\<close>: the arguments are accepted.\<close>

definition tool_validate_args :: "(cstr \<Rightarrow> json option) \<Rightarrow> tool \<Rightarrow> cstr option \<Rightarrow> cstr option" where
  "tool_validate_args parse t args_json =
     (let text = nonnull_or [] (t_schema t) in
      if text = [] then None
      else case parse text of
             None \<Rightarrow> None
           | Some schema \<Rightarrow>
               let stype = json_string (json_get ''type'' (Some schema)) in
               if stype \<noteq> None \<and> stype \<noteq> Some ''object'' then None
               else let args = parse (nonempty_or ''{}'' args_json) in
                 if \<not> json_is_object args then Some ''args is not a JSON object''
                 else case check_required (json_items (json_get ''required'' (Some schema))) args of
                        Some e \<Rightarrow> Some e
                      | None \<Rightarrow>
                          (let props = json_get ''properties'' (Some schema) in
                           if json_is_object props then check_props props (json_members args) else None))"

lemma check_required_None:
  "check_required rs args = None \<longleftrightarrow> (\<forall>k. JStr k \<in> set rs \<longrightarrow> json_get k args \<noteq> None)"
  by (induction rs args rule: check_required.induct) auto

definition prop_ok :: "json option \<Rightarrow> cstr \<Rightarrow> json \<Rightarrow> bool" where
  "prop_ok props k v \<longleftrightarrow>
     (case json_get k props of
        None \<Rightarrow> True
      | Some spec \<Rightarrow> json_type_matches v (json_string (json_get ''type'' (Some spec))) \<and>
          \<not> (json_string (json_get ''format'' (Some spec)) = Some ''file-path'' \<and> (\<exists>p. v = JStr p \<and> \<not> valid_file_path p)))"

lemma check_props_None: "check_props props kvs = None \<longleftrightarrow> (\<forall>(k, v) \<in> set kvs. prop_ok props k v)"
proof (induction kvs)
  case (Cons kv kvs)
  obtain k v where kv: "kv = (k, v)" by (cases kv)
  have e: "(case v of JStr p \<Rightarrow> \<not> valid_file_path p | _ \<Rightarrow> False) \<longleftrightarrow> (\<exists>p. v = JStr p \<and> \<not> valid_file_path p)"
    by (cases v) auto
  show ?case
    using Cons by (auto simp: kv prop_ok_def Let_def e split: option.splits)
qed simp

section \<open>Executing a tool\<close>

record tool_env =
  e_parse :: "cstr \<Rightarrow> json option"
  e_print :: "json \<Rightarrow> cstr"
  e_now_us :: int
  e_absolute :: "cstr \<Rightarrow> cstr option"
  e_passwords :: "cstr list"

record tool_ctx =
  c_policy :: "policy_engine option"
  c_workspace :: "cstr option"

text \<open>What a call changes: the files, the sequence number of saved results, the metrics and the bus, when the context has
them (the events published, oldest first).\<close>

record world =
  w_fs :: fsys
  w_seq :: nat
  w_metrics :: "metrics option"
  w_bus :: "json list option"

fun preview_cut :: "cstr \<Rightarrow> nat \<Rightarrow> nat" where
  "preview_cut s 0 = 0"
| "preview_cut s (Suc n) = (if Suc n < length s \<and> byte (s ! Suc n) AND 0xC0 = 0x80 then preview_cut s n else Suc n)"

definition save_failed_tail :: "nat \<Rightarrow> cstr" where
  "save_failed_tail n =
     cbuf 96 ([CHR 0x0A] @ ''...[truncated, '' @ map char_of [0xE5 :: nat, 0x85, 0xA8, 0xE9, 0x95, 0xBF] @ '' '' @ nat_str n @ '' ''
       @ map char_of [0xE5 :: nat, 0xAD, 0x97, 0xE7, 0xAC, 0xA6] @ ''; full result save failed]'')"

definition result_meta :: "cstr \<Rightarrow> nat \<Rightarrow> json" where
  "result_meta path n =
     JObj [(''path'', JStr path), (''bytes'', JNum (of_nat n)), (''offset_bytes'', JNum 0), (''max_bytes'', JNum 4000)]"

definition saved_message :: "cstr \<Rightarrow> cstr \<Rightarrow> cstr" where
  "saved_message json safe =
     ''[full tool result saved] Read the complete content with file_read using these arguments, then follow next_offset_bytes until end of file. Do not reopen the browser to retrieve the same text.''
     @ [CHR 0x0A] @ json @ [CHR 0x0A] @ ''Preview (not the whole result):'' @ [CHR 0x0A]
     @ take (preview_cut safe (if length safe < 800 then length safe else 800)) safe"

text \<open>\<open>None\<close>: the output is within the limit.\<close>

definition truncate_output ::
  "tool_env \<Rightarrow> cstr \<Rightarrow> nat \<Rightarrow> cstr option \<Rightarrow> fsys \<Rightarrow> nat \<Rightarrow> cstr option \<times> fsys \<times> nat" where
  "truncate_output env out limit workspace fs seq =
     (let n = length out; failed = Some (take limit out @ save_failed_tail n) in
      if n \<le> limit then (None, fs, seq)
      else if nonnull_or [] workspace = [] then (failed, fs, seq)
      else let dir = path_join 2048 workspace (Some ''.tool-results'') in
        case fs_mkdirs dir fs of (rc, fs1) \<Rightarrow>
          if rc \<noteq> 0 then (failed, fs1, seq)
          else let leaf = cbuf 96 (int_str (e_now_us env) @ ''-'' @ nat_str seq @ ''.txt'');
                   file = path_join 2048 (Some dir) (Some leaf) in
            case secret_redact_ssh_passwords True (e_passwords env) out None of
              None \<Rightarrow> (failed, fs1, seq + 1)
            | Some safe \<Rightarrow>
                (case fs_write_file file safe fs1 of (wc, fs2) \<Rightarrow>
                   if wc \<noteq> 0 then (failed, fs2, seq + 1)
                   else (Some (saved_message (e_print env (result_meta (nonnull_or file (e_absolute env file)) (length safe))) safe),
                         fs2, seq + 1)))"

definition last_bytes :: "nat \<Rightarrow> cstr \<Rightarrow> cstr" where
  "last_bytes n s = (if n < length s then drop (length s - n) s else s)"

definition tool_event :: "cstr \<Rightarrow> tool_result \<Rightarrow> json" where
  "tool_event name r = JObj [(''tool'', JStr name), (''ok'', JBool (ok r)), (''output'', JStr (last_bytes 300 (t_output r)))]"

definition policy_denied :: "tool_ctx \<Rightarrow> cstr \<Rightarrow> cstr option \<Rightarrow> cstr option" where
  "policy_denied ctx name args =
     (case c_policy ctx of
        None \<Rightarrow> None
      | Some pe \<Rightarrow> (case policy_check pe name args of (d, reason) \<Rightarrow>
          if d \<noteq> POLICY_ALLOW then Some (cbuf 512 (''denied by policy ('' @ reason @ ''): '' @ name)) else None))"

text \<open>The call itself and the cap on its output.\<close>

definition run_capped :: "tool_env \<Rightarrow> tool \<Rightarrow> cstr option \<Rightarrow> tool_ctx \<Rightarrow> world \<Rightarrow> tool_result \<times> world" where
  "run_capped env t args ctx w =
     (case execute t args (w_fs w) of (res, fs1) \<Rightarrow>
        let r = (case res of Some r \<Rightarrow> r | None \<Rightarrow> \<lparr>ok = False, t_output = ''tool returned NULL''\<rparr>) in
        case truncate_output env (t_output r) 6000 (c_workspace ctx) fs1 (w_seq w) of
          (None, fs2, sq) \<Rightarrow> (r, w\<lparr>w_fs := fs2, w_seq := sq\<rparr>)
        | (Some capped, fs2, sq) \<Rightarrow>
            (\<lparr>ok = (ok r \<and> \<not> str_contains ''full result save failed'' capped), t_output = capped\<rparr>, w\<lparr>w_fs := fs2, w_seq := sq\<rparr>))"

definition tool_execute :: "tool_env \<Rightarrow> tool_registry \<Rightarrow> cstr \<Rightarrow> cstr option \<Rightarrow> tool_ctx \<Rightarrow> world \<Rightarrow> tool_result \<times> world" where
  "tool_execute env reg name args ctx w =
     (case tool_find reg name of
        None \<Rightarrow> (\<lparr>ok = False, t_output = cbuf 256 (''unknown tool: '' @ name)\<rparr>, w)
      | Some t \<Rightarrow>
          case tool_validate_args (e_parse env) t args of
            Some e \<Rightarrow> (\<lparr>ok = False, t_output = cbuf 512 (''args schema mismatch: '' @ e)\<rparr>, w)
          | None \<Rightarrow>
              case policy_denied ctx name args of
                Some msg \<Rightarrow>
                  (\<lparr>ok = False, t_output = msg\<rparr>, w\<lparr>w_metrics := map_option (\<lambda>m. metrics_inc m ''tools.denied'') (w_metrics w)\<rparr>)
              | None \<Rightarrow>
                  (case run_capped env t args ctx w of (r, w1) \<Rightarrow>
                     (r, w1\<lparr>w_metrics := map_option (\<lambda>m. metrics_inc (metrics_inc m ''tools.executed'') (cbuf 128 (''tools.'' @ name))) (w_metrics w1),
                            w_bus := map_option (\<lambda>evs. evs @ [tool_event name r]) (w_bus w1)\<rparr>)))"

section \<open>Properties\<close>

definition tool_permitted :: "tool_env \<Rightarrow> tool_registry \<Rightarrow> cstr \<Rightarrow> cstr option \<Rightarrow> tool_ctx \<Rightarrow> bool" where
  "tool_permitted env reg name args ctx \<longleftrightarrow>
     (case tool_find reg name of None \<Rightarrow> False | Some t \<Rightarrow> tool_validate_args (e_parse env) t args = None) \<and>
     (case c_policy ctx of None \<Rightarrow> True | Some pe \<Rightarrow> fst (policy_check pe name args) = POLICY_ALLOW)"

lemma policy_denied_None:
  "policy_denied ctx name args = None \<longleftrightarrow>
     (case c_policy ctx of None \<Rightarrow> True | Some pe \<Rightarrow> fst (policy_check pe name args) = POLICY_ALLOW)"
  by (simp add: policy_denied_def split: option.split prod.split)

text \<open>C38: a tool runs, and can change a file, only when it is registered under the name, its arguments
satisfy its schema and the policy allows the call; otherwise the answer is a failure and files and bus are untouched.\<close>

theorem tool_execute_gated:
  "if tool_permitted env reg name args ctx
   then \<exists>t. tool_find reg name = Some t \<and> fst (tool_execute env reg name args ctx w) = fst (run_capped env t args ctx w) \<and>
     w_fs (snd (tool_execute env reg name args ctx w)) = w_fs (snd (run_capped env t args ctx w))
   else \<not> ok (fst (tool_execute env reg name args ctx w)) \<and> w_fs (snd (tool_execute env reg name args ctx w)) = w_fs w \<and>
     w_bus (snd (tool_execute env reg name args ctx w)) = w_bus w"
proof (cases "tool_find reg name")
  case None
  then show ?thesis by (simp add: tool_permitted_def tool_execute_def)
next
  case (Some t)
  show ?thesis
  proof (cases "tool_validate_args (e_parse env) t args")
    case v: None
    show ?thesis
    proof (cases "policy_denied ctx name args")
      case None
      then have "tool_permitted env reg name args ctx" using Some v by (simp add: tool_permitted_def policy_denied_None)
      with Some v None show ?thesis by (simp add: tool_execute_def split: prod.split)
    next
      case (Some m)
      then have "\<not> tool_permitted env reg name args ctx" by (metis policy_denied_None tool_permitted_def option.distinct(1))
      with Some v \<open>tool_find reg name = _\<close> show ?thesis by (simp add: tool_execute_def)
    qed
  next
    case (Some e)
    then show ?thesis using \<open>tool_find reg name = _\<close> by (simp add: tool_permitted_def tool_execute_def)
  qed
qed

text \<open>With an object schema the validator accepts exactly the argument objects that have every
required key and whose declared properties have the declared type and, where the schema asks for a file path, are
a nonempty line without control characters.\<close>

theorem tool_validate_args_spec:
  assumes "t_schema t = Some txt" "txt \<noteq> []" "parse txt = Some schema"
    and "json_string (json_get ''type'' (Some schema)) = Some ''object''" "parse (nonempty_or ''{}'' args) = Some (JObj kvs)"
  shows "tool_validate_args parse t args = None \<longleftrightarrow>
    (\<forall>k. JStr k \<in> set (json_items (json_get ''required'' (Some schema))) \<longrightarrow> k \<in> fst ` set kvs) \<and>
    (json_is_object (json_get ''properties'' (Some schema)) \<longrightarrow>
       (\<forall>(k, v) \<in> set kvs. prop_ok (json_get ''properties'' (Some schema)) k v))"
proof -
  have m: "json_get k (Some (JObj kvs)) \<noteq> None \<longleftrightarrow> k \<in> fst ` set kvs" for k
    by (simp add: map_of_eq_None_iff)
  show ?thesis
    using assms check_required_None [of "json_items (json_get ''required'' (Some schema))" "Some (JObj kvs)"]
      check_props_None [of "json_get ''properties'' (Some schema)" kvs]
    unfolding m
    by (cases "check_required (json_items (json_get ''required'' (Some schema))) (Some (JObj kvs))")
      (simp_all add: tool_validate_args_def nonnull_or_def Let_def del: check_required.simps check_props.simps)
qed

definition demo_schema :: json where
  "demo_schema = JObj [(''type'', JStr ''object''), (''required'', JArr [JStr ''path'']),
     (''properties'', JObj [(''path'', JObj [(''type'', JStr ''string''), (''format'', JStr ''file-path'')])])]"

definition demo_tool :: tool where
  "demo_tool = \<lparr>t_name = ''file_write'', t_description = [], t_schema = Some ''S'', is_write = True,
     execute = (\<lambda>_ fs. (Some \<lparr>ok = True, t_output = ''done''\<rparr>, fs))\<rparr>"

definition demo_parse :: "cstr \<Rightarrow> json option" where
  "demo_parse s = (if s = ''S'' then Some demo_schema else Some (JObj [(''path'', JStr ''a.txt'')]))"

theorem tool_validate_args_spec_witness:
  "tool_validate_args demo_parse demo_tool (Some ''A'') = None"
proof -
  have 1: "t_schema demo_tool = Some ''S''" "demo_parse ''S'' = Some demo_schema"
    "json_string (json_get ''type'' (Some demo_schema)) = Some ''object''"
    "demo_parse (nonempty_or ''{}'' (Some ''A'')) = Some (JObj [(''path'', JStr ''a.txt'')])"
    by (simp_all add: demo_tool_def demo_parse_def demo_schema_def nonempty_or_def)
  have "valid_file_path ''a.txt''" by (simp add: valid_file_path_def byte_def)
  with tool_validate_args_spec [OF 1(1) _ 1(2-4)] show ?thesis
    by (simp add: demo_schema_def prop_ok_def json_type_matches_def)
qed

lemma save_failed_phrase: "n < 2 ^ 64 \<Longrightarrow> str_contains ''full result save failed'' (s @ save_failed_tail n)"
proof -
  assume "n < 2 ^ 64"
  then have "length (nat_str n) \<le> Suc 19" by (intro length_nat_str) simp
  then have "save_failed_tail n = ([CHR 0x0A] @ ''...[truncated, '' @ map char_of [0xE5 :: nat, 0x85, 0xA8, 0xE9, 0x95, 0xBF] @ '' '' @ nat_str n @ '' ''
       @ map char_of [0xE5 :: nat, 0xAD, 0x97, 0xE7, 0xAC, 0xA6] @ ''; '') @ ''full result save failed'' @ '']''"
    unfolding save_failed_tail_def by (subst cbuf_id) simp_all
  then show ?thesis unfolding str_contains_iff by (metis append.assoc)
qed

text \<open>C39: a successful call returns either the tool's own output, when it is within the limit, or a
notice for an output whose full text, with the known SSH passwords redacted, stands in a file; an output that could
not be saved makes the call a failure.\<close>

theorem tool_output_not_lost:
  assumes "execute t args (w_fs w) = (Some r0, fs1)" "length (t_output r0) < 2 ^ 64"
    and "run_capped env t args ctx w = (r, w')" "ok r"
  shows "if length (t_output r0) \<le> 6000 then r = r0 \<and> w_fs w' = fs1
    else \<exists>file safe. secret_redact_ssh_passwords True (e_passwords env) (t_output r0) None = Some safe \<and>
      (\<exists>m. fs_get (w_fs w') file = Some (File safe m))"
proof (cases "length (t_output r0) \<le> 6000")
  case True
  with assms show ?thesis by (auto simp: run_capped_def truncate_output_def)
next
  case False
  obtain c fs2 sq where t: "truncate_output env (t_output r0) 6000 (c_workspace ctx) fs1 (w_seq w) = (c, fs2, sq)"
    by (metis prod_cases3)
  have nf: "c \<noteq> Some (take 6000 (t_output r0) @ save_failed_tail (length (t_output r0)))"
    using assms t save_failed_phrase [OF assms(2), of "take 6000 (t_output r0)"] by (auto simp: run_capped_def)
  obtain rc fs3 where md: "fs_mkdirs (path_join 2048 (c_workspace ctx) (Some ''.tool-results'')) fs1 = (rc, fs3)" by fastforce
  let ?file = "path_join 2048 (Some (path_join 2048 (c_workspace ctx) (Some ''.tool-results'')))
      (Some (cbuf 96 (int_str (e_now_us env) @ ''-'' @ nat_str (w_seq w) @ ''.txt'')))"
  from t nf False md obtain safe where s: "secret_redact_ssh_passwords True (e_passwords env) (t_output r0) None = Some safe"
    "fs_write_file ?file safe fs3 = (0, fs2)"
    by (auto simp: truncate_output_def Let_def split: if_splits option.splits prod.splits)
  have "\<exists>m. fs_get fs2 ?file = Some (File safe m)"
    using s(2) by (auto simp: fs_write_file_def split: if_splits option.splits node.splits)
  moreover have "w_fs w' = fs2" using assms(1,3) t by (auto simp: run_capped_def split: option.splits)
  ultimately show ?thesis using False s(1) by auto
qed

definition demo_env :: tool_env where
  "demo_env = \<lparr>e_parse = demo_parse, e_print = (\<lambda>_. ''{}''), e_now_us = 5, e_absolute = (\<lambda>_. None), e_passwords = []\<rparr>"

definition demo_world :: world where
  "demo_world = \<lparr>w_fs = \<lparr>nodes = [], denied = []\<rparr>, w_seq = 0, w_metrics = None, w_bus = None\<rparr>"

theorem tool_output_not_lost_witness:
  "fst (run_capped demo_env demo_tool None \<lparr>c_policy = None, c_workspace = None\<rparr> demo_world) = \<lparr>ok = True, t_output = ''done''\<rparr>"
proof -
  obtain r w' where r: "run_capped demo_env demo_tool None \<lparr>c_policy = None, c_workspace = None\<rparr> demo_world = (r, w')" by fastforce
  then have o: "ok r" by (auto simp: run_capped_def demo_tool_def truncate_output_def)
  have "execute demo_tool None (w_fs demo_world) = (Some \<lparr>ok = True, t_output = ''done''\<rparr>, w_fs demo_world)"
    by (simp add: demo_tool_def)
  from tool_output_not_lost [OF this _ r o] show ?thesis by (simp add: r)
qed

end
