(* ===== verification/Snapshot.thy ===== *)
theory Snapshot
  imports Fs Json
begin

text \<open>
  The block store of \<open>src/backend/src/snapshot/cow.c\<close> and the snapshot engine of
  \<open>src/backend/src/snapshot/snapshot.c\<close>: capturing files before they are modified, committing the captures under a
  fresh id with a manifest on disk, reading the manifests back, and restoring. Blocks and manifests are files of
  the same file system as the captured files. \<open>print\<close> and \<open>parse\<close> are the JSON printer and parser; \<open>clock k\<close> is the
  time read in the \<open>k\<close>-th attempt at an id. The reallocations of the two arrays are taken to succeed (the code
  does not test them).
\<close>

section \<open>The block store\<close>

definition cow_open :: "cstr \<Rightarrow> fsys \<Rightarrow> cstr option \<times> fsys" where
  "cow_open dir fs =
     (let d = cbuf 1024 dir in
      case fs_mkdirs d fs of (rc, fs') \<Rightarrow> if rc \<noteq> 0 then (None, fs') else (Some d, fs'))"

definition block_path :: "cstr \<Rightarrow> cstr \<Rightarrow> cstr" where
  "block_path c hash = path_join 1100 (Some c) (Some hash)"

definition cow_put :: "cstr \<Rightarrow> cstr \<Rightarrow> fsys \<Rightarrow> cstr option \<times> fsys" where
  "cow_put c data fs =
     (let hash = hash_hex (hash64 data); path = block_path c hash in
      if \<not> fs_exists fs path then
        case fs_write_file path data fs of (rc, fs') \<Rightarrow> if rc \<noteq> 0 then (None, fs') else (Some hash, fs')
      else (Some hash, fs))"

definition cow_get :: "cstr \<Rightarrow> cstr \<Rightarrow> fsys \<Rightarrow> cstr option" where
  "cow_get c hash fs = map_option c_string (fs_read_file fs (block_path c hash))"

section \<open>Snapshots\<close>

record captured =
  cap_path :: cstr
  cap_hash :: cstr
  existed :: bool
  skipped :: bool

record snapshot_entry =
  se_id :: cstr
  se_created :: cstr
  se_files :: "captured list"

record snapshot =
  sn_root :: cstr
  sn_cow :: cstr
  max_file :: int
  pending :: "captured list"
  committed :: "snapshot_entry list"
  last_id :: cstr

definition SNAPSHOT_DEFAULT_MAX_FILE :: int where
  "SNAPSHOT_DEFAULT_MAX_FILE = 64 * 1024 * 1024"

definition snapshot_set_max_file :: "snapshot \<Rightarrow> int \<Rightarrow> snapshot" where
  "snapshot_set_max_file s bytes = (if bytes < 0 then s else s\<lparr>max_file := bytes\<rparr>)"

definition snapshot_get_max_file :: "snapshot \<Rightarrow> int" where
  "snapshot_get_max_file s = max_file s"

definition snapshot_capture :: "snapshot \<Rightarrow> cstr \<Rightarrow> fsys \<Rightarrow> snapshot \<times> fsys" where
  "snapshot_capture s path fs =
     (let cap = \<lparr>cap_path = path, cap_hash = [], existed = fs_exists fs path, skipped = False\<rparr>;
          (cap', fs') =
            (if existed cap \<and> fs_is_dir fs path then (cap\<lparr>skipped := True\<rparr>, fs)
             else if existed cap then
               if 0 < max_file s \<and> max_file s < fs_file_size fs path then (cap\<lparr>skipped := True\<rparr>, fs)
               else case fs_read_file fs path of
                      None \<Rightarrow> (cap, fs)
                    | Some content \<Rightarrow>
                        (case cow_put (sn_cow s) (c_string content) fs of
                           (Some h, fs') \<Rightarrow> (cap\<lparr>cap_hash := cbuf 17 h\<rparr>, fs')
                         | (None, fs') \<Rightarrow> (cap, fs'))
             else (cap, fs))
      in (s\<lparr>pending := pending s @ [cap']\<rparr>, fs'))"

subsection \<open>Committing\<close>

partial_function (option) commit_id :: "(nat \<Rightarrow> int) \<Rightarrow> cstr list \<Rightarrow> nat \<Rightarrow> cstr option" where
  [code]: "commit_id clock ids k =
     (let i = cbuf 32 (if k = 0 then CHR ''s'' # int_str (clock k) else CHR ''s'' # int_str (clock k) @ ''-'' @ nat_str k) in
      if i \<in> set ids then commit_id clock ids (Suc k) else Some i)"

definition captured_json :: "captured \<Rightarrow> json" where
  "captured_json c =
     JObj ([(''path'', JStr (cap_path c)), (''hash'', JStr (cap_hash c)), (''existed'', JBool (existed c))]
       @ (if skipped c then [(''skipped'', JBool True)] else []))"

definition manifest_json :: "cstr \<Rightarrow> cstr \<Rightarrow> captured list \<Rightarrow> json" where
  "manifest_json i created files =
     JObj [(''id'', JStr i), (''created'', JStr created), (''files'', JArr (map captured_json files))]"

text \<open>\<open>None\<close> in the first component: nothing was pending. \<open>None\<close> as a whole would be an id loop that never ends.\<close>

definition snapshot_commit ::
  "(json \<Rightarrow> cstr) \<Rightarrow> (nat \<Rightarrow> int) \<Rightarrow> cstr \<Rightarrow> snapshot \<Rightarrow> fsys \<Rightarrow> (cstr option \<times> snapshot \<times> fsys) option" where
  "snapshot_commit print clock now_iso s fs =
     (if pending s = [] then Some (None, s, fs)
      else case commit_id clock (map se_id (committed s)) 0 of
             None \<Rightarrow> None
           | Some i \<Rightarrow>
               (let created = cbuf 40 now_iso;
                    text = print (manifest_json i created (pending s));
                    fname = cbuf 64 (i @ ''.json'');
                    dir = path_join 700 (Some (sn_root s)) (Some ''snapshots'');
                    (_, fs1) = fs_mkdirs dir fs;
                    (_, fs2) = fs_write_file (path_join 700 (Some dir) (Some fname)) text fs1;
                    e = \<lparr>se_id = cbuf 32 i, se_created = cbuf 40 created, se_files = pending s\<rparr>
                in Some (Some (cbuf 32 i),
                         s\<lparr>pending := [], committed := committed s @ [e], last_id := cbuf 32 i\<rparr>, fs2)))"

definition snapshot_abort :: "snapshot \<Rightarrow> snapshot" where
  "snapshot_abort s = s\<lparr>pending := []\<rparr>"

definition snapshot_list :: "snapshot \<Rightarrow> json" where
  "snapshot_list s =
     JArr (map (\<lambda>e. JObj [(''id'', JStr (se_id e)), (''created'', JStr (se_created e)),
                          (''files'', JNum (of_nat (length (se_files e)))),
                          (''paths'', JArr (map (JStr \<circ> cap_path) (se_files e)))]) (committed s))"

subsection \<open>Reading the manifests back\<close>

fun json_is_true :: "json option \<Rightarrow> bool" where
  "json_is_true (Some (JBool b)) = b"
| "json_is_true _ = False"

definition manifest_file :: "json \<Rightarrow> captured" where
  "manifest_file it =
     \<lparr>cap_path = nonnull_or [] (json_string (json_get ''path'' (Some it))),
      cap_hash = cbuf 17 (nonnull_or [] (json_string (json_get ''hash'' (Some it)))),
      existed = (case json_get ''existed'' (Some it) of None \<Rightarrow> True | ex \<Rightarrow> json_is_true ex),
      skipped = (case json_get ''skipped'' (Some it) of None \<Rightarrow> False | sk \<Rightarrow> json_is_true sk)\<rparr>"

definition snapshot_restore_from_manifest :: "(cstr \<Rightarrow> json option) \<Rightarrow> snapshot \<Rightarrow> cstr \<Rightarrow> cstr \<Rightarrow> int \<times> snapshot" where
  "snapshot_restore_from_manifest parse s text fname =
     (let root = parse text in
      if \<not> json_is_object root then (-1, s)
      else let e = \<lparr>se_id = cbuf 32 (take (length fname - 5) fname),
                    se_created = cbuf 40 (nonnull_or [] (json_string (json_get ''created'' root))),
                    se_files = map manifest_file (json_items (json_get ''files'' root))\<rparr>
           in (0, s\<lparr>committed := committed s @ [e]\<rparr>))"

fun load_manifests :: "(cstr \<Rightarrow> json option) \<Rightarrow> fsys \<Rightarrow> cstr \<Rightarrow> (cstr \<times> bool) list \<Rightarrow> snapshot \<Rightarrow> snapshot" where
  "load_manifests parse fs dir [] s = s"
| "load_manifests parse fs dir ((name, is_dir) # es) s =
     load_manifests parse fs dir es
       (if is_dir \<or> length name < 5 \<or> drop (length name - 5) name \<noteq> ''.json'' then s
        else case fs_read_file fs (path_join 700 (Some dir) (Some name)) of
               None \<Rightarrow> s
             | Some text \<Rightarrow> snd (snapshot_restore_from_manifest parse s (c_string text) name))"

text \<open>\<open>env\<close>: the value of \<open>COA_SNAPSHOT_MAX_FILE\<close> as \<open>atoll\<close> reads it, when it is set and not empty.\<close>

definition snapshot_open :: "(cstr \<Rightarrow> json option) \<Rightarrow> int option \<Rightarrow> cstr \<Rightarrow> fsys \<Rightarrow> snapshot option \<times> fsys" where
  "snapshot_open parse env state_root fs =
     (let mf = (case env of Some v \<Rightarrow> if 0 \<le> v then v else SNAPSHOT_DEFAULT_MAX_FILE | None \<Rightarrow> SNAPSHOT_DEFAULT_MAX_FILE) in
      case cow_open (path_join 600 (Some state_root) (Some ''snapshots/blocks'')) fs of
        (None, fs') \<Rightarrow> (None, fs')
      | (Some c, fs') \<Rightarrow>
          (let s = \<lparr>sn_root = cbuf 512 state_root, sn_cow = c, max_file = mf, pending = [], committed = [], last_id = []\<rparr>;
               dir = path_join 600 (Some state_root) (Some ''snapshots'')
           in (Some (case fs_list_dir fs' dir of None \<Rightarrow> s | Some es \<Rightarrow> load_manifests parse fs' dir es s), fs')))"

subsection \<open>Restoring\<close>

definition restore_file :: "cstr \<Rightarrow> captured \<Rightarrow> fsys \<Rightarrow> fsys" where
  "restore_file c cap fs =
     (if existed cap \<and> skipped cap then fs
      else if existed cap \<and> cap_hash cap \<noteq> [] then
        (case cow_get c (cap_hash cap) fs of None \<Rightarrow> fs | Some blob \<Rightarrow> snd (fs_write_file (cap_path cap) blob fs))
      else snd (fs_remove (cap_path cap) fs))"

definition restore_entry :: "cstr \<Rightarrow> captured list \<Rightarrow> fsys \<Rightarrow> fsys" where
  "restore_entry c files fs = fold (restore_file c) files fs"

definition snapshot_restore_latest :: "snapshot \<Rightarrow> fsys \<Rightarrow> int \<times> fsys" where
  "snapshot_restore_latest s fs =
     (if committed s = [] then (-1, fs) else (0, restore_entry (sn_cow s) (se_files (last (committed s))) fs))"

definition find_entry :: "snapshot \<Rightarrow> cstr \<Rightarrow> snapshot_entry option" where
  "find_entry s i = find (\<lambda>e. se_id e = i) (committed s)"

definition snapshot_restore :: "snapshot \<Rightarrow> cstr \<Rightarrow> fsys \<Rightarrow> int \<times> fsys" where
  "snapshot_restore s i fs =
     (case find_entry s i of None \<Rightarrow> (-1, fs) | Some e \<Rightarrow> (0, restore_entry (sn_cow s) (se_files e) fs))"

definition path_restorable :: "captured list \<Rightarrow> cstr option \<Rightarrow> bool" where
  "path_restorable files p =
     (case p of None \<Rightarrow> False
      | Some q \<Rightarrow> q \<noteq> [] \<and>
          (case find (\<lambda>c. cap_path c = q) files of None \<Rightarrow> False | Some c \<Rightarrow> \<not> (existed c \<and> skipped c)))"

fun restore_paths :: "cstr \<Rightarrow> captured list \<Rightarrow> cstr option list \<Rightarrow> int \<Rightarrow> fsys \<Rightarrow> int \<times> fsys" where
  "restore_paths c files [] n fs = (n, fs)"
| "restore_paths c files (p # ps) n fs =
     (case find (\<lambda>cap. Some (cap_path cap) = p) files of
        None \<Rightarrow> restore_paths c files ps n fs
      | Some cap \<Rightarrow>
          if existed cap \<and> cap_hash cap \<noteq> [] then
            (case cow_get c (cap_hash cap) fs of
               None \<Rightarrow> (-1, fs)
             | Some blob \<Rightarrow>
                 (case fs_write_file (cap_path cap) blob fs of
                    (rc, fs') \<Rightarrow> if rc \<noteq> 0 then (-1, fs') else restore_paths c files ps (n + 1) fs'))
          else
            (case fs_remove (cap_path cap) fs of
               (rc, fs') \<Rightarrow> if rc \<noteq> 0 then (-1, fs') else restore_paths c files ps (n + 1) fs'))"

definition snapshot_restore_files :: "snapshot \<Rightarrow> cstr option \<Rightarrow> cstr option list \<Rightarrow> fsys \<Rightarrow> int \<times> fsys" where
  "snapshot_restore_files s i paths fs =
     (if paths = [] then (-1, fs)
      else case (if nonnull_or [] i \<noteq> [] then find_entry s (nonnull_or [] i)
                 else if committed s = [] then None else Some (last (committed s))) of
             None \<Rightarrow> (-1, fs)
           | Some e \<Rightarrow>
               if list_all (path_restorable (se_files e)) paths
               then restore_paths (sn_cow s) (se_files e) paths 0 fs
               else (-1, fs))"

definition snapshot_restore_pending :: "snapshot \<Rightarrow> fsys \<Rightarrow> int \<times> snapshot \<times> fsys" where
  "snapshot_restore_pending s fs = (0, snapshot_abort s, restore_entry (sn_cow s) (pending s) fs)"

section \<open>Capture and restore\<close>

primrec capture_all :: "cstr list \<Rightarrow> snapshot \<Rightarrow> fsys \<Rightarrow> snapshot \<times> fsys" where
  "capture_all [] s fs = (s, fs)"
| "capture_all (p # ps) s fs = (case snapshot_capture s p fs of (s', fs') \<Rightarrow> capture_all ps s' fs')"

text \<open>The bytes of a file, whatever its mode.\<close>

definition fs_content :: "fsys \<Rightarrow> cstr \<Rightarrow> cstr option" where
  "fs_content fs p = (case fs_get fs p of Some (File b _) \<Rightarrow> Some b | _ \<Rightarrow> None)"

definition block_of :: "cstr \<Rightarrow> cstr \<Rightarrow> cstr" where
  "block_of c b = block_path c (hash_hex (hash64 b))"

definition is_block :: "cstr \<Rightarrow> cstr \<Rightarrow> bool" where
  "is_block c p \<longleftrightarrow> (\<exists>b. p = block_of c b)"

definition contents :: "fsys \<Rightarrow> cstr list \<Rightarrow> cstr set" where
  "contents fs ps = {b. \<exists>p \<in> set ps. fs_content fs p = Some b}"

text \<open>What the engine can take: text files within the size limit, absent files, and directories, which it skips.\<close>

fun takeable :: "int \<Rightarrow> node option \<Rightarrow> bool" where
  "takeable m (Some (File b r)) = (r \<and> CHR 0x00 \<notin> set b \<and> (m \<le> 0 \<or> int (length b) \<le> m))"
| "takeable m _ = True"

definition blocks_ready :: "cstr \<Rightarrow> cstr set \<Rightarrow> fsys \<Rightarrow> bool" where
  "blocks_ready c B fs \<longleftrightarrow> length c < 1024 \<and> inj_on hash64 B \<and>
     (\<forall>b \<in> B. block_of c b \<notin> set (denied fs) \<and> fs_get fs (block_of c b) \<in> {None, Some (File b True)})"

definition capturable :: "snapshot \<Rightarrow> fsys \<Rightarrow> cstr list \<Rightarrow> bool" where
  "capturable s fs ps \<longleftrightarrow>
     (\<forall>p \<in> set ps. \<not> is_block (sn_cow s) p \<and> takeable (max_file s) (fs_get fs p)) \<and>
     blocks_ready (sn_cow s) (contents fs ps) fs"

text \<open>A capture that describes its file as it was in \<open>fs0\<close>, with the block at hand in \<open>fs\<close>.\<close>

definition truthful :: "fsys \<Rightarrow> cstr \<Rightarrow> fsys \<Rightarrow> captured \<Rightarrow> bool" where
  "truthful fs0 c fs cap \<longleftrightarrow>
     (case fs_get fs0 (cap_path cap) of
        None \<Rightarrow> \<not> existed cap
      | Some (Dir _) \<Rightarrow> existed cap \<and> skipped cap
      | Some (File b _) \<Rightarrow> existed cap \<and> \<not> skipped cap \<and> cap_hash cap = hash_hex (hash64 b) \<and> CHR 0x00 \<notin> set b \<and>
          fs_get fs (block_of c b) = Some (File b True))"

lemma block_path_inj:
  assumes "length c < 1024" "length g = 16" "length h = 16"
  shows "block_path c g = block_path c h \<longleftrightarrow> g = h"
  using assms by (auto simp: block_path_def path_join_def nonnull_or_def cbuf_def Let_def)

lemma block_of_inj:
  "blocks_ready c B fs \<Longrightarrow> b \<in> B \<Longrightarrow> b' \<in> B \<Longrightarrow> block_of c b = block_of c b' \<longleftrightarrow> b = b'"
  by (auto simp: blocks_ready_def block_of_def block_path_inj hash_hex_inj dest: inj_onD)

lemma is_block_of [simp]: "is_block c (block_of c b)"
  by (auto simp: is_block_def)

lemma cow_put_spec:
  assumes r: "blocks_ready c B fs" and b: "b \<in> B"
  shows "\<exists>fs'. cow_put c b fs = (Some (hash_hex (hash64 b)), fs') \<and> fs_get fs' = (fs_get fs)(block_of c b \<mapsto> File b True) \<and>
     denied fs' = denied fs \<and> blocks_ready c B fs'"
proof -
  let ?p = "block_of c b"
  have d: "?p \<notin> set (denied fs)" "fs_get fs ?p = None \<or> fs_get fs ?p = Some (File b True)"
    using r b by (auto simp: blocks_ready_def)
  have *: "cow_put c b fs = (Some (hash_hex (hash64 b)), if fs_get fs ?p = None then put_node ?p (File b True) fs else fs)"
    using d by (auto simp: cow_put_def Let_def fs_exists_def fs_write_file_def simp flip: block_of_def)
  let ?fs = "if fs_get fs ?p = None then put_node ?p (File b True) fs else fs"
  have g: "fs_get ?fs = (fs_get fs)(?p \<mapsto> File b True)" "denied ?fs = denied fs" using d by (auto simp: fun_eq_iff)
  have "blocks_ready c B ?fs"
    using r b block_of_inj [OF r _ b] by (auto simp: blocks_ready_def g)
  with * g show ?thesis by blast
qed

text \<open>One capture: a truthful entry is added, and only block files are written.\<close>

lemma snapshot_capture_spec:
  assumes c: "sn_cow s = c" and nb: "\<not> is_block c p" and t: "takeable (max_file s) (fs_get fs p)"
    and r: "blocks_ready c B fs" and sub: "\<And>b. fs_content fs p = Some b \<Longrightarrow> b \<in> B"
  shows "\<exists>cap fs'. snapshot_capture s p fs = (s\<lparr>pending := pending s @ [cap]\<rparr>, fs') \<and> cap_path cap = p \<and>
     truthful fs c fs' cap \<and> blocks_ready c B fs' \<and> denied fs' = denied fs \<and>
     (\<forall>q. \<not> is_block c q \<longrightarrow> fs_get fs' q = fs_get fs q) \<and>
     (\<forall>q n. fs_get fs q = Some n \<longrightarrow> fs_get fs' q = Some n)"
proof (cases "fs_get fs p")
  case None
  with r show ?thesis by (auto simp: snapshot_capture_def fs_exists_def truthful_def)
next
  case (Some n)
  show ?thesis
  proof (cases n)
    case (Dir k)
    with Some r show ?thesis by (auto simp: snapshot_capture_def fs_exists_def fs_is_dir_def truthful_def)
  next
    case (File b m)
    with Some t have b: "m" "CHR 0x00 \<notin> set b" "\<not> (0 < max_file s \<and> max_file s < int (length b))" by auto
    have "b \<in> B" using sub Some File by (simp add: fs_content_def)
    from cow_put_spec [OF r this] obtain fs' where
      put: "cow_put c b fs = (Some (hash_hex (hash64 b)), fs')" "fs_get fs' = (fs_get fs)(block_of c b \<mapsto> File b True)"
        "denied fs' = denied fs" "blocks_ready c B fs'" by blast
    have old: "fs_get fs (block_of c b) \<in> {None, Some (File b True)}" using r \<open>b \<in> B\<close> by (simp add: blocks_ready_def)
    have e: "snapshot_capture s p fs =
        (s\<lparr>pending := pending s @ [\<lparr>cap_path = p, cap_hash = hash_hex (hash64 b), existed = True, skipped = False\<rparr>]\<rparr>, fs')"
      using Some File b c put(1)
      by (auto simp: snapshot_capture_def fs_exists_def fs_is_dir_def fs_file_size_def fs_read_file_def c_string_id Let_def cbuf_id)
    show ?thesis
      unfolding e using Some File b put old
      by (intro exI [of _ "\<lparr>cap_path = p, cap_hash = hash_hex (hash64 b), existed = True, skipped = False\<rparr>"] exI [of _ fs'])
        (auto simp: truthful_def)
  qed
qed

lemma truthful_mono:
  "truthful fs0 c fs cap \<Longrightarrow> (\<And>b n. fs_get fs (block_of c b) = Some n \<Longrightarrow> fs_get fs' (block_of c b) = Some n) \<Longrightarrow>
   truthful fs0 c fs' cap"
  unfolding truthful_def by (auto split: option.split node.split)

lemma truthful_base: "fs_get fs0 (cap_path cap) = fs_get fs1 (cap_path cap) \<Longrightarrow> truthful fs0 c fs cap = truthful fs1 c fs cap"
  by (simp add: truthful_def)

lemma capture_all_spec:
  assumes "\<forall>p \<in> set ps. \<not> is_block (sn_cow s) p \<and> takeable (max_file s) (fs_get fs p)"
    and "blocks_ready (sn_cow s) B fs" and "contents fs ps \<subseteq> B"
  shows "\<exists>caps fs'. capture_all ps s fs = (s\<lparr>pending := pending s @ caps\<rparr>, fs') \<and> map cap_path caps = ps \<and>
     (\<forall>cap \<in> set caps. truthful fs (sn_cow s) fs' cap) \<and> denied fs' = denied fs \<and> blocks_ready (sn_cow s) B fs' \<and>
     (\<forall>q. \<not> is_block (sn_cow s) q \<longrightarrow> fs_get fs' q = fs_get fs q) \<and>
     (\<forall>q n. fs_get fs q = Some n \<longrightarrow> fs_get fs' q = Some n)"
  using assms
proof (induction ps arbitrary: s fs)
  case Nil
  then show ?case by simp
next
  case (Cons p ps)
  have sub: "b \<in> B" if "fs_content fs p = Some b" for b using Cons.prems(3) that by (auto simp: contents_def)
  from Cons.prems(1) have "\<not> is_block (sn_cow s) p" "takeable (max_file s) (fs_get fs p)" by simp_all
  from snapshot_capture_spec [OF refl this Cons.prems(2) sub]
  obtain cap fs1 where c: "snapshot_capture s p fs = (s\<lparr>pending := pending s @ [cap]\<rparr>, fs1)" "cap_path cap = p"
      "truthful fs (sn_cow s) fs1 cap" "blocks_ready (sn_cow s) B fs1" "denied fs1 = denied fs"
      and same: "\<And>q. \<not> is_block (sn_cow s) q \<Longrightarrow> fs_get fs1 q = fs_get fs q"
      and mono: "\<And>q n. fs_get fs q = Some n \<Longrightarrow> fs_get fs1 q = Some n"
    by blast
  let ?s = "s\<lparr>pending := pending s @ [cap]\<rparr>"
  have "contents fs1 ps \<subseteq> B" using Cons.prems(1,3) same by (auto simp: contents_def fs_content_def)
  moreover have "\<forall>p \<in> set ps. \<not> is_block (sn_cow ?s) p \<and> takeable (max_file ?s) (fs_get fs1 p)"
    using Cons.prems(1) same by simp
  ultimately obtain caps fs' where r: "capture_all ps ?s fs1 = (?s\<lparr>pending := pending ?s @ caps\<rparr>, fs')" "map cap_path caps = ps"
      "\<forall>cap \<in> set caps. truthful fs1 (sn_cow s) fs' cap" "denied fs' = denied fs1" "blocks_ready (sn_cow s) B fs'"
      and same': "\<And>q. \<not> is_block (sn_cow s) q \<Longrightarrow> fs_get fs' q = fs_get fs1 q"
      and mono': "\<And>q n. fs_get fs1 q = Some n \<Longrightarrow> fs_get fs' q = Some n"
    using Cons.IH [of ?s fs1] c(4) by auto
  have "truthful fs (sn_cow s) fs' cap'" if "cap' \<in> set caps" for cap'
  proof -
    have "cap_path cap' \<in> set ps" using r(2) that by auto
    then have "fs_get fs1 (cap_path cap') = fs_get fs (cap_path cap')" using Cons.prems(1) same by simp
    with r(3) that show ?thesis by (metis truthful_base)
  qed
  moreover have "truthful fs (sn_cow s) fs' cap" using truthful_mono [OF c(3)] mono' by blast
  ultimately show ?case using c r same same' mono mono' by (intro exI [of _ "cap # caps"] exI [of _ fs']) auto
qed

text \<open>Restoring a truthful capture puts the content back and touches nothing else.\<close>

lemma restore_file_other: "q \<noteq> cap_path cap \<Longrightarrow> fs_get (restore_file c cap fs) q = fs_get fs q"
  by (simp add: restore_file_def fs_write_other fs_remove_other split: option.split)

lemma restore_file_denied [simp]: "denied (restore_file c cap fs) = denied fs"
  by (simp add: restore_file_def split: option.split)

definition put_back :: "fsys \<Rightarrow> fsys \<Rightarrow> fsys \<Rightarrow> cstr \<Rightarrow> bool" where
  "put_back fs0 fs2 fs3 p \<longleftrightarrow>
     (if fs_is_dir fs0 p then fs_get fs3 p = fs_get fs2 p else fs_content fs3 p = fs_content fs0 p \<and> \<not> fs_is_dir fs3 p)"

lemma restore_file_truthful:
  assumes t: "truthful fs0 c fs cap" and d: "cap_path cap \<notin> set (denied fs)" "\<not> fs_is_dir fs (cap_path cap)"
  shows "put_back fs0 fs (restore_file c cap fs) (cap_path cap)"
proof (cases "fs_get fs0 (cap_path cap)")
  case None
  with t have "restore_file c cap fs = snd (fs_remove (cap_path cap) fs)" by (simp add: truthful_def restore_file_def)
  with None fs_remove_get [OF d] show ?thesis by (simp add: put_back_def fs_is_dir_def fs_content_def)
next
  case (Some n)
  show ?thesis
  proof (cases n)
    case (Dir k)
    with Some t show ?thesis by (simp add: truthful_def restore_file_def put_back_def fs_is_dir_def)
  next
    case (File b m)
    with Some t have e: "existed cap" "\<not> skipped cap" "cap_hash cap = hash_hex (hash64 b)" "CHR 0x00 \<notin> set b"
      "fs_get fs (block_of c b) = Some (File b True)" by (simp_all add: truthful_def)
    have "hash_hex (hash64 b) \<noteq> []" by (metis length_hash_hex list.size(3) zero_neq_numeral)
    with e have "restore_file c cap fs = snd (fs_write_file (cap_path cap) b fs)"
      by (simp add: restore_file_def cow_get_def fs_read_file_def c_string_id flip: block_of_def)
    with Some File fs_write_get [OF d] show ?thesis by (simp add: put_back_def fs_is_dir_def fs_content_def)
  qed
qed

lemma restore_entry_truthful:
  assumes "\<forall>cap \<in> set caps. truthful fs0 c fs cap \<and> \<not> is_block c (cap_path cap) \<and> cap_path cap \<notin> set (denied fs) \<and>
      (\<not> fs_is_dir fs0 (cap_path cap) \<longrightarrow> \<not> fs_is_dir fs (cap_path cap))"
    and "distinct (map cap_path caps)"
  shows "(\<forall>p \<in> cap_path ` set caps. put_back fs0 fs (restore_entry c caps fs) p) \<and>
    (\<forall>q. q \<notin> cap_path ` set caps \<longrightarrow> fs_get (restore_entry c caps fs) q = fs_get fs q)"
  using assms
proof (induction caps arbitrary: fs)
  case Nil
  then show ?case by (simp add: restore_entry_def)
next
  case (Cons cap caps)
  let ?fs = "restore_file c cap fs"
  have e: "restore_entry c (cap # caps) fs = restore_entry c caps ?fs" by (simp add: restore_entry_def)
  have ne: "cap_path cap' \<noteq> cap_path cap" if "cap' \<in> set caps" for cap'
    using Cons.prems(2) that by (metis distinct.simps(2) image_eqI list.simps(9) list.set_map)
  have blk: "fs_get ?fs (block_of c b) = fs_get fs (block_of c b)" for b
    using Cons.prems(1) by (intro restore_file_other) (metis is_block_of list.set_intros(1))
  have "\<forall>cap' \<in> set caps. truthful fs0 c ?fs cap' \<and> \<not> is_block c (cap_path cap') \<and> cap_path cap' \<notin> set (denied ?fs) \<and>
      (\<not> fs_is_dir fs0 (cap_path cap') \<longrightarrow> \<not> fs_is_dir ?fs (cap_path cap'))"
  proof
    fix cap' assume m: "cap' \<in> set caps"
    with Cons.prems(1) have t: "truthful fs0 c fs cap'" by simp
    have "truthful fs0 c ?fs cap'" by (rule truthful_mono [OF t]) (simp add: blk)
    with Cons.prems(1) m ne [OF m] show "truthful fs0 c ?fs cap' \<and> \<not> is_block c (cap_path cap') \<and> cap_path cap' \<notin> set (denied ?fs) \<and>
        (\<not> fs_is_dir fs0 (cap_path cap') \<longrightarrow> \<not> fs_is_dir ?fs (cap_path cap'))"
      by (simp add: fs_is_dir_def restore_file_other)
  qed
  note IH = Cons.IH [OF this]
  have IH1: "put_back fs0 ?fs (restore_entry c caps ?fs) p" if "p \<in> cap_path ` set caps" for p
    using IH Cons.prems(2) that by fastforce
  have IH2: "fs_get (restore_entry c caps ?fs) q = fs_get ?fs q" if "q \<notin> cap_path ` set caps" for q
    using IH Cons.prems(2) that by simp
  have "put_back fs0 fs ?fs (cap_path cap)"
  proof (cases "fs_is_dir fs0 (cap_path cap)")
    case True
    then have "existed cap \<and> skipped cap" using Cons.prems(1)
      by (auto simp: truthful_def fs_is_dir_def split: option.splits node.splits)
    with True show ?thesis by (simp add: put_back_def restore_file_def)
  next
    case False
    then show ?thesis using Cons.prems(1) by (intro restore_file_truthful) simp_all
  qed
  moreover have "cap_path cap \<notin> cap_path ` set caps" using Cons.prems(2) by auto
  ultimately have "put_back fs0 fs (restore_entry c caps ?fs) (cap_path cap)"
    using IH2 [of "cap_path cap"] by (simp add: put_back_def fs_content_def fs_is_dir_def split: if_splits)
  moreover have "put_back fs0 fs (restore_entry c caps ?fs) p" if "p \<in> cap_path ` set caps" for p
  proof -
    have "p \<noteq> cap_path cap" using that ne by auto
    with IH1 [OF that] show ?thesis by (simp add: put_back_def restore_file_other)
  qed
  moreover have "fs_get (restore_entry c caps ?fs) q = fs_get fs q" if "q \<notin> cap_path ` set (cap # caps)" for q
    using that IH2 [of q] by (simp add: restore_file_other)
  ultimately show ?case by (auto simp: e)
qed

section \<open>Ids and manifests\<close>

lemma id_text_inj:
  assumes "0 \<le> clock j" "0 \<le> clock k"
  defines "t \<equiv> \<lambda>k. if k = 0 then CHR ''s'' # int_str (clock k) else CHR ''s'' # int_str (clock k) @ ''-'' @ nat_str k"
  shows "t j = t k \<longleftrightarrow> j = k"
proof
  assume e: "t j = t k"
  have d: "int_str (clock j) = nat_str (nat (clock j))" "int_str (clock k) = nat_str (nat (clock k))"
    using assms(1,2) by (simp_all add: int_str_def)
  have dash: "CHR ''-'' \<in> set (t i) \<longleftrightarrow> i \<noteq> 0" if "i = j \<or> i = k" for i
    using that d nat_str_no_dash by (auto simp: t_def)
  have tail: "tl (dropWhile (\<lambda>c. c \<noteq> CHR ''-'') (t i)) = nat_str i" if "i = j \<or> i = k" "i \<noteq> 0" for i
  proof -
    have "\<forall>c \<in> set (CHR ''s'' # int_str (clock i)). c \<noteq> CHR ''-''"
      using that d nat_str_no_dash by auto
    then have n: "\<And>c. c \<in> set (CHR ''s'' # int_str (clock i)) \<Longrightarrow> c \<noteq> CHR ''-''" by blast
    have "t i = (CHR ''s'' # int_str (clock i)) @ CHR ''-'' # nat_str i" using that by (simp add: t_def)
    then show ?thesis by (simp only: dropWhile_append2 [OF n]) simp
  qed
  have z: "j = 0 \<longleftrightarrow> k = 0"
    using dash [OF disjI1 [OF refl]] dash [OF disjI2 [OF refl]] unfolding e by argo
  show "j = k"
  proof (cases "j = 0")
    case True
    with z show ?thesis by argo
  next
    case False
    with z have "nat_str j = nat_str k"
      using tail [OF disjI1 [OF refl]] tail [OF disjI2 [OF refl]] unfolding e by argo
    then show ?thesis by (simp only: nat_str_inj)
  qed
qed (simp only:)

lemma id_text_length:
  assumes "0 \<le> t" "t < 2 ^ 63" "k < 2 ^ 32"
  shows "length (CHR ''s'' # int_str t @ ''-'' @ nat_str k) < 32" "length (CHR ''s'' # int_str t) < 32"
proof -
  have "nat t < 10 ^ Suc 18" "k < 10 ^ Suc 9" using assms by simp_all
  then have "length (nat_str (nat t)) \<le> 19" "length (nat_str k) \<le> 10" using length_nat_str by fastforce+
  with assms(1) show "length (CHR ''s'' # int_str t @ ''-'' @ nat_str k) < 32" "length (CHR ''s'' # int_str t) < 32"
    by (simp_all add: int_str_def)
qed

text \<open>The candidate of the \<open>k\<close>-th attempt; distinct attempts have distinct candidates, so one of the first
\<open>length ids + 1\<close> is free.\<close>

definition id_cand :: "(nat \<Rightarrow> int) \<Rightarrow> nat \<Rightarrow> cstr" where
  "id_cand clock k = cbuf 32 (if k = 0 then CHR ''s'' # int_str (clock k) else CHR ''s'' # int_str (clock k) @ ''-'' @ nat_str k)"

lemma id_cand_inj:
  assumes "\<And>k. 0 \<le> clock k \<and> clock k < 2 ^ 63" "j < 2 ^ 32" "k < 2 ^ 32"
  shows "id_cand clock j = id_cand clock k \<longleftrightarrow> j = k"
  using assms id_text_length [of "clock j" j] id_text_length [of "clock k" k] id_text_inj [of clock j k]
  by (simp add: id_cand_def cbuf_id split: if_splits)

lemma commit_id_step:
  "commit_id clock ids k = (if id_cand clock k \<in> set ids then commit_id clock ids (Suc k) else Some (id_cand clock k))"
  by (subst commit_id.simps) (simp only: id_cand_def Let_def)

lemma commit_id_returns:
  assumes clk: "\<And>k. 0 \<le> clock k \<and> clock k < 2 ^ 63" and len: "length ids < 2 ^ 32"
  shows "\<exists>k \<le> length ids. id_cand clock k \<notin> set ids \<and> commit_id clock ids 0 = Some (id_cand clock k)"
proof -
  have "\<exists>k \<le> length ids. id_cand clock k \<notin> set ids"
  proof (rule ccontr)
    assume "\<not> ?thesis"
    then have "id_cand clock ` {..length ids} \<subseteq> set ids" by auto
    moreover have "inj_on (id_cand clock) {..length ids}"
      using id_cand_inj [of clock, OF clk] len by (intro inj_onI) simp
    ultimately have "card {..length ids} \<le> card (set ids)" by (metis card_image card_mono List.finite_set)
    with card_length [of ids] show False by simp
  qed
  then obtain k0 where k0: "k0 \<le> length ids" "id_cand clock k0 \<notin> set ids" by blast
  define k where "k = (LEAST k. id_cand clock k \<notin> set ids)"
  have k: "k \<le> length ids" "id_cand clock k \<notin> set ids" "\<And>i. i < k \<Longrightarrow> id_cand clock i \<in> set ids"
    unfolding k_def using Least_le [of "\<lambda>k. id_cand clock k \<notin> set ids", OF k0(2)] k0
      LeastI [of "\<lambda>k. id_cand clock k \<notin> set ids", OF k0(2)] not_less_Least [of _ "\<lambda>k. id_cand clock k \<notin> set ids"]
    by (simp_all (no_asm_use)) blast
  have "commit_id clock ids (k - d) = Some (id_cand clock k)" if "d \<le> k" for d
    using that
  proof (induction d)
    case 0
    with k(2) show ?case by (subst commit_id_step) simp
  next
    case (Suc d)
    have "id_cand clock (k - Suc d) \<in> set ids" using Suc.prems by (intro k(3)) simp
    moreover have "Suc (k - Suc d) = k - d" using Suc.prems by simp
    ultimately show ?case using Suc by (subst commit_id_step) simp
  qed
  from this [of k] k show ?thesis by auto
qed

text \<open>A capture survives the manifest.\<close>

lemma manifest_file_captured: "length (cap_hash c) \<le> 16 \<Longrightarrow> manifest_file (captured_json c) = c"
  by (cases c) (simp add: manifest_file_def captured_json_def nonnull_or_def cbuf_id)

lemma snapshot_capture_hash:
  "\<forall>c \<in> set (pending s). length (cap_hash c) \<le> 16 \<Longrightarrow> snapshot_capture s p fs = (s', fs') \<Longrightarrow>
   \<forall>c \<in> set (pending s'). length (cap_hash c) \<le> 16"
  by (auto simp: snapshot_capture_def Let_def cbuf_def split: if_splits option.splits prod.splits)

lemma restore_paths_count:
  "list_all (path_restorable files) ps \<Longrightarrow> restore_paths c files ps n fs = (r, fs') \<Longrightarrow> r = -1 \<or> r = n + int (length ps)"
proof (induction ps arbitrary: n fs)
  case Nil
  then show ?case by simp
next
  case (Cons p ps)
  from Cons.prems(1) obtain q where q: "p = Some q" "path_restorable files (Some q)"
    by (cases p) (auto simp: path_restorable_def)
  from q(2) obtain cap where cap: "find (\<lambda>c. cap_path c = q) files = Some cap"
    by (auto simp: path_restorable_def split: option.splits)
  from Cons.prems(2) q(1) cap Cons.IH [of "n + 1"] Cons.prems(1) show ?case
    by (fastforce split: if_splits option.splits prod.splits)
qed

section \<open>Properties\<close>

text \<open>C36: after capturing a list of distinct text files, absent paths and directories, whatever
is then done to the file system (the blocks stay, and no captured path becomes a directory or is denied), restoring
the pending captures puts every captured file back to its content, removes what was absent, leaves directories and
every other path as they are, and clears the captures. The contents in question must not collide in the hash.\<close>

theorem snapshot_rollback_restores:
  assumes "pending s = []" "distinct ps" "capturable s fs ps" "capture_all ps s fs = (s1, fs1)"
    and "\<forall>b. fs_get fs2 (block_of (sn_cow s) b) = fs_get fs1 (block_of (sn_cow s) b)"
    and "\<forall>p \<in> set ps. p \<notin> set (denied fs2) \<and> (fs_is_dir fs p \<or> \<not> fs_is_dir fs2 p)"
  shows "\<exists>fs3. snapshot_restore_pending s1 fs2 = (0, s1\<lparr>pending := []\<rparr>, fs3) \<and>
    (\<forall>p \<in> set ps. put_back fs fs2 fs3 p) \<and> (\<forall>q. q \<notin> set ps \<longrightarrow> fs_get fs3 q = fs_get fs2 q)"
proof -
  have pre: "\<forall>p \<in> set ps. \<not> is_block (sn_cow s) p \<and> takeable (max_file s) (fs_get fs p)"
    "blocks_ready (sn_cow s) (contents fs ps) fs" using assms(3) by (simp_all add: capturable_def)
  from capture_all_spec [OF pre subset_refl] assms(1,4) obtain caps where
    c: "s1 = s\<lparr>pending := caps\<rparr>" "map cap_path caps = ps" "\<forall>cap \<in> set caps. truthful fs (sn_cow s) fs1 cap" by auto
  have img: "cap_path ` set caps = set ps" using c(2) by (metis list.set_map)
  have "\<forall>cap \<in> set caps. truthful fs (sn_cow s) fs2 cap \<and> \<not> is_block (sn_cow s) (cap_path cap) \<and>
      cap_path cap \<notin> set (denied fs2) \<and> (\<not> fs_is_dir fs (cap_path cap) \<longrightarrow> \<not> fs_is_dir fs2 (cap_path cap))"
  proof
    fix cap assume m: "cap \<in> set caps"
    then have "cap_path cap \<in> set ps" using img by blast
    moreover have "truthful fs (sn_cow s) fs2 cap"
      by (rule truthful_mono [of _ _ fs1]) (use c(3) m assms(5) in auto)
    ultimately show "truthful fs (sn_cow s) fs2 cap \<and> \<not> is_block (sn_cow s) (cap_path cap) \<and>
        cap_path cap \<notin> set (denied fs2) \<and> (\<not> fs_is_dir fs (cap_path cap) \<longrightarrow> \<not> fs_is_dir fs2 (cap_path cap))"
      using pre(1) assms(6) by blast
  qed
  from restore_entry_truthful [OF this] c(2) assms(2)
  have "(\<forall>p \<in> set ps. put_back fs fs2 (restore_entry (sn_cow s) caps fs2) p) \<and>
      (\<forall>q. q \<notin> set ps \<longrightarrow> fs_get (restore_entry (sn_cow s) caps fs2) q = fs_get fs2 q)" by (simp add: img)
  then show ?thesis by (simp add: snapshot_restore_pending_def snapshot_abort_def c(1))
qed

definition demo_snap :: snapshot where
  "demo_snap = \<lparr>sn_root = ''r'', sn_cow = ''k'', max_file = 1000, pending = [], committed = [], last_id = []\<rparr>"

definition demo_fs :: fsys where
  "demo_fs = \<lparr>nodes = [(''a'', File ''old'' True), (''d'', Dir 4096)], denied = []\<rparr>"

definition demo_fs2 :: fsys where
  "demo_fs2 = snd (fs_write_file ''n'' ''new'' (snd (fs_write_file ''a'' ''x'' (snd (capture_all [''a'', ''n'', ''d''] demo_snap demo_fs)))))"

lemma demo_capturable: "capturable demo_snap demo_fs [''a'', ''n'', ''d'']"
proof -
  have "contents demo_fs [''a'', ''n'', ''d''] = {''old''}"
    by (auto simp: contents_def fs_content_def demo_fs_def fs_get_def)
  then show ?thesis
    by (simp add: capturable_def blocks_ready_def demo_snap_def is_block_def block_of_def block_path_def path_join_def
        nonnull_or_def cbuf_def demo_fs_def fs_get_def)
qed

theorem snapshot_rollback_restores_witness:
  "let fs3 = snd (snd (snapshot_restore_pending (fst (capture_all [''a'', ''n'', ''d''] demo_snap demo_fs)) demo_fs2)) in
   fs_content fs3 ''a'' = Some ''old'' \<and> fs_content fs3 ''n'' = None \<and> fs_content demo_fs2 ''n'' = Some ''new''"
proof -
  let ?ps = "[''a'', ''n'', ''d'']"
  obtain s1 fs1 where c: "capture_all ?ps demo_snap demo_fs = (s1, fs1)" by fastforce
  have fs2: "demo_fs2 = snd (fs_write_file ''n'' ''new'' (snd (fs_write_file ''a'' ''x'' fs1)))" unfolding demo_fs2_def c by simp
  have 1: "\<forall>b. fs_get demo_fs2 (block_of (sn_cow demo_snap) b) = fs_get fs1 (block_of (sn_cow demo_snap) b)"
    by (simp add: fs2 block_of_def fs_write_other block_path_def path_join_def nonnull_or_def cbuf_def demo_snap_def)
  note cap = demo_capturable [unfolded capturable_def]
  from capture_all_spec [OF conjunct1 [OF cap] conjunct2 [OF cap] subset_refl]
  have f: "denied fs1 = denied demo_fs" "\<And>q. \<not> is_block (sn_cow demo_snap) q \<Longrightarrow> fs_get fs1 q = fs_get demo_fs q"
    unfolding c by blast+
  have "\<not> is_block (sn_cow demo_snap) ''a''" "\<not> is_block (sn_cow demo_snap) ''n''" using cap by simp_all
  with f have d: "denied fs1 = []" "fs_get fs1 ''a'' = Some (File ''old'' True)" "fs_get fs1 ''n'' = None"
    by (simp_all add: demo_fs_def fs_get_def [of "\<lparr>nodes = _, denied = _\<rparr>"])
  have 2: "\<forall>p \<in> set ?ps. p \<notin> set (denied demo_fs2) \<and> (fs_is_dir demo_fs p \<or> \<not> fs_is_dir demo_fs2 p)"
    using d by (auto simp: fs2 fs_write_file_def fs_is_dir_def demo_fs_def fs_get_def [of "\<lparr>nodes = _, denied = _\<rparr>"])
  have "pending demo_snap = []" "distinct ?ps" by (simp_all add: demo_snap_def)
  from snapshot_rollback_restores [OF this demo_capturable c 1 2] obtain fs3 where
    t: "snapshot_restore_pending s1 demo_fs2 = (0, s1\<lparr>pending := []\<rparr>, fs3)" and p': "\<forall>p \<in> set ?ps. put_back demo_fs demo_fs2 fs3 p"
    by blast
  have r: "snd (snd (snapshot_restore_pending s1 demo_fs2)) = fs3" by (simp only: t snd_conv)
  from p' have p: "put_back demo_fs demo_fs2 fs3 ''a''" "put_back demo_fs demo_fs2 fs3 ''n''" by simp_all
  have o: "fs_get demo_fs ''a'' = Some (File ''old'' True)" "fs_get demo_fs ''n'' = None" by (simp_all add: demo_fs_def fs_get_def)
  have "fs_content fs3 ''a'' = Some ''old''" "fs_content fs3 ''n'' = None"
    using p by (simp_all add: put_back_def fs_is_dir_def o fs_content_def [of demo_fs])
  moreover have "fs_content demo_fs2 ''n'' = Some ''new''"
    using d by (simp add: fs2 fs_write_file_def fs_content_def)
  ultimately show ?thesis by (simp only: c fst_conv r Let_def simp_thms)
qed

text \<open>A commit with captures pending always returns, whatever the ids already taken: after at
most one attempt per committed snapshot it finds an id that no earlier snapshot has, records exactly the pending
captures under it as the newest snapshot, and clears them.\<close>

theorem snapshot_commit_fresh:
  assumes "pending s \<noteq> []" "\<forall>k. 0 \<le> clock k \<and> clock k < 2 ^ 63" "length (committed s) < 2 ^ 32"
  shows "\<exists>i s' fs'. snapshot_commit print clock now s fs = Some (Some i, s', fs') \<and> i \<notin> se_id ` set (committed s) \<and>
    committed s' = committed s @ [\<lparr>se_id = i, se_created = cbuf 40 now, se_files = pending s\<rparr>] \<and> pending s' = [] \<and> last_id s' = i"
proof -
  from commit_id_returns [of clock "map se_id (committed s)"] assms(2,3)
  obtain k where k: "id_cand clock k \<notin> se_id ` set (committed s)"
    "commit_id clock (map se_id (committed s)) 0 = Some (id_cand clock k)" by auto
  have "cbuf 32 (id_cand clock k) = id_cand clock k" by (simp add: id_cand_def)
  with k assms(1) show ?thesis by (simp add: snapshot_commit_def Let_def split: prod.split)
qed

definition demo_snap2 :: snapshot where
  "demo_snap2 = demo_snap\<lparr>pending := [\<lparr>cap_path = ''p'', cap_hash = [], existed = False, skipped = False\<rparr>],
     committed := [\<lparr>se_id = ''s7'', se_created = [], se_files = []\<rparr>]\<rparr>"

theorem snapshot_commit_fresh_witness:
  "\<exists>i s' fs'. snapshot_commit (\<lambda>_. []) (\<lambda>_. 7) ''now'' demo_snap2 demo_fs = Some (Some i, s', fs') \<and> i \<noteq> ''s7'' \<and>
     length (committed s') = 2 \<and> last_id s' = i"
proof -
  have "pending demo_snap2 \<noteq> []" "\<forall>k::nat. (0::int) \<le> 7 \<and> (7::int) < 2 ^ 63" "length (committed demo_snap2) < 2 ^ 32"
    by (simp_all add: demo_snap2_def)
  from snapshot_commit_fresh [OF this, of "\<lambda>_. []" "''now''" demo_fs] show ?thesis
    by (fastforce simp: demo_snap2_def)
qed

text \<open>The manifest that a commit prints, read back under its file name by a freshly opened
store, adds exactly the entry that the commit recorded, with its id, its time and every capture.\<close>

theorem snapshot_manifest_roundtrip:
  assumes "parse (print (manifest_json i (cbuf 40 now) files)) = Some (manifest_json i (cbuf 40 now) files)" "length i < 32" "\<forall>c \<in> set files. length (cap_hash c) \<le> 16"
  shows "snapshot_restore_from_manifest parse t (print (manifest_json i (cbuf 40 now) files)) (i @ ''.json'') =
    (0, t\<lparr>committed := committed t @ [\<lparr>se_id = i, se_created = cbuf 40 now, se_files = files\<rparr>]\<rparr>)"
proof -
  have "map (manifest_file \<circ> captured_json) files = files"
    using assms(3) by (intro map_idI) (simp add: manifest_file_captured)
  then show ?thesis
    using assms(2) unfolding snapshot_restore_from_manifest_def assms(1) Let_def
    by (simp add: manifest_json_def nonnull_or_def cbuf_id [of i])
qed

theorem snapshot_manifest_roundtrip_witness:
  "let f = \<lparr>cap_path = ''p'', cap_hash = [], existed = True, skipped = True\<rparr>; m = manifest_json ''s7'' (cbuf 40 ''now'') [f] in
   snapshot_restore_from_manifest (\<lambda>_. Some m) demo_snap ''text'' ''s7.json'' =
     (0, demo_snap\<lparr>committed := [\<lparr>se_id = ''s7'', se_created = cbuf 40 ''now'', se_files = [f]\<rparr>]\<rparr>)"
  using snapshot_manifest_roundtrip [of "\<lambda>_. Some (manifest_json ''s7'' (cbuf 40 ''now'')
      [\<lparr>cap_path = ''p'', cap_hash = [], existed = True, skipped = True\<rparr>])" "\<lambda>_. ''text''" "''s7''" "''now''"
      "[\<lparr>cap_path = ''p'', cap_hash = [], existed = True, skipped = True\<rparr>]" demo_snap]
  by (simp add: demo_snap_def)

text \<open>A selective restore from a named snapshot answers -1 or the number of paths asked
for; when a path is null, empty, unknown to the snapshot or was skipped when captured, the answer is -1 and no file
is changed.\<close>

theorem snapshot_restore_files_atomic:
  assumes "i \<noteq> []" "find_entry s i = Some e" "snapshot_restore_files s (Some i) paths fs = (r, fs')"
  shows "if paths \<noteq> [] \<and> list_all (path_restorable (se_files e)) paths then r = -1 \<or> r = int (length paths)
    else r = -1 \<and> fs' = fs"
  using assms restore_paths_count [of "se_files e" paths "sn_cow s" 0 fs r fs']
  by (auto simp: snapshot_restore_files_def nonnull_or_def split: if_splits)

theorem snapshot_restore_files_atomic_witness:
  "fst (snapshot_restore_files (demo_snap\<lparr>committed := [\<lparr>se_id = ''s1'', se_created = [],
      se_files = [\<lparr>cap_path = ''p'', cap_hash = [], existed = False, skipped = False\<rparr>]\<rparr>]\<rparr>) (Some ''s1'') [Some ''p'', Some ''q''] demo_fs) = -1"
proof -
  let ?e = "\<lparr>se_id = ''s1'', se_created = [], se_files = [\<lparr>cap_path = ''p'', cap_hash = [], existed = False, skipped = False\<rparr>]\<rparr>"
  obtain r fs' where r: "snapshot_restore_files (demo_snap\<lparr>committed := [?e]\<rparr>) (Some ''s1'') [Some ''p'', Some ''q''] demo_fs = (r, fs')"
    by fastforce
  from snapshot_restore_files_atomic [OF _ _ r, of ?e] show ?thesis
    by (simp add: r find_entry_def path_restorable_def)
qed

end
