(* ===== verification/Tx.thy ===== *)
theory Tx
  imports Tools Snapshot
begin

text \<open>
  The action transaction of \<open>src/backend/src/tx/tx.c\<close> over the tool registry and the snapshot engine: the paths a
  tool declares in its arguments are captured before it runs, unless git already keeps them; commit keeps the
  changes and records a snapshot, rollback restores the captures. A transaction without a snapshot engine or
  without tools is the corresponding \<open>None\<close>. The output buffer is taken to grow.
\<close>

section \<open>Git detection\<close>

definition strrchr :: "char \<Rightarrow> cstr \<Rightarrow> nat option" where
  "strrchr c s = map_option (\<lambda>i. length s - 1 - i) (find_index (\<lambda>x. x = c) (rev s))"

fun git_loop :: "nat \<Rightarrow> cstr \<Rightarrow> fsys \<Rightarrow> bool" where
  "git_loop 0 buf fs = False"
| "git_loop (Suc d) buf fs =
     (if fs_exists fs (path_join 2200 (Some buf) (Some ''.git'')) then True
      else case strrchr (CHR ''/'') buf of
             None \<Rightarrow> False
           | Some i \<Rightarrow>
               if i = 0 then False
               else let b = take i buf in
                 if length b = 2 \<and> b ! 1 = CHR '':'' then fs_exists fs (cbuf 2200 (b @ [CHR 0x5C] @ ''.git''))
                 else git_loop d b fs)"

definition is_git_managed :: "cstr option \<Rightarrow> fsys \<Rightarrow> bool" where
  "is_git_managed dir fs = (let d = nonnull_or [] dir in if d = [] then False else git_loop 32 (cbuf 2048 d) fs)"

section \<open>Transactions\<close>

record tx =
  tx_snap :: "snapshot option"
  tx_tools :: "tool_registry option"
  tx_ctx :: tool_ctx
  all_ok :: bool
  n_actions :: nat
  rolled_back :: bool
  git_managed :: bool
  tx_text :: "cstr option"

definition tx_begin :: "snapshot option \<Rightarrow> tool_registry option \<Rightarrow> tool_ctx option \<Rightarrow> fsys \<Rightarrow> tx" where
  "tx_begin snap tools ctx fs =
     (let c = (case ctx of Some c \<Rightarrow> c | None \<Rightarrow> \<lparr>c_policy = None, c_workspace = None\<rparr>) in
      \<lparr>tx_snap = snap, tx_tools = tools, tx_ctx = c, all_ok = True, n_actions = 0, rolled_back = False,
       git_managed = is_git_managed (c_workspace c) fs, tx_text = None\<rparr>)"

text \<open>At most 16 paths: the \<open>path\<close> argument, then the strings of \<open>files\<close>.\<close>

definition extract_paths :: "(cstr \<Rightarrow> json option) \<Rightarrow> cstr option \<Rightarrow> cstr option \<Rightarrow> cstr list" where
  "extract_paths parse args_json workspace =
     (case args_json of
        None \<Rightarrow> []
      | Some text \<Rightarrow>
          (case parse text of
             None \<Rightarrow> []
           | Some args \<Rightarrow>
               take 16
                 ((case json_string (json_get ''path'' (Some args)) of None \<Rightarrow> [] | Some p \<Rightarrow> [path_resolve 2048 workspace (Some p)])
                  @ List.map_filter (\<lambda>it. map_option (\<lambda>p. path_resolve 2048 workspace (Some p)) (json_string (Some it)))
                      (json_items (json_get ''files'' (Some args))))))"

definition tx_append_output :: "tx \<Rightarrow> cstr \<Rightarrow> cstr \<Rightarrow> tx" where
  "tx_append_output tx tool out =
     tx\<lparr>tx_text := Some (nonnull_or [] (tx_text tx) @ ''['' @ tool @ ''] '' @ out @ [CHR 0x0A])\<rparr>"

fun capture_paths :: "cstr list \<Rightarrow> snapshot \<Rightarrow> fsys \<Rightarrow> snapshot \<times> fsys" where
  "capture_paths [] s fs = (s, fs)"
| "capture_paths (p # ps) s fs =
     (if \<not> is_git_managed (Some p) fs
      then (case snapshot_capture s p fs of (s', fs') \<Rightarrow> capture_paths ps s' fs')
      else capture_paths ps s fs)"

text \<open>The captures before the call.\<close>

definition tx_precapture :: "tool_env \<Rightarrow> tx \<Rightarrow> tool \<Rightarrow> cstr option \<Rightarrow> fsys \<Rightarrow> snapshot option \<times> fsys" where
  "tx_precapture env tx t args fs =
     (case tx_snap tx of
        None \<Rightarrow> (None, fs)
      | Some s \<Rightarrow>
          if is_write t \<and> \<not> git_managed tx
          then (case capture_paths (extract_paths (e_parse env) args (c_workspace (tx_ctx tx))) s fs of (s', fs') \<Rightarrow> (Some s', fs'))
          else (Some s, fs))"

definition tx_run :: "tool_env \<Rightarrow> tx \<Rightarrow> cstr \<Rightarrow> cstr option \<Rightarrow> world \<Rightarrow> int \<times> tx \<times> world" where
  "tx_run env tx tool_name args w =
     (case tx_tools tx of
        None \<Rightarrow> (-1, tx, w)
      | Some reg \<Rightarrow>
          (case tool_find reg tool_name of
             None \<Rightarrow> (-1, tx, w)
           | Some t \<Rightarrow>
               (case tx_precapture env tx t args (w_fs w) of
                  (snap', fs') \<Rightarrow>
                    (case tool_execute env reg tool_name args (tx_ctx tx) (w\<lparr>w_fs := fs'\<rparr>) of
                       (r, w') \<Rightarrow>
                         (if ok r then 0 else -1,
                          tx_append_output (tx\<lparr>tx_snap := snap', n_actions := n_actions tx + 1, all_ok := (all_ok tx \<and> ok r)\<rparr>)
                            tool_name (t_output r),
                          w')))))"

definition tx_validate :: "tx \<Rightarrow> bool" where
  "tx_validate tx = all_ok tx"

definition tx_output :: "tx \<Rightarrow> cstr option" where
  "tx_output tx = tx_text tx"

text \<open>\<open>None\<close> would be a commit whose search for an id never ends.\<close>

definition tx_commit :: "tool_env \<Rightarrow> (nat \<Rightarrow> int) \<Rightarrow> cstr \<Rightarrow> tx \<Rightarrow> world \<Rightarrow> (int \<times> tx \<times> world) option" where
  "tx_commit env clock now tx w =
     (case tx_snap tx of
        None \<Rightarrow> Some (0, tx, w)
      | Some s \<Rightarrow>
          map_option (\<lambda>(i, s', fs'). (0, tx\<lparr>tx_snap := Some s'\<rparr>, w\<lparr>w_fs := fs'\<rparr>)) (snapshot_commit (e_print env) clock now s (w_fs w)))"

definition tx_rollback :: "tx \<Rightarrow> world \<Rightarrow> int \<times> tx \<times> world" where
  "tx_rollback tx w =
     (case tx_snap tx of
        None \<Rightarrow> (0, tx\<lparr>rolled_back := True\<rparr>, w)
      | Some s \<Rightarrow>
          (case snapshot_restore_pending s (w_fs w) of
             (rc, s', fs') \<Rightarrow> (0, tx\<lparr>tx_snap := Some s', rolled_back := True\<rparr>, w\<lparr>w_fs := fs'\<rparr>)))"

fun tx_run_all :: "tool_env \<Rightarrow> (cstr \<times> cstr option) list \<Rightarrow> tx \<Rightarrow> world \<Rightarrow> tx \<times> world" where
  "tx_run_all env [] tx w = (tx, w)"
| "tx_run_all env ((name, args) # calls) tx w =
     (case tx_run env tx name args w of (rc, tx', w') \<Rightarrow> tx_run_all env calls tx' w')"

section \<open>No git around\<close>








section \<open>Rolling back a run of calls\<close>












section \<open>Properties\<close>


text \<open>A tool that writes its argument text to the paths it declares.\<close>

definition demo_tx_env :: tool_env where
  "demo_tx_env = \<lparr>e_parse = (\<lambda>_. Some (JObj [(''path'', JStr ''/a'')])), e_print = (\<lambda>_. []), e_now_us = 0,
     e_absolute = (\<lambda>_. None), e_passwords = []\<rparr>"

definition demo_writer :: tool where
  "demo_writer = \<lparr>t_name = ''write'', t_description = [], t_schema = None, is_write = True,
     execute = (\<lambda>args fs. (Some \<lparr>ok = True, t_output = []\<rparr>,
       fold (\<lambda>p fs. snd (fs_write_file p (nonnull_or [] args) fs)) (extract_paths (e_parse demo_tx_env) args None) fs))\<rparr>"

definition demo_reg :: tool_registry where
  "demo_reg = \<lparr>elems = [demo_writer], vcap = 8\<rparr>"

definition demo_ctx :: tool_ctx where
  "demo_ctx = \<lparr>c_policy = None, c_workspace = None\<rparr>"

definition demo_tx_snap :: snapshot where
  "demo_tx_snap = \<lparr>sn_root = ''r'', sn_cow = ''k'', max_file = 0, pending = [], committed = [], last_id = []\<rparr>"

definition demo_tx_world :: world where
  "demo_tx_world = \<lparr>w_fs = \<lparr>nodes = [(''/a'', File ''old'' True)], denied = []\<rparr>, w_seq = 0, w_metrics = None, w_bus = None\<rparr>"





text \<open>A path that two calls declare is captured twice, and rolling back restores the captures in the order in which they
were taken: the file ends with what the first call wrote, not with its original content.\<close>

theorem tx_rollback_second_capture_wins:
  "case tx_run_all demo_tx_env [(''write'', Some ''one''), (''write'', Some ''two'')]
      (tx_begin (Some demo_tx_snap) (Some demo_reg) (Some demo_ctx) (w_fs demo_tx_world)) demo_tx_world of
     (tx1, w1) \<Rightarrow> fs_content (w_fs (snd (snd (tx_rollback tx1 w1)))) ''/a'' = Some ''one''"
  by code_simp

end
