(* ===== verification/FlowDag.thy ===== *)
theory FlowDag
  imports Util Json
begin

text \<open>
  The flow compiler of \<open>src/backend/src/runtime/flow.c\<close>: parsing a JSON document into a dependency graph of at most 64
  nodes (edges given, and edges implied by the result references in a node's task), layering it with Kahn's
  algorithm, and validation. An error is its message (\<open>Inl\<close>); successor indices and the working queue are lists, the
  working in-degrees are integers as in the code. \<open>parse\<close> is the JSON parser.
\<close>

section \<open>The graph\<close>

definition FLOW_MAX_NODES :: nat where
  "FLOW_MAX_NODES = 64"

definition FLOW_MAX_TASKLEN :: nat where
  "FLOW_MAX_TASKLEN = 8192"

record flow_node =
  fn_id :: cstr
  fn_agent :: cstr
  fn_task :: cstr
  fn_layer :: nat
  fn_indeg :: nat
  fn_adj :: "nat list"

type_synonym flow_dag = "flow_node list"

definition quoted :: "cstr \<Rightarrow> cstr" where
  "quoted s = [CHR 0x27] @ s @ [CHR 0x27]"

definition flow_err :: "cstr \<Rightarrow> cstr + 'a" where
  "flow_err msg = Inl (cbuf 512 msg)"

definition flow_node_index :: "flow_dag \<Rightarrow> cstr \<Rightarrow> nat option" where
  "flow_node_index d i = find_index (\<lambda>nd. fn_id nd = i) d"

definition flow_add_edge :: "flow_dag \<Rightarrow> nat \<Rightarrow> nat \<Rightarrow> cstr + flow_dag" where
  "flow_add_edge d from to =
     (if from = to then flow_err (''node '' @ quoted (fn_id (d ! to)) @ '' depends on itself'')
      else if to \<in> set (fn_adj (d ! from)) then Inr d
      else if FLOW_MAX_NODES \<le> length (fn_adj (d ! from)) then flow_err ''too many dependency edges''
      else let d1 = d[from := (d ! from)\<lparr>fn_adj := fn_adj (d ! from) @ [to]\<rparr>]
           in Inr (d1[to := (d1 ! to)\<lparr>fn_indeg := fn_indeg (d1 ! to) + 1\<rparr>]))"

section \<open>Parsing\<close>

fun json_nonempty_string :: "json option \<Rightarrow> cstr option" where
  "json_nonempty_string (Some (JStr s)) = (if s = [] then None else Some s)"
| "json_nonempty_string _ = None"

fun parse_nodes :: "json list \<Rightarrow> flow_dag \<Rightarrow> cstr + flow_dag" where
  "parse_nodes [] d = Inr d"
| "parse_nodes (jn # js) d =
     (case (json_nonempty_string (json_get ''id'' (Some jn)), json_nonempty_string (json_get ''agent'' (Some jn)),
            json_nonempty_string (json_get ''task'' (Some jn))) of
        (Some i, Some ag, Some tk) \<Rightarrow>
          if 64 \<le> length i \<or> 64 \<le> length ag \<or> FLOW_MAX_TASKLEN \<le> length tk
          then flow_err ''node id, agent or task exceeds its supported length''
          else parse_nodes js (d @ [\<lparr>fn_id = i, fn_agent = ag, fn_task = tk, fn_layer = 0, fn_indeg = 0, fn_adj = []\<rparr>])
      | _ \<Rightarrow> flow_err (''each node needs string '' @ quoted ''id'' @ '', '' @ quoted ''agent'' @ '' and '' @ quoted ''task''))"

fun duplicate_id :: "flow_dag \<Rightarrow> cstr option" where
  "duplicate_id [] = None"
| "duplicate_id (nd # nds) = (if fn_id nd \<in> fn_id ` set nds then Some (fn_id nd) else duplicate_id nds)"

definition edge_ends :: "json \<Rightarrow> cstr option \<times> cstr option" where
  "edge_ends je =
     (case je of
        JObj _ \<Rightarrow> (json_string (json_get ''from'' (Some je)), json_string (json_get ''to'' (Some je)))
      | JArr [a, b] \<Rightarrow> (json_string (Some a), json_string (Some b))
      | _ \<Rightarrow> (None, None))"

fun parse_edges :: "json list \<Rightarrow> flow_dag \<Rightarrow> cstr + flow_dag" where
  "parse_edges [] d = Inr d"
| "parse_edges (je # js) d =
     (case edge_ends je of
        (Some from, Some to) \<Rightarrow>
          (case (flow_node_index d from, flow_node_index d to) of
             (Some fi, Some ti) \<Rightarrow> (case flow_add_edge d fi ti of Inl e \<Rightarrow> Inl e | Inr d' \<Rightarrow> parse_edges js d')
           | _ \<Rightarrow> flow_err (''edge references unknown node ('' @ quoted (cbuf 128 from) @ '' -> '' @ quoted (cbuf 128 to) @ '')''))
      | _ \<Rightarrow> flow_err (''each edge needs '' @ quoted ''from'' @ '' and '' @ quoted ''to''))"

text \<open>\<open>strstr\<close>: the text before the first occurrence, and the text after it.\<close>

fun split_at :: "cstr \<Rightarrow> cstr \<Rightarrow> (cstr \<times> cstr) option" where
  "split_at needle [] = (if needle = [] then Some ([], []) else None)"
| "split_at needle (c # cs) =
     (if take (length needle) (c # cs) = needle then Some ([], drop (length needle) (c # cs))
      else map_option (\<lambda>(a, b). (c # a, b)) (split_at needle cs))"

lemma split_at_Some: "split_at n s = Some (a, b) \<Longrightarrow> s = a @ n @ b"
proof (induction s arbitrary: a)
  case (Cons c cs)
  then show ?case
    by (auto split: if_splits) (metis append_take_drop_id)
qed (simp split: if_splits)

lemma split_at_length: "split_at n s = Some (a, b) \<Longrightarrow> length b + length n + length a = length s"
  by (drule split_at_Some) simp

text \<open>The references \<open>{{id}}\<close> of a task, each one an edge into node \<open>i\<close>.\<close>

function parse_refs :: "nat \<Rightarrow> cstr \<Rightarrow> flow_dag \<Rightarrow> cstr + flow_dag" where
  "parse_refs i p d =
     (case split_at ''{{'' p of
        None \<Rightarrow> Inr d
      | Some (_, q) \<Rightarrow>
          (case split_at ''}}'' q of
             None \<Rightarrow> flow_err (''invalid result reference in node '' @ quoted (fn_id (d ! i)))
           | Some (ref, rest) \<Rightarrow>
               if ref = [] \<or> 64 \<le> length ref then flow_err (''invalid result reference in node '' @ quoted (fn_id (d ! i)))
               else case flow_node_index d ref of
                      None \<Rightarrow> flow_err (''unknown result reference '' @ quoted ref @ '' in node '' @ quoted (fn_id (d ! i)))
                    | Some from \<Rightarrow>
                        (case flow_add_edge d from i of Inl e \<Rightarrow> Inl e | Inr d' \<Rightarrow> parse_refs i rest d')))"
  by pat_completeness auto
termination
  by (relation "measure (\<lambda>(i, p, d). length p)") (auto dest!: split_at_length)

declare parse_refs.simps [simp del]

fun parse_all_refs :: "nat list \<Rightarrow> flow_dag \<Rightarrow> cstr + flow_dag" where
  "parse_all_refs [] d = Inr d"
| "parse_all_refs (i # is) d = (case parse_refs i (fn_task (d ! i)) d of Inl e \<Rightarrow> Inl e | Inr d' \<Rightarrow> parse_all_refs is d')"

definition flow_parse :: "(cstr \<Rightarrow> json option) \<Rightarrow> cstr \<Rightarrow> cstr + flow_dag" where
  "flow_parse parse dag_json =
     (let root = parse dag_json in
      if \<not> json_is_object root then flow_err ''invalid JSON document''
      else let jnodes = json_items (json_get ''nodes'' root) in
        if jnodes = [] then flow_err (''missing '' @ quoted ''nodes'' @ '' array'')
        else if FLOW_MAX_NODES < length jnodes then flow_err (''too many nodes (max '' @ nat_str FLOW_MAX_NODES @ '')'')
        else case parse_nodes jnodes [] of
               Inl e \<Rightarrow> Inl e
             | Inr d \<Rightarrow>
                 (case duplicate_id d of
                    Some i \<Rightarrow> flow_err (''duplicate node id '' @ quoted i)
                  | None \<Rightarrow>
                      (case json_get ''edges'' root of
                         None \<Rightarrow> parse_all_refs [0..<length d] d
                       | Some (JArr js) \<Rightarrow>
                           (case parse_edges js d of Inl e \<Rightarrow> Inl e | Inr d' \<Rightarrow> parse_all_refs [0..<length d'] d')
                       | Some _ \<Rightarrow> flow_err ''edges must be an array'')))"

section \<open>Layering\<close>

text \<open>The inner loop over the successors of \<open>u\<close>: in-degrees, layers, queue.\<close>

fun relax :: "nat \<Rightarrow> nat list \<Rightarrow> int list \<times> nat list \<times> nat list \<Rightarrow> int list \<times> nat list \<times> nat list" where
  "relax u [] st = st"
| "relax u (v # vs) (indeg, lay, q) =
     (let lay' = (if lay ! v < lay ! u + 1 then lay[v := lay ! u + 1] else lay);
          indeg' = indeg[v := indeg ! v - 1]
      in relax u vs (indeg', lay', if indeg' ! v = 0 then q @ [v] else q))"

text \<open>The queue holds the entries from \<open>qh\<close> to \<open>qt\<close>; \<open>None\<close> would be a loop that never ends.\<close>

partial_function (option) kahn :: "flow_dag \<Rightarrow> nat list \<Rightarrow> int list \<Rightarrow> nat list \<Rightarrow> nat \<Rightarrow> (nat \<times> nat list) option" where
  [code]: "kahn d q indeg lay cnt =
     (case q of
        [] \<Rightarrow> Some (cnt, lay)
      | u # q' \<Rightarrow> (case relax u (fn_adj (d ! u)) (indeg, lay, q') of (indeg', lay', q'') \<Rightarrow> kahn d q'' indeg' lay' (cnt + 1)))"

definition flow_layer :: "flow_dag \<Rightarrow> (nat \<times> flow_dag) option" where
  "flow_layer d =
     map_option (\<lambda>(cnt, lay). (cnt, map2 (\<lambda>nd l. nd\<lparr>fn_layer := l\<rparr>) d lay))
       (kahn d (filter (\<lambda>i. fn_indeg (d ! i) = 0) [0..<length d]) (map (\<lambda>nd. int (fn_indeg nd)) d) (replicate (length d) 0) 0)"

definition flow_validate :: "(cstr \<Rightarrow> json option) \<Rightarrow> cstr option \<Rightarrow> (cstr + unit) option" where
  "flow_validate parse dag_json =
     (let text = nonnull_or [] dag_json in
      if text = [] then Some (flow_err ''empty flow document'')
      else case flow_parse parse text of
             Inl e \<Rightarrow> Some (Inl e)
           | Inr d \<Rightarrow>
               (case flow_layer d of
                  None \<Rightarrow> None
                | Some (cnt, _) \<Rightarrow> Some (if cnt < length d then flow_err ''cycle detected in flow graph'' else Inr ())))"

section \<open>Well-formed graphs\<close>

definition dag_edges :: "flow_dag \<Rightarrow> (nat \<times> nat) set" where
  "dag_edges d = {(u, v). u < length d \<and> v \<in> set (fn_adj (d ! u))}"

definition wf_dag :: "flow_dag \<Rightarrow> bool" where
  "wf_dag d = (dag_edges d \<subseteq> {..<length d} \<times> {..<length d} \<and> (\<forall>u<length d. distinct (fn_adj (d ! u)) \<and> u \<notin> set (fn_adj (d ! u)))
     \<and> (\<forall>v<length d. fn_indeg (d ! v) = card {u. (u, v) \<in> dag_edges d}))"

lemma dag_edges_iff: "(u, v) \<in> dag_edges d \<longleftrightarrow> u < length d \<and> v \<in> set (fn_adj (d ! u))"
  by (simp add: dag_edges_def)

lemma wf_dag_range: "wf_dag d \<Longrightarrow> (u, v) \<in> dag_edges d \<Longrightarrow> u < length d \<and> v < length d"
  unfolding wf_dag_def by blast

lemma wf_dag_irrefl: "wf_dag d \<Longrightarrow> (u, u) \<notin> dag_edges d"
  unfolding wf_dag_def dag_edges_iff by blast

lemma wf_dag_distinct: "wf_dag d \<Longrightarrow> u < length d \<Longrightarrow> distinct (fn_adj (d ! u))"
  unfolding wf_dag_def by blast

lemma wf_dag_indeg: "wf_dag d \<Longrightarrow> v < length d \<Longrightarrow> fn_indeg (d ! v) = card {u. (u, v) \<in> dag_edges d}"
  unfolding wf_dag_def by blast

lemma wf_dag_finite: "wf_dag d \<Longrightarrow> finite {u. (u, v) \<in> dag_edges d}"
  by (rule finite_subset [of _ "{..<length d}"]) (auto simp: dag_edges_iff)

lemma flow_err_not_Inr [simp]: "flow_err m \<noteq> Inr x" "Inr x \<noteq> flow_err m"
  by (simp_all add: flow_err_def)

lemma add_edge_cases:
  assumes "flow_add_edge d a b = Inr d'"
  obtains "a \<noteq> b" "b \<in> set (fn_adj (d ! a))" "d' = d"
  | "a \<noteq> b" "b \<notin> set (fn_adj (d ! a))"
    "d' = d[a := (d ! a)\<lparr>fn_adj := fn_adj (d ! a) @ [b]\<rparr>, b := (d ! b)\<lparr>fn_indeg := fn_indeg (d ! b) + 1\<rparr>]"
  using assms by (auto simp: flow_add_edge_def Let_def split: if_splits)

lemma add_edge_nth:
  assumes "flow_add_edge d a b = Inr d'" "a < length d" "b < length d"
  shows "length d' = length d"
    and "dag_edges d' = insert (a, b) (dag_edges d)"
    and "fn_id (d' ! i) = fn_id (d ! i)" "fn_task (d' ! i) = fn_task (d ! i)" "fn_agent (d' ! i) = fn_agent (d ! i)"
    and "map fn_id d' = map fn_id d" "map fn_task d' = map fn_task d"
  using assms(1)
  by (cases rule: add_edge_cases; use assms(2-3) in
      \<open>auto simp: dag_edges_iff nth_list_update map_update list_update_id dag_edges_def split: if_splits intro!: nth_equalityI\<close>)+

lemma add_edge_wf:
  assumes "flow_add_edge d a b = Inr d'" "a < length d" "b < length d" "wf_dag d"
  shows "wf_dag d'"
  using assms(1)
proof (cases rule: add_edge_cases)
  case 2
  note E = add_edge_nth(2) [OF assms(1-3)]
  have nE: "(a, b) \<notin> dag_edges d"
    using 2(2) by (simp add: dag_edges_iff)
  have preds: "{u. (u, v) \<in> dag_edges d'} = (if v = b then insert a {u. (u, v) \<in> dag_edges d} else {u. (u, v) \<in> dag_edges d})" for v
    unfolding E by auto
  have adj: "fn_adj (d' ! u) = (if u = a then fn_adj (d ! a) @ [b] else fn_adj (d ! u))" if "u < length d" for u
    using that 2 assms(2-3) by (auto simp: nth_list_update)
  have ind: "fn_indeg (d' ! v) = fn_indeg (d ! v) + (if v = b then 1 else 0)" if "v < length d" for v
    using that 2 assms(2-3) by (auto simp: nth_list_update)
  show ?thesis
    unfolding wf_dag_def add_edge_nth(1) [OF assms(1-3)]
  proof (intro conjI allI impI)
    show "dag_edges d' \<subseteq> {..<length d} \<times> {..<length d}"
      using assms(2-4) unfolding E wf_dag_def by auto
    show "distinct (fn_adj (d' ! u))" "u \<notin> set (fn_adj (d' ! u))" if "u < length d" for u
      using wf_dag_distinct [OF assms(4) that] wf_dag_irrefl [OF assms(4), of u] that 2(1,2)
      by (auto simp: adj dag_edges_iff)
    show "fn_indeg (d' ! v) = card {u. (u, v) \<in> dag_edges d'}" if "v < length d" for v
      using wf_dag_indeg [OF assms(4) that] wf_dag_finite [OF assms(4), of v] nE by (auto simp: ind [OF that] preds)
  qed
qed (use assms(4) in simp)

section \<open>What parsing establishes\<close>

text \<open>The result references of a text, in order, as far as they are closed.\<close>

function task_refs :: "cstr \<Rightarrow> cstr list" where
  "task_refs p =
     (case split_at ''{{'' p of
        None \<Rightarrow> []
      | Some (_, q) \<Rightarrow> (case split_at ''}}'' q of None \<Rightarrow> [] | Some (r, rest) \<Rightarrow> r # task_refs rest))"
  by pat_completeness auto
termination
  by (relation "measure length") (auto dest!: split_at_length)

declare task_refs.simps [simp del]

definition same_nodes :: "flow_dag \<Rightarrow> flow_dag \<Rightarrow> bool" where
  "same_nodes d d' \<longleftrightarrow> map (\<lambda>nd. (fn_id nd, fn_agent nd, fn_task nd)) d' = map (\<lambda>nd. (fn_id nd, fn_agent nd, fn_task nd)) d"

lemma same_nodes_refl [simp]: "same_nodes d d"
  by (simp add: same_nodes_def)

lemma same_nodes_trans: "same_nodes a b \<Longrightarrow> same_nodes b c \<Longrightarrow> same_nodes a c"
  by (simp add: same_nodes_def)

lemma same_nodesD:
  assumes "same_nodes d d'"
  shows "length d' = length d" "map fn_id d' = map fn_id d"
    "i < length d \<Longrightarrow> fn_id (d' ! i) = fn_id (d ! i) \<and> fn_agent (d' ! i) = fn_agent (d ! i) \<and> fn_task (d' ! i) = fn_task (d ! i)"
proof -
  show l: "length d' = length d"
    using assms unfolding same_nodes_def by (rule map_eq_imp_length_eq)
  show "map fn_id d' = map fn_id d"
    using arg_cong [OF assms [unfolded same_nodes_def], of "map fst"] by (simp add: comp_def)
  show "i < length d \<Longrightarrow> fn_id (d' ! i) = fn_id (d ! i) \<and> fn_agent (d' ! i) = fn_agent (d ! i) \<and> fn_task (d' ! i) = fn_task (d ! i)"
    using arg_cong [OF assms [unfolded same_nodes_def], of "\<lambda>xs. xs ! i"] l by simp
qed

lemma find_index_map: "find_index P (map f xs) = find_index (P \<circ> f) xs"
  by (induction xs) auto

lemma flow_node_index_ids: "flow_node_index d i = find_index (\<lambda>x. x = i) (map fn_id d)"
  by (simp add: flow_node_index_def find_index_map comp_def)

lemma flow_node_index_same: "same_nodes d d' \<Longrightarrow> flow_node_index d' i = flow_node_index d i"
  by (simp add: flow_node_index_ids same_nodesD)

lemma flow_node_index_Some:
  "flow_node_index d i = Some u \<Longrightarrow> u < length d \<and> fn_id (d ! u) = i"
  unfolding flow_node_index_def by (drule find_index_SomeD) simp

lemma flow_node_index_distinct:
  assumes "distinct (map fn_id d)"
  shows "flow_node_index d i = Some u \<longleftrightarrow> u < length d \<and> fn_id (d ! u) = i"
  unfolding flow_node_index_def find_index_Some_iff
  using assms by (auto simp: distinct_conv_nth)

lemma add_edge_same:
  assumes "flow_add_edge d a b = Inr d'" "a < length d" "b < length d"
  shows "same_nodes d d'"
  unfolding same_nodes_def
  by (intro nth_equalityI) (simp_all add: add_edge_nth [OF assms])

definition grown :: "flow_dag \<Rightarrow> (nat \<times> nat) set \<Rightarrow> flow_dag \<Rightarrow> bool" where
  "grown d E d' \<longleftrightarrow> same_nodes d d' \<and> wf_dag d' \<and> dag_edges d' = dag_edges d \<union> E"

lemma add_edge_grown:
  assumes "flow_add_edge d a b = Inr d'" "a < length d" "b < length d" "wf_dag d"
  shows "grown d {(a, b)} d'"
  using add_edge_same [OF assms(1-3)] add_edge_wf [OF assms] add_edge_nth(2) [OF assms(1-3)] by (simp add: grown_def)

lemma grown_trans: "grown a E b \<Longrightarrow> grown b F c \<Longrightarrow> grown a (E \<union> F) c"
  by (auto simp: grown_def intro: same_nodes_trans)

lemma grownD: "grown d E d' \<Longrightarrow> wf_dag d' \<and> same_nodes d d' \<and> length d' = length d"
  by (auto simp: grown_def same_nodesD)

lemma parse_edges_grown:
  "parse_edges js d = Inr d' \<Longrightarrow> wf_dag d \<Longrightarrow>
   grown d {(u, v). \<exists>je\<in>set js. \<exists>f t. edge_ends je = (Some f, Some t) \<and> flow_node_index d f = Some u \<and> flow_node_index d t = Some v} d'"
proof (induction js arbitrary: d)
  case Nil
  then show ?case
    by (simp add: grown_def)
next
  case (Cons je js)
  from Cons.prems(1) obtain f t u v d1 where E: "edge_ends je = (Some f, Some t)"
    "flow_node_index d f = Some u" "flow_node_index d t = Some v"
    "flow_add_edge d u v = Inr d1" "parse_edges js d1 = Inr d'"
    by (auto split: prod.splits option.splits sum.splits)
  have g1: "grown d {(u, v)} d1"
    using E(4) Cons.prems(2) E(2,3) [THEN flow_node_index_Some] by (intro add_edge_grown) auto
  note g2 = Cons.IH [OF E(5)] g1 [THEN grownD]
  have idx: "flow_node_index d1 i = flow_node_index d i" for i
    using g1 by (auto simp: grown_def flow_node_index_same)
  have "grown d ({(u, v)} \<union> {(u, v). \<exists>je\<in>set js. \<exists>f t. edge_ends je = (Some f, Some t) \<and> flow_node_index d f = Some u \<and> flow_node_index d t = Some v}) d'"
    using g2 g1 unfolding idx by (blast intro: grown_trans)
  moreover have "{(u, v)} \<union> {(u, v). \<exists>je\<in>set js. \<exists>f t. edge_ends je = (Some f, Some t) \<and> flow_node_index d f = Some u \<and> flow_node_index d t = Some v}
    = {(u, v). \<exists>je\<in>set (je # js). \<exists>f t. edge_ends je = (Some f, Some t) \<and> flow_node_index d f = Some u \<and> flow_node_index d t = Some v}"
    using E(1-3) by auto
  ultimately show ?case
    by simp
qed

lemma parse_refs_grown:
  "parse_refs i p d = Inr d' \<Longrightarrow> wf_dag d \<Longrightarrow> i < length d \<Longrightarrow>
   grown d {(u, v). v = i \<and> (\<exists>r\<in>set (task_refs p). flow_node_index d r = Some u)} d'"
proof (induction i p d rule: parse_refs.induct)
  case (1 i p d)
  show ?case
  proof (cases "split_at ''{{'' p")
    case None
    then show ?thesis
      using "1.prems" by (simp add: parse_refs.simps [of i p d] task_refs.simps [of p] grown_def)
  next
    case (Some a)
    obtain x q where a: "a = (x, q)"
      by (cases a)
    obtain r rest u d1 where E: "split_at ''}}'' q = Some (r, rest)" "\<not> (r = [] \<or> 64 \<le> length r)"
      "flow_node_index d r = Some u" "flow_add_edge d u i = Inr d1" "parse_refs i rest d1 = Inr d'"
      using "1.prems"(1) Some a
      by (subst (asm) parse_refs.simps) (auto split: option.splits prod.splits if_splits sum.splits)
    have g1: "grown d {(u, i)} d1"
      using E(4) "1.prems" E(3) [THEN flow_node_index_Some] by (intro add_edge_grown) auto
    note IH = "1.IH" [OF Some a [symmetric] E(1) refl E(2,3,4,5)]
    have idx: "flow_node_index d1 i = flow_node_index d i" for i
      using g1 by (auto simp: grown_def flow_node_index_same)
    have refs: "task_refs p = r # task_refs rest"
      using Some a E(1) by (simp add: task_refs.simps [of p])
    have "grown d ({(u, i)} \<union> {(u, v). v = i \<and> (\<exists>r\<in>set (task_refs rest). flow_node_index d r = Some u)}) d'"
      using IH g1 [THEN grownD] "1.prems"(3) unfolding idx by (intro grown_trans [OF g1]) auto
    moreover have "{(u, i)} \<union> {(u, v). v = i \<and> (\<exists>r\<in>set (task_refs rest). flow_node_index d r = Some u)}
      = {(u, v). v = i \<and> (\<exists>r\<in>set (task_refs p). flow_node_index d r = Some u)}"
      using E(3) by (auto simp: refs)
    ultimately show ?thesis
      by simp
  qed
qed

lemma parse_all_refs_grown:
  "parse_all_refs is d = Inr d' \<Longrightarrow> wf_dag d \<Longrightarrow> \<forall>i\<in>set is. i < length d \<Longrightarrow>
   grown d {(u, v). v \<in> set is \<and> (\<exists>r\<in>set (task_refs (fn_task (d ! v))). flow_node_index d r = Some u)} d'"
proof (induction "is" arbitrary: d)
  case Nil
  then show ?case
    by (simp add: grown_def)
next
  case (Cons i "is")
  from Cons.prems(1) obtain d1 where E: "parse_refs i (fn_task (d ! i)) d = Inr d1" "parse_all_refs is d1 = Inr d'"
    by (auto split: sum.splits)
  have g1: "grown d {(u, v). v = i \<and> (\<exists>r\<in>set (task_refs (fn_task (d ! i))). flow_node_index d r = Some u)} d1"
    using Cons.prems by (intro parse_refs_grown [OF E(1)]) auto
  have idx: "flow_node_index d1 r = flow_node_index d r" for r
    using g1 by (auto simp: grown_def flow_node_index_same)
  have tk: "fn_task (d1 ! v) = fn_task (d ! v)" if "v \<in> set is" for v
    using g1 that Cons.prems(3) by (auto simp: grown_def same_nodesD)
  have "grown d1 {(u, v). v \<in> set is \<and> (\<exists>r\<in>set (task_refs (fn_task (d1 ! v))). flow_node_index d1 r = Some u)} d'"
    using Cons.IH [OF E(2)] g1 [THEN grownD] Cons.prems(3) by auto
  also have "{(u, v). v \<in> set is \<and> (\<exists>r\<in>set (task_refs (fn_task (d1 ! v))). flow_node_index d1 r = Some u)}
    = {(u, v). v \<in> set is \<and> (\<exists>r\<in>set (task_refs (fn_task (d ! v))). flow_node_index d r = Some u)}"
    using tk by (auto simp: idx)
  finally have "grown d ({(u, v). v = i \<and> (\<exists>r\<in>set (task_refs (fn_task (d ! i))). flow_node_index d r = Some u)}
      \<union> {(u, v). v \<in> set is \<and> (\<exists>r\<in>set (task_refs (fn_task (d ! v))). flow_node_index d r = Some u)}) d'"
    by (rule grown_trans [OF g1])
  also have "{(u, v). v = i \<and> (\<exists>r\<in>set (task_refs (fn_task (d ! i))). flow_node_index d r = Some u)}
      \<union> {(u, v). v \<in> set is \<and> (\<exists>r\<in>set (task_refs (fn_task (d ! v))). flow_node_index d r = Some u)}
    = {(u, v). v \<in> set (i # is) \<and> (\<exists>r\<in>set (task_refs (fn_task (d ! v))). flow_node_index d r = Some u)}"
    by auto
  finally show ?case .
qed

definition fresh_nodes :: "flow_dag \<Rightarrow> bool" where
  "fresh_nodes d \<longleftrightarrow> (\<forall>nd\<in>set d. fn_adj nd = [] \<and> fn_indeg nd = 0 \<and> fn_layer nd = 0
     \<and> length (fn_id nd) < 64 \<and> length (fn_agent nd) < 64 \<and> length (fn_task nd) < FLOW_MAX_TASKLEN
     \<and> fn_id nd \<noteq> [] \<and> fn_agent nd \<noteq> [] \<and> fn_task nd \<noteq> [])"

lemma json_nonempty_string_Some: "json_nonempty_string j = Some s \<longleftrightarrow> j = Some (JStr s) \<and> s \<noteq> []"
  by (cases j rule: json_nonempty_string.cases) auto

lemma parse_nodes_ok:
  "parse_nodes js d = Inr d' \<Longrightarrow> fresh_nodes d \<Longrightarrow> length d' = length d + length js \<and> fresh_nodes d'"
proof (induction js arbitrary: d)
  case (Cons jn js)
  obtain i ag tk where E: "json_nonempty_string (json_get ''id'' (Some jn)) = Some i"
    "json_nonempty_string (json_get ''agent'' (Some jn)) = Some ag"
    "json_nonempty_string (json_get ''task'' (Some jn)) = Some tk"
    "\<not> (64 \<le> length i \<or> 64 \<le> length ag \<or> FLOW_MAX_TASKLEN \<le> length tk)"
    "parse_nodes js (d @ [\<lparr>fn_id = i, fn_agent = ag, fn_task = tk, fn_layer = 0, fn_indeg = 0, fn_adj = []\<rparr>]) = Inr d'"
    using Cons.prems(1) by (auto split: option.splits if_splits)
  have "fresh_nodes (d @ [\<lparr>fn_id = i, fn_agent = ag, fn_task = tk, fn_layer = 0, fn_indeg = 0, fn_adj = []\<rparr>])"
    using Cons.prems(2) E(1-4) by (simp add: fresh_nodes_def json_nonempty_string_Some)
  from Cons.IH [OF E(5) this] show ?case
    by simp
qed simp

lemma duplicate_id_None: "duplicate_id d = None \<longleftrightarrow> distinct (map fn_id d)"
  by (induction d) auto

lemma fresh_nodes_wf:
  assumes "fresh_nodes d"
  shows "wf_dag d" "dag_edges d = {}"
proof -
  show e: "dag_edges d = {}"
    using assms nth_mem unfolding fresh_nodes_def dag_edges_def by fastforce
  show "wf_dag d"
    using assms nth_mem unfolding wf_dag_def e fresh_nodes_def by fastforce
qed

lemma flow_parse_spec:
  assumes "flow_parse parse doc = Inr d"
  shows "wf_dag d" "distinct (map fn_id d)" "0 < length d" "length d \<le> FLOW_MAX_NODES"
    "dag_edges d = {(u, v). u < length d \<and> v < length d
       \<and> ((\<exists>je\<in>set (json_items (json_get ''edges'' (parse doc))). edge_ends je = (Some (fn_id (d ! u)), Some (fn_id (d ! v))))
          \<or> fn_id (d ! u) \<in> set (task_refs (fn_task (d ! v))))}"
proof -
  let ?jn = "json_items (json_get ''nodes'' (parse doc))"
  let ?je = "json_items (json_get ''edges'' (parse doc))"
  obtain d0 d1 where E: "?jn \<noteq> []" "length ?jn \<le> FLOW_MAX_NODES" "parse_nodes ?jn [] = Inr d0" "duplicate_id d0 = None"
    "parse_edges ?je d0 = Inr d1" "parse_all_refs [0..<length d1] d1 = Inr d"
    using assms by (auto simp: flow_parse_def Let_def split: if_splits sum.splits option.splits json.splits)
  have d0: "length d0 = length ?jn" "fresh_nodes d0"
    using parse_nodes_ok [OF E(3)] by (simp_all add: fresh_nodes_def)
  note w0 = fresh_nodes_wf [OF d0(2)]
  note g1 = parse_edges_grown [OF E(5) w0(1)]
  have w1: "wf_dag d1" and s1: "same_nodes d0 d1"
    using g1 [THEN grownD] by simp_all
  have g2: "grown d1 {(u, v). v \<in> set [0..<length d1] \<and> (\<exists>r\<in>set (task_refs (fn_task (d1 ! v))). flow_node_index d1 r = Some u)} d"
    by (rule parse_all_refs_grown [OF E(6) w1]) simp
  have s2: "same_nodes d1 d" and s: "same_nodes d0 d" and w: "wf_dag d"
    using g2 s1 same_nodes_trans by (auto simp: grown_def)
  show "wf_dag d"
    by (fact w)
  show dist: "distinct (map fn_id d)"
    using E(4) same_nodesD [OF s] by (simp add: duplicate_id_None)
  show "0 < length d" "length d \<le> FLOW_MAX_NODES"
    using E(1,2) d0 same_nodesD [OF s] by auto
  have idx: "flow_node_index d1 i = Some u \<longleftrightarrow> u < length d \<and> fn_id (d ! u) = i"
    "flow_node_index d0 i = Some u \<longleftrightarrow> u < length d \<and> fn_id (d ! u) = i" for i u
    using flow_node_index_distinct [OF dist] flow_node_index_same [OF s] flow_node_index_same [OF s2] by simp_all
  have tk: "fn_task (d1 ! v) = fn_task (d ! v)" if "v < length d1" for v
    using same_nodesD(3) [OF s2 that] by simp
  have len: "length d1 = length d"
    using same_nodesD(1) [OF s2] by simp
  have "dag_edges d = {(u, v). \<exists>je\<in>set ?je. \<exists>f t. edge_ends je = (Some f, Some t) \<and> flow_node_index d0 f = Some u \<and> flow_node_index d0 t = Some v}
    \<union> {(u, v). v \<in> set [0..<length d1] \<and> (\<exists>r\<in>set (task_refs (fn_task (d1 ! v))). flow_node_index d1 r = Some u)}"
    using g1 g2 w0(2) by (auto simp: grown_def)
  also have "\<dots> = {(u, v). u < length d \<and> v < length d
       \<and> ((\<exists>je\<in>set ?je. edge_ends je = (Some (fn_id (d ! u)), Some (fn_id (d ! v))))
          \<or> fn_id (d ! u) \<in> set (task_refs (fn_task (d ! v))))}"
    using tk unfolding idx len by auto
  finally show "dag_edges d = {(u, v). u < length d \<and> v < length d
       \<and> ((\<exists>je\<in>set ?je. edge_ends je = (Some (fn_id (d ! u)), Some (fn_id (d ! v))))
          \<or> fn_id (d ! u) \<in> set (task_refs (fn_task (d ! v))))}" .
qed

end
