(* ===== verification/FlowLayer.thy ===== *)
theory FlowLayer
  imports FlowDag
begin

text \<open>
  The layering of \<open>FlowDag\<close> is Kahn's algorithm: an invariant on the queue, the working in-degrees and the layers shows
  that the loop ends, that it reaches every node exactly when the dependencies have no cycle, and that a layer is one
  more than the largest layer among a node's dependencies.
\<close>

section \<open>One node of the queue\<close>

lemma relax_length:
  "relax u vs (indeg, lay, q) = (indeg', lay', q') \<Longrightarrow> length indeg' = length indeg \<and> length lay' = length lay"
  by (induction vs arbitrary: indeg lay q) (auto simp: Let_def split: if_splits)

lemma relax_spec:
  assumes "relax u vs (indeg, lay, q) = (indeg', lay', q')" "distinct vs" "u \<notin> set vs"
    "\<forall>v\<in>set vs. v < length indeg" "length lay = length indeg"
  shows "indeg' ! v = indeg ! v - (if v \<in> set vs then 1 else 0)"
    and "lay' ! v = (if v \<in> set vs then max (lay ! v) (lay ! u + 1) else lay ! v)"
    and "q' = q @ filter (\<lambda>v. indeg ! v = 1) vs"
proof -
  have "indeg' ! v = indeg ! v - (if v \<in> set vs then 1 else 0)
    \<and> lay' ! v = (if v \<in> set vs then max (lay ! v) (lay ! u + 1) else lay ! v)
    \<and> q' = q @ filter (\<lambda>v. indeg ! v = 1) vs" for v
    using assms
  proof (induction vs arbitrary: indeg lay q)
    case (Cons w vs)
    let ?lay = "if lay ! w < lay ! u + 1 then lay[w := lay ! u + 1] else lay"
    let ?indeg = "indeg[w := indeg ! w - 1]"
    have w: "w < length indeg" "w < length lay" "w \<noteq> u" "w \<notin> set vs" "u \<notin> set vs"
      using Cons.prems by auto
    have r: "relax u vs (?indeg, ?lay, if indeg ! w = 1 then q @ [w] else q) = (indeg', lay', q')"
      using Cons.prems(1) w by (simp add: Let_def)
    have lens: "length ?lay = length ?indeg"
      using Cons.prems(5) by simp
    have bnd: "\<forall>v\<in>set vs. v < length ?indeg"
      using Cons.prems(4) by simp
    note IH = Cons.IH [OF r _ w(5) bnd lens]
    have d: "distinct vs"
      using Cons.prems(2) by simp
    have layu: "?lay ! u = lay ! u"
      using w by simp
    have layv: "?lay ! v = (if v = w then max (lay ! w) (lay ! u + 1) else lay ! v)" for v
      using w by (simp add: nth_list_update max_def)
    have f: "filter (\<lambda>v. ?indeg ! v = 1) vs = filter (\<lambda>v. indeg ! v = 1) vs"
      using w(4) by (intro filter_cong refl) (metis nth_list_update_neq)
    show ?case
      using IH [OF d] w unfolding f layu layv by (auto simp: nth_list_update)
  qed simp
  then show "indeg' ! v = indeg ! v - (if v \<in> set vs then 1 else 0)"
    and "lay' ! v = (if v \<in> set vs then max (lay ! v) (lay ! u + 1) else lay ! v)"
    and "q' = q @ filter (\<lambda>v. indeg ! v = 1) vs"
    by simp_all
qed

section \<open>The invariant\<close>

definition open_preds :: "flow_dag \<Rightarrow> nat set \<Rightarrow> nat \<Rightarrow> nat set" where
  "open_preds d P v = {u. (u, v) \<in> dag_edges d \<and> u \<notin> P}"

record kstate =
  k_queue :: "nat list"
  k_indeg :: "int list"
  k_lay :: "nat list"
  k_cnt :: nat

definition kinv :: "flow_dag \<Rightarrow> nat set \<Rightarrow> kstate \<Rightarrow> bool" where
  "kinv d P s \<longleftrightarrow>
     length (k_indeg s) = length d \<and> length (k_lay s) = length d \<and> P \<subseteq> {..<length d} \<and> k_cnt s = card P
     \<and> distinct (k_queue s) \<and> set (k_queue s) \<inter> P = {}
     \<and> (\<forall>v<length d. k_indeg s ! v = int (card (open_preds d P v)))
     \<and> (\<forall>v. v \<in> P \<union> set (k_queue s) \<longleftrightarrow> v < length d \<and> open_preds d P v = {})
     \<and> (\<forall>u\<in>P. \<forall>v. (u, v) \<in> dag_edges d \<longrightarrow> k_lay s ! u < k_lay s ! v)
     \<and> (\<forall>v<length d. k_lay s ! v \<noteq> 0 \<longrightarrow> (\<exists>u\<in>P. (u, v) \<in> dag_edges d \<and> k_lay s ! v = k_lay s ! u + 1))"

lemma open_preds_finite: "wf_dag d \<Longrightarrow> finite (open_preds d P v)"
  by (rule finite_subset [OF _ wf_dag_finite]) (auto simp: open_preds_def)

lemma open_preds_insert:
  "open_preds d (insert u P) v = open_preds d P v - {u}"
  by (auto simp: open_preds_def)

definition kstep :: "flow_dag \<Rightarrow> kstate \<Rightarrow> kstate" where
  "kstep d s =
     (case relax (hd (k_queue s)) (fn_adj (d ! hd (k_queue s))) (k_indeg s, k_lay s, tl (k_queue s)) of
        (indeg, lay, q) \<Rightarrow> \<lparr>k_queue = q, k_indeg = indeg, k_lay = lay, k_cnt = k_cnt s + 1\<rparr>)"

lemma kahn_kstep:
  "kahn d (k_queue s) (k_indeg s) (k_lay s) (k_cnt s) =
     (if k_queue s = [] then Some (k_cnt s, k_lay s)
      else let s' = kstep d s in kahn d (k_queue s') (k_indeg s') (k_lay s') (k_cnt s'))"
  by (subst kahn.simps) (simp add: kstep_def split: list.split prod.split)

lemma kinv_step:
  assumes wf: "wf_dag d" and inv: "kinv d P s" and ne: "k_queue s = u # q"
  shows "kinv d (insert u P) (kstep d s)" "u < length d" "u \<notin> P"
proof -
  note I = inv [unfolded kinv_def]
  have u: "u < length d" "u \<notin> P" "open_preds d P u = {}"
    using I ne by (metis UnCI list.set_intros(1), auto)
  show "u < length d" "u \<notin> P"
    by (fact u)+
  obtain indeg lay qs where r: "relax u (fn_adj (d ! u)) (k_indeg s, k_lay s, q) = (indeg, lay, qs)"
    by (cases "relax u (fn_adj (d ! u)) (k_indeg s, k_lay s, q)") auto
  have lens: "length (k_indeg s) = length d" "length (k_lay s) = length d"
    using I by blast+
  have dist: "distinct (fn_adj (d ! u))" and irr: "u \<notin> set (fn_adj (d ! u))"
    using wf_dag_distinct [OF wf u(1)] wf_dag_irrefl [OF wf, of u] u(1) by (auto simp: dag_edges_iff)
  have succ: "v \<in> set (fn_adj (d ! u)) \<longleftrightarrow> (u, v) \<in> dag_edges d" for v
    using u(1) by (simp add: dag_edges_iff)
  have rng: "\<forall>v\<in>set (fn_adj (d ! u)). v < length (k_indeg s)"
    using wf_dag_range [OF wf, of u] lens by (simp add: succ)
  have lens2: "length (k_lay s) = length (k_indeg s)"
    using lens by simp
  note R = relax_spec [OF r dist irr rng lens2]
  have ind: "k_indeg s ! v = int (card (open_preds d P v))" if "v < length d" for v
    using I that by blast
  have mem: "v \<in> P \<union> set (k_queue s) \<longleftrightarrow> v < length d \<and> open_preds d P v = {}" for v
    using I by blast
  have one: "k_indeg s ! v = 1 \<longleftrightarrow> open_preds d P v = {u}" if "(u, v) \<in> dag_edges d" for v
  proof -
    have "u \<in> open_preds d P v" "v < length d"
      using that u wf_dag_range [OF wf that] by (simp_all add: open_preds_def)
    then show ?thesis
      by (auto simp: ind card_1_singleton_iff)
  qed
  have notP: "(u, v) \<notin> dag_edges d" if "v \<in> P \<union> set (k_queue s)" for v
    using mem [of v] that u(2) by (auto simp: open_preds_def)
  have fields: "k_queue (kstep d s) = qs" "k_indeg (kstep d s) = indeg" "k_lay (kstep d s) = lay"
    "k_cnt (kstep d s) = k_cnt s + 1"
    by (simp_all add: kstep_def ne r)
  have qs: "set qs = set q \<union> {v. (u, v) \<in> dag_edges d \<and> open_preds d P v = {u}}"
    unfolding R(3) using one by (auto simp: succ)
  have layP: "lay ! a = k_lay s ! a" if "a \<in> insert u P" for a
    using that notP [of a] wf_dag_irrefl [OF wf, of u] by (auto simp: R(2) succ)
  have grow: "k_lay s ! v \<le> lay ! v" for v
    by (simp add: R(2) succ)
  have witness: "\<forall>v<length d. k_lay s ! v \<noteq> 0 \<longrightarrow> (\<exists>a\<in>P. (a, v) \<in> dag_edges d \<and> k_lay s ! v = k_lay s ! a + 1)"
    using I by (elim conjE)
  have dq: "distinct q" "u \<notin> set q" "set q \<inter> P = {}"
    using I ne by auto
  have nq: "(u, v) \<notin> dag_edges d" if "v \<in> set q" for v
    using notP [of v] that ne by simp
  have Pfin: "finite P"
    using I finite_subset by blast
  show "kinv d (insert u P) (kstep d s)"
    unfolding kinv_def fields
  proof (intro conjI allI impI ballI)
    show "length indeg = length d" "length lay = length d"
      using relax_length [OF r] lens by simp_all
    show "insert u P \<subseteq> {..<length d}"
      using I u(1) by blast
    show "k_cnt s + 1 = card (insert u P)"
      using I u(2) Pfin by simp
    show "distinct qs"
      using dq dist nq unfolding R(3) by (simp, blast dest: succ [THEN iffD1])
    show "set qs \<inter> insert u P = {}"
      using dq notP wf_dag_irrefl [OF wf, of u] unfolding qs by blast
    show "indeg ! v = int (card (open_preds d (insert u P) v))" if "v < length d" for v
    proof (cases "(u, v) \<in> dag_edges d")
      case True
      then have "u \<in> open_preds d P v"
        using u(2) by (simp add: open_preds_def)
      then show ?thesis
        using card_Suc_Diff1 [OF open_preds_finite [OF wf], of u P v] True
        by (simp add: R(1) succ ind [OF that] open_preds_insert)
    qed (simp add: R(1) succ ind [OF that] open_preds_def, metis)
    show "v \<in> insert u P \<union> set qs \<longleftrightarrow> v < length d \<and> open_preds d (insert u P) v = {}" for v
    proof -
      have "open_preds d P v - {u} = {} \<longleftrightarrow> open_preds d P v = {} \<or> open_preds d P v = {u}"
        by blast
      moreover have "open_preds d P v = {u} \<Longrightarrow> (u, v) \<in> dag_edges d \<and> v < length d"
        using wf_dag_range [OF wf, of u v] by (auto simp: open_preds_def)
      ultimately show ?thesis
        using mem [of v] ne unfolding qs open_preds_insert by auto
    qed
    show "lay ! a < lay ! v" if "a \<in> insert u P" "(a, v) \<in> dag_edges d" for a v
    proof (cases "a = u")
      case True
      then show ?thesis
        using that irr by (simp add: R(2) succ less_max_iff_disj)
    next
      case False
      then have "k_lay s ! a < k_lay s ! v"
        using that I by blast
      then show ?thesis
        using layP [OF that(1)] grow [of v] by simp
    qed
    show "\<exists>a\<in>insert u P. (a, v) \<in> dag_edges d \<and> lay ! v = lay ! a + 1" if v: "v < length d" "lay ! v \<noteq> 0" for v
    proof (cases "lay ! v = k_lay s ! v")
      case True
      then obtain a where "a \<in> P" "(a, v) \<in> dag_edges d" "k_lay s ! v = k_lay s ! a + 1"
        using witness v by auto
      then show ?thesis
        using True layP [of a] by auto
    next
      case False
      then have "(u, v) \<in> dag_edges d" "lay ! v = lay ! u + 1"
        using layP [of u] by (auto simp: R(2) succ split: if_splits)
      then show ?thesis
        by blast
    qed
  qed
qed

section \<open>The loop\<close>

lemma kahn_result:
  assumes wf: "wf_dag d"
  shows "kinv d P s \<Longrightarrow> \<exists>P' s'. kahn d (k_queue s) (k_indeg s) (k_lay s) (k_cnt s) = Some (k_cnt s', k_lay s') \<and> kinv d P' s' \<and> k_queue s' = []"
proof (induction "length d - card P" arbitrary: P s rule: less_induct)
  case less
  show ?case
  proof (cases "k_queue s")
    case Nil
    then show ?thesis
      using less.prems kahn_kstep [of d s] by auto
  next
    case (Cons u q)
    note K = kinv_step [OF wf less.prems Cons]
    have P: "P \<subseteq> {..<length d}"
      using less.prems unfolding kinv_def by blast
    have fin: "finite P"
      using P finite_subset by blast
    have "card (insert u P) \<le> card {..<length d}"
      using P K(2) by (intro card_mono) auto
    then have "length d - card (insert u P) < length d - card P"
      using fin K(3) by simp
    from less.hyps [OF this K(1)] show ?thesis
      using Cons kahn_kstep [of d s] by (simp add: Let_def)
  qed
qed

definition kstart :: "flow_dag \<Rightarrow> kstate" where
  "kstart d = \<lparr>k_queue = filter (\<lambda>i. fn_indeg (d ! i) = 0) [0..<length d], k_indeg = map (\<lambda>nd. int (fn_indeg nd)) d,
     k_lay = replicate (length d) 0, k_cnt = 0\<rparr>"

lemma kinv_start:
  assumes wf: "wf_dag d"
  shows "kinv d {} (kstart d)"
proof -
  have "open_preds d {} v = {u. (u, v) \<in> dag_edges d}" for v
    by (simp add: open_preds_def)
  then show ?thesis
    using wf_dag_indeg [OF wf] wf_dag_finite [OF wf] by (auto simp: kinv_def kstart_def)
qed

lemma kinv_final_acyclic:
  assumes wf: "wf_dag d" and inv: "kinv d P s" and e: "k_queue s = []"
  shows "k_cnt s = length d \<longleftrightarrow> acyclic (dag_edges d)" "k_cnt s \<le> length d"
proof -
  note I = inv [unfolded kinv_def]
  have P: "P \<subseteq> {..<length d}" and cnt: "k_cnt s = card P"
    using I by blast+
  have all: "card P = length d \<longleftrightarrow> P = {..<length d}"
    using P card_subset_eq [of "{..<length d}" P] by auto
  have mem: "v \<in> P \<longleftrightarrow> v < length d \<and> open_preds d P v = {}" for v
    using I e by (metis Un_empty_right list.set(1))
  show "k_cnt s \<le> length d"
    using card_mono [OF _ P] cnt by simp
  show "k_cnt s = length d \<longleftrightarrow> acyclic (dag_edges d)"
  proof
    assume "k_cnt s = length d"
    then have "P = {..<length d}"
      using all cnt by simp
    then have "k_lay s ! u < k_lay s ! v" if "(u, v) \<in> dag_edges d" for u v
      using that I wf_dag_range [OF wf that] by blast
    then have "dag_edges d \<subseteq> measure (\<lambda>u. k_lay s ! u)"
      by auto
    then show "acyclic (dag_edges d)"
      using wf_measure wf_acyclic wf_subset by blast
  next
    assume "acyclic (dag_edges d)"
    then have "Wellfounded.wf (dag_edges d)"
      using finite_acyclic_wf finite_subset [of "dag_edges d" "{..<length d} \<times> {..<length d}"] wf
      unfolding wf_dag_def by blast
    then have "v < length d \<longrightarrow> v \<in> P" for v
    proof (induction v rule: wf_induct_rule)
      case (less v)
      then show ?case
        using mem [of v] wf_dag_range [OF assms(1)] by (auto simp: open_preds_def)
    qed
    then show "k_cnt s = length d"
      using P all cnt by auto
  qed
qed

lemma flow_layer_result:
  assumes "wf_dag d"
  obtains P s where "flow_layer d = Some (k_cnt s, map2 (\<lambda>nd l. nd\<lparr>fn_layer := l\<rparr>) d (k_lay s))" "kinv d P s" "k_queue s = []"
proof -
  obtain P s where "kahn d (k_queue (kstart d)) (k_indeg (kstart d)) (k_lay (kstart d)) (k_cnt (kstart d)) = Some (k_cnt s, k_lay s)"
    "kinv d P s" "k_queue s = []"
    using kahn_result [OF assms kinv_start [OF assms]] by blast
  then show thesis
    by (intro that [of s P]) (simp_all add: flow_layer_def kstart_def)
qed

section \<open>Validation and layers\<close>

lemma flow_validate_text:
  "flow_validate parse doc =
     (case doc of
        None \<Rightarrow> Some (flow_err ''empty flow document'')
      | Some [] \<Rightarrow> Some (flow_err ''empty flow document'')
      | Some text \<Rightarrow>
          (case flow_parse parse text of
             Inl e \<Rightarrow> Some (Inl e)
           | Inr d \<Rightarrow> map_option (\<lambda>(cnt, _). if cnt < length d then flow_err ''cycle detected in flow graph'' else Inr ()) (flow_layer d)))"
  by (auto simp: flow_validate_def nonnull_or_def split: option.split list.split sum.split)

lemma flow_layer_acyclic:
  assumes "wf_dag d"
  shows "\<exists>cnt d'. flow_layer d = Some (cnt, d') \<and> cnt \<le> length d \<and> (cnt = length d \<longleftrightarrow> acyclic (dag_edges d))"
proof -
  obtain P s where "flow_layer d = Some (k_cnt s, map2 (\<lambda>nd l. nd\<lparr>fn_layer := l\<rparr>) d (k_lay s))" "kinv d P s" "k_queue s = []"
    by (rule flow_layer_result [OF assms])
  then show ?thesis
    using kinv_final_acyclic [OF assms] by blast
qed

text \<open>A parsed flow has between 1 and 64 nodes with distinct ids, and its dependencies are
  exactly the edges the document lists and the nodes whose result a task refers to.\<close>

theorem flow_parse_dependencies:
  assumes "flow_parse parse doc = Inr d"
  shows "0 < length d \<and> length d \<le> FLOW_MAX_NODES \<and> distinct (map fn_id d) \<and> acyclic (dag_edges d \<inter> Id)
     \<and> dag_edges d = {(u, v). u < length d \<and> v < length d
       \<and> ((\<exists>je\<in>set (json_items (json_get ''edges'' (parse doc))). edge_ends je = (Some (fn_id (d ! u)), Some (fn_id (d ! v))))
          \<or> fn_id (d ! u) \<in> set (task_refs (fn_task (d ! v))))}"
proof -
  note S = flow_parse_spec [OF assms]
  have "dag_edges d \<inter> Id = {}"
    using wf_dag_irrefl [OF S(1)] by auto
  then show ?thesis
    using S by (simp add: acyclic_def)
qed

text \<open>C10: Validation always ends, and accepts exactly the documents that parse to a flow whose
  dependencies have no cycle.\<close>

theorem flow_validate_acyclic:
  "flow_validate parse doc \<noteq> None
   \<and> (flow_validate parse doc = Some (Inr ())
      \<longleftrightarrow> (\<exists>text d. doc = Some text \<and> text \<noteq> [] \<and> flow_parse parse text = Inr d \<and> acyclic (dag_edges d)))"
proof (cases doc)
  case (Some body)
  show ?thesis
  proof (cases "body = []")
    case False
    then obtain c cs where t: "body = c # cs"
      by (cases body) auto
    show ?thesis
    proof (cases "flow_parse parse body")
      case (Inr d)
      then show ?thesis
        using flow_layer_acyclic [OF flow_parse_spec(1) [OF Inr]] Some t by (auto simp: flow_validate_text)
    qed (use Some t in \<open>simp add: flow_validate_text\<close>)
  qed (use Some in \<open>simp add: flow_validate_text\<close>)
qed (simp add: flow_validate_text)

text \<open>In a flow without a cycle the layer of a node is one more than the largest layer of
  its dependencies, and 0 when it has none.\<close>

theorem flow_layers_longest_path:
  assumes "flow_parse parse doc = Inr d" "acyclic (dag_edges d)"
  shows "\<exists>d'. flow_layer d = Some (length d, d') \<and> length d' = length d
    \<and> (\<forall>v<length d. fn_layer (d' ! v) = Max (insert 0 ((\<lambda>u. fn_layer (d' ! u) + 1) ` {u. (u, v) \<in> dag_edges d})))"
proof -
  note wf = flow_parse_spec(1) [OF assms(1)]
  obtain P s where L: "flow_layer d = Some (k_cnt s, map2 (\<lambda>nd l. nd\<lparr>fn_layer := l\<rparr>) d (k_lay s))"
    and inv: "kinv d P s" and e: "k_queue s = []"
    by (rule flow_layer_result [OF wf])
  let ?d = "map2 (\<lambda>nd l. nd\<lparr>fn_layer := l\<rparr>) d (k_lay s)"
  have len: "length (k_lay s) = length d" "k_cnt s = card P" "P \<subseteq> {..<length d}"
    using inv unfolding kinv_def by - (elim conjE, assumption)+
  have up: "\<forall>u\<in>P. \<forall>v. (u, v) \<in> dag_edges d \<longrightarrow> k_lay s ! u < k_lay s ! v"
    using inv unfolding kinv_def by (elim conjE)
  have witness: "\<forall>v<length d. k_lay s ! v \<noteq> 0 \<longrightarrow> (\<exists>a\<in>P. (a, v) \<in> dag_edges d \<and> k_lay s ! v = k_lay s ! a + 1)"
    using inv unfolding kinv_def by (elim conjE)
  have full: "k_cnt s = length d"
    using kinv_final_acyclic [OF wf inv e] assms(2) by simp
  then have Peq: "P = {..<length d}"
    using len card_subset_eq [of "{..<length d}" P] by simp
  have lay: "fn_layer (?d ! v) = k_lay s ! v" if "v < length d" for v
    using that len by simp
  have "fn_layer (?d ! v) = Max (insert 0 ((\<lambda>u. fn_layer (?d ! u) + 1) ` {u. (u, v) \<in> dag_edges d}))" if v: "v < length d" for v
  proof (rule Max_eqI [symmetric])
    have preds: "u < length d" if "(u, v) \<in> dag_edges d" for u
      using wf_dag_range [OF wf that] by simp
    show "finite (insert 0 ((\<lambda>u. fn_layer (?d ! u) + 1) ` {u. (u, v) \<in> dag_edges d}))"
      using wf_dag_finite [OF wf] by simp
    show "y \<le> fn_layer (?d ! v)" if "y \<in> insert 0 ((\<lambda>u. fn_layer (?d ! u) + 1) ` {u. (u, v) \<in> dag_edges d})" for y
      using that up preds unfolding lay [OF v] Peq by (auto simp: lay Suc_le_eq)
    show "fn_layer (?d ! v) \<in> insert 0 ((\<lambda>u. fn_layer (?d ! u) + 1) ` {u. (u, v) \<in> dag_edges d})"
    proof (cases "k_lay s ! v = 0")
      case False
      then obtain u where "(u, v) \<in> dag_edges d" "k_lay s ! v = k_lay s ! u + 1"
        using witness v by blast
      then show ?thesis
        using preds [of u] by (auto simp: lay lay [OF v] intro!: rev_image_eqI)
    qed (simp add: lay [OF v])
  qed
  then show ?thesis
    using L full len by (intro exI [of _ ?d]) simp
qed

text \<open>A document with two nodes, one of which refers to the other's result.\<close>

definition sample_flow :: "cstr \<Rightarrow> json option" where
  "sample_flow t = Some (JObj [(''nodes'', JArr
     [JObj [(''id'', JStr ''a''), (''agent'', JStr ''x''), (''task'', JStr ''use {{b}}'')],
      JObj [(''id'', JStr ''b''), (''agent'', JStr ''y''), (''task'', JStr ''find'')]])])"

definition sample_dag :: flow_dag where
  "sample_dag = [\<lparr>fn_id = ''a'', fn_agent = ''x'', fn_task = ''use {{b}}'', fn_layer = 0, fn_indeg = 1, fn_adj = []\<rparr>,
     \<lparr>fn_id = ''b'', fn_agent = ''y'', fn_task = ''find'', fn_layer = 0, fn_indeg = 0, fn_adj = [0]\<rparr>]"

lemma sample_flow_parse: "flow_parse sample_flow ''doc'' = Inr sample_dag"
  by code_simp

lemma sample_dag_edges: "dag_edges sample_dag = {(1, 0)}"
  by (auto simp: dag_edges_def sample_dag_def less_Suc_eq)

theorem flow_parse_dependencies_witness:
  "flow_parse sample_flow ''doc'' = Inr sample_dag \<and> distinct (map fn_id sample_dag) \<and> dag_edges sample_dag = {(1, 0)}"
  using flow_parse_dependencies [OF sample_flow_parse] sample_flow_parse sample_dag_edges by simp

theorem flow_layers_longest_path_witness:
  "\<exists>d'. flow_layer sample_dag = Some (2, d') \<and> fn_layer (d' ! 0) = fn_layer (d' ! 1) + 1"
proof -
  have "acyclic (dag_edges sample_dag)"
    by (simp add: sample_dag_edges acyclic_insert acyclicI)
  from flow_layers_longest_path [OF sample_flow_parse this] obtain d' where
    "flow_layer sample_dag = Some (2, d')"
    "\<And>v. v < 2 \<Longrightarrow> fn_layer (d' ! v) = Max (insert 0 ((\<lambda>u. fn_layer (d' ! u) + 1) ` {u. (u, v) \<in> dag_edges sample_dag}))"
    by (auto simp: sample_dag_def)
  from this(1) this(2) [of 0] show ?thesis
    by (auto simp: sample_dag_edges)
qed

end
