(* ===== verification/FlowProg.thy ===== *)
theory FlowProg
  imports FlowDag
begin

text \<open>
  The progress registry of \<open>src/backend/src/runtime/flow.c\<close>: eight slots, each the node list of one tracked run. An unused
  slot has no nodes. A node that is running may be bound to its reasoning instance (a handle); what a poller reads
  through the handle is a parameter (\<open>view\<close>). Each operation holds the registry's mutex, so it is one step.
\<close>

section \<open>The registry\<close>

definition FLOW_PROG_MAX :: nat where
  "FLOW_PROG_MAX = 8"

datatype fp_state = FP_QUEUED | FP_RUNNING | FP_OK | FP_ERROR | FP_BLOCKED | FP_CANCELLED | FP_TIMEOUT

record flow_prog_node =
  fpn_id :: cstr
  fpn_agent :: cstr
  fpn_layer :: nat
  fpn_state :: fp_state
  fpn_start :: int
  fpn_end :: int
  fpn_rn :: "nat option"
  fpn_diagnostics :: "json option"

record flow_prog =
  fp_task_id :: int
  fp_done :: bool
  fp_nodes :: "flow_prog_node list"

type_synonym flow_progs = "flow_prog list"

definition flow_progs_init :: flow_progs where
  "flow_progs_init = replicate FLOW_PROG_MAX \<lparr>fp_task_id = 0, fp_done = False, fp_nodes = []\<rparr>"

text \<open>What the pollers of a reasoning instance return.\<close>

record rn_view =
  rv_snapshot :: "json option"
  rv_elapsed :: int
  rv_round :: int
  rv_tools :: int
  rv_cur :: "cstr option"
  rv_tin :: int
  rv_tout :: int
  rv_llm_ms :: int
  rv_tool_ms :: int
  rv_calls :: int
  rv_steps :: "json option"

definition flow_prog_slot :: "flow_progs \<Rightarrow> int \<Rightarrow> nat option" where
  "flow_prog_slot ps task_id = find_index (\<lambda>p. fp_task_id p = task_id \<and> fp_nodes p \<noteq> []) ps"

definition flow_prog_begin :: "flow_progs \<Rightarrow> int \<Rightarrow> flow_dag \<Rightarrow> flow_progs" where
  "flow_prog_begin ps task_id d =
     (if task_id < 0 then ps
      else let i = (case flow_prog_slot ps task_id of
                      Some i \<Rightarrow> i
                    | None \<Rightarrow> (case find_index (\<lambda>p. fp_nodes p = [] \<or> fp_done p) ps of Some i \<Rightarrow> i | None \<Rightarrow> 0))
           in ps[i := \<lparr>fp_task_id = task_id, fp_done = False,
                       fp_nodes = map (\<lambda>nd. \<lparr>fpn_id = fn_id nd, fpn_agent = fn_agent nd, fpn_layer = fn_layer nd,
                         fpn_state = FP_QUEUED, fpn_start = 0, fpn_end = 0, fpn_rn = None, fpn_diagnostics = None\<rparr>) d\<rparr>])"

definition map_prog_nodes :: "(flow_prog_node \<Rightarrow> flow_prog_node) \<Rightarrow> int \<Rightarrow> flow_progs \<Rightarrow> flow_progs" where
  "map_prog_nodes f task_id ps =
     (case flow_prog_slot ps task_id of
        None \<Rightarrow> ps
      | Some i \<Rightarrow> ps[i := (ps ! i)\<lparr>fp_nodes := map f (fp_nodes (ps ! i))\<rparr>])"

definition flow_prog_node_mark :: "flow_progs \<Rightarrow> int \<Rightarrow> cstr \<Rightarrow> fp_state \<Rightarrow> int \<Rightarrow> flow_progs" where
  "flow_prog_node_mark ps task_id i st now =
     (if task_id < 0 then ps
      else map_prog_nodes (\<lambda>nd. if fpn_id nd = i
             then (if st = FP_RUNNING then nd\<lparr>fpn_state := st, fpn_start := now\<rparr> else nd\<lparr>fpn_state := st, fpn_end := now\<rparr>)
             else nd) task_id ps)"

definition flow_node_diagnostics :: "rn_view \<Rightarrow> json" where
  "flow_node_diagnostics v =
     JObj (json_pick [''stage'', ''activity'', ''model'', ''usage_available'', ''model_failures'', ''model_error''] (rv_snapshot v)
       @ [(''round'', JNum (of_int (rv_round v))), (''tool_calls'', JNum (of_int (rv_tools v))),
          (''llm_calls'', JNum (of_int (rv_calls v))), (''tokens_in'', JNum (of_int (rv_tin v))),
          (''tokens_out'', JNum (of_int (rv_tout v))), (''llm_ms'', JNum (of_int (rv_llm_ms v))),
          (''tool_ms'', JNum (of_int (rv_tool_ms v))), (''elapsed_ms'', JNum (of_int (rv_elapsed v)))]
       @ (if nonnull_or [] (rv_cur v) = [] then [] else [(''cur_tool'', JStr (nonnull_or [] (rv_cur v)))])
       @ (case rv_steps v of None \<Rightarrow> [] | Some j \<Rightarrow> [(''steps'', j)]))"

definition flow_prog_node_attach :: "(nat \<Rightarrow> rn_view) \<Rightarrow> flow_progs \<Rightarrow> int \<Rightarrow> cstr \<Rightarrow> nat option \<Rightarrow> flow_progs" where
  "flow_prog_node_attach view ps task_id i rn =
     (if task_id < 0 then ps
      else map_prog_nodes (\<lambda>nd. if fpn_id nd = i
             then (case (rn, fpn_rn nd) of
                     (None, Some h) \<Rightarrow> nd\<lparr>fpn_diagnostics := Some (flow_node_diagnostics (view h)), fpn_rn := None\<rparr>
                   | _ \<Rightarrow> nd\<lparr>fpn_rn := rn\<rparr>)
             else nd) task_id ps)"

definition flow_prog_end :: "flow_progs \<Rightarrow> int \<Rightarrow> int \<Rightarrow> flow_progs" where
  "flow_prog_end ps task_id now =
     (if task_id < 0 then ps
      else case flow_prog_slot ps task_id of
             None \<Rightarrow> ps
           | Some i \<Rightarrow> ps[i := (ps ! i)\<lparr>fp_done := True,
               fp_nodes := map (\<lambda>nd. if fpn_state nd = FP_QUEUED \<or> fpn_state nd = FP_RUNNING
                 then nd\<lparr>fpn_state := FP_ERROR, fpn_end := now, fpn_rn := None\<rparr> else nd) (fp_nodes (ps ! i))\<rparr>])"

fun fp_state_name :: "fp_state \<Rightarrow> cstr" where
  "fp_state_name FP_QUEUED = ''queued''"
| "fp_state_name FP_RUNNING = ''running''"
| "fp_state_name FP_OK = ''ok''"
| "fp_state_name FP_BLOCKED = ''blocked''"
| "fp_state_name FP_CANCELLED = ''cancelled''"
| "fp_state_name FP_TIMEOUT = ''timeout''"
| "fp_state_name FP_ERROR = ''error''"

fun json_fields :: "json option \<Rightarrow> (cstr \<times> json) list" where
  "json_fields (Some (JObj kvs)) = kvs"
| "json_fields _ = []"

definition prog_node_json :: "(nat \<Rightarrow> rn_view) \<Rightarrow> flow_prog_node \<Rightarrow> json" where
  "prog_node_json view nd =
     JObj ([(''id'', JStr (fpn_id nd)), (''agent'', JStr (fpn_agent nd)), (''layer'', JNum (of_nat (fpn_layer nd))),
            (''status'', JStr (fp_state_name (fpn_state nd))), (''start_ms'', JNum (of_int (fpn_start nd))),
            (''end_ms'', JNum (of_int (fpn_end nd)))]
       @ json_fields (case fpn_rn nd of Some h \<Rightarrow> Some (flow_node_diagnostics (view h)) | None \<Rightarrow> fpn_diagnostics nd))"

definition flow_progress_json :: "(json \<Rightarrow> cstr) \<Rightarrow> (nat \<Rightarrow> rn_view) \<Rightarrow> flow_progs \<Rightarrow> int \<Rightarrow> cstr option" where
  "flow_progress_json print view ps task_id =
     (if task_id < 0 then None
      else map_option (\<lambda>i. print (JArr (map (prog_node_json view) (fp_nodes (ps ! i))))) (flow_prog_slot ps task_id))"

end
