(* ===== verification/AgentPool.thy ===== *)
theory AgentPool
  imports SshSecrets KvStore Fs Json
begin

text \<open>
  The agent pool of \<open>src/backend/src/runtime/agent.c\<close>: an array of entries and an open-addressed index from names to
  positions (a slot holds a position plus one, 0 means empty). A probe that meets no empty slot would never end, so the
  probing loops are partial functions; an invariant on the index shows that they return, and that a lookup finds what a
  linear search of the array finds. The flags \<open>mi\<close>, \<open>ma\<close>, \<open>ms\<close> say whether the allocation of the index, of the array
  (where it must grow) and of the strings succeeds. Operations under the pool's mutex are atomic.
\<close>

section \<open>The pool\<close>

record agent_entry =
  ae_name :: cstr
  ae_role :: cstr
  ae_provider :: "cstr option"
  ae_model :: "cstr option"

record agent_pool =
  ap_bb :: blackboard
  ap_owns_bb :: bool
  ap_agents :: "agent_entry list"
  ap_slots :: "nat list"

definition agent_pool_new :: agent_pool where
  "agent_pool_new = \<lparr>ap_bb = blackboard_new, ap_owns_bb = True, ap_agents = [], ap_slots = []\<rparr>"

text \<open>\<open>b\<close> is the contents of the board that is adopted, which the context owns from then on.\<close>

definition agent_pool_adopt_blackboard :: "agent_pool \<Rightarrow> blackboard \<Rightarrow> agent_pool" where
  "agent_pool_adopt_blackboard p b = p\<lparr>ap_bb := b, ap_owns_bb := False\<rparr>"

section \<open>The name index\<close>

definition name_slot :: "cstr \<Rightarrow> nat \<Rightarrow> nat" where
  "name_slot name cap = unat (and (hash64 name) (of_nat cap - 1))"

partial_function (option) find_probe :: "agent_entry list \<Rightarrow> nat list \<Rightarrow> cstr \<Rightarrow> nat \<Rightarrow> nat option option" where
  [code]: "find_probe ags slots name slot =
     (if slots ! slot = 0 then Some None
      else if ae_name (ags ! (slots ! slot - 1)) = name then Some (Some (slots ! slot - 1))
      else find_probe ags slots name ((slot + 1) mod length slots))"

definition find_agent :: "agent_entry list \<Rightarrow> nat list \<Rightarrow> cstr \<Rightarrow> nat option option" where
  "find_agent ags slots name =
     (if slots = [] then Some None else find_probe ags slots name (name_slot name (length slots)))"

partial_function (option) free_slot :: "nat list \<Rightarrow> nat \<Rightarrow> nat option" where
  [code]: "free_slot slots slot = (if slots ! slot = 0 then Some slot else free_slot slots ((slot + 1) mod length slots))"

definition name_index_insert :: "agent_entry list \<Rightarrow> nat list \<Rightarrow> nat \<Rightarrow> nat list option" where
  "name_index_insert ags slots idx =
     map_option (\<lambda>s. slots[s := idx + 1]) (free_slot slots (name_slot (ae_name (ags ! idx)) (length slots)))"

fun index_all :: "agent_entry list \<Rightarrow> nat list \<Rightarrow> nat list \<Rightarrow> nat list option" where
  "index_all ags slots [] = Some slots"
| "index_all ags slots (i # is) =
     (case name_index_insert ags slots i of None \<Rightarrow> None | Some slots' \<Rightarrow> index_all ags slots' is)"

definition name_index_reserve :: "bool \<Rightarrow> agent_entry list \<Rightarrow> nat list \<Rightarrow> nat \<Rightarrow> (bool \<times> nat list) option" where
  "name_index_reserve mi ags slots future_count =
     (let cap = length slots in
      if cap \<noteq> 0 \<and> future_count * 10 < cap * 7 then Some (True, slots)
      else let cap' = (if cap \<noteq> 0 then cap * 2 else 16) in
        if SIZE_MAX < cap' \<or> SIZE_MAX div 8 < cap' then Some (False, slots)
        else if \<not> mi then Some (False, slots)
        else map_option (Pair True) (index_all ags (replicate cap' 0) [0..<length ags]))"

section \<open>Operations\<close>

definition agent_pool_find :: "agent_pool \<Rightarrow> cstr option \<Rightarrow> int option" where
  "agent_pool_find p name =
     (case name of
        None \<Rightarrow> Some (-1)
      | Some n \<Rightarrow> map_option (\<lambda>r. case r of None \<Rightarrow> -1 | Some i \<Rightarrow> int i) (find_agent (ap_agents p) (ap_slots p) n))"

definition agent_pool_add_model ::
  "bool \<Rightarrow> bool \<Rightarrow> bool \<Rightarrow> agent_pool \<Rightarrow> cstr option \<Rightarrow> cstr option \<Rightarrow> cstr option \<Rightarrow> cstr option \<Rightarrow> (int \<times> agent_pool) option" where
  "agent_pool_add_model mi ma ms p name role provider model =
     (let n = nonnull_or [] name; ags = ap_agents p in
      if n = [] then Some (-1, p)
      else case find_agent ags (ap_slots p) n of
             None \<Rightarrow> None
           | Some (Some _) \<Rightarrow> Some (-1, p)
           | Some None \<Rightarrow>
               if 2147483647 \<le> length ags then Some (-1, p)
               else case name_index_reserve mi ags (ap_slots p) (length ags + 1) of
                      None \<Rightarrow> None
                    | Some (False, _) \<Rightarrow> Some (-1, p)
                    | Some (True, slots) \<Rightarrow>
                        if \<not> ma \<or> \<not> ms then Some (-1, p\<lparr>ap_slots := slots\<rparr>)
                        else let ags' = ags @ [\<lparr>ae_name = n, ae_role = nonnull_or [] role, ae_provider = provider, ae_model = model\<rparr>]
                             in map_option (\<lambda>s. (int (length ags), p\<lparr>ap_agents := ags', ap_slots := s\<rparr>))
                                  (name_index_insert ags' slots (length ags)))"

definition agent_pool_add :: "bool \<Rightarrow> bool \<Rightarrow> bool \<Rightarrow> agent_pool \<Rightarrow> cstr option \<Rightarrow> cstr option \<Rightarrow> (int \<times> agent_pool) option" where
  "agent_pool_add mi ma ms p name role = agent_pool_add_model mi ma ms p name role None None"

definition nonempty_copy :: "cstr option \<Rightarrow> cstr option" where
  "nonempty_copy s = (if nonnull_or [] s = [] then None else s)"

definition agent_pool_set_model :: "agent_pool \<Rightarrow> cstr option \<Rightarrow> cstr option \<Rightarrow> cstr option \<Rightarrow> (int \<times> agent_pool) option" where
  "agent_pool_set_model p name provider model =
     (if nonnull_or [] name = [] then Some (-1, p)
      else map_option (\<lambda>r. case r of
             None \<Rightarrow> (-1, p)
           | Some i \<Rightarrow> (0, p\<lparr>ap_agents := (ap_agents p)[i := (ap_agents p ! i)
                          \<lparr>ae_provider := nonempty_copy provider, ae_model := nonempty_copy model\<rparr>]\<rparr>))
        (find_agent (ap_agents p) (ap_slots p) (nonnull_or [] name)))"

definition agent_pool_remove :: "agent_pool \<Rightarrow> cstr option \<Rightarrow> (int \<times> agent_pool) option" where
  "agent_pool_remove p name =
     (if nonnull_or [] name = [] then Some (-1, p)
      else case find_agent (ap_agents p) (ap_slots p) (nonnull_or [] name) of
             None \<Rightarrow> None
           | Some None \<Rightarrow> Some (-1, p)
           | Some (Some i) \<Rightarrow>
               let ags = remove_at i (ap_agents p) in
               map_option (\<lambda>s. (0, p\<lparr>ap_agents := ags, ap_slots := s\<rparr>))
                 (index_all ags (replicate (length (ap_slots p)) 0) [0..<length ags]))"

definition agent_pool_count :: "agent_pool \<Rightarrow> nat" where
  "agent_pool_count p = length (ap_agents p)"

definition agent_pool_role_copy :: "agent_pool \<Rightarrow> cstr option \<Rightarrow> cstr option option" where
  "agent_pool_role_copy p name =
     (case name of
        None \<Rightarrow> Some None
      | Some n \<Rightarrow> map_option (map_option (\<lambda>i. ae_role (ap_agents p ! i))) (find_agent (ap_agents p) (ap_slots p) n))"

definition agent_post ::
  "(json \<Rightarrow> cstr) \<Rightarrow> bool \<Rightarrow> bool \<Rightarrow> agent_pool \<times> disk \<Rightarrow> cstr option \<Rightarrow> cstr option \<Rightarrow> cstr option \<Rightarrow> (int \<times> agent_pool \<times> disk) option" where
  "agent_post print grow wr pd agent key val =
     (case pd of (p, d) \<Rightarrow>
        (case (agent, key, val) of
           (Some a, Some k, Some v) \<Rightarrow>
             map_option (\<lambda>r. case r of
                 None \<Rightarrow> (-1, p, d)
               | Some _ \<Rightarrow> (case blackboard_put print grow wr (ap_bb p, d) (Some k) (Some v) of (b, d') \<Rightarrow> (0, p\<lparr>ap_bb := b\<rparr>, d')))
               (find_agent (ap_agents p) (ap_slots p) a)
         | _ \<Rightarrow> Some (-1, p, d)))"

section \<open>The roster file and the snapshot\<close>

definition roster_entry_json :: "agent_entry \<Rightarrow> json" where
  "roster_entry_json a =
     JObj ([(''name'', JStr (ae_name a)), (''role'', JStr (ae_role a))]
       @ (case ae_provider a of None \<Rightarrow> [] | Some s \<Rightarrow> [(''provider'', JStr s)])
       @ (case ae_model a of None \<Rightarrow> [] | Some s \<Rightarrow> [(''model'', JStr s)]))"

definition roster_json :: "agent_entry list \<Rightarrow> json" where
  "roster_json ags = JObj [(''agents'', JArr (map roster_entry_json ags))]"

definition roster_path :: "cstr \<Rightarrow> cstr option" where
  "roster_path dir = (let p = dir @ ''/agents.json'' in if length p < 512 then Some p else None)"

definition agent_pool_save :: "(json \<Rightarrow> cstr) \<Rightarrow> agent_pool \<Rightarrow> cstr option \<Rightarrow> fsys \<Rightarrow> int \<times> fsys" where
  "agent_pool_save print p dir fs =
     (if nonnull_or [] dir = [] then (-1, fs)
      else case roster_path (nonnull_or [] dir) of
             None \<Rightarrow> (-1, fs)
           | Some path \<Rightarrow>
               (case fs_write_file path (print (roster_json (ap_agents p))) fs of
                  (rc, fs') \<Rightarrow> (if rc = 0 then 0 else -1, fs')))"

text \<open>The allocations of the additions are taken to succeed.\<close>

fun load_agents :: "json list \<Rightarrow> agent_pool \<Rightarrow> int \<Rightarrow> (int \<times> agent_pool) option" where
  "load_agents [] p loaded = Some (loaded, p)"
| "load_agents (it # its) p loaded =
     (if nonnull_or [] (json_string (json_get ''name'' (Some it))) = [] then load_agents its p loaded
      else case agent_pool_add_model True True True p (json_string (json_get ''name'' (Some it)))
             (Some (nonnull_or [] (json_string (json_get ''role'' (Some it)))))
             (json_string (json_get ''provider'' (Some it))) (json_string (json_get ''model'' (Some it))) of
             None \<Rightarrow> None
           | Some (rc, p') \<Rightarrow> load_agents its p' (if 0 \<le> rc then loaded + 1 else loaded))"

definition agent_pool_load :: "(cstr \<Rightarrow> json option) \<Rightarrow> agent_pool \<Rightarrow> cstr option \<Rightarrow> fsys \<Rightarrow> (int \<times> agent_pool) option" where
  "agent_pool_load parse p dir fs =
     (if nonnull_or [] dir = [] then Some (-1, p)
      else case roster_path (nonnull_or [] dir) of
             None \<Rightarrow> Some (-1, p)
           | Some path \<Rightarrow>
               (case Option.bind (fs_read_file fs path) (\<lambda>s. parse (c_string s)) of
                  None \<Rightarrow> Some (-1, p)
                | Some doc \<Rightarrow> load_agents (json_items (json_get ''agents'' (Some doc))) p 0))"

definition agent_json :: "agent_entry \<Rightarrow> json" where
  "agent_json a =
     JObj [(''name'', JStr (ae_name a)), (''role'', JStr (ae_role a)),
       (''provider'', JStr (nonnull_or [] (ae_provider a))), (''model'', JStr (nonnull_or [] (ae_model a)))]"

definition agent_pool_snapshot_json :: "(json \<Rightarrow> cstr) \<Rightarrow> (cstr \<Rightarrow> json option) \<Rightarrow> agent_pool \<Rightarrow> cstr" where
  "agent_pool_snapshot_json print parse p =
     print (JObj [(''agents'', JArr (map agent_json (ap_agents p))),
       (''facts'', case parse (print (bb_snapshot (ap_bb p))) of None \<Rightarrow> JObj [] | Some j \<Rightarrow> j)])"

section \<open>Prompts and deliverables\<close>

text \<open>Literals of the source in UTF-8: the heading of the user's task, and the words of a presentation task.\<close>

definition user_task_heading :: cstr where
  "user_task_heading = ''## '' @ [CHR 0xE7, CHR 0x94, CHR 0xA8, CHR 0xE6, CHR 0x88, CHR 0xB7, CHR 0xE4, CHR 0xBB, CHR 0xBB, CHR 0xE5, CHR 0x8A, CHR 0xA1] @ [CHR 0x0A]"

definition outline_word :: cstr where
  "outline_word = [CHR 0xE5, CHR 0xA4, CHR 0xA7, CHR 0xE7, CHR 0xBA, CHR 0xB2]"

definition slide_words :: "cstr list" where
  "slide_words = [''PPT'', ''ppt'', [CHR 0xE5, CHR 0xB9, CHR 0xBB, CHR 0xE7, CHR 0x81, CHR 0xAF, CHR 0xE7, CHR 0x89, CHR 0x87], [CHR 0xE6, CHR 0xBC, CHR 0x94, CHR 0xE7, CHR 0xA4, CHR 0xBA, CHR 0xE6, CHR 0x96, CHR 0x87, CHR 0xE7, CHR 0xA8, CHR 0xBF], ''slides'']"

definition make_words :: "cstr list" where
  "make_words = [[CHR 0xE7, CHR 0x94, CHR 0x9F, CHR 0xE6, CHR 0x88, CHR 0x90],
     [CHR 0xE5, CHR 0x88, CHR 0xB6, CHR 0xE4, CHR 0xBD, CHR 0x9C],
     [CHR 0xE5, CHR 0x88, CHR 0x9B, CHR 0xE5, CHR 0xBB, CHR 0xBA],
     [CHR 0xE5, CHR 0x81, CHR 0x9A, CHR 0xE4, CHR 0xB8, CHR 0xAA],
     [CHR 0xE5, CHR 0x81, CHR 0x9A, CHR 0xE4, CHR 0xB8, CHR 0x80, CHR 0xE4, CHR 0xBB, CHR 0xBD],
     [CHR 0xE5, CHR 0xAF, CHR 0xBC, CHR 0xE5, CHR 0x87, CHR 0xBA],
     [CHR 0xE4, CHR 0xBA, CHR 0xA4, CHR 0xE4, CHR 0xBB, CHR 0x98],
     ''create'',
     ''make '',
     ''build '']"

definition agent_pool_task_prompt :: "agent_pool \<Rightarrow> cstr option \<Rightarrow> cstr option \<Rightarrow> cstr option option" where
  "agent_pool_task_prompt p name task =
     (case task of
        None \<Rightarrow> Some None
      | Some t \<Rightarrow>
          map_option (map_option (\<lambda>role.
            (if role = [] then [] else ''## Agent role'' @ [CHR 0x0A] @ role @ [CHR 0x0A, CHR 0x0A]) @ user_task_heading @ t))
          (agent_pool_role_copy p name))"

definition ppt_task_requires_file :: "cstr option \<Rightarrow> bool" where
  "ppt_task_requires_file task =
     (case task of
        None \<Rightarrow> False
      | Some t \<Rightarrow>
          \<not> (str_contains outline_word t \<and> \<not> str_contains ''.pptx'' t)
          \<and> list_ex (\<lambda>w. str_contains w t) slide_words \<and> list_ex (\<lambda>w. str_contains w t) make_words)"

definition zip_u16 :: "cstr \<Rightarrow> nat \<Rightarrow> nat" where
  "zip_u16 b i = byte (b ! i) + 256 * byte (b ! (i + 1))"

definition zip_u32 :: "cstr \<Rightarrow> nat \<Rightarrow> nat" where
  "zip_u32 b i = zip_u16 b i + 65536 * zip_u16 b (i + 2)"

definition bytes_at :: "cstr \<Rightarrow> nat \<Rightarrow> cstr \<Rightarrow> bool" where
  "bytes_at b i w \<longleftrightarrow> take (length w) (drop i b) = w"

text \<open>The last end-of-central-directory record, searched from the end of the buffer.\<close>

definition eocd_at :: "cstr \<Rightarrow> nat \<Rightarrow> bool" where
  "eocd_at t i \<longleftrightarrow> bytes_at t i [CHR ''P'', CHR ''K'', CHR 0x05, CHR 0x06] \<and> i + 22 + zip_u16 t (i + 20) = length t
     \<and> zip_u16 t (i + 4) = 0 \<and> zip_u16 t (i + 6) = 0"

fun find_eocd :: "cstr \<Rightarrow> nat \<Rightarrow> nat option" where
  "find_eocd t 0 = (if eocd_at t 0 then Some 0 else None)"
| "find_eocd t (Suc i) = (if eocd_at t (Suc i) then Some (Suc i) else find_eocd t i)"

text \<open>The walk over the central directory; the flags say which of the two members were met.\<close>

function cd_walk :: "cstr \<Rightarrow> nat \<Rightarrow> bool \<times> bool \<Rightarrow> bool \<times> bool" where
  "cd_walk cd i (ty, pr) =
     (if length cd < i + 46 \<or> \<not> bytes_at cd i [CHR ''P'', CHR ''K'', CHR 0x01, CHR 0x02] then (ty, pr)
      else let name_len = zip_u16 cd (i + 28); entry_len = 46 + name_len + zip_u16 cd (i + 30) + zip_u16 cd (i + 32) in
        if name_len = 0 \<or> length cd - i < entry_len then (ty, pr)
        else let name = take name_len (drop (i + 46) cd) in
          cd_walk cd (i + entry_len) (ty \<or> name = ''[Content_Types].xml'', pr \<or> name = ''ppt/presentation.xml''))"
  by pat_completeness auto
termination
  by (relation "measure (\<lambda>(cd, i, _). length cd - i)") auto

declare cd_walk.simps [simp del]

definition pptx_archive_valid :: "fsys \<Rightarrow> cstr \<Rightarrow> nat \<Rightarrow> bool" where
  "pptx_archive_valid fs path sz =
     (let tail_size = (if sz < 65557 then sz else 65557) in
      case fs_read_file_slice fs path (sz - tail_size) tail_size of
        None \<Rightarrow> False
      | Some (t, got, _) \<Rightarrow>
          if got \<noteq> tail_size then False
          else case find_eocd t (tail_size - 22) of
                 None \<Rightarrow> False
               | Some i \<Rightarrow>
                   let cd_size = zip_u32 t (i + 12); cd_offset = zip_u32 t (i + 16) in
                   if cd_size = 0 \<or> 16 * 1024 * 1024 < cd_size \<or> sz < cd_offset + cd_size then False
                   else case fs_read_file_slice fs path cd_offset cd_size of
                          None \<Rightarrow> False
                        | Some (cd, got2, _) \<Rightarrow> got2 = cd_size \<and> cd_walk cd 0 (False, False) = (True, True))"

definition is_alpha :: "char \<Rightarrow> bool" where
  "is_alpha c \<longleftrightarrow> 65 \<le> byte c \<and> byte c \<le> 90 \<or> 97 \<le> byte c \<and> byte c \<le> 122"

definition pptx_path_valid :: "fsys \<Rightarrow> cstr option \<Rightarrow> cstr option \<Rightarrow> bool" where
  "pptx_path_valid fs workspace path =
     (let p = nonnull_or [] path in
      if p = [] \<or> 2048 \<le> length p then False
      else let absolute = hd p = CHR ''/'' \<or> hd p = CHR 0x5C \<or> is_alpha (hd p) \<and> 1 < length p \<and> p ! 1 = CHR '':'';
               full = (if absolute then p else path_join 2048 (Some (nonempty_or ''.'' workspace)) (Some p));
               sz = fs_file_size fs full
           in if sz < 1024 then False
              else case fs_read_file_slice fs full 0 4 of
                     None \<Rightarrow> False
                   | Some (h, n, _) \<Rightarrow>
                       n = 4 \<and> h = [CHR ''P'', CHR ''K'', CHR 0x03, CHR 0x04] \<and> pptx_archive_valid fs full (nat sz))"

text \<open>A path in an answer: what stands before an occurrence of the extension, back to a separator.\<close>

definition path_separators :: cstr where
  "path_separators = [CHR '' '', CHR 0x09, CHR 0x0D, CHR 0x0A, CHR ''('', CHR '')'', CHR ''['', CHR '']'', CHR ''<'',
     CHR ''>'', CHR 0x22, CHR 0x27, CHR 0x60, CHR '','', CHR '';'']"

definition ext_at :: "cstr \<Rightarrow> nat \<Rightarrow> bool" where
  "ext_at a i \<longleftrightarrow> i + 5 \<le> length a \<and> a ! i = CHR ''.'' \<and> map c_tolower (take 4 (drop (i + 1) a)) = map byte ''pptx''"

definition path_before :: "cstr \<Rightarrow> nat \<Rightarrow> cstr" where
  "path_before a i = rev (takeWhile (\<lambda>c. c \<notin> set path_separators) (rev (take i a))) @ take 5 (drop i a)"

definition agent_pool_deliverable_valid ::
  "fsys \<Rightarrow> agent_pool \<Rightarrow> cstr \<Rightarrow> cstr option \<Rightarrow> cstr option \<Rightarrow> cstr option \<Rightarrow> bool option" where
  "agent_pool_deliverable_valid fs p name task answer workspace =
     map_option (\<lambda>role.
       case role of
         None \<Rightarrow> False
       | Some r \<Rightarrow>
           if \<not> ((name = ''ppt-expert'' \<or> str_contains ''.pptx'' r) \<and> ppt_task_requires_file task) then True
           else case answer of
                  None \<Rightarrow> False
                | Some a \<Rightarrow>
                    list_ex (\<lambda>i. ext_at a i \<and> length (path_before a i) < 1024
                               \<and> pptx_path_valid fs workspace (Some (path_before a i))) [0..<length a])
     (agent_pool_role_copy p (Some name))"

section \<open>The index is a search structure\<close>

definition slot_at :: "nat list \<Rightarrow> nat \<Rightarrow> nat \<Rightarrow> nat" where
  "slot_at slots s j = slots ! ((s + j) mod length slots)"

definition indexed :: "agent_entry list \<Rightarrow> nat list \<Rightarrow> nat \<Rightarrow> bool" where
  "indexed ags slots n \<longleftrightarrow>
     (\<forall>s<length slots. slots ! s \<le> n)
     \<and> (\<forall>s<length slots. \<forall>t<length slots. slots ! s = slots ! t \<and> slots ! s \<noteq> 0 \<longrightarrow> s = t)
     \<and> (\<forall>i<n. \<exists>k<length slots. slot_at slots (name_slot (ae_name (ags ! i)) (length slots)) k = i + 1
           \<and> (\<forall>j<k. slot_at slots (name_slot (ae_name (ags ! i)) (length slots)) j \<noteq> 0))"

lemma indexed_le: "indexed ags slots n \<Longrightarrow> s < length slots \<Longrightarrow> slots ! s \<le> n"
  unfolding indexed_def by blast

lemma indexed_inj:
  "indexed ags slots n \<Longrightarrow> s < length slots \<Longrightarrow> t < length slots \<Longrightarrow> slots ! s = slots ! t \<Longrightarrow> slots ! s \<noteq> 0 \<Longrightarrow> s = t"
  unfolding indexed_def by blast

lemma indexed_path:
  assumes "indexed ags slots n" "i < n"
  obtains k where "k < length slots" "slot_at slots (name_slot (ae_name (ags ! i)) (length slots)) k = i + 1"
    "\<forall>j<k. slot_at slots (name_slot (ae_name (ags ! i)) (length slots)) j \<noteq> 0"
  using assms unfolding indexed_def by blast

lemma name_slot_less:
  assumes "0 < cap" "cap < 2 ^ 64"
  shows "name_slot name cap < cap"
proof -
  have "unat (of_nat cap - 1 :: 64 word) = cap - 1"
  proof -
    have "of_nat cap - 1 = (of_nat (cap - 1) :: 64 word)"
      using assms by (simp add: of_nat_diff)
    also have "unat (of_nat (cap - 1) :: 64 word) = cap - 1"
      using assms unfolding unat_of_nat by (intro mod_less) simp
    finally show ?thesis .
  qed
  moreover have "and (hash64 name) (of_nat cap - 1) \<le> of_nat cap - 1"
    by (rule word_and_le1)
  ultimately show ?thesis
    using assms unfolding name_slot_def by (simp add: word_le_nat_alt)
qed

lemma walk_step: "(a mod n + 1) mod n = (a + 1) mod (n::nat)"
  by (simp add: mod_simps)

lemma find_probe_walk:
  assumes "\<forall>j<k. slot_at slots s j \<noteq> 0 \<and> ae_name (ags ! (slot_at slots s j - 1)) \<noteq> name"
  shows "find_probe ags slots name (s mod length slots) = find_probe ags slots name ((s + k) mod length slots)"
  using assms
proof (induction k)
  case (Suc k)
  have "find_probe ags slots name ((s + k) mod length slots) = find_probe ags slots name ((s + k + 1) mod length slots)"
    using Suc.prems [rule_format, of k] unfolding slot_at_def walk_step [symmetric, of "s + k"]
    by (subst find_probe.simps) simp
  then show ?case
    using Suc by simp
qed simp

lemma free_slot_walk:
  assumes "\<forall>j<k. slot_at slots s j \<noteq> 0"
  shows "free_slot slots (s mod length slots) = free_slot slots ((s + k) mod length slots)"
  using assms
proof (induction k)
  case (Suc k)
  have "free_slot slots ((s + k) mod length slots) = free_slot slots ((s + k + 1) mod length slots)"
    using Suc.prems [rule_format, of k] unfolding slot_at_def walk_step [symmetric, of "s + k"]
    by (subst free_slot.simps) simp
  then show ?case
    using Suc by simp
qed simp

lemma indexed_empty_slot:
  assumes "indexed ags slots n" "n < length slots"
  shows "\<exists>t<length slots. slots ! t = 0"
proof (rule ccontr)
  assume "\<nexists>t. t < length slots \<and> slots ! t = 0"
  then have nz: "\<forall>t<length slots. slots ! t \<noteq> 0"
    by simp
  have "inj_on (\<lambda>s. slots ! s) {..<length slots}"
    using indexed_inj [OF assms(1)] nz by (intro inj_onI) simp
  moreover have "(\<lambda>s. slots ! s) ` {..<length slots} \<subseteq> {1..n}"
    using indexed_le [OF assms(1)] nz by (auto simp: Suc_le_eq)
  ultimately have "length slots \<le> n"
    using card_inj_on_le [of "\<lambda>s. slots ! s" "{..<length slots}" "{1..n}"] by simp
  then show False
    using assms(2) by simp
qed

lemma indexed_first_empty:
  assumes "indexed ags slots n" "n < length slots" "s < length slots"
  obtains k where "k < length slots" "slot_at slots s k = 0" "\<forall>j<k. slot_at slots s j \<noteq> 0"
proof -
  obtain t where t: "t < length slots" "slots ! t = 0"
    using indexed_empty_slot [OF assms(1,2)] by blast
  let ?k = "(t + length slots - s) mod length slots"
  have "(s + ?k) mod length slots = t"
    using t(1) assms(3) by (simp add: mod_add_right_eq)
  then have e: "slot_at slots s ?k = 0"
    using t by (simp add: slot_at_def)
  have "0 < length slots"
    using t by linarith
  then have "?k < length slots"
    by (rule mod_less_divisor)
  with Least_le [of "\<lambda>j. slot_at slots s j = 0", OF e] have "(LEAST j. slot_at slots s j = 0) < length slots"
    by linarith
  from this LeastI [of "\<lambda>j. slot_at slots s j = 0", OF e] show thesis
    by (rule that) (blast dest: not_less_Least)
qed

lemma name_index_insert_indexed:
  assumes ix: "indexed ags slots n" and n: "n < length slots" "length slots < 2 ^ 64"
  shows "\<exists>slots'. name_index_insert ags slots n = Some slots' \<and> length slots' = length slots \<and> indexed ags slots' (Suc n)"
proof -
  let ?s = "name_slot (ae_name (ags ! n)) (length slots)"
  have s: "?s < length slots"
    using n by (intro name_slot_less) auto
  obtain k where k: "k < length slots" "slot_at slots ?s k = 0" "\<forall>j<k. slot_at slots ?s j \<noteq> 0"
    by (rule indexed_first_empty [OF ix n(1) s])
  define t where "t = (?s + k) mod length slots"
  have t: "t < length slots" "slots ! t = 0"
    using k(1,2) n(1) unfolding t_def slot_at_def by (metis mod_less_divisor not_less_zero neq0_conv)+
  have "free_slot slots ?s = free_slot slots t"
    using free_slot_walk [OF k(3)] s by (simp add: t_def)
  also have "\<dots> = Some t"
    using t(2) by (subst free_slot.simps) simp
  finally have ins: "name_index_insert ags slots n = Some (slots[t := Suc n])"
    by (simp add: name_index_insert_def)
  let ?slots = "slots[t := Suc n]"
  have at: "slot_at ?slots a j = (if (a + j) mod length slots = t then Suc n else slot_at slots a j)" for a j
    using t(1) by (auto simp: slot_at_def nth_list_update)
  note le = indexed_le [OF ix]
  note inj = indexed_inj [OF ix]
  have "indexed ags ?slots (Suc n)"
    unfolding indexed_def length_list_update
  proof (intro conjI allI impI)
    show "?slots ! a \<le> Suc n" if "a < length slots" for a
      using le [of a] t(1) that by (auto simp: nth_list_update)
    show "a = b" if "a < length slots" "b < length slots" "?slots ! a = ?slots ! b \<and> ?slots ! a \<noteq> 0" for a b
      using that inj [of a b] le [of a] le [of b] t(1) by (auto simp: nth_list_update split: if_splits)
    show "\<exists>k<length slots. slot_at ?slots (name_slot (ae_name (ags ! i)) (length slots)) k = i + 1
           \<and> (\<forall>j<k. slot_at ?slots (name_slot (ae_name (ags ! i)) (length slots)) j \<noteq> 0)" if "i < Suc n" for i
    proof (cases "i = n")
      case True
      then show ?thesis
        using k t_def [symmetric] by (intro exI [of _ k]) (simp add: at)
    next
      case False
      then have i: "i < n"
        using that by simp
      obtain l where l: "l < length slots" "slot_at slots (name_slot (ae_name (ags ! i)) (length slots)) l = i + 1"
        "\<forall>j<l. slot_at slots (name_slot (ae_name (ags ! i)) (length slots)) j \<noteq> 0"
        by (rule indexed_path [OF ix i])
      have "(name_slot (ae_name (ags ! i)) (length slots) + l) mod length slots \<noteq> t"
        using l(2) t(2) by (auto simp: slot_at_def)
      then show ?thesis
        using l by (intro exI [of _ l]) (auto simp: at)
    qed
  qed
  then show ?thesis
    using ins by simp
qed

lemma indexed_zero: "indexed ags (replicate c 0) 0"
  by (simp add: indexed_def)

lemma index_all_from:
  assumes "indexed ags slots n" "n + m < length slots" "length slots < 2 ^ 64"
  shows "\<exists>slots'. index_all ags slots [n..<n + m] = Some slots' \<and> length slots' = length slots \<and> indexed ags slots' (n + m)"
  using assms
proof (induction m arbitrary: slots n)
  case (Suc m)
  then obtain s1 where s1: "name_index_insert ags slots n = Some s1" "length s1 = length slots" "indexed ags s1 (Suc n)"
    using name_index_insert_indexed by (metis add_lessD1)
  moreover have "[n..<n + Suc m] = n # [Suc n..<Suc n + m]"
    by (simp add: upt_conv_Cons)
  ultimately show ?case
    using Suc.IH [OF s1(3)] Suc.prems by simp
qed simp

lemma index_all_fresh:
  assumes "length ags < c" "c < 2 ^ 64"
  shows "\<exists>slots'. index_all ags (replicate c 0) [0..<length ags] = Some slots' \<and> length slots' = c \<and> indexed ags slots' (length ags)"
  using index_all_from [OF indexed_zero [of ags c], of "length ags"] assms by simp

lemma find_agent_indexed:
  assumes ix: "indexed ags slots (length ags)" and n: "length ags < length slots" "length slots < 2 ^ 64"
    and d: "distinct (map ae_name ags)"
  shows "find_agent ags slots name = Some (find_index (\<lambda>a. ae_name a = name) ags)"
proof -
  let ?s = "name_slot name (length slots)"
  have s: "?s < length slots"
    using n by (intro name_slot_less) auto
  have find: "find_agent ags slots name = find_probe ags slots name (?s mod length slots)"
    using n s by (auto simp: find_agent_def)
  have rng: "(?s + j) mod length slots < length slots" for j
    using n(1) by (intro mod_less_divisor) linarith
  have le: "slot_at slots ?s j - 1 < length ags" if "slot_at slots ?s j \<noteq> 0" for j
  proof -
    have "slot_at slots ?s j \<le> length ags"
      using indexed_le [OF ix rng [of j]] by (simp add: slot_at_def)
    then show ?thesis
      using that by simp
  qed
  show ?thesis
  proof (cases "find_index (\<lambda>a. ae_name a = name) ags")
    case None
    obtain k where k: "k < length slots" "slot_at slots ?s k = 0" "\<forall>j<k. slot_at slots ?s j \<noteq> 0"
      by (rule indexed_first_empty [OF ix n(1) s])
    have "\<forall>j<k. slot_at slots ?s j \<noteq> 0 \<and> ae_name (ags ! (slot_at slots ?s j - 1)) \<noteq> name"
      using k(3) le None nth_mem unfolding find_index_None_iff by blast
    from find_probe_walk [OF this] show ?thesis
      using k(2) None unfolding find by (simp add: find_probe.simps [of _ _ _ "(?s + k) mod length slots"] slot_at_def)
  next
    case (Some i)
    then have i: "i < length ags" "ae_name (ags ! i) = name"
      by (auto dest: find_index_SomeD)
    then obtain k where k: "k < length slots" "slot_at slots ?s k = i + 1" "\<forall>j<k. slot_at slots ?s j \<noteq> 0"
      using indexed_path [OF ix, of i] by metis
    have "ae_name (ags ! (slot_at slots ?s j - 1)) \<noteq> name" if j: "j < k" for j
    proof
      assume "ae_name (ags ! (slot_at slots ?s j - 1)) = name"
      then have "slot_at slots ?s j - 1 = i"
        using d le [of j] k(3) j i by (auto simp: distinct_conv_nth)
      then have "slot_at slots ?s j = slot_at slots ?s k"
        using k j by (metis Suc_eq_plus1 Suc_pred' neq0_conv)
      then have "(?s + j) mod length slots = (?s + k) mod length slots"
        using indexed_inj [OF ix rng [of j] rng [of k]] k(3) j unfolding slot_at_def by blast
      then have "length slots dvd k - j"
        using j by (metis add_diff_cancel_left mod_eq_dvd_iff_nat nat_add_left_cancel_le less_imp_le)
      then show False
        using j k(1) by (auto dest!: dvd_imp_le)
    qed
    with k(3) have "\<forall>j<k. slot_at slots ?s j \<noteq> 0 \<and> ae_name (ags ! (slot_at slots ?s j - 1)) \<noteq> name"
      by blast
    from find_probe_walk [OF this] show ?thesis
      using k(2) i Some unfolding find by (simp add: find_probe.simps [of _ _ _ "(?s + k) mod length slots"] slot_at_def)
  qed
qed

definition pool_ok :: "agent_pool \<Rightarrow> bool" where
  "pool_ok p \<longleftrightarrow> distinct (map ae_name (ap_agents p)) \<and> list_all (\<lambda>a. ae_name a \<noteq> []) (ap_agents p)
     \<and> length (ap_agents p) \<le> 2147483647
     \<and> (if ap_slots p = [] then ap_agents p = []
        else 16 \<le> length (ap_slots p) \<and> length (ap_slots p) < 2 ^ 64
           \<and> length (ap_agents p) * 10 < length (ap_slots p) * 7
           \<and> indexed (ap_agents p) (ap_slots p) (length (ap_agents p)))"

lemma pool_ok_new: "pool_ok agent_pool_new"
  by (simp add: pool_ok_def agent_pool_new_def)

lemma pool_ok_find:
  assumes "pool_ok p"
  shows "find_agent (ap_agents p) (ap_slots p) name = Some (find_index (\<lambda>a. ae_name a = name) (ap_agents p))"
proof (cases "ap_slots p = []")
  case True
  then show ?thesis
    using assms by (simp add: pool_ok_def find_agent_def)
next
  case False
  then show ?thesis
    using assms by (intro find_agent_indexed) (simp_all add: pool_ok_def)
qed

lemma reserve_ok:
  assumes "pool_ok p" "length (ap_agents p) < 2147483647"
  shows "\<exists>ok slots. name_index_reserve mi (ap_agents p) (ap_slots p) (length (ap_agents p) + 1) = Some (ok, slots)
    \<and> (mi \<longrightarrow> ok) \<and> pool_ok (p\<lparr>ap_slots := slots\<rparr>)
    \<and> (ok \<longrightarrow> slots \<noteq> [] \<and> (length (ap_agents p) + 1) * 10 < length slots * 7)"
proof -
  let ?n = "length (ap_agents p)"
  let ?cap = "length (ap_slots p)"
  show ?thesis
  proof (cases "?cap \<noteq> 0 \<and> (?n + 1) * 10 < ?cap * 7")
    case True
    then show ?thesis
      using assms(1) by (auto simp: name_index_reserve_def Let_def)
  next
    case False
    define c where "c = (if ?cap \<noteq> 0 then ?cap * 2 else 16)"
    have c: "16 \<le> c" "c < 2 ^ 36" "(?n + 1) * 10 < c * 7" "?n < c"
      using False assms by (auto simp: pool_ok_def c_def split: if_splits)
    obtain slots where S: "index_all (ap_agents p) (replicate c 0) [0..<?n] = Some slots" "length slots = c"
      "indexed (ap_agents p) slots ?n"
      using index_all_fresh [OF c(4)] c(2) by auto
    have big: "\<not> (SIZE_MAX < c \<or> SIZE_MAX div 8 < c)"
      using c(2) by (simp add: SIZE_MAX_def)
    have ne: "slots \<noteq> []"
      using S(2) c(1) by auto
    have "pool_ok (p\<lparr>ap_slots := slots\<rparr>)"
      using assms(1) S(2,3) c ne by (simp add: pool_ok_def)
    moreover have "name_index_reserve mi (ap_agents p) (ap_slots p) (?n + 1) = Some (if mi then (True, slots) else (False, ap_slots p))"
      using False big S(1) unfolding name_index_reserve_def Let_def c_def [symmetric] by (simp only: if_False) simp
    ultimately show ?thesis
      using c(3) S(2) assms(1) ne by (intro exI [of _ mi] exI [of _ "if mi then slots else ap_slots p"]) auto
  qed
qed

lemma find_index_names: "find_index (\<lambda>a. ae_name a = n) ags = None \<longleftrightarrow> n \<notin> ae_name ` set ags"
  by (auto simp: find_index_None_iff)

lemma indexed_append: "n \<le> length ags \<Longrightarrow> indexed ags slots n \<Longrightarrow> indexed (ags @ [a]) slots n"
  unfolding indexed_def by (simp add: nth_append)

lemma add_model_ok:
  assumes "pool_ok p"
  shows "\<exists>rc p'. agent_pool_add_model mi ma ms p name role provider model = Some (rc, p') \<and> pool_ok p'
    \<and> (if rc < 0 then ap_agents p' = ap_agents p
       else rc = int (length (ap_agents p)) \<and> ap_agents p' = ap_agents p @
         [\<lparr>ae_name = nonnull_or [] name, ae_role = nonnull_or [] role, ae_provider = provider, ae_model = model\<rparr>])
    \<and> (rc < 0 \<longleftrightarrow> nonnull_or [] name = [] \<or> nonnull_or [] name \<in> ae_name ` set (ap_agents p)
         \<or> 2147483647 \<le> length (ap_agents p)
         \<or> \<not> ma \<or> \<not> ms \<or> \<not> fst (the (name_index_reserve mi (ap_agents p) (ap_slots p) (length (ap_agents p) + 1))))"
    (is "\<exists>rc p'. ?add = _ \<and> _")
proof -
  let ?n = "nonnull_or [] name"
  let ?ags = "ap_agents p"
  consider "?n = [] \<or> ?n \<in> ae_name ` set ?ags \<or> 2147483647 \<le> length ?ags"
    | "?n \<noteq> []" "?n \<notin> ae_name ` set ?ags" "length ?ags < 2147483647"
    by linarith
  then show ?thesis
  proof cases
    case 1
    then have "?add = Some (-1, p)"
      using pool_ok_find [OF assms, of ?n] find_index_names [of ?n ?ags]
      by (auto simp: agent_pool_add_model_def Let_def split: option.split)
    then show ?thesis
      using 1 assms by auto
  next
    case 2
    obtain ok slots where R: "name_index_reserve mi ?ags (ap_slots p) (length ?ags + 1) = Some (ok, slots)"
      "pool_ok (p\<lparr>ap_slots := slots\<rparr>)" "ok \<Longrightarrow> slots \<noteq> [] \<and> (length ?ags + 1) * 10 < length slots * 7"
      using reserve_ok [OF assms 2(3), of mi] by blast
    have find: "find_agent ?ags (ap_slots p) ?n = Some None"
      using pool_ok_find [OF assms] 2(2) by (simp add: find_index_names [symmetric])
    show ?thesis
    proof (cases "ok \<and> ma \<and> ms")
      case False
      then have "?add = Some (-1, if ok then p\<lparr>ap_slots := slots\<rparr> else p)"
        using 2 find R(1) by (auto simp: agent_pool_add_model_def Let_def)
      then show ?thesis
        using False R assms by auto
    next
      case True
      let ?a = "\<lparr>ae_name = ?n, ae_role = nonnull_or [] role, ae_provider = provider, ae_model = model\<rparr>"
      have s: "slots \<noteq> []" "16 \<le> length slots" "length slots < 2 ^ 64" "(length ?ags + 1) * 10 < length slots * 7"
        "indexed ?ags slots (length ?ags)"
        using R(2) R(3) True by (auto simp: pool_ok_def)
      obtain s' where s': "name_index_insert (?ags @ [?a]) slots (length ?ags) = Some s'" "length s' = length slots"
        "indexed (?ags @ [?a]) s' (Suc (length ?ags))"
        using name_index_insert_indexed [OF indexed_append [OF order_refl s(5)]] s(3,4) by fastforce
      have "?add = Some (int (length ?ags), p\<lparr>ap_agents := ?ags @ [?a], ap_slots := s'\<rparr>)"
        using 2 find R(1) True s' by (simp add: agent_pool_add_model_def Let_def)
      moreover have "pool_ok (p\<lparr>ap_agents := ?ags @ [?a], ap_slots := s'\<rparr>)"
        using assms 2 s s' by (auto simp: pool_ok_def)
      ultimately show ?thesis
        using R(1) True 2 by simp
    qed
  qed
qed

lemma set_model_ok:
  assumes "pool_ok p"
  shows "\<exists>rc p'. agent_pool_set_model p name provider model = Some (rc, p') \<and> pool_ok p'
    \<and> ap_agents p' = map (\<lambda>a. if ae_name a = nonnull_or [] name
         then a\<lparr>ae_provider := nonempty_copy provider, ae_model := nonempty_copy model\<rparr> else a) (ap_agents p)"
proof (cases "nonnull_or [] name = [] \<or> find_index (\<lambda>a. ae_name a = nonnull_or [] name) (ap_agents p) = None")
  case True
  then have "map (\<lambda>a. if ae_name a = nonnull_or [] name
      then a\<lparr>ae_provider := nonempty_copy provider, ae_model := nonempty_copy model\<rparr> else a) (ap_agents p) = ap_agents p"
    using assms by (intro map_idI) (auto simp: pool_ok_def list_all_iff find_index_None_iff)
  then show ?thesis
    using True assms pool_ok_find [OF assms] by (auto simp: agent_pool_set_model_def)
next
  case False
  then obtain i where i: "find_index (\<lambda>a. ae_name a = nonnull_or [] name) (ap_agents p) = Some i"
    by blast
  note I = find_index_SomeD [OF i]
  let ?e = "(ap_agents p ! i)\<lparr>ae_provider := nonempty_copy provider, ae_model := nonempty_copy model\<rparr>"
  have names: "map ae_name ((ap_agents p)[i := ?e]) = map ae_name (ap_agents p)"
    using I by (simp add: map_update list_update_same_conv)
  have nth: "ae_name ((ap_agents p)[i := ?e] ! k) = ae_name (ap_agents p ! k)" if "k < length (ap_agents p)" for k
    using I by (simp add: nth_list_update)
  have "pool_ok (p\<lparr>ap_agents := (ap_agents p)[i := ?e]\<rparr>)"
    using assms I unfolding pool_ok_def by (auto simp: names nth indexed_def list_all_length)
  moreover have "(ap_agents p)[i := ?e] = map (\<lambda>a. if ae_name a = nonnull_or [] name
      then a\<lparr>ae_provider := nonempty_copy provider, ae_model := nonempty_copy model\<rparr> else a) (ap_agents p)"
  proof (rule nth_equalityI)
    fix k
    assume "k < length ((ap_agents p)[i := ?e])"
    moreover have "ae_name (ap_agents p ! k) = nonnull_or [] name \<longleftrightarrow> k = i" if "k < length (ap_agents p)"
      using assms that I nth_eq_iff_index_eq [of "map ae_name (ap_agents p)" k i] by (auto simp: pool_ok_def)
    ultimately show "(ap_agents p)[i := ?e] ! k = map (\<lambda>a. if ae_name a = nonnull_or [] name
      then a\<lparr>ae_provider := nonempty_copy provider, ae_model := nonempty_copy model\<rparr> else a) (ap_agents p) ! k"
      by (auto simp: nth_list_update)
  qed simp
  ultimately show ?thesis
    using False i pool_ok_find [OF assms] by (simp add: agent_pool_set_model_def)
qed

lemma remove_at_filter:
  "distinct (map f xs) \<Longrightarrow> find_index (\<lambda>a. f a = n) xs = Some i \<Longrightarrow> remove_at i xs = filter (\<lambda>a. f a \<noteq> n) xs"
proof (induction xs arbitrary: i)
  case (Cons x xs)
  then show ?case
    by (cases "f x = n") (auto split: if_splits intro!: filter_True [symmetric] simp: image_iff)
qed simp

lemma remove_ok:
  assumes "pool_ok p"
  shows "\<exists>rc p'. agent_pool_remove p name = Some (rc, p') \<and> pool_ok p'
    \<and> ap_agents p' = filter (\<lambda>a. ae_name a \<noteq> nonnull_or [] name) (ap_agents p)"
proof (cases "nonnull_or [] name = [] \<or> find_index (\<lambda>a. ae_name a = nonnull_or [] name) (ap_agents p) = None")
  case True
  then have "filter (\<lambda>a. ae_name a \<noteq> nonnull_or [] name) (ap_agents p) = ap_agents p"
    using assms by (auto simp: pool_ok_def list_all_iff find_index_None_iff filter_id_conv)
  then show ?thesis
    using True assms pool_ok_find [OF assms] by (auto simp: agent_pool_remove_def)
next
  case False
  then obtain i where i: "find_index (\<lambda>a. ae_name a = nonnull_or [] name) (ap_agents p) = Some i"
    by blast
  note I = find_index_SomeD [OF i]
  let ?ags = "remove_at i (ap_agents p)"
  have "distinct (map ae_name (ap_agents p))"
    using assms by (simp add: pool_ok_def)
  then have rm: "?ags = filter (\<lambda>a. ae_name a \<noteq> nonnull_or [] name) (ap_agents p)"
    using i by (rule remove_at_filter)
  have len: "length ?ags = length (ap_agents p) - 1" "ap_slots p \<noteq> []"
    using I assms by (auto simp: remove_at_def pool_ok_def)
  have "length ?ags < length (ap_slots p)" "length (ap_slots p) < 2 ^ 64"
    using assms len by (auto simp: pool_ok_def)
  from index_all_fresh [OF this] obtain s where s: "index_all ?ags (replicate (length (ap_slots p)) 0) [0..<length ?ags] = Some s"
    "length s = length (ap_slots p)" "indexed ?ags s (length ?ags)"
    by blast
  have "distinct (map ae_name ?ags)" "list_all (\<lambda>a. ae_name a \<noteq> []) ?ags"
    using assms unfolding pool_ok_def rm by (simp_all add: distinct_map_filter list_all_iff)
  then have "pool_ok (p\<lparr>ap_agents := ?ags, ap_slots := s\<rparr>)"
    using assms s len by (auto simp: pool_ok_def)
  then show ?thesis
    using False i s rm pool_ok_find [OF assms] by (simp add: agent_pool_remove_def)
qed

section \<open>The pool as a roster\<close>

datatype pool_op =
    PAdd bool bool bool "cstr option" "cstr option" "cstr option" "cstr option"
  | PSetModel "cstr option" "cstr option" "cstr option"
  | PRemove "cstr option"

fun pool_step :: "pool_op \<Rightarrow> agent_pool \<Rightarrow> (int \<times> agent_pool) option" where
  "pool_step (PAdd mi ma ms n r pr m) p = agent_pool_add_model mi ma ms p n r pr m"
| "pool_step (PSetModel n pr m) p = agent_pool_set_model p n pr m"
| "pool_step (PRemove n) p = agent_pool_remove p n"

fun pool_run :: "pool_op list \<Rightarrow> agent_pool \<Rightarrow> agent_pool option" where
  "pool_run [] p = Some p"
| "pool_run (c # cs) p = (case pool_step c p of None \<Rightarrow> None | Some (_, p') \<Rightarrow> pool_run cs p')"

text \<open>What an operation does to the roster as a list, when an addition that must allocate succeeds (\<open>ok\<close>).\<close>

fun roster_step :: "pool_op \<Rightarrow> bool \<Rightarrow> agent_entry list \<Rightarrow> agent_entry list" where
  "roster_step (PAdd _ _ _ n r pr m) ok ags =
     (if ok \<and> nonnull_or [] n \<noteq> [] \<and> nonnull_or [] n \<notin> ae_name ` set ags \<and> length ags < 2147483647
      then ags @ [\<lparr>ae_name = nonnull_or [] n, ae_role = nonnull_or [] r, ae_provider = pr, ae_model = m\<rparr>] else ags)"
| "roster_step (PSetModel n pr m) _ ags =
     map (\<lambda>a. if ae_name a = nonnull_or [] n then a\<lparr>ae_provider := nonempty_copy pr, ae_model := nonempty_copy m\<rparr> else a) ags"
| "roster_step (PRemove n) _ ags = filter (\<lambda>a. ae_name a \<noteq> nonnull_or [] n) ags"

fun allocs_ok :: "pool_op \<Rightarrow> bool" where
  "allocs_ok (PAdd mi ma ms _ _ _ _) = (mi \<and> ma \<and> ms)"
| "allocs_ok _ = True"

lemma pool_step_ok:
  assumes "pool_ok p"
  shows "\<exists>rc p' ok. pool_step c p = Some (rc, p') \<and> pool_ok p' \<and> ap_agents p' = roster_step c ok (ap_agents p) \<and> (allocs_ok c \<longrightarrow> ok)"
proof (cases c)
  case (PAdd mi ma ms n r pr m)
  obtain rc p' where A: "agent_pool_add_model mi ma ms p n r pr m = Some (rc, p')" "pool_ok p'"
    "if rc < 0 then ap_agents p' = ap_agents p
     else rc = int (length (ap_agents p)) \<and> ap_agents p' = ap_agents p @
       [\<lparr>ae_name = nonnull_or [] n, ae_role = nonnull_or [] r, ae_provider = pr, ae_model = m\<rparr>]"
    "rc < 0 \<longleftrightarrow> nonnull_or [] n = [] \<or> nonnull_or [] n \<in> ae_name ` set (ap_agents p) \<or> 2147483647 \<le> length (ap_agents p)
       \<or> \<not> ma \<or> \<not> ms \<or> \<not> fst (the (name_index_reserve mi (ap_agents p) (ap_slots p) (length (ap_agents p) + 1)))"
    using add_model_ok [OF assms] by blast
  have "fst (the (name_index_reserve mi (ap_agents p) (ap_slots p) (length (ap_agents p) + 1)))"
    if "mi" "length (ap_agents p) < 2147483647"
    using reserve_ok [OF assms that(2), of mi] that(1) by auto
  then show ?thesis
    using A PAdd
    by (intro exI [of _ rc] exI [of _ p'] exI [of _ "ma \<and> ms \<and> fst (the (name_index_reserve mi (ap_agents p) (ap_slots p) (length (ap_agents p) + 1)))
      \<or> 2147483647 \<le> length (ap_agents p)"]) (auto split: if_splits)
next
  case (PSetModel n pr m)
  then show ?thesis
    using set_model_ok [OF assms, of n pr m] by auto
next
  case (PRemove n)
  then show ?thesis
    using remove_ok [OF assms, of n] by auto
qed

lemma pool_run_ok:
  "pool_ok p \<Longrightarrow> \<exists>p'. pool_run cs p = Some p' \<and> pool_ok p'
     \<and> (list_all allocs_ok cs \<longrightarrow> ap_agents p' = fold (\<lambda>c. roster_step c True) cs (ap_agents p))"
proof (induction cs arbitrary: p)
  case (Cons c cs)
  obtain rc p1 ok where 1: "pool_step c p = Some (rc, p1)" "pool_ok p1" "ap_agents p1 = roster_step c ok (ap_agents p)"
    "allocs_ok c \<longrightarrow> ok"
    using pool_step_ok [OF Cons.prems] by blast
  from Cons.IH [OF 1(2)] 1 show ?case
    by auto
qed simp

text \<open>C9: After any additions, model changes and removals, failed allocations included,
  every operation of the agent pool has returned, no two agents share a name, and a lookup through the hash index
  returns the position a linear search of the array finds.\<close>

theorem agent_index_is_linear_search:
  "\<exists>p. pool_run cs agent_pool_new = Some p \<and> distinct (map ae_name (ap_agents p))
     \<and> (\<forall>n. agent_pool_find p (Some n) =
           Some (case find_index (\<lambda>a. ae_name a = n) (ap_agents p) of None \<Rightarrow> -1 | Some i \<Rightarrow> int i))"
proof -
  obtain p where p: "pool_run cs agent_pool_new = Some p" "pool_ok p"
    using pool_run_ok [OF pool_ok_new] by blast
  then show ?thesis
    using pool_ok_find [OF p(2)] by (auto simp: agent_pool_find_def pool_ok_def)
qed

text \<open>When memory is available the pool's array is the list that the same operations
  make of an empty roster: an addition appends unless the name is empty or taken, a removal filters.\<close>

theorem agent_pool_refines_roster:
  assumes "list_all allocs_ok cs"
  shows "map_option ap_agents (pool_run cs agent_pool_new) = Some (fold (\<lambda>c. roster_step c True) cs [])"
  using pool_run_ok [OF pool_ok_new, of cs] assms by (auto simp: agent_pool_new_def)

theorem agent_pool_refines_roster_witness:
  "map_option (map ae_name \<circ> ap_agents)
     (pool_run [PAdd True True True (Some ''a'') None None None, PAdd True True True (Some ''b'') None None None,
                PRemove (Some ''a'')] agent_pool_new) = Some [''b'']"
proof -
  let ?cs = "[PAdd True True True (Some ''a'') None None None, PAdd True True True (Some ''b'') None None None, PRemove (Some ''a'')]"
  have "map_option ap_agents (pool_run ?cs agent_pool_new) = Some (fold (\<lambda>c. roster_step c True) ?cs [])"
    by (rule agent_pool_refines_roster) simp
  from arg_cong [OF this, of "map_option (map ae_name)"] show ?thesis
    by (simp add: nonnull_or_def option.map_comp comp_def)
qed

section \<open>Saving and loading\<close>

lemma load_agents_entries:
  assumes "pool_ok p" "distinct (map ae_name (ap_agents p @ es))" "list_all (\<lambda>a. ae_name a \<noteq> []) es"
    "length (ap_agents p) + length es \<le> 2147483647"
  shows "\<exists>p'. load_agents (map roster_entry_json es) p n = Some (n + int (length es), p') \<and> ap_agents p' = ap_agents p @ es"
  using assms
proof (induction es arbitrary: p n)
  case (Cons e es)
  have get: "json_string (json_get ''name'' (Some (roster_entry_json e))) = Some (ae_name e)"
    "json_string (json_get ''role'' (Some (roster_entry_json e))) = Some (ae_role e)"
    "json_string (json_get ''provider'' (Some (roster_entry_json e))) = ae_provider e"
    "json_string (json_get ''model'' (Some (roster_entry_json e))) = ae_model e"
    by (simp_all add: roster_entry_json_def split: option.split)
  have ne: "ae_name e \<noteq> []" "ae_name e \<notin> ae_name ` set (ap_agents p)" "length (ap_agents p) < 2147483647"
    using Cons.prems by auto
  obtain p1 where 1: "agent_pool_add_model True True True p (Some (ae_name e)) (Some (ae_role e)) (ae_provider e) (ae_model e)
      = Some (int (length (ap_agents p)), p1)" "pool_ok p1" "ap_agents p1 = ap_agents p @ [e]"
    using add_model_ok [OF Cons.prems(1), of True True True "Some (ae_name e)" "Some (ae_role e)" "ae_provider e" "ae_model e"]
      reserve_ok [OF Cons.prems(1) ne(3), of True] ne by (auto simp: nonnull_or_def split: if_splits)
  from Cons.IH [OF 1(2), of "n + 1"] Cons.prems 1 ne(1) show ?case
    by (auto simp: get nonnull_or_def)
qed simp

text \<open>A roster that was saved is the roster a fresh pool loads from the same directory,
  models and order included.\<close>

theorem agent_roster_roundtrip:
  assumes "pool_run cs agent_pool_new = Some p" "agent_pool_save print p (Some dir) fs = (0, fs')"
    and "parse (print (roster_json (ap_agents p))) = Some (roster_json (ap_agents p))"
    and "CHR 0x00 \<notin> set (print (roster_json (ap_agents p)))" "fs_get fs (dir @ ''/agents.json'') = None"
  shows "\<exists>q. agent_pool_load parse agent_pool_new (Some dir) fs' = Some (int (length (ap_agents p)), q) \<and> ap_agents q = ap_agents p"
proof -
  have ok: "pool_ok p"
    using pool_run_ok [OF pool_ok_new, of cs] assms(1) by auto
  let ?text = "print (roster_json (ap_agents p))"
  have W: "dir \<noteq> []" "roster_path dir = Some (dir @ ''/agents.json'')" "fs_write_file (dir @ ''/agents.json'') ?text fs = (0, fs')"
    using assms(2) by (auto simp: agent_pool_save_def nonnull_or_def roster_path_def Let_def split: if_splits prod.splits)
  have R: "fs_read_file fs' (dir @ ''/agents.json'') = Some ?text"
    by (rule fs_write_read [OF W(3) assms(5)])
  obtain q where "load_agents (map roster_entry_json (ap_agents p)) agent_pool_new 0 = Some (int (length (ap_agents p)), q)"
    "ap_agents q = ap_agents p"
    using load_agents_entries [OF pool_ok_new, of "ap_agents p" 0] ok by (auto simp: pool_ok_def agent_pool_new_def)
  then show ?thesis
    using W(1,2) R assms(3,4) by (auto simp: agent_pool_load_def nonnull_or_def c_string_id roster_json_def)
qed

theorem agent_roster_roundtrip_witness:
  "\<exists>p q fs'. pool_run [PAdd True True True (Some ''a'') (Some ''r'') None None] agent_pool_new = Some p
     \<and> agent_pool_save (\<lambda>_. ''t'') p (Some ''d'') \<lparr>nodes = [], denied = []\<rparr> = (0, fs')
     \<and> agent_pool_load (\<lambda>_. Some (roster_json (ap_agents p))) agent_pool_new (Some ''d'') fs' = Some (1, q)
     \<and> map ae_name (ap_agents q) = [''a'']"
proof -
  let ?cs = "[PAdd True True True (Some ''a'') (Some ''r'') None None]"
  let ?fs = "\<lparr>nodes = [], denied = []\<rparr> :: fsys"
  obtain p where p: "pool_run ?cs agent_pool_new = Some p" "map ae_name (ap_agents p) = [''a'']"
    using pool_run_ok [OF pool_ok_new, of ?cs] by (auto simp: agent_pool_new_def nonnull_or_def)
  obtain fs' where S: "agent_pool_save (\<lambda>_. ''t'') p (Some ''d'') ?fs = (0, fs')"
    by (simp add: agent_pool_save_def nonnull_or_def roster_path_def fs_write_file_def fs_get_def)
  have len: "length (ap_agents p) = 1"
    using arg_cong [OF p(2), of length] by simp
  from agent_roster_roundtrip [OF p(1) S, of "\<lambda>_. Some (roster_json (ap_agents p))"]
  obtain q where "agent_pool_load (\<lambda>_. Some (roster_json (ap_agents p))) agent_pool_new (Some ''d'') fs' = Some (1, q)"
    "ap_agents q = ap_agents p"
    by (auto simp: fs_get_def len)
  with p S show ?thesis
    by auto
qed

end
