(* ===== verification/FlowRun.thy ===== *)
theory FlowRun
  imports FlowLayer FlowProg AgentPool TaskModel Tools "HOL-Library.Monad_Syntax"
begin

text \<open>
  Running a flow (\<open>src/backend/src/runtime/flow.c\<close>): the layers in order, a node of a layer only when every node it
  depends on succeeded, at most eight at a time, the results substituted into the tasks of later layers. The run of an
  agent's reasoning loop (\<open>fe_agent\<close>: node, attempt, session, prompt) is a parameter that may change the files; so are the
  clock, the parent task as it stands at each look, and the order \<open>fe_order\<close> in which the threads of a batch take effect.
  A worker is one step. \<open>None\<close> stands for a lookup in the agent pool that never ends.
\<close>

section \<open>Context\<close>

definition FLOW_MAX_PARALLEL :: nat where
  "FLOW_MAX_PARALLEL = 8"

definition FLOW_MAX_EXPANDED_CONTEXT :: nat where
  "FLOW_MAX_EXPANDED_CONTEXT = 512 * 1024"

definition FLOW_SUBST_CAP :: nat where
  "FLOW_SUBST_CAP = 4096"

record flow_env =
  fe_parse :: "cstr \<Rightarrow> json option"
  fe_print :: "json \<Rightarrow> cstr"
  fe_clock :: "nat \<Rightarrow> int"
  fe_parent :: "(nat \<Rightarrow> task) option"
  fe_reasoning :: "nat \<Rightarrow> bool"
  fe_agent :: "nat \<Rightarrow> nat \<Rightarrow> cstr \<Rightarrow> cstr \<Rightarrow> fsys \<Rightarrow> int \<times> cstr option \<times> fsys"
  fe_view :: "nat \<Rightarrow> rn_view"
  fe_order :: "nat list \<Rightarrow> nat list"
  fe_workspace :: "cstr option"
  fe_state_root :: "cstr option"
  fe_absolute :: "cstr \<Rightarrow> cstr option"
  fe_passwords :: "cstr list"

text \<open>The blackboard of the context is the one the agent pool has adopted; \<open>fw_tick\<close> counts the looks at the clock.\<close>

record flow_world =
  fw_pool :: agent_pool
  fw_disk :: disk
  fw_fs :: fsys
  fw_bus :: "json list option"
  fw_progs :: flow_progs
  fw_tick :: nat

record flow_job =
  j_task :: "cstr option"
  j_result_path :: "cstr option"
  j_out :: "cstr option"
  j_rc :: int

definition flow_event_json :: "cstr \<Rightarrow> cstr \<Rightarrow> cstr \<Rightarrow> cstr \<Rightarrow> json" where
  "flow_event_json stage i agent detail =
     JObj [(''stage'', JStr stage), (''node'', JStr i), (''agent'', JStr agent), (''detail'', JStr detail)]"

definition flow_event :: "cstr \<Rightarrow> cstr \<Rightarrow> cstr \<Rightarrow> cstr \<Rightarrow> flow_world \<Rightarrow> flow_world" where
  "flow_event stage i agent detail w = w\<lparr>fw_bus := map_option (\<lambda>evs. evs @ [flow_event_json stage i agent detail]) (fw_bus w)\<rparr>"

definition mark_node :: "flow_env \<Rightarrow> int \<Rightarrow> cstr \<Rightarrow> fp_state \<Rightarrow> flow_world \<Rightarrow> flow_world" where
  "mark_node env tid i st w =
     w\<lparr>fw_progs := flow_prog_node_mark (fw_progs w) tid i st (fe_clock env (fw_tick w)), fw_tick := fw_tick w + 1\<rparr>"

text \<open>A look at the parent task: \<open>Some c\<close> when the run must stop, with \<open>c\<close> the cancel flag.\<close>

definition parent_abort :: "flow_env \<Rightarrow> flow_world \<Rightarrow> bool option \<times> flow_world" where
  "parent_abort env w =
     (case fe_parent env of
        None \<Rightarrow> (None, w)
      | Some f \<Rightarrow>
          (if task_should_abort (fe_clock env (fw_tick w)) (Some (f (fw_tick w))) then Some (cancel_flag (f (fw_tick w))) else None,
           w\<lparr>fw_tick := fw_tick w + 1\<rparr>))"

definition put_board :: "flow_env \<Rightarrow> cstr \<Rightarrow> cstr \<Rightarrow> flow_world \<Rightarrow> flow_world" where
  "put_board env key v w =
     (case blackboard_put (fe_print env) True True (ap_bb (fw_pool w), fw_disk w) (Some key) (Some v) of
        (b, dk) \<Rightarrow> w\<lparr>fw_pool := (fw_pool w)\<lparr>ap_bb := b\<rparr>, fw_disk := dk\<rparr>)"

section \<open>One node\<close>

definition no_context_message :: cstr where
  "no_context_message =
     ''Unable to prepare complete upstream context (allocation or context limit); no node actions executed.''"

definition retry_text :: "cstr \<Rightarrow> cstr" where
  "retry_text task =
     [CHR 0xE5, CHR 0x8E, CHR 0x9F, CHR 0xE4, CHR 0xBB, CHR 0xBB, CHR 0xE5, CHR 0x8A, CHR 0xA1, CHR 0xEF, CHR 0xBC, CHR 0x9A] @ task
     @ [CHR 0x0A, CHR 0xE5, CHR 0xB0, CHR 0x9A, CHR 0xE6, CHR 0x9C, CHR 0xAA, CHR 0xE4, CHR 0xBA, CHR 0xA4, CHR 0xE4, CHR 0xBB, CHR 0x98, CHR 0xE5, CHR 0x8F, CHR 0xAF, CHR 0xE9, CHR 0xAA, CHR 0x8C, CHR 0xE8, CHR 0xAF, CHR 0x81, CHR 0xE7, CHR 0x9A, CHR 0x84] @ '' PPTX '' @ [CHR 0xE6, CHR 0x96, CHR 0x87, CHR 0xE4, CHR 0xBB, CHR 0xB6, CHR 0xE3, CHR 0x80, CHR 0x82, CHR 0xE8, CHR 0xAF, CHR 0xB7, CHR 0xE5, CHR 0xAE, CHR 0x9E, CHR 0xE9, CHR 0x99, CHR 0x85, CHR 0xE7, CHR 0x94, CHR 0x9F, CHR 0xE6, CHR 0x88, CHR 0x90, CHR 0xE5, CHR 0xB9, CHR 0xB6, CHR 0xE6, CHR 0xA3, CHR 0x80, CHR 0xE6, CHR 0x9F, CHR 0xA5, CHR 0xE6, CHR 0x96, CHR 0x87, CHR 0xE4, CHR 0xBB, CHR 0xB6, CHR 0xEF, CHR 0xBC, CHR 0x8C, CHR 0xE6, CHR 0x9C, CHR 0x80, CHR 0xE7, CHR 0xBB, CHR 0x88, CHR 0xE7, CHR 0x94, CHR 0xA8, CHR 0xE5, CHR 0x8F, CHR 0x8D, CHR 0xE5, CHR 0xBC, CHR 0x95, CHR 0xE5, CHR 0x8F, CHR 0xB7, CHR 0xE5, CHR 0x86, CHR 0x99, CHR 0xE5, CHR 0x87, CHR 0xBA] @ '' .pptx '' @ [CHR 0xE8, CHR 0xB7, CHR 0xAF, CHR 0xE5, CHR 0xBE, CHR 0x84, CHR 0xE3, CHR 0x80, CHR 0x82]"

definition no_deliverable_message :: cstr where
  "no_deliverable_message =
     ''PPT '' @ [CHR 0xE6, CHR 0x96, CHR 0x87, CHR 0xE4, CHR 0xBB, CHR 0xB6, CHR 0xE6, CHR 0x9C, CHR 0xAA, CHR 0xE7, CHR 0x94, CHR 0x9F, CHR 0xE6, CHR 0x88, CHR 0x90, CHR 0xEF, CHR 0xBC, CHR 0x8C, CHR 0xE6, CHR 0x88, CHR 0x96, CHR 0xE6, CHR 0x9C, CHR 0x80, CHR 0xE7, CHR 0xBB, CHR 0x88, CHR 0xE5, CHR 0x9B, CHR 0x9E, CHR 0xE7, CHR 0xAD, CHR 0x94, CHR 0xE6, CHR 0x9C, CHR 0xAA, CHR 0xE6, CHR 0x8F, CHR 0x90, CHR 0xE4, CHR 0xBE, CHR 0x9B, CHR 0xE5, CHR 0x8F, CHR 0xAF, CHR 0xE9, CHR 0xAA, CHR 0x8C, CHR 0xE8, CHR 0xAF, CHR 0x81, CHR 0xE7, CHR 0x9A, CHR 0x84] @ '' .pptx '' @ [CHR 0xE8, CHR 0xB7, CHR 0xAF, CHR 0xE5, CHR 0xBE, CHR 0x84, CHR 0xE3, CHR 0x80, CHR 0x82]"

definition run_workspace :: "flow_env \<Rightarrow> flow_world \<Rightarrow> cstr option" where
  "run_workspace env w =
     (case fe_parent env of
        None \<Rightarrow> fe_workspace env
      | Some f \<Rightarrow> (case workspace (f (fw_tick w)) of None \<Rightarrow> fe_workspace env | Some ws \<Rightarrow> Some ws))"

text \<open>One run of the node's agent: prompt, reasoning loop.\<close>

definition agent_attempt ::
  "flow_env \<Rightarrow> nat \<Rightarrow> flow_node \<Rightarrow> nat \<Rightarrow> cstr \<Rightarrow> flow_world \<Rightarrow> (int \<times> cstr option \<times> flow_world) option" where
  "agent_attempt env i nd n task w = do {
     prompt \<leftarrow> agent_pool_task_prompt (fw_pool w) (Some (fn_agent nd)) (Some task);
     Some (case prompt of
             None \<Rightarrow> (-1, None, w)
           | Some p \<Rightarrow>
               (case fe_agent env i n (cbuf 192 (''agent:'' @ nonempty_or ''default'' (Some (fn_agent nd)))) p (fw_fs w) of
                  (rc, out, fs) \<Rightarrow> (rc, out, w\<lparr>fw_fs := fs\<rparr>)))
   }"

definition deliverable ::
  "flow_node \<Rightarrow> cstr \<Rightarrow> cstr option \<Rightarrow> int \<Rightarrow> cstr option \<Rightarrow> flow_world \<Rightarrow> bool option" where
  "deliverable nd task ws rc out w =
     (if rc \<noteq> 0 then Some True
      else agent_pool_deliverable_valid (fw_fs w) (fw_pool w) (fn_agent nd) (Some task) out ws)"

definition run_agent ::
  "flow_env \<Rightarrow> nat \<Rightarrow> flow_node \<Rightarrow> cstr \<Rightarrow> cstr option \<Rightarrow> flow_world \<Rightarrow> (int \<times> cstr option \<times> flow_world) option" where
  "run_agent env i nd task ws w = do {
     (rc, out, w1) \<leftarrow> agent_attempt env i nd 0 task w;
     good \<leftarrow> deliverable nd task ws rc out w1;
     if good then Some (rc, out, w1)
     else do {
       (rc2, out2, w2) \<leftarrow> agent_attempt env i nd 1 (retry_text task) w1;
       good2 \<leftarrow> deliverable nd task ws rc2 out2 w2;
       Some (if good2 then (rc2, out2, w2) else (-1, Some no_deliverable_message, w2))
     }
   }"

definition result_document :: "flow_node \<Rightarrow> cstr option \<Rightarrow> cstr \<Rightarrow> int \<Rightarrow> cstr option \<Rightarrow> cstr" where
  "result_document nd ws task rc out =
     (let nl = [CHR 0x0A] in
      ''# Flow node '' @ fn_id nd @ '' ('' @ fn_agent nd @ '')'' @ nl @ nl @ ''Execution workspace: '' @ nonnull_or ''.'' ws
      @ nl @ nl @ ''## Original instruction'' @ nl @ fn_task nd
      @ nl @ nl @ ''## Resolved instruction and upstream context'' @ nl @ task
      @ nl @ nl @ ''## Result ('' @ (if rc = 0 then ''ok'' else ''error'') @ '')'' @ nl @ nonnull_or [] out)"

definition save_result ::
  "flow_env \<Rightarrow> flow_node \<Rightarrow> cstr option \<Rightarrow> cstr \<Rightarrow> int \<Rightarrow> cstr option \<Rightarrow> cstr option \<Rightarrow> flow_world \<Rightarrow> cstr option \<times> flow_world" where
  "save_result env nd ws task rc out path w =
     (case path of
        None \<Rightarrow> (None, w)
      | Some p \<Rightarrow>
          (case secret_redact_ssh_passwords True (fe_passwords env) (result_document nd ws task rc out) None of
             None \<Rightarrow> (None, w)
           | Some safe \<Rightarrow>
               (case fs_write_file p safe (fw_fs w) of (wc, fs) \<Rightarrow> (if wc = 0 then Some p else None, w\<lparr>fw_fs := fs\<rparr>))))"

definition final_state :: "int \<Rightarrow> fp_state" where
  "final_state rc = (if rc = 0 then FP_OK else if rc = -3 then FP_CANCELLED else if rc = -4 then FP_TIMEOUT else FP_ERROR)"

definition attach_node :: "flow_env \<Rightarrow> int \<Rightarrow> cstr \<Rightarrow> nat option \<Rightarrow> flow_world \<Rightarrow> flow_world" where
  "attach_node env tid i rn w = w\<lparr>fw_progs := flow_prog_node_attach (fe_view env) (fw_progs w) tid i rn\<rparr>"

text \<open>\<open>ws\<close> is the workspace of the job.\<close>

definition flow_worker ::
  "flow_env \<Rightarrow> int \<Rightarrow> cstr option \<Rightarrow> nat \<Rightarrow> flow_node \<Rightarrow> flow_job \<Rightarrow> flow_world \<Rightarrow> (flow_job \<times> flow_world) option" where
  "flow_worker env tid ws i nd j w =
     (case j_task j of
        None \<Rightarrow> Some (j\<lparr>j_rc := -1, j_out := Some no_context_message\<rparr>, mark_node env tid (fn_id nd) FP_ERROR w)
      | Some task \<Rightarrow> do {
          let w1 = mark_node env tid (fn_id nd) FP_RUNNING (flow_event ''execute'' (fn_id nd) (fn_agent nd) task w);
          (rc, out, w2) \<leftarrow>
            (if fe_reasoning env i
             then map_option (\<lambda>(rc, out, w'). (rc, out, attach_node env tid (fn_id nd) None w'))
                    (run_agent env i nd task ws (attach_node env tid (fn_id nd) (Some i) w1))
             else Some (-1, j_out j, w1));
          let (stop, w3) = parent_abort env w2;
          let rc' = (case stop of None \<Rightarrow> rc | Some c \<Rightarrow> if c then -3 else -4);
          let (path, w4) = save_result env nd ws task rc' out (j_result_path j) w3;
          let w5 = put_board env (cbuf 96 (''flow/'' @ fn_id nd @ ''/result'')) (nonnull_or [] out) w4;
          let w6 = flow_event ''done'' (fn_id nd) (fn_agent nd) (if rc' = 0 then ''ok'' else ''error'') w5;
          Some (j\<lparr>j_rc := rc', j_out := out, j_result_path := path\<rparr>, mark_node env tid (fn_id nd) (final_state rc') w6)
        })"

section \<open>Substitution\<close>

text \<open>What follows the last occurrence of a non-empty needle.\<close>

fun after_last :: "cstr \<Rightarrow> cstr \<Rightarrow> cstr option" where
  "after_last needle [] = None"
| "after_last needle (c # cs) =
     (case after_last needle cs of
        Some r \<Rightarrow> Some r
      | None \<Rightarrow> if take (length needle) (c # cs) = needle then Some (drop (length needle) (c # cs)) else None)"

definition answer_mark :: cstr where
  "answer_mark = [CHR 0x0A, CHR 0xE5, CHR 0x9B, CHR 0x9E, CHR 0xE7, CHR 0xAD, CHR 0x94] @ '': ''"

definition answer_body :: "cstr \<Rightarrow> cstr" where
  "answer_body s = (case after_last answer_mark s of Some r \<Rightarrow> if r = [] then s else r | None \<Rightarrow> s)"

definition preview_bytes :: "cstr \<Rightarrow> cstr option \<Rightarrow> nat" where
  "preview_bytes body path = (if path \<noteq> None \<and> FLOW_SUBST_CAP < length body then preview_cut body FLOW_SUBST_CAP else length body)"

definition upstream_text :: "cstr \<Rightarrow> cstr \<Rightarrow> cstr option \<Rightarrow> cstr" where
  "upstream_text ref body path =
     (let n = preview_bytes body path in
      [CHR 0xE3, CHR 0x80, CHR 0x8C, CHR 0xE4, CHR 0xB8, CHR 0x8A, CHR 0xE6, CHR 0xB8, CHR 0xB8] @ '' '' @ ref @ '' '' @ [CHR 0xE7, CHR 0xBB, CHR 0x93, CHR 0xE6, CHR 0x9E, CHR 0x9C, CHR 0xE5, CHR 0xBC, CHR 0x80, CHR 0xE5, CHR 0xA7, CHR 0x8B, CHR 0xE3, CHR 0x80, CHR 0x8D, CHR 0x0A]
      @ take n body
      @ (if n < length body
         then [CHR 0x0A] @ ''[Upstream preview truncated: '' @ nat_str n @ ''/'' @ nat_str (length body)
              @ '' bytes. Full result, original instruction and execution workspace: '' @ nonnull_or [] path
              @ ''. Read this file with file_read and follow next_offset_bytes to retrieve missing implementation details, limitations and unread-file lists. Do not treat the preview as the complete result.]'' @ [CHR 0x0A]
         else case path of
                None \<Rightarrow> []
              | Some p \<Rightarrow> [CHR 0x0A] @ ''[Upstream complete result/provenance (original instruction and execution workspace): '' @ p @ ''.]'' @ [CHR 0x0A])
      @ [CHR 0x0A, CHR 0xE3, CHR 0x80, CHR 0x8C, CHR 0xE4, CHR 0xB8, CHR 0x8A, CHR 0xE6, CHR 0xB8, CHR 0xB8, CHR 0xE7, CHR 0xBB, CHR 0x93, CHR 0xE6, CHR 0x9E, CHR 0x9C, CHR 0xE7, CHR 0xBB, CHR 0x93, CHR 0xE6, CHR 0x9D, CHR 0x9F, CHR 0xE3, CHR 0x80, CHR 0x8D])"

definition subst_fits :: "nat \<Rightarrow> cstr \<Rightarrow> cstr option \<Rightarrow> bool" where
  "subst_fits out_len body path =
     (let preview = preview_bytes body path; overhead = 512 + length (nonnull_or [] path) in
      preview \<le> FLOW_MAX_EXPANDED_CONTEXT \<and> overhead \<le> FLOW_MAX_EXPANDED_CONTEXT - preview
      \<and> out_len \<le> FLOW_MAX_EXPANDED_CONTEXT - preview - overhead)"

text \<open>The reference at the start of a text, with its node and the text behind it.\<close>

definition ref_at :: "flow_dag \<Rightarrow> cstr option list \<Rightarrow> cstr \<Rightarrow> (cstr \<times> nat \<times> cstr) option" where
  "ref_at d results t =
     (if take 2 t = ''{{'' then
        (case split_at ''}}'' (drop 2 t) of
           None \<Rightarrow> None
         | Some (ref, rest) \<Rightarrow>
             if ref \<noteq> [] \<and> length ref < 64 then
               (case flow_node_index d ref of
                  None \<Rightarrow> None
                | Some ri \<Rightarrow> if results ! ri = None then None else Some (ref, ri, rest))
             else None)
      else None)"

lemma ref_at_length: "ref_at d results t = Some (ref, ri, rest) \<Longrightarrow> length rest < length t"
  by (auto simp: ref_at_def split: if_splits option.splits dest!: split_at_length)

function subst_loop :: "flow_dag \<Rightarrow> cstr option list \<Rightarrow> flow_job list \<Rightarrow> cstr \<Rightarrow> cstr \<Rightarrow> cstr option" where
  "subst_loop d results jobs out t =
     (if t = [] then Some out
      else case ref_at d results t of
             Some (ref, ri, rest) \<Rightarrow>
               (let body = answer_body (nonnull_or [] (results ! ri)) in
                if subst_fits (length out) body (j_result_path (jobs ! ri))
                then subst_loop d results jobs (out @ upstream_text ref body (j_result_path (jobs ! ri))) rest
                else None)
           | None \<Rightarrow> subst_loop d results jobs (out @ [hd t]) (tl t))"
  by pat_completeness auto
termination
  by (relation "measure (\<lambda>(d, results, jobs, out, t). length t)") (auto dest: ref_at_length)

declare subst_loop.simps [simp del]

definition flow_substitute :: "flow_dag \<Rightarrow> flow_node \<Rightarrow> cstr option list \<Rightarrow> flow_job list \<Rightarrow> cstr option" where
  "flow_substitute d nd results jobs =
     (case subst_loop d results jobs [] (fn_task nd) of
        None \<Rightarrow> None
      | Some out \<Rightarrow> if FLOW_MAX_EXPANDED_CONTEXT < length out then None else Some out)"

section \<open>The layers\<close>

text \<open>The arrays of \<open>flow_run\<close>; a job that was never set up has the zeroed \<open>rc\<close> of \<open>calloc\<close>.\<close>

record flow_state =
  r_jobs :: "flow_job list"
  r_results :: "cstr option list"
  r_tasks :: "cstr option list"
  r_failed :: bool
  r_world :: flow_world

definition set_job :: "nat \<Rightarrow> (flow_job \<Rightarrow> flow_job) \<Rightarrow> flow_state \<Rightarrow> flow_state" where
  "set_job i f s = s\<lparr>r_jobs := (r_jobs s)[i := f (r_jobs s ! i)]\<rparr>"

definition on_world :: "(flow_world \<Rightarrow> flow_world) \<Rightarrow> flow_state \<Rightarrow> flow_state" where
  "on_world f s = s\<lparr>r_world := f (r_world s)\<rparr>"

text \<open>The first node, in order, that \<open>i\<close> depends on and whose job did not succeed.\<close>

definition blocked_by :: "flow_dag \<Rightarrow> flow_job list \<Rightarrow> nat \<Rightarrow> nat option" where
  "blocked_by d jobs i = find_index (\<lambda>(nd, j). i \<in> set (fn_adj nd) \<and> j_rc j \<noteq> 0) (zip d jobs)"

definition blocked_message :: "cstr \<Rightarrow> cstr" where
  "blocked_message i =
     cbuf 256 ([CHR 0xE5, CHR 0x89, CHR 0x8D, CHR 0xE7, CHR 0xBD, CHR 0xAE, CHR 0xE8, CHR 0x8A, CHR 0x82, CHR 0xE7, CHR 0x82, CHR 0xB9] @ '' '' @ i @ '' '' @ [CHR 0xE6, CHR 0x9C, CHR 0xAA, CHR 0xE6, CHR 0x88, CHR 0x90, CHR 0xE5, CHR 0x8A, CHR 0x9F, CHR 0xE5, CHR 0xAE, CHR 0x8C, CHR 0xE6, CHR 0x88, CHR 0x90, CHR 0xEF, CHR 0xBC, CHR 0x8C, CHR 0xE6, CHR 0x9C, CHR 0xAC, CHR 0xE8, CHR 0x8A, CHR 0x82, CHR 0xE7, CHR 0x82, CHR 0xB9, CHR 0xE6, CHR 0x9C, CHR 0xAA, CHR 0xE6, CHR 0x89, CHR 0xA7, CHR 0xE8, CHR 0xA1, CHR 0x8C, CHR 0xE3, CHR 0x80, CHR 0x82])"

definition flow_select1 :: "flow_env \<Rightarrow> int \<Rightarrow> flow_dag \<Rightarrow> nat \<Rightarrow> flow_state \<times> nat list \<Rightarrow> flow_state \<times> nat list" where
  "flow_select1 env tid d i sr =
     (case sr of (s, run) \<Rightarrow>
       (case parent_abort env (r_world s) of
         (Some c, w) \<Rightarrow>
           (on_world (mark_node env tid (fn_id (d ! i)) (if c then FP_CANCELLED else FP_TIMEOUT))
              (set_job i (\<lambda>j. j\<lparr>j_rc := if c then -3 else -4\<rparr>)
                (s\<lparr>r_results := (r_results s)[i := Some (if c then ''Flow cancelled'' else ''Flow timed out'')],
                   r_failed := True, r_world := w\<rparr>)), run)
       | (None, w) \<Rightarrow>
           (case blocked_by d (r_jobs s) i of
              Some u \<Rightarrow>
                let msg = blocked_message (fn_id (d ! u)) in
                (on_world (\<lambda>w. flow_event ''blocked'' (fn_id (d ! i)) (fn_agent (d ! i)) msg (mark_node env tid (fn_id (d ! i)) FP_BLOCKED w))
                   (set_job i (\<lambda>j. j\<lparr>j_rc := -2\<rparr>)
                     (s\<lparr>r_results := (r_results s)[i := Some msg], r_failed := True, r_world := w\<rparr>)), run)
            | None \<Rightarrow> (s\<lparr>r_world := w\<rparr>, run @ [i]))))"

definition flow_select :: "flow_env \<Rightarrow> int \<Rightarrow> flow_dag \<Rightarrow> nat \<Rightarrow> flow_state \<Rightarrow> flow_state \<times> nat list" where
  "flow_select env tid d layer s =
     fold (flow_select1 env tid d) (filter (\<lambda>i. fn_layer (d ! i) = layer) [0..<length d]) (s, [])"

text \<open>Where a node's full result is to be saved: a directory per task under the state root.\<close>

definition two_digits :: "nat \<Rightarrow> cstr" where
  "two_digits n = (if n < 10 then ''0'' @ nat_str n else nat_str n)"

definition result_location :: "flow_env \<Rightarrow> int \<Rightarrow> nat \<Rightarrow> flow_world \<Rightarrow> cstr option \<times> flow_world" where
  "result_location env tid i w =
     (case fe_state_root env of
        None \<Rightarrow> (None, w)
      | Some rt \<Rightarrow>
          if tid < 0 then (None, w)
          else let dir = path_join 4096 (Some rt) (Some (cbuf 96 (''flow-results/'' @ int_str tid))) in
            case fs_mkdirs dir (fw_fs w) of (rc, fs) \<Rightarrow>
              (if rc = 0 then fe_absolute env (path_join 4096 (Some dir) (Some (cbuf 96 (''node-'' @ two_digits i @ ''.md'')))) else None,
               w\<lparr>fw_fs := fs\<rparr>))"

definition flow_prepare :: "flow_env \<Rightarrow> int \<Rightarrow> flow_dag \<Rightarrow> nat \<Rightarrow> flow_state \<Rightarrow> flow_state" where
  "flow_prepare env tid d i s =
     (let tk = flow_substitute d (d ! i) (r_results s) (r_jobs s) in
      case result_location env tid i (r_world s) of (path, w) \<Rightarrow>
        set_job i (\<lambda>j. \<lparr>j_task = tk, j_result_path = path, j_out = None, j_rc = -1\<rparr>)
          (s\<lparr>r_tasks := (r_tasks s)[i := tk], r_world := w\<rparr>))"

fun chunks :: "nat \<Rightarrow> 'a list \<Rightarrow> 'a list list" where
  "chunks n [] = []"
| "chunks n (x # xs) = (if n = 0 then [x # xs] else take n (x # xs) # chunks n (drop n (x # xs)))"

text \<open>The threads of a batch, in the order in which they take effect.\<close>

fun run_workers :: "flow_env \<Rightarrow> int \<Rightarrow> flow_dag \<Rightarrow> nat list \<Rightarrow> flow_state \<Rightarrow> flow_state option" where
  "run_workers env tid d [] s = Some s"
| "run_workers env tid d (i # is) s =
     (case flow_worker env tid (run_workspace env (r_world s)) i (d ! i) (r_jobs s ! i) (r_world s) of
        None \<Rightarrow> None
      | Some (j, w) \<Rightarrow> run_workers env tid d is (s\<lparr>r_jobs := (r_jobs s)[i := j], r_world := w\<rparr>))"

definition join_worker :: "nat \<Rightarrow> flow_state \<Rightarrow> flow_state" where
  "join_worker i s =
     s\<lparr>r_results := (r_results s)[i := j_out (r_jobs s ! i)], r_failed := (r_failed s \<or> j_rc (r_jobs s ! i) \<noteq> 0)\<rparr>"

definition flow_batch :: "flow_env \<Rightarrow> int \<Rightarrow> flow_dag \<Rightarrow> nat list \<Rightarrow> flow_state \<Rightarrow> flow_state option" where
  "flow_batch env tid d batch s = map_option (fold join_worker batch) (run_workers env tid d (fe_order env batch) s)"

fun flow_batches :: "flow_env \<Rightarrow> int \<Rightarrow> flow_dag \<Rightarrow> nat list list \<Rightarrow> flow_state \<Rightarrow> flow_state option" where
  "flow_batches env tid d [] s = Some s"
| "flow_batches env tid d (b # bs) s =
     (case flow_batch env tid d b s of None \<Rightarrow> None | Some s' \<Rightarrow> flow_batches env tid d bs s')"

definition flow_run_layer :: "flow_env \<Rightarrow> int \<Rightarrow> flow_dag \<Rightarrow> nat \<Rightarrow> flow_state \<Rightarrow> flow_state option" where
  "flow_run_layer env tid d layer s =
     (case flow_select env tid d layer s of (s1, run) \<Rightarrow>
        flow_batches env tid d (chunks FLOW_MAX_PARALLEL run) (fold (flow_prepare env tid d) run s1))"

fun flow_run_layers :: "flow_env \<Rightarrow> int \<Rightarrow> flow_dag \<Rightarrow> nat list \<Rightarrow> flow_state \<Rightarrow> flow_state option" where
  "flow_run_layers env tid d [] s = Some s"
| "flow_run_layers env tid d (l # ls) s =
     (case flow_run_layer env tid d l s of None \<Rightarrow> None | Some s' \<Rightarrow> flow_run_layers env tid d ls s')"

section \<open>The run\<close>

definition job_status :: "int \<Rightarrow> cstr" where
  "job_status rc =
     (if rc = 0 then ''ok'' else if rc = -2 then ''blocked'' else if rc = -3 then ''cancelled''
      else if rc = -4 then ''timeout'' else ''error'')"

definition trace_entry :: "flow_dag \<Rightarrow> flow_state \<Rightarrow> nat \<Rightarrow> json" where
  "trace_entry d s i =
     JObj ([(''id'', JStr (fn_id (d ! i))), (''agent'', JStr (fn_agent (d ! i))),
            (''task'', JStr (nonnull_or (fn_task (d ! i)) (r_tasks s ! i))), (''layer'', JNum (of_nat (fn_layer (d ! i)))),
            (''status'', JStr (job_status (j_rc (r_jobs s ! i)))), (''result'', JStr (nonnull_or [] (r_results s ! i)))]
       @ (case j_result_path (r_jobs s ! i) of None \<Rightarrow> [] | Some p \<Rightarrow> [(''result_path'', JStr p)]))"

definition not_run_text :: "int \<Rightarrow> cstr" where
  "not_run_text rc =
     (if rc = -2
      then [CHR 0xE4, CHR 0xBE, CHR 0x9D, CHR 0xE8, CHR 0xB5, CHR 0x96, CHR 0xE6, CHR 0x9C, CHR 0xAA, CHR 0xE5, CHR 0xAE, CHR 0x8C, CHR 0xE6, CHR 0x88, CHR 0x90, CHR 0xEF, CHR 0xBC, CHR 0x8C, CHR 0xE8, CHR 0x8A, CHR 0x82, CHR 0xE7, CHR 0x82, CHR 0xB9, CHR 0xE6, CHR 0x9C, CHR 0xAA, CHR 0xE6, CHR 0x89, CHR 0xA7, CHR 0xE8, CHR 0xA1, CHR 0x8C]
      else [CHR 0xE8, CHR 0x8A, CHR 0x82, CHR 0xE7, CHR 0x82, CHR 0xB9, CHR 0xE6, CHR 0x89, CHR 0xA7, CHR 0xE8, CHR 0xA1, CHR 0x8C, CHR 0xE5, CHR 0xA4, CHR 0xB1, CHR 0xE8, CHR 0xB4, CHR 0xA5])"

definition answer_line :: "flow_dag \<Rightarrow> flow_state \<Rightarrow> nat \<Rightarrow> cstr" where
  "answer_line d s i =
     (let rc = j_rc (r_jobs s ! i); res = nonnull_or [] (r_results s ! i); name = fn_id (d ! i) in
      if rc \<noteq> 0 then name @ '': ['' @ not_run_text rc @ ''] '' @ (if res = [] then ''(agent run failed)'' else res) @ [CHR 0x0A]
      else if fn_adj (d ! i) = [] \<and> res \<noteq> [] then name @ '': '' @ res @ [CHR 0x0A]
      else [])"

text \<open>A successful non-empty result goes to the pool's board under the agent's name.\<close>

definition post_result :: "flow_env \<Rightarrow> flow_dag \<Rightarrow> flow_state \<Rightarrow> nat \<Rightarrow> flow_world \<Rightarrow> flow_world option" where
  "post_result env d s i w =
     (if j_rc (r_jobs s ! i) = 0 \<and> nonnull_or [] (r_results s ! i) \<noteq> [] then
        (case agent_post (fe_print env) True True (fw_pool w, fw_disk w) (Some (fn_agent (d ! i)))
                (Some (cbuf 160 (''result:'' @ fn_agent (d ! i)))) (r_results s ! i) of
           None \<Rightarrow> None
         | Some (_, pl, dk) \<Rightarrow> Some (w\<lparr>fw_pool := pl, fw_disk := dk\<rparr>))
      else Some w)"

fun post_results :: "flow_env \<Rightarrow> flow_dag \<Rightarrow> flow_state \<Rightarrow> nat list \<Rightarrow> flow_world \<Rightarrow> flow_world option" where
  "post_results env d s [] w = Some w"
| "post_results env d s (i # is) w = (case post_result env d s i w of None \<Rightarrow> None | Some w' \<Rightarrow> post_results env d s is w')"

fun unregistered :: "agent_pool \<Rightarrow> flow_dag \<Rightarrow> bool option" where
  "unregistered p [] = Some False"
| "unregistered p (nd # nds) =
     (case agent_pool_find p (Some (fn_agent nd)) of
        None \<Rightarrow> None
      | Some r \<Rightarrow> if r < 0 then Some True else unregistered p nds)"

definition flow_start :: "flow_dag \<Rightarrow> flow_world \<Rightarrow> flow_state" where
  "flow_start d w =
     \<lparr>r_jobs = replicate (length d) \<lparr>j_task = None, j_result_path = None, j_out = None, j_rc = 0\<rparr>,
      r_results = replicate (length d) None, r_tasks = replicate (length d) None, r_failed = False, r_world = w\<rparr>"

record flow_outcome =
  fo_rc :: int
  fo_answer :: "cstr option"
  fo_trace :: "cstr option"
  fo_timed_out :: bool

definition flow_refused :: flow_outcome where
  "flow_refused = \<lparr>fo_rc = -1, fo_answer = None, fo_trace = None, fo_timed_out = False\<rparr>"

definition end_prog :: "flow_env \<Rightarrow> int \<Rightarrow> flow_world \<Rightarrow> flow_world" where
  "end_prog env tid w = w\<lparr>fw_progs := flow_prog_end (fw_progs w) tid (fe_clock env (fw_tick w)), fw_tick := fw_tick w + 1\<rparr>"

definition flow_finish :: "flow_env \<Rightarrow> int \<Rightarrow> flow_dag \<Rightarrow> flow_state \<Rightarrow> (flow_outcome \<times> flow_world) option" where
  "flow_finish env tid d s =
     (let is = [0..<length d];
          fin = concat (map (answer_line d s) is);
          trace = fe_print env (JArr (map (trace_entry d s) is)) in
      map_option
        (\<lambda>w. (case parent_abort env (end_prog env tid (put_board env ''flow/trace'' trace w)) of (stop, w') \<Rightarrow>
           (\<lparr>fo_rc = (if r_failed s then -1 else 0),
             fo_answer = Some (if fin = [] then ''(flow produced no output)'' else fin),
             fo_trace = Some trace, fo_timed_out = (stop = Some False)\<rparr>, w')))
        (post_results env d s is (r_world s)))"

text \<open>The calls of \<open>calloc\<close> are taken to succeed.\<close>

definition flow_run :: "flow_env \<Rightarrow> cstr option \<Rightarrow> int \<Rightarrow> flow_world \<Rightarrow> (flow_outcome \<times> flow_world) option" where
  "flow_run env dag_json tid w =
     (if nonnull_or [] dag_json = [] then Some (flow_refused, w)
      else case flow_parse (fe_parse env) (nonnull_or [] dag_json) of
             Inl _ \<Rightarrow> Some (flow_refused, w)
           | Inr d0 \<Rightarrow>
               (case flow_layer d0 of
                  None \<Rightarrow> None
                | Some (cnt, d) \<Rightarrow>
                    if cnt < length d0 then Some (flow_refused, w)
                    else (case unregistered (fw_pool w) d of
                            None \<Rightarrow> None
                          | Some True \<Rightarrow> Some (flow_refused, w)
                          | Some False \<Rightarrow>
                              (case flow_run_layers env tid d [0..<Max (insert 0 (fn_layer ` set d)) + 1]
                                      (flow_start d (w\<lparr>fw_progs := flow_prog_begin (fw_progs w) tid d\<rparr>)) of
                                 None \<Rightarrow> None
                               | Some s \<Rightarrow> flow_finish env tid d s))))"

end
