(* ===== verification/FlowOrder.thy ===== *)
theory FlowOrder
  imports FlowRun
begin

text \<open>
  What a run of a flow guarantees, seen on the bus: it returns, an agent starts only after every node it depends on has
  reported success, and the run succeeds exactly when every node has. The invariant follows the arrays of \<open>flow_run\<close>
  through the layers; \<open>P\<close> are the nodes whose outcome stands, \<open>Q\<close> those already accounted for in \<open>failed\<close>.
\<close>

section \<open>Layered graphs\<close>

lemma flow_layer_layered:
  assumes "flow_parse parse doc = Inr d0" "flow_layer d0 = Some (cnt, d)" "\<not> cnt < length d0"
  shows "length d = length d0" "dag_edges d = dag_edges d0"
    "\<And>i. i < length d0 \<Longrightarrow> fn_id (d ! i) = fn_id (d0 ! i) \<and> fn_agent (d ! i) = fn_agent (d0 ! i) \<and> fn_task (d ! i) = fn_task (d0 ! i)"
    "distinct (map fn_id d)" "\<And>u v. (u, v) \<in> dag_edges d \<Longrightarrow> u < length d \<and> v < length d \<and> fn_layer (d ! u) < fn_layer (d ! v)"
proof -
  note S = flow_parse_spec [OF assms(1)]
  obtain P s where L: "flow_layer d0 = Some (k_cnt s, map2 (\<lambda>nd l. nd\<lparr>fn_layer := l\<rparr>) d0 (k_lay s))"
    and inv: "kinv d0 P s" and e: "k_queue s = []"
    by (rule flow_layer_result [OF S(1)])
  have len: "length (k_lay s) = length d0" "k_cnt s = card P" "P \<subseteq> {..<length d0}"
    using inv unfolding kinv_def by - (elim conjE, assumption)+
  have up: "\<forall>u\<in>P. \<forall>v. (u, v) \<in> dag_edges d0 \<longrightarrow> k_lay s ! u < k_lay s ! v"
    using inv unfolding kinv_def by (elim conjE)
  have full: "P = {..<length d0}"
    using L assms(2,3) len card_subset_eq [of "{..<length d0}" P] card_mono [of "{..<length d0}" P] by simp
  have d: "d = map2 (\<lambda>nd l. nd\<lparr>fn_layer := l\<rparr>) d0 (k_lay s)"
    using L assms(2) by simp
  show l: "length d = length d0"
    by (simp add: d len(1))
  have nth: "d ! i = (d0 ! i)\<lparr>fn_layer := k_lay s ! i\<rparr>" if "i < length d0" for i
    using that len(1) by (simp add: d)
  show "fn_id (d ! i) = fn_id (d0 ! i) \<and> fn_agent (d ! i) = fn_agent (d0 ! i) \<and> fn_task (d ! i) = fn_task (d0 ! i)"
    if "i < length d0" for i
    by (simp add: nth [OF that])
  show E: "dag_edges d = dag_edges d0"
    by (auto simp: dag_edges_def l nth)
  have "map fn_id d = map fn_id d0"
    by (rule nth_equalityI) (simp_all add: l nth)
  then show "distinct (map fn_id d)"
    using S(2) by simp
  show "u < length d \<and> v < length d \<and> fn_layer (d ! u) < fn_layer (d ! v)" if "(u, v) \<in> dag_edges d" for u v
    using wf_dag_range [OF S(1), of u v] that up by (auto simp: E l full nth)
qed

section \<open>Events\<close>

definition started :: "flow_node \<Rightarrow> json \<Rightarrow> bool" where
  "started nd ev \<longleftrightarrow> json_get ''stage'' (Some ev) = Some (JStr ''execute'') \<and> json_get ''node'' (Some ev) = Some (JStr (fn_id nd))"

definition succeeded :: "flow_node \<Rightarrow> json \<Rightarrow> bool" where
  "succeeded nd ev \<longleftrightarrow> json_get ''stage'' (Some ev) = Some (JStr ''done'') \<and> json_get ''node'' (Some ev) = Some (JStr (fn_id nd))
     \<and> json_get ''detail'' (Some ev) = Some (JStr ''ok'')"

lemma event_kinds [simp]:
  "started nd (flow_event_json st i ag dt) \<longleftrightarrow> st = ''execute'' \<and> i = fn_id nd"
  "succeeded nd (flow_event_json st i ag dt) \<longleftrightarrow> st = ''done'' \<and> i = fn_id nd \<and> dt = ''ok''"
  by (simp_all add: started_def succeeded_def flow_event_json_def)

named_theorems world_simps

lemma flow_event_fields [world_simps]:
  "fw_pool (flow_event st i ag dt w) = fw_pool w"
  "fw_bus (flow_event st i ag dt w) = map_option (\<lambda>evs. evs @ [flow_event_json st i ag dt]) (fw_bus w)"
  by (simp_all add: flow_event_def)

lemma mark_node_fields [world_simps]: "fw_pool (mark_node env tid i st w) = fw_pool w" "fw_bus (mark_node env tid i st w) = fw_bus w"
  by (simp_all add: mark_node_def)

lemma attach_node_fields [world_simps]: "fw_pool (attach_node env tid i rn w) = fw_pool w" "fw_bus (attach_node env tid i rn w) = fw_bus w"
  by (simp_all add: attach_node_def)

lemma pool_ok_bb [world_simps]: "pool_ok (p\<lparr>ap_bb := b\<rparr>) = pool_ok p"
  by (simp add: pool_ok_def)

lemma put_board_fields [world_simps]:
  "pool_ok (fw_pool (put_board env k v w)) = pool_ok (fw_pool w)" "fw_bus (put_board env k v w) = fw_bus w"
  by (simp_all add: put_board_def pool_ok_bb split: prod.split)

lemma parent_abort_fields: "parent_abort env w = (st, w') \<Longrightarrow> fw_pool w' = fw_pool w \<and> fw_bus w' = fw_bus w"
  by (auto simp: parent_abort_def split: option.splits)

lemma save_result_fields: "save_result env nd ws t rc out path w = (p, w') \<Longrightarrow> fw_pool w' = fw_pool w \<and> fw_bus w' = fw_bus w"
  by (auto simp: save_result_def split: option.splits prod.splits)

lemma result_location_fields: "result_location env tid i w = (p, w') \<Longrightarrow> fw_pool w' = fw_pool w \<and> fw_bus w' = fw_bus w"
  by (auto simp: result_location_def Let_def split: option.splits prod.splits if_splits)

section \<open>A worker\<close>

lemma role_copy_returns: "pool_ok p \<Longrightarrow> agent_pool_role_copy p n \<noteq> None"
  by (simp add: agent_pool_role_copy_def pool_ok_find split: option.split)

lemma agent_attempt_returns:
  "pool_ok (fw_pool w) \<Longrightarrow> \<exists>rc out w'. agent_attempt env i nd n t w = Some (rc, out, w') \<and> fw_pool w' = fw_pool w \<and> fw_bus w' = fw_bus w"
  using role_copy_returns [of "fw_pool w" "Some (fn_agent nd)"]
  by (auto simp: agent_attempt_def agent_pool_task_prompt_def split: option.split prod.split)

lemma deliverable_returns: "pool_ok (fw_pool w) \<Longrightarrow> deliverable nd t ws rc out w \<noteq> None"
  using role_copy_returns [of "fw_pool w" "Some (fn_agent nd)"]
  by (simp add: deliverable_def agent_pool_deliverable_valid_def del: not_None_eq)

lemma run_agent_returns:
  assumes "pool_ok (fw_pool w)"
  shows "\<exists>rc out w'. run_agent env i nd t ws w = Some (rc, out, w') \<and> fw_pool w' = fw_pool w \<and> fw_bus w' = fw_bus w"
proof -
  obtain rc out w1 where 1: "agent_attempt env i nd 0 t w = Some (rc, out, w1)" "fw_pool w1 = fw_pool w" "fw_bus w1 = fw_bus w"
    using agent_attempt_returns [OF assms] by blast
  obtain g where g: "deliverable nd t ws rc out w1 = Some g"
    using deliverable_returns 1(2) assms by (metis not_Some_eq)
  obtain rc2 out2 w2 where 2: "agent_attempt env i nd 1 (retry_text t) w1 = Some (rc2, out2, w2)" "fw_pool w2 = fw_pool w"
    "fw_bus w2 = fw_bus w"
    using agent_attempt_returns 1 assms by metis
  obtain g2 where g2: "deliverable nd t ws rc2 out2 w2 = Some g2"
    using deliverable_returns 2(2) assms by (metis not_Some_eq)
  show ?thesis
    using 1 g 2 g2 by (simp add: run_agent_def)
qed

lemma flow_worker_returns:
  assumes "pool_ok (fw_pool w)"
  obtains j' w' new where "flow_worker env tid ws i nd j w = Some (j', w')" "pool_ok (fw_pool w')"
    "fw_bus w' = map_option (\<lambda>evs. evs @ new) (fw_bus w)"
    "new = [] \<and> j_rc j' = -1 \<or>
     (\<exists>t. new = [flow_event_json ''execute'' (fn_id nd) (fn_agent nd) t,
                 flow_event_json ''done'' (fn_id nd) (fn_agent nd) (if j_rc j' = 0 then ''ok'' else ''error'')])"
proof (cases "j_task j")
  case None
  then show thesis
    using assms by (intro that [of "j\<lparr>j_rc := -1, j_out := Some no_context_message\<rparr>" "mark_node env tid (fn_id nd) FP_ERROR w" "[]"])
      (simp_all add: flow_worker_def world_simps option.map_ident)
next
  case (Some t)
  let ?w1 = "mark_node env tid (fn_id nd) FP_RUNNING (flow_event ''execute'' (fn_id nd) (fn_agent nd) t w)"
  let ?run = "if fe_reasoning env i
             then map_option (\<lambda>(rc, out, w'). (rc, out, attach_node env tid (fn_id nd) None w'))
                    (run_agent env i nd t ws (attach_node env tid (fn_id nd) (Some i) ?w1))
             else Some (-1, j_out j, ?w1)"
  have w1: "fw_pool ?w1 = fw_pool w" "fw_bus ?w1 = map_option (\<lambda>evs. evs @ [flow_event_json ''execute'' (fn_id nd) (fn_agent nd) t]) (fw_bus w)"
    by (simp_all add: world_simps)
  obtain rc out w2 where 2: "?run = Some (rc, out, w2)" "fw_pool w2 = fw_pool w" "fw_bus w2 = fw_bus ?w1"
  proof -
    obtain rc out wr where "run_agent env i nd t ws (attach_node env tid (fn_id nd) (Some i) ?w1) = Some (rc, out, wr)"
      "fw_pool wr = fw_pool w" "fw_bus wr = fw_bus ?w1"
      using run_agent_returns [of "attach_node env tid (fn_id nd) (Some i) ?w1" env i nd t ws] assms
      by (auto simp: world_simps)
    note R = this
    show thesis
    proof (cases "fe_reasoning env i")
      case True
      show ?thesis
        by (rule that [of rc out "attach_node env tid (fn_id nd) None wr"]) (simp_all add: True R world_simps)
    next
      case False
      show ?thesis
        by (rule that [of "-1" "j_out j" ?w1]) (simp_all add: False w1)
    qed
  qed
  obtain stop w3 where 3: "parent_abort env w2 = (stop, w3)"
    by fastforce
  have 3: "parent_abort env w2 = (stop, w3)" "fw_pool w3 = fw_pool w" "fw_bus w3 = fw_bus ?w1"
    using 3 parent_abort_fields [OF 3] 2(2,3) by argo+
  let ?rc = "case stop of None \<Rightarrow> rc | Some c \<Rightarrow> if c then -3 else -4"
  obtain path w4 where 4: "save_result env nd ws t ?rc out (j_result_path j) w3 = (path, w4)"
    by fastforce
  have 4: "save_result env nd ws t ?rc out (j_result_path j) w3 = (path, w4)" "fw_pool w4 = fw_pool w" "fw_bus w4 = fw_bus ?w1"
    using 4 save_result_fields [OF 4] 3(2,3) by argo+
  let ?w6 = "flow_event ''done'' (fn_id nd) (fn_agent nd) (if ?rc = 0 then ''ok'' else ''error'')
    (put_board env (cbuf 96 (''flow/'' @ fn_id nd @ ''/result'')) (nonnull_or [] out) w4)"
  have "flow_worker env tid ws i nd j w =
    Some (j\<lparr>j_rc := ?rc, j_out := out, j_result_path := path\<rparr>, mark_node env tid (fn_id nd) (final_state ?rc) ?w6)"
    unfolding flow_worker_def Some option.case Let_def 2(1) bind.bind_lunit prod.case 3(1) 4(1) by (rule refl)
  then show thesis
    by (rule that [of _ _ "[flow_event_json ''execute'' (fn_id nd) (fn_agent nd) t,
        flow_event_json ''done'' (fn_id nd) (fn_agent nd) (if ?rc = 0 then ''ok'' else ''error'')]"])
      (simp_all add: world_simps option.map_comp comp_def assms 4 w1, blast)
qed

section \<open>The invariant\<close>

definition evinv :: "flow_dag \<Rightarrow> nat set \<Rightarrow> flow_job list \<Rightarrow> json list \<Rightarrow> bool" where
  "evinv d P jobs new \<longleftrightarrow>
     (\<forall>v<length d. \<forall>p<length new. started (d ! v) (new ! p) \<longrightarrow>
        v \<in> P \<and> (\<forall>u. (u, v) \<in> dag_edges d \<longrightarrow> (\<exists>q<p. succeeded (d ! u) (new ! q))))
     \<and> (\<forall>v<length d. (\<exists>ev\<in>set new. succeeded (d ! v) ev) \<longleftrightarrow> v \<in> P \<and> j_rc (jobs ! v) = 0)"

definition finv :: "flow_dag \<Rightarrow> json list \<Rightarrow> nat set \<Rightarrow> nat set \<Rightarrow> flow_state \<Rightarrow> bool" where
  "finv d evs P Q s \<longleftrightarrow>
     length (r_jobs s) = length d \<and> length (r_results s) = length d \<and> pool_ok (fw_pool (r_world s))
     \<and> Q \<subseteq> P \<and> (r_failed s \<longleftrightarrow> (\<exists>v\<in>Q. j_rc (r_jobs s ! v) \<noteq> 0))
     \<and> (\<exists>new. fw_bus (r_world s) = Some (evs @ new) \<and> evinv d P (r_jobs s) new)"

definition ready :: "flow_dag \<Rightarrow> nat set \<Rightarrow> flow_job list \<Rightarrow> nat \<Rightarrow> bool" where
  "ready d P jobs i \<longleftrightarrow> (\<forall>u. (u, i) \<in> dag_edges d \<longrightarrow> u \<in> P \<and> j_rc (jobs ! u) = 0)"

lemma evinv_started:
  "evinv d P jobs new \<Longrightarrow> v < length d \<Longrightarrow> p < length new \<Longrightarrow> started (d ! v) (new ! p) \<Longrightarrow>
   v \<in> P \<and> (\<forall>u. (u, v) \<in> dag_edges d \<longrightarrow> (\<exists>q<p. succeeded (d ! u) (new ! q)))"
  unfolding evinv_def by blast

lemma evinv_succeeded:
  "evinv d P jobs new \<Longrightarrow> v < length d \<Longrightarrow> (\<exists>ev\<in>set new. succeeded (d ! v) ev) \<longleftrightarrow> v \<in> P \<and> j_rc (jobs ! v) = 0"
  unfolding evinv_def by blast

lemma evinv_append_other:
  assumes inv: "evinv d P jobs new" and "\<And>v. v < length d \<Longrightarrow> \<not> started (d ! v) ev" "\<And>v. v < length d \<Longrightarrow> \<not> succeeded (d ! v) ev"
  shows "evinv d P jobs (new @ [ev])"
  unfolding evinv_def
proof (intro conjI allI impI)
  fix v p
  assume v: "v < length d" "p < length (new @ [ev])" "started (d ! v) ((new @ [ev]) ! p)"
  then have p: "p < length new"
    using assms(2) by (cases "p = length new") auto
  then have S: "v \<in> P \<and> (\<forall>u. (u, v) \<in> dag_edges d \<longrightarrow> (\<exists>q<p. succeeded (d ! u) (new ! q)))"
    using evinv_started [OF inv v(1) p] v(3) by (simp add: nth_append)
  then show "v \<in> P"
    by simp
  show "\<exists>q<p. succeeded (d ! u) ((new @ [ev]) ! q)" if u: "(u, v) \<in> dag_edges d" for u
  proof -
    obtain q where "q < p" "succeeded (d ! u) (new ! q)"
      using S u by blast
    then show ?thesis
      using p by (intro exI [of _ q]) (simp add: nth_append)
  qed
next
  show "(\<exists>e\<in>set (new @ [ev]). succeeded (d ! v) e) \<longleftrightarrow> v \<in> P \<and> j_rc (jobs ! v) = 0" if "v < length d" for v
    using evinv_succeeded [OF inv that] assms(3) [OF that] by auto
qed

lemma evinv_insert_failed:
  assumes "evinv d P jobs new" "i \<notin> P" "j_rc j \<noteq> 0" "i < length jobs"
  shows "evinv d (insert i P) (jobs[i := j]) new"
  using assms unfolding evinv_def by (auto simp: nth_list_update)

lemma evinv_update_open:
  assumes "evinv d P jobs new" "i \<notin> P"
  shows "evinv d P (jobs[i := j]) new"
  using assms unfolding evinv_def by (auto simp: nth_list_update_neq) (metis nth_list_update_neq)+

lemma evinv_worker:
  assumes inv: "evinv d P jobs new" and i: "i \<notin> P" "i < length d" "length jobs = length d" "ready d P jobs i"
    and d: "distinct (map fn_id d)" and irr: "(i, i) \<notin> dag_edges d" and rng: "\<And>u v. (u, v) \<in> dag_edges d \<Longrightarrow> u < length d"
    and ev: "new2 = [] \<and> j_rc j = -1 \<or> (\<exists>t. new2 = [flow_event_json ''execute'' (fn_id (d ! i)) (fn_agent (d ! i)) t,
        flow_event_json ''done'' (fn_id (d ! i)) (fn_agent (d ! i)) (if j_rc j = 0 then ''ok'' else ''error'')])"
  shows "evinv d (insert i P) (jobs[i := j]) (new @ new2)"
proof (cases "new2 = []")
  case True
  then show ?thesis
    using evinv_insert_failed [OF inv i(1), of j] ev i by auto
next
  case False
  then obtain t where new2: "new2 = [flow_event_json ''execute'' (fn_id (d ! i)) (fn_agent (d ! i)) t,
      flow_event_json ''done'' (fn_id (d ! i)) (fn_agent (d ! i)) (if j_rc j = 0 then ''ok'' else ''error'')]"
    using ev by blast
  have same: "fn_id (d ! i) = fn_id (d ! v) \<longleftrightarrow> v = i" if "v < length d" for v
    using d i(2) that by (auto simp: distinct_conv_nth)
  have deps: "\<exists>q<length new. succeeded (d ! u) (new ! q)" if "(u, i) \<in> dag_edges d" for u
    using that i(4) inv rng [OF that] unfolding evinv_def ready_def by (metis in_set_conv_nth)
  note I = inv [unfolded evinv_def]
  have A: "v \<in> insert i P \<and> (\<forall>u. (u, v) \<in> dag_edges d \<longrightarrow> (\<exists>q<p. succeeded (d ! u) ((new @ new2) ! q)))"
    if v: "v < length d" "p < length (new @ new2)" "started (d ! v) ((new @ new2) ! p)" for v p
  proof (cases "p < length new")
    case True
    then have "v \<in> P" "\<forall>u. (u, v) \<in> dag_edges d \<longrightarrow> (\<exists>q<p. succeeded (d ! u) (new ! q))"
      using I v by (auto simp: nth_append)
    moreover have "(new @ new2) ! q = new ! q" if "q < p" for q
      using True that by (simp add: nth_append)
    ultimately show ?thesis
      by (metis insertCI)
  next
    case False
    then have "p = length new" "v = i"
      using v same [OF v(1)] by (auto simp: new2 nth_append less_Suc_eq nth_Cons split: nat.splits if_splits)
    then show ?thesis
      using deps by (auto simp: nth_append)
  qed
  have B: "(\<exists>ev\<in>set (new @ new2). succeeded (d ! v) ev) \<longleftrightarrow> v \<in> insert i P \<and> j_rc (jobs[i := j] ! v) = 0" if "v < length d" for v
  proof (cases "v = i")
    case True
    then have "\<not> (\<exists>ev\<in>set new. succeeded (d ! v) ev)"
      using I that i(1) by blast
    then show ?thesis
      using True i(2,3) by (auto simp: new2)
  next
    case False
    then have "(\<exists>ev\<in>set (new @ new2). succeeded (d ! v) ev) \<longleftrightarrow> (\<exists>ev\<in>set new. succeeded (d ! v) ev)"
      using same [OF that] by (auto simp: new2)
    also have "\<dots> \<longleftrightarrow> v \<in> P \<and> j_rc (jobs ! v) = 0"
      using I that by blast
    finally show ?thesis
      using False by simp
  qed
  show ?thesis
    unfolding evinv_def using A B by blast
qed

section \<open>The steps of a layer\<close>

definition layered :: "flow_dag \<Rightarrow> bool" where
  "layered d \<longleftrightarrow> distinct (map fn_id d)
     \<and> (\<forall>u v. (u, v) \<in> dag_edges d \<longrightarrow> u < length d \<and> v < length d \<and> fn_layer (d ! u) < fn_layer (d ! v))"

lemma layeredD:
  "layered d \<Longrightarrow> (u, v) \<in> dag_edges d \<Longrightarrow> u < length d \<and> v < length d \<and> fn_layer (d ! u) < fn_layer (d ! v)"
  unfolding layered_def by blast

lemma layered_irrefl: "layered d \<Longrightarrow> (i, i) \<notin> dag_edges d"
  using layeredD [of d i i] by blast

lemma finv_intro:
  assumes "finv d evs P Q s"
    and "length (r_jobs s') = length d" "length (r_results s') = length d" "pool_ok (fw_pool (r_world s'))" "Q' \<subseteq> P'"
    and "r_failed s' \<longleftrightarrow> (\<exists>v\<in>Q'. j_rc (r_jobs s' ! v) \<noteq> 0)"
    and "fw_bus (r_world s') = map_option (\<lambda>es. es @ new) (fw_bus (r_world s))"
    and "\<And>old. evinv d P (r_jobs s) old \<Longrightarrow> evinv d P' (r_jobs s') (old @ new)"
  shows "finv d evs P' Q' s'"
proof -
  obtain old where "fw_bus (r_world s) = Some (evs @ old)" "evinv d P (r_jobs s) old"
    using assms(1) unfolding finv_def by blast
  then have "fw_bus (r_world s') = Some (evs @ (old @ new)) \<and> evinv d P' (r_jobs s') (old @ new)"
    using assms(7,8) by simp
  then show ?thesis
    unfolding finv_def using assms(2-6) by blast
qed

lemma finvD:
  assumes "finv d evs P Q s"
  shows "length (r_jobs s) = length d" "length (r_results s) = length d" "pool_ok (fw_pool (r_world s))" "Q \<subseteq> P"
    "r_failed s \<longleftrightarrow> (\<exists>v\<in>Q. j_rc (r_jobs s ! v) \<noteq> 0)"
  using assms unfolding finv_def by blast+

lemma ready_mono:
  "ready d P jobs r \<Longrightarrow> P \<subseteq> P' \<Longrightarrow> (\<And>v. v \<in> P \<Longrightarrow> jobs' ! v = jobs ! v) \<Longrightarrow> ready d P' jobs' r"
  unfolding ready_def by (metis subsetD)

lemma blocked_by_None:
  assumes "length jobs = length d" "layered d"
  shows "blocked_by d jobs i = None \<longleftrightarrow> (\<forall>u. (u, i) \<in> dag_edges d \<longrightarrow> j_rc (jobs ! u) = 0)"
  using assms(1) unfolding blocked_by_def find_index_None_iff
  by (auto simp: dag_edges_def set_zip)

lemma finv_not_run:
  assumes inv: "finv d evs P P s" and i: "i < length d" "i \<notin> P" and rc: "rc \<noteq> 0"
    and w: "pool_ok (fw_pool w)" "fw_bus w = map_option (\<lambda>es. es @ new) (fw_bus (r_world s))"
    and ev: "new = [] \<or> new = [flow_event_json ''blocked'' a b c]"
  shows "finv d evs (insert i P) (insert i P)
    (on_world (\<lambda>_. w) (set_job i (\<lambda>j. j\<lparr>j_rc := rc\<rparr>) (s\<lparr>r_results := (r_results s)[i := x], r_failed := True, r_world := w0\<rparr>)))"
proof (rule finv_intro [OF inv, where new = new])
  let ?s = "on_world (\<lambda>_. w) (set_job i (\<lambda>j. j\<lparr>j_rc := rc\<rparr>) (s\<lparr>r_results := (r_results s)[i := x], r_failed := True, r_world := w0\<rparr>))"
  note F = finvD [OF inv]
  show "length (r_jobs ?s) = length d" "length (r_results ?s) = length d" "pool_ok (fw_pool (r_world ?s))" "insert i P \<subseteq> insert i P"
    "fw_bus (r_world ?s) = map_option (\<lambda>es. es @ new) (fw_bus (r_world s))"
    using F w by (simp_all add: on_world_def set_job_def)
  show "r_failed ?s \<longleftrightarrow> (\<exists>v\<in>insert i P. j_rc (r_jobs ?s ! v) \<noteq> 0)"
    using F i rc by (simp add: on_world_def set_job_def)
  show "evinv d (insert i P) (r_jobs ?s) (old @ new)" if "evinv d P (r_jobs s) old" for old
  proof -
    have "evinv d (insert i P) (r_jobs ?s) old"
      using evinv_insert_failed [OF that i(2), of "(r_jobs s ! i)\<lparr>j_rc := rc\<rparr>"] F i rc by (simp add: on_world_def set_job_def)
    then show ?thesis
      using ev evinv_append_other by fastforce
  qed
qed

lemma finv_world:
  assumes "finv d evs P Q s" "fw_pool w = fw_pool (r_world s)" "fw_bus w = fw_bus (r_world s)"
  shows "finv d evs P Q (s\<lparr>r_world := w\<rparr>)"
  using assms by (simp add: finv_def)

lemma flow_select1_step:
  assumes inv: "finv d evs P P s" and i: "i < length d" "i \<notin> P" and lay: "layered d"
    and deps: "\<And>u. (u, i) \<in> dag_edges d \<Longrightarrow> u \<in> P"
  obtains s' where "flow_select1 env tid d i (s, run) = (s', run)" "finv d evs (insert i P) (insert i P) s'"
      "\<And>v. v \<noteq> i \<Longrightarrow> r_jobs s' ! v = r_jobs s ! v"
  | s' where "flow_select1 env tid d i (s, run) = (s', run @ [i])" "finv d evs P P s'" "r_jobs s' = r_jobs s" "ready d P (r_jobs s') i"
proof -
  obtain stop w where a: "parent_abort env (r_world s) = (stop, w)"
    by fastforce
  have w: "fw_pool w = fw_pool (r_world s)" "fw_bus w = fw_bus (r_world s)"
    using parent_abort_fields [OF a] by simp_all
  note F = finvD [OF inv]
  show thesis
  proof (cases stop)
    case (Some c)
    let ?w = "mark_node env tid (fn_id (d ! i)) (if c then FP_CANCELLED else FP_TIMEOUT) w"
    let ?s = "on_world (\<lambda>_. ?w) (set_job i (\<lambda>j. j\<lparr>j_rc := if c then -3 else -4\<rparr>)
      (s\<lparr>r_results := (r_results s)[i := Some (if c then ''Flow cancelled'' else ''Flow timed out'')], r_failed := True, r_world := w\<rparr>))"
    show thesis
    proof (rule that(1))
      show "flow_select1 env tid d i (s, run) = (?s, run)"
        using a Some by (simp add: flow_select1_def on_world_def set_job_def)
      show "finv d evs (insert i P) (insert i P) ?s"
        by (rule finv_not_run [OF inv i, where new = "[]"]) (simp_all add: F w world_simps option.map_ident)
    qed (simp add: on_world_def set_job_def)
  next
    case None
    show thesis
    proof (cases "blocked_by d (r_jobs s) i")
      case bNone: None
      show thesis
      proof (rule that(2))
        show "flow_select1 env tid d i (s, run) = (s\<lparr>r_world := w\<rparr>, run @ [i])"
          using a None bNone by (simp add: flow_select1_def)
        show "finv d evs P P (s\<lparr>r_world := w\<rparr>)"
          by (rule finv_world [OF inv w])
        show "ready d P (r_jobs (s\<lparr>r_world := w\<rparr>)) i"
          using bNone deps unfolding blocked_by_None [OF F(1) lay] ready_def by simp
      qed simp
    next
      case (Some u)
      let ?msg = "blocked_message (fn_id (d ! u))"
      let ?w = "flow_event ''blocked'' (fn_id (d ! i)) (fn_agent (d ! i)) ?msg (mark_node env tid (fn_id (d ! i)) FP_BLOCKED w)"
      let ?s = "on_world (\<lambda>_. ?w) (set_job i (\<lambda>j. j\<lparr>j_rc := -2\<rparr>)
        (s\<lparr>r_results := (r_results s)[i := Some ?msg], r_failed := True, r_world := w\<rparr>))"
      show thesis
      proof (rule that(1))
        show "flow_select1 env tid d i (s, run) = (?s, run)"
          using a None Some by (simp add: flow_select1_def on_world_def set_job_def Let_def)
        show "finv d evs (insert i P) (insert i P) ?s"
          by (rule finv_not_run [OF inv i, where new = "[flow_event_json ''blocked'' (fn_id (d ! i)) (fn_agent (d ! i)) ?msg]"])
            (simp_all add: F w world_simps)
      qed (simp add: on_world_def set_job_def)
    qed
  qed
qed

lemma flow_select_steps:
  assumes "finv d evs P P s" "layered d" "distinct ls" "\<forall>i\<in>set ls. i < length d \<and> i \<notin> P \<union> set run"
    and "\<forall>i\<in>set ls. \<forall>u. (u, i) \<in> dag_edges d \<longrightarrow> u \<in> P" "set run \<inter> P = {}" "distinct run"
    and "\<forall>r\<in>set run. r < length d \<and> ready d P (r_jobs s) r"
  shows "\<exists>s' run' P'. fold (flow_select1 env tid d) ls (s, run) = (s', run') \<and> finv d evs P' P' s'
     \<and> P' \<union> set run' = P \<union> set run \<union> set ls \<and> set run' \<inter> P' = {} \<and> distinct run'
     \<and> (\<forall>r\<in>set run'. r < length d \<and> ready d P' (r_jobs s') r)"
  using assms
proof (induction ls arbitrary: s run P)
  case Nil
  then show ?case
    by (intro exI [of _ s] exI [of _ run] exI [of _ P]) simp
next
  case (Cons i ls)
  have i: "i < length d" "i \<notin> P" "i \<notin> set run" "i \<notin> set ls" "distinct ls"
    using Cons.prems(3,4) by auto
  have deps: "(u, i) \<in> dag_edges d \<Longrightarrow> u \<in> P" for u
    using Cons.prems(5) by auto
  have ls: "\<forall>k\<in>set ls. k < length d \<and> k \<notin> P \<union> set run" "\<forall>k\<in>set ls. \<forall>u. (u, k) \<in> dag_edges d \<longrightarrow> u \<in> P"
    using Cons.prems(4,5) by auto
  show ?case
  proof (rule flow_select1_step [OF Cons.prems(1) i(1,2) Cons.prems(2) deps, of env tid run])
    fix s1
    assume 1: "flow_select1 env tid d i (s, run) = (s1, run)" "finv d evs (insert i P) (insert i P) s1"
      "\<And>v. v \<noteq> i \<Longrightarrow> r_jobs s1 ! v = r_jobs s ! v"
    have r: "\<forall>r\<in>set run. r < length d \<and> ready d (insert i P) (r_jobs s1) r"
    proof
      fix r
      assume "r \<in> set run"
      then have "r < length d" "ready d P (r_jobs s) r"
        using Cons.prems(8) by auto
      then show "r < length d \<and> ready d (insert i P) (r_jobs s1) r"
        using 1(3) i(2) by (metis ready_mono subset_insertI)
    qed
    have "\<exists>s' run' P'. fold (flow_select1 env tid d) ls (s1, run) = (s', run') \<and> finv d evs P' P' s'
       \<and> P' \<union> set run' = insert i P \<union> set run \<union> set ls \<and> set run' \<inter> P' = {} \<and> distinct run'
       \<and> (\<forall>r\<in>set run'. r < length d \<and> ready d P' (r_jobs s') r)"
      by (rule Cons.IH [OF 1(2) Cons.prems(2) i(5) _ _ _ Cons.prems(7) r]) (use ls i Cons.prems(6) in auto)
    then show ?thesis
      by (simp add: 1(1))
  next
    fix s1
    assume 1: "flow_select1 env tid d i (s, run) = (s1, run @ [i])" "finv d evs P P s1" "r_jobs s1 = r_jobs s" "ready d P (r_jobs s1) i"
    have r: "\<forall>r\<in>set (run @ [i]). r < length d \<and> ready d P (r_jobs s1) r"
      using Cons.prems(8) 1(3,4) i(1) by auto
    have "\<exists>s' run' P'. fold (flow_select1 env tid d) ls (s1, run @ [i]) = (s', run') \<and> finv d evs P' P' s'
       \<and> P' \<union> set run' = P \<union> set (run @ [i]) \<union> set ls \<and> set run' \<inter> P' = {} \<and> distinct run'
       \<and> (\<forall>r\<in>set run'. r < length d \<and> ready d P' (r_jobs s') r)"
      by (rule Cons.IH [OF 1(2) Cons.prems(2) i(5) _ ls(2) _ _ r]) (use ls i Cons.prems(6,7) in auto)
    then show ?thesis
      by (simp add: 1(1))
  qed
qed

lemma flow_prepare_step:
  assumes inv: "finv d evs P Q s" and i: "i \<notin> P"
  shows "finv d evs P Q (flow_prepare env tid d i s)"
    "\<And>v. v \<in> P \<Longrightarrow> r_jobs (flow_prepare env tid d i s) ! v = r_jobs s ! v"
proof -
  obtain path w where L: "result_location env tid i (r_world s) = (path, w)"
    by fastforce
  let ?j = "\<lparr>j_task = flow_substitute d (d ! i) (r_results s) (r_jobs s), j_result_path = path, j_out = None, j_rc = -1\<rparr>"
  have eq: "r_jobs (flow_prepare env tid d i s) = (r_jobs s)[i := ?j]" "r_world (flow_prepare env tid d i s) = w"
    "r_results (flow_prepare env tid d i s) = r_results s" "r_failed (flow_prepare env tid d i s) = r_failed s"
    by (simp_all add: flow_prepare_def L set_job_def Let_def)
  have w: "fw_pool w = fw_pool (r_world s)" "fw_bus w = fw_bus (r_world s)"
    using result_location_fields [OF L] by simp_all
  note F = finvD [OF inv]
  have same: "(r_jobs s)[i := ?j] ! v = r_jobs s ! v" if "v \<in> P" for v
    using that i by (metis nth_list_update_neq)
  show "finv d evs P Q (flow_prepare env tid d i s)"
  proof (rule finv_intro [OF inv, where new = "[]"], unfold eq)
    show "r_failed s \<longleftrightarrow> (\<exists>v\<in>Q. j_rc ((r_jobs s)[i := ?j] ! v) \<noteq> 0)"
      unfolding F(5) using F(4) same by (intro bex_cong refl) (metis subsetD)
    show "evinv d P ((r_jobs s)[i := ?j]) (old @ [])" if "evinv d P (r_jobs s) old" for old
      using evinv_update_open [OF that i] by simp
  qed (use F w in \<open>simp_all add: option.map_ident\<close>)
  show "r_jobs (flow_prepare env tid d i s) ! v = r_jobs s ! v" if "v \<in> P" for v
    unfolding eq by (rule same [OF that])
qed

lemma flow_prepare_steps:
  "finv d evs P Q s \<Longrightarrow> set ls \<inter> P = {} \<Longrightarrow> \<forall>r\<in>R. ready d P (r_jobs s) r \<Longrightarrow>
   finv d evs P Q (fold (flow_prepare env tid d) ls s) \<and> (\<forall>r\<in>R. ready d P (r_jobs (fold (flow_prepare env tid d) ls s)) r)"
proof (induction ls arbitrary: s)
  case (Cons i ls)
  have i: "i \<notin> P"
    using Cons.prems(2) by auto
  note 1 = flow_prepare_step [OF Cons.prems(1) i, where env = env and tid = tid]
  have "\<forall>r\<in>R. ready d P (r_jobs (flow_prepare env tid d i s)) r"
    using Cons.prems(3) 1(2) by (auto intro: ready_mono)
  then show ?case
    using Cons.IH [OF 1(1)] Cons.prems(2) by simp
qed simp

lemma run_workers_steps:
  assumes "finv d evs P Q s" "layered d" "distinct ls" "set ls \<inter> P = {}" "\<forall>i\<in>set ls. i < length d \<and> ready d P (r_jobs s) i"
  shows "\<exists>s'. run_workers env tid d ls s = Some s' \<and> finv d evs (P \<union> set ls) Q s' \<and> (\<forall>v\<in>P. r_jobs s' ! v = r_jobs s ! v)"
  using assms
proof (induction ls arbitrary: s P)
  case (Cons i ls)
  have i: "i < length d" "i \<notin> P" "ready d P (r_jobs s) i" "i \<notin> set ls" "distinct ls"
    using Cons.prems(3-5) by auto
  note F = finvD [OF Cons.prems(1)]
  obtain j w new where W: "flow_worker env tid (run_workspace env (r_world s)) i (d ! i) (r_jobs s ! i) (r_world s) = Some (j, w)"
    "pool_ok (fw_pool w)" "fw_bus w = map_option (\<lambda>es. es @ new) (fw_bus (r_world s))"
    "new = [] \<and> j_rc j = -1 \<or> (\<exists>t. new = [flow_event_json ''execute'' (fn_id (d ! i)) (fn_agent (d ! i)) t,
        flow_event_json ''done'' (fn_id (d ! i)) (fn_agent (d ! i)) (if j_rc j = 0 then ''ok'' else ''error'')])"
    by (rule flow_worker_returns [OF F(3)])
  let ?s = "s\<lparr>r_jobs := (r_jobs s)[i := j], r_world := w\<rparr>"
  have same: "r_jobs ?s ! v = r_jobs s ! v" if "v \<in> P" for v
    using that i(2) by (cases "v = i") simp_all
  have 1: "finv d evs (insert i P) Q ?s"
  proof (rule finv_intro [OF Cons.prems(1), where new = new])
    show "r_failed ?s \<longleftrightarrow> (\<exists>v\<in>Q. j_rc (r_jobs ?s ! v) \<noteq> 0)"
      proof -
      have "(\<exists>v\<in>Q. j_rc (r_jobs ?s ! v) \<noteq> 0) \<longleftrightarrow> (\<exists>v\<in>Q. j_rc (r_jobs s ! v) \<noteq> 0)"
        using F(4) same by (intro bex_cong refl) (metis subsetD)
      then show ?thesis
        using F(5) by simp
    qed
    show "evinv d (insert i P) (r_jobs ?s) (old @ new)" if "evinv d P (r_jobs s) old" for old
    proof -
      have "distinct (map fn_id d)"
        using Cons.prems(2) by (simp add: layered_def)
      from evinv_worker [OF that i(2,1) F(1) i(3) this layered_irrefl [OF Cons.prems(2)] _ W(4)] layeredD [OF Cons.prems(2)]
      show ?thesis
        by simp
    qed
  qed (use F W in auto)
  have "\<forall>k\<in>set ls. k < length d \<and> ready d (insert i P) (r_jobs ?s) k"
  proof
    fix k
    assume "k \<in> set ls"
    then have "k < length d" "ready d P (r_jobs s) k"
      using Cons.prems(5) by auto
    then show "k < length d \<and> ready d (insert i P) (r_jobs ?s) k"
      using same by (auto intro: ready_mono)
  qed
  moreover have "set ls \<inter> insert i P = {}"
    using Cons.prems(4) i(4) by auto
  ultimately obtain s' where "run_workers env tid d ls ?s = Some s'" "finv d evs (insert i P \<union> set ls) Q s'"
    "\<forall>v\<in>insert i P. r_jobs s' ! v = r_jobs ?s ! v"
    using Cons.IH [OF 1 Cons.prems(2) i(5)] by blast
  then show ?case
    using same by (intro exI [of _ s']) (simp add: W(1))
qed simp

lemma join_worker_steps:
  "finv d evs P Q s \<Longrightarrow> set ls \<subseteq> P \<Longrightarrow> finv d evs P (Q \<union> set ls) (fold join_worker ls s) \<and> r_jobs (fold join_worker ls s) = r_jobs s"
proof (induction ls arbitrary: s Q)
  case (Cons i ls)
  have "finv d evs P (insert i Q) (join_worker i s)" "r_jobs (join_worker i s) = r_jobs s"
    using Cons.prems by (auto simp: finv_def join_worker_def)
  then show ?case
    using Cons.IH [of "insert i Q" "join_worker i s"] Cons.prems(2) by simp
qed simp

section \<open>Layers\<close>

lemma flow_batch_step:
  assumes "finv d evs P P s" "layered d" "distinct b" "set b \<inter> P = {}" "\<forall>i\<in>set b. i < length d \<and> ready d P (r_jobs s) i"
    and ord: "mset (fe_order env b) = mset b"
  shows "\<exists>s'. flow_batch env tid d b s = Some s' \<and> finv d evs (P \<union> set b) (P \<union> set b) s' \<and> (\<forall>v\<in>P. r_jobs s' ! v = r_jobs s ! v)"
proof -
  have o: "set (fe_order env b) = set b" "distinct (fe_order env b)"
    using ord assms(3) mset_eq_imp_distinct_iff set_mset_mset by metis+
  obtain s1 where 1: "run_workers env tid d (fe_order env b) s = Some s1" "finv d evs (P \<union> set b) P s1" "\<forall>v\<in>P. r_jobs s1 ! v = r_jobs s ! v"
    using run_workers_steps [OF assms(1,2) o(2), of env tid] assms(4,5) o(1) by auto
  from join_worker_steps [OF 1(2), of b] 1 show ?thesis
    by (simp add: flow_batch_def)
qed

lemma flow_batches_steps:
  assumes "finv d evs P P s" "layered d" "distinct (concat bs)" "set (concat bs) \<inter> P = {}"
    and "\<forall>i\<in>set (concat bs). i < length d \<and> ready d P (r_jobs s) i" and ord: "\<forall>b. mset (fe_order env b) = mset b"
  shows "\<exists>s'. flow_batches env tid d bs s = Some s' \<and> finv d evs (P \<union> set (concat bs)) (P \<union> set (concat bs)) s'"
  using assms(1-5)
proof (induction bs arbitrary: s P)
  case (Cons b bs)
  have db: "distinct b" "distinct (concat bs)" "set b \<inter> set (concat bs) = {}" "set b \<inter> P = {}"
    using Cons.prems(3,4) by auto
  obtain s1 where 1: "flow_batch env tid d b s = Some s1" "finv d evs (P \<union> set b) (P \<union> set b) s1" "\<forall>v\<in>P. r_jobs s1 ! v = r_jobs s ! v"
    using flow_batch_step [OF Cons.prems(1,2) db(1,4)] Cons.prems(5) ord by (metis (no_types, lifting) Un_iff concat.simps(2) set_append)
  have "\<forall>i\<in>set (concat bs). i < length d \<and> ready d (P \<union> set b) (r_jobs s1) i"
  proof
    fix i
    assume "i \<in> set (concat bs)"
    then have "i < length d" "ready d P (r_jobs s) i"
      using Cons.prems(5) by auto
    then show "i < length d \<and> ready d (P \<union> set b) (r_jobs s1) i"
      using 1(3) by (metis ready_mono sup_ge1)
  qed
  moreover have "set (concat bs) \<inter> (P \<union> set b) = {}"
    using db(3) Cons.prems(4) by auto
  ultimately obtain s2 where "flow_batches env tid d bs s1 = Some s2" "finv d evs (P \<union> set b \<union> set (concat bs)) (P \<union> set b \<union> set (concat bs)) s2"
    using Cons.IH [OF 1(2) Cons.prems(2) db(2)] by blast
  then show ?case
    by (simp add: 1(1) Un_assoc)
qed simp

lemma concat_chunks: "0 < n \<Longrightarrow> concat (chunks n xs) = xs"
  by (induction n xs rule: chunks.induct) (auto simp del: take_Suc_Cons drop_Suc_Cons)

lemma chunks_short: "0 < n \<Longrightarrow> b \<in> set (chunks n xs) \<Longrightarrow> length b \<le> n"
  by (induction n xs rule: chunks.induct) (auto split: if_splits)

lemma flow_run_layer_step:
  assumes inv: "finv d evs P P s" and P: "P = {v. v < length d \<and> fn_layer (d ! v) < l}" and lay: "layered d"
    and ord: "\<forall>b. mset (fe_order env b) = mset b"
  shows "\<exists>s'. flow_run_layer env tid d l s = Some s'
    \<and> finv d evs {v. v < length d \<and> fn_layer (d ! v) < Suc l} {v. v < length d \<and> fn_layer (d ! v) < Suc l} s'"
proof -
  let ?ls = "filter (\<lambda>i. fn_layer (d ! i) = l) [0..<length d]"
  have deps: "\<forall>i\<in>set ?ls. \<forall>u. (u, i) \<in> dag_edges d \<longrightarrow> u \<in> P"
    using layeredD [OF lay] by (auto simp: P)
  have pre: "\<forall>i\<in>set ?ls. i < length d \<and> i \<notin> P \<union> set []" "distinct ?ls"
    by (simp_all add: P)
  have "\<exists>s' run' P'. flow_select env tid d l s = (s', run') \<and> finv d evs P' P' s'
     \<and> P' \<union> set run' = P \<union> set [] \<union> set ?ls \<and> set run' \<inter> P' = {} \<and> distinct run'
     \<and> (\<forall>r\<in>set run'. r < length d \<and> ready d P' (r_jobs s') r)"
    unfolding flow_select_def by (rule flow_select_steps [OF inv lay pre(2,1) deps]) simp_all
  then obtain s1 run P' where S: "flow_select env tid d l s = (s1, run)" "finv d evs P' P' s1" "P' \<union> set run = P \<union> set ?ls"
    "set run \<inter> P' = {}" "distinct run" "\<forall>r\<in>set run. r < length d \<and> ready d P' (r_jobs s1) r"
    by (metis list.set(1) sup_bot.right_neutral)
  let ?s2 = "fold (flow_prepare env tid d) run s1"
  have 2: "finv d evs P' P' ?s2" "\<forall>r\<in>set run. r < length d \<and> ready d P' (r_jobs ?s2) r"
    using flow_prepare_steps [OF S(2,4), of "set run" env tid] S(6) by auto
  have c: "concat (chunks FLOW_MAX_PARALLEL run) = run"
    by (simp add: concat_chunks FLOW_MAX_PARALLEL_def)
  obtain s' where "flow_batches env tid d (chunks FLOW_MAX_PARALLEL run) ?s2 = Some s'" "finv d evs (P' \<union> set run) (P' \<union> set run) s'"
    using flow_batches_steps [OF 2(1) lay, of "chunks FLOW_MAX_PARALLEL run" env tid] S(4,5) 2(2) ord unfolding c by blast
  moreover have "P' \<union> set run = {v. v < length d \<and> fn_layer (d ! v) < Suc l}"
    unfolding S(3) P by (auto simp: less_Suc_eq)
  ultimately show ?thesis
    by (simp add: flow_run_layer_def S(1))
qed

lemma flow_run_layers_steps:
  assumes "layered d" "\<forall>b. mset (fe_order env b) = mset b"
  shows "finv d evs {v. v < length d \<and> fn_layer (d ! v) < l} {v. v < length d \<and> fn_layer (d ! v) < l} s \<Longrightarrow>
    \<exists>s'. flow_run_layers env tid d [l..<l + m] s = Some s'
      \<and> finv d evs {v. v < length d \<and> fn_layer (d ! v) < l + m} {v. v < length d \<and> fn_layer (d ! v) < l + m} s'"
proof (induction m arbitrary: l s)
  case (Suc m)
  obtain s1 where 1: "flow_run_layer env tid d l s = Some s1"
    "finv d evs {v. v < length d \<and> fn_layer (d ! v) < Suc l} {v. v < length d \<and> fn_layer (d ! v) < Suc l} s1"
    using flow_run_layer_step [OF Suc.prems refl assms] by blast
  have "[l..<l + Suc m] = l # [Suc l..<Suc l + m]"
    by (simp add: upt_conv_Cons)
  then show ?case
    using Suc.IH [OF 1(2)] 1(1) by simp
qed simp

section \<open>The run\<close>

lemma unregistered_returns: "pool_ok p \<Longrightarrow> unregistered p d \<noteq> None"
  by (induction d) (auto simp: agent_pool_find_def pool_ok_find split: option.split)

lemma post_result_returns:
  "pool_ok (fw_pool w) \<Longrightarrow> \<exists>w'. post_result env d s i w = Some w' \<and> pool_ok (fw_pool w') \<and> fw_bus w' = fw_bus w"
  by (auto simp: post_result_def agent_post_def pool_ok_find pool_ok_bb split: option.split prod.split)

lemma post_results_returns:
  "pool_ok (fw_pool w) \<Longrightarrow> \<exists>w'. post_results env d s is w = Some w' \<and> pool_ok (fw_pool w') \<and> fw_bus w' = fw_bus w"
proof (induction "is" arbitrary: w)
  case (Cons i "is")
  obtain w1 where 1: "post_result env d s i w = Some w1" "pool_ok (fw_pool w1)" "fw_bus w1 = fw_bus w"
    using post_result_returns [OF Cons.prems] by blast
  show ?case
    using Cons.IH [OF 1(2)] 1(1,3) by simp
qed simp

lemma flow_finish_returns:
  assumes "pool_ok (fw_pool (r_world s))"
  shows "\<exists>fo w'. flow_finish env tid d s = Some (fo, w') \<and> fo_rc fo = (if r_failed s then -1 else 0) \<and> fo_answer fo \<noteq> None
    \<and> pool_ok (fw_pool w') \<and> fw_bus w' = fw_bus (r_world s)"
proof -
  let ?trace = "fe_print env (JArr (map (trace_entry d s) [0..<length d]))"
  obtain w1 where 1: "post_results env d s [0..<length d] (r_world s) = Some w1" "pool_ok (fw_pool w1)" "fw_bus w1 = fw_bus (r_world s)"
    using post_results_returns [OF assms] by blast
  let ?w2 = "end_prog env tid (put_board env ''flow/trace'' ?trace w1)"
  have 2: "pool_ok (fw_pool ?w2)" "fw_bus ?w2 = fw_bus (r_world s)"
    using 1 by (simp_all add: end_prog_def world_simps)
  obtain stop w' where 3: "parent_abort env ?w2 = (stop, w')"
    by fastforce
  show ?thesis
    using 1(1) 3 parent_abort_fields [OF 3] 2 by (simp add: flow_finish_def Let_def)
qed

lemma finv_start:
  assumes "pool_ok (fw_pool w)" "fw_bus w = Some evs"
  shows "finv d evs {} {} (flow_start d w)"
  using assms by (simp add: finv_def flow_start_def evinv_def)

lemma flow_run_cases:
  assumes ok: "pool_ok (fw_pool w)" and ord: "\<forall>b. mset (fe_order env b) = mset b" and bus: "fw_bus w = Some evs"
  obtains "flow_run env doc tid w = Some (flow_refused, w)"
  | d0 d s fo w' where "flow_parse (fe_parse env) (nonnull_or [] doc) = Inr d0" "length d = length d0" "dag_edges d = dag_edges d0"
    "\<And>i. i < length d0 \<Longrightarrow> fn_id (d ! i) = fn_id (d0 ! i)" "finv d evs {..<length d} {..<length d} s"
    "flow_run env doc tid w = Some (fo, w')" "fo_rc fo = (if r_failed s then -1 else 0)" "fo_answer fo \<noteq> None"
    "pool_ok (fw_pool w')" "fw_bus w' = fw_bus (r_world s)"
proof (cases "nonnull_or [] doc = [] \<or> (\<exists>e. flow_parse (fe_parse env) (nonnull_or [] doc) = Inl e)")
  case True
  then show thesis
    by (intro that(1)) (auto simp: flow_run_def)
next
  case False
  then obtain d0 where p: "flow_parse (fe_parse env) (nonnull_or [] doc) = Inr d0" "nonnull_or [] doc \<noteq> []"
    by (metis sum.exhaust)
  obtain cnt d where L: "flow_layer d0 = Some (cnt, d)"
    using flow_layer_acyclic [OF flow_parse_spec(1) [OF p(1)]] by blast
  obtain un where un: "unregistered (fw_pool w) d = Some un"
    using unregistered_returns [OF ok] by blast
  show thesis
  proof (cases "cnt < length d0 \<or> un")
    case True
    then show thesis
      using p L un by (intro that(1)) (auto simp: flow_run_def)
  next
    case no: False
    then have nc: "\<not> cnt < length d0"
      by simp
    note D = flow_layer_layered [OF p(1) L nc]
    have lay: "layered d"
      using D(4,5) by (auto simp: layered_def)
    let ?w = "w\<lparr>fw_progs := flow_prog_begin (fw_progs w) tid d\<rparr>"
    let ?m = "Max (insert 0 (fn_layer ` set d)) + 1"
    have low: "{v. v < length d \<and> fn_layer (d ! v) < 0} = {}" and all: "{v. v < length d \<and> fn_layer (d ! v) < ?m} = {..<length d}"
      by (auto simp: less_Suc_eq_le)
    have "finv d evs {} {} (flow_start d ?w)"
      using ok bus by (intro finv_start) simp_all
    then obtain s where S: "flow_run_layers env tid d [0..<?m] (flow_start d ?w) = Some s" "finv d evs {..<length d} {..<length d} s"
      using flow_run_layers_steps [OF lay ord, where l = 0 and m = ?m and s = "flow_start d ?w" and tid = tid and evs = evs]
      unfolding low add_0 all by blast
    obtain fo w' where F: "flow_finish env tid d s = Some (fo, w')" "fo_rc fo = (if r_failed s then -1 else 0)" "fo_answer fo \<noteq> None"
      "pool_ok (fw_pool w')" "fw_bus w' = fw_bus (r_world s)"
      using flow_finish_returns finvD(3) [OF S(2)] by blast
    have "flow_run env doc tid w = Some (fo, w')"
      using p L no un S(1) F(1) by (simp add: flow_run_def del: upt_Suc)
    with D(1-3) S(2) F p show thesis
      by (intro that(2) [of d0 d s fo w']) simp_all
  qed
qed

text \<open>C11: A flow always returns, and on the bus an agent starts only after every node it depends on has
  reported success, whatever order the threads of a batch run in.\<close>

theorem flow_run_order:
  assumes "pool_ok (fw_pool w)" "\<forall>b. mset (fe_order env b) = mset b" "fw_bus w = Some evs"
  shows "\<exists>fo w' new. flow_run env doc tid w = Some (fo, w') \<and> fw_bus w' = Some (evs @ new)
    \<and> (\<forall>d v u p. flow_parse (fe_parse env) (nonnull_or [] doc) = Inr d \<and> v < length d \<and> p < length new
         \<and> started (d ! v) (new ! p) \<and> (u, v) \<in> dag_edges d \<longrightarrow> (\<exists>q<p. succeeded (d ! u) (new ! q)))"
proof (rule flow_run_cases [OF assms, of doc tid])
  assume "flow_run env doc tid w = Some (flow_refused, w)"
  then show ?thesis
    using assms(3) by (intro exI [of _ flow_refused] exI [of _ w] exI [of _ "[]"]) simp
next
  fix d0 d s fo w'
  assume d0: "flow_parse (fe_parse env) (nonnull_or [] doc) = Inr d0" "length d = length d0" "dag_edges d = dag_edges d0"
    and ids: "\<And>i. i < length d0 \<Longrightarrow> fn_id (d ! i) = fn_id (d0 ! i)" and inv: "finv d evs {..<length d} {..<length d} s"
    and run: "flow_run env doc tid w = Some (fo, w')" and bus: "fw_bus w' = fw_bus (r_world s)"
  obtain new where N: "fw_bus (r_world s) = Some (evs @ new)" "evinv d {..<length d} (r_jobs s) new"
    using inv unfolding finv_def by blast
  have same: "started (d ! v) = started (d0 ! v)" "succeeded (d ! v) = succeeded (d0 ! v)" if "v < length d0" for v
    by (simp_all add: started_def succeeded_def fun_eq_iff ids [OF that])
  have "\<exists>q<p. succeeded (d0 ! u) (new ! q)"
    if "v < length d0" "p < length new" "started (d0 ! v) (new ! p)" "(u, v) \<in> dag_edges d0" for v u p
    using evinv_started [OF N(2), of v p] that d0(2,3) same dag_edges_iff by metis
  then show ?thesis
    using run bus N(1) d0(1) by (intro exI [of _ fo] exI [of _ w'] exI [of _ new]) auto
qed

text \<open>The result of a flow is 0 exactly when it was accepted and every one of its nodes has
  reported success.\<close>

theorem flow_run_succeeds_iff:
  assumes "pool_ok (fw_pool w)" "\<forall>b. mset (fe_order env b) = mset b" "fw_bus w = Some evs"
    and "flow_run env doc tid w = Some (fo, w')" "fw_bus w' = Some (evs @ new)"
  shows "fo_rc fo = 0 \<longleftrightarrow> (\<exists>d. flow_parse (fe_parse env) (nonnull_or [] doc) = Inr d
    \<and> (\<forall>v<length d. \<exists>ev\<in>set new. succeeded (d ! v) ev))"
proof (rule flow_run_cases [OF assms(1-3), of doc tid])
  assume "flow_run env doc tid w = Some (flow_refused, w)"
  then have "fo_rc fo = -1" "new = []"
    using assms(3-5) by (auto simp: flow_refused_def)
  moreover have "\<exists>v. v < length d" if "flow_parse (fe_parse env) (nonnull_or [] doc) = Inr d" for d
    using flow_parse_spec(3) [OF that] by blast
  ultimately show ?thesis
    by auto
next
  fix d0 d s fo' w1
  assume d0: "flow_parse (fe_parse env) (nonnull_or [] doc) = Inr d0" "length d = length d0"
    and ids: "\<And>i. i < length d0 \<Longrightarrow> fn_id (d ! i) = fn_id (d0 ! i)" and inv: "finv d evs {..<length d} {..<length d} s"
    and run: "flow_run env doc tid w = Some (fo', w1)" and rc: "fo_rc fo' = (if r_failed s then -1 else 0)"
    and bus: "fw_bus w1 = fw_bus (r_world s)"
  have N: "evinv d {..<length d} (r_jobs s) new"
    using inv assms(4,5) run bus unfolding finv_def by auto
  have "fo_rc fo = 0 \<longleftrightarrow> (\<forall>v<length d. j_rc (r_jobs s ! v) = 0)"
    using run assms(4) rc finvD(5) [OF inv] by auto
  also have "\<dots> \<longleftrightarrow> (\<forall>v<length d. \<exists>ev\<in>set new. succeeded (d ! v) ev)"
    using evinv_succeeded [OF N] by auto
  also have "\<dots> \<longleftrightarrow> (\<forall>v<length d0. \<exists>ev\<in>set new. succeeded (d0 ! v) ev)"
    using ids d0(2) by (auto simp: succeeded_def)
  finally show ?thesis
    using d0(1) by auto
qed

text \<open>The text a node is given never exceeds the context limit, and a task without
  references is given unchanged.\<close>

theorem flow_substitute_bounded:
  "pred_option (\<lambda>t. length t \<le> FLOW_MAX_EXPANDED_CONTEXT) (flow_substitute d nd results jobs)
   \<and> (flow_substitute d nd results jobs = Some (fn_task nd)
      \<or> str_contains ''{{'' (fn_task nd) \<or> FLOW_MAX_EXPANDED_CONTEXT < length (fn_task nd))"
proof -
  have "\<not> str_contains ''{{'' t \<Longrightarrow> subst_loop d results jobs out t = Some (out @ t)" for out t
  proof (induction t arbitrary: out)
    case (Cons c cs)
    have "take 2 (c # cs) \<noteq> ''{{''"
      using Cons.prems by (metis append_take_drop_id append_Nil str_contains_iff)
    then have "ref_at d results (c # cs) = None"
      unfolding ref_at_def by (simp only: if_False)
    moreover have "\<not> str_contains ''{{'' cs"
      using Cons.prems by (metis append_Cons str_contains_iff)
    ultimately show ?case
      using Cons.IH by (simp add: subst_loop.simps [of _ _ _ _ "c # cs"])
  qed (simp add: subst_loop.simps)
  from this [of "fn_task nd" "[]"] show ?thesis
    by (cases "str_contains ''{{'' (fn_task nd)") (auto simp: flow_substitute_def split: option.splits)
qed

section \<open>An example\<close>

definition demo_agent :: "nat \<Rightarrow> nat \<Rightarrow> cstr \<Rightarrow> cstr \<Rightarrow> fsys \<Rightarrow> int \<times> cstr option \<times> fsys" where
  "demo_agent i n session prompt fs = (0, Some ''r'', fs)"

definition demo_flow_env :: flow_env where
  "demo_flow_env =
     \<lparr>fe_parse = sample_flow, fe_print = (\<lambda>_. ''t''), fe_clock = (\<lambda>_. 0), fe_parent = None, fe_reasoning = (\<lambda>_. True),
      fe_agent = demo_agent, fe_view = (\<lambda>_. \<lparr>rv_snapshot = None, rv_elapsed = 0, rv_round = 0, rv_tools = 0, rv_cur = None,
        rv_tin = 0, rv_tout = 0, rv_llm_ms = 0, rv_tool_ms = 0, rv_calls = 0, rv_steps = None\<rparr>), fe_order = (\<lambda>b. b),
      fe_workspace = None, fe_state_root = None, fe_absolute = (\<lambda>p. Some p), fe_passwords = []\<rparr>"

definition demo_ops :: "pool_op list" where
  "demo_ops = [PAdd True True True (Some ''x'') None None None, PAdd True True True (Some ''y'') None None None]"

definition demo_pool :: agent_pool where
  "demo_pool = the (pool_run demo_ops agent_pool_new)"

definition demo_flow_world :: flow_world where
  "demo_flow_world =
     \<lparr>fw_pool = demo_pool, fw_disk = Map.empty, fw_fs = \<lparr>nodes = [], denied = []\<rparr>, fw_bus = Some [], fw_progs = flow_progs_init, fw_tick = 0\<rparr>"

lemma demo_pool_ok: "pool_ok demo_pool \<and> map ae_name (ap_agents demo_pool) = [''x'', ''y'']"
  using pool_run_ok [OF pool_ok_new, of demo_ops]
  by (auto simp: demo_pool_def demo_ops_def agent_pool_new_def nonnull_or_def)

lemma demo_flow_env_fields: "fe_parse demo_flow_env = sample_flow" "fe_order demo_flow_env = (\<lambda>b. b)"
  "pool_ok (fw_pool demo_flow_world)" "fw_bus demo_flow_world = Some []"
  using demo_pool_ok by (simp_all add: demo_flow_env_def demo_flow_world_def)

lemma demo_order: "\<forall>b. mset (fe_order demo_flow_env b) = mset b"
  by (simp add: demo_flow_env_fields)

text \<open>In the sample flow the first node starts after the second has succeeded.\<close>

theorem flow_run_order_witness:
  "\<exists>fo w' new. flow_run demo_flow_env (Some ''doc'') 7 demo_flow_world = Some (fo, w') \<and> fw_bus w' = Some new
     \<and> (started (sample_dag ! 0) (hd (new @ [JNull])) = False)"
proof -
  obtain fo w' new where R: "flow_run demo_flow_env (Some ''doc'') 7 demo_flow_world = Some (fo, w')" "fw_bus w' = Some ([] @ new)"
    and O: "\<forall>d v u p. flow_parse (fe_parse demo_flow_env) (nonnull_or [] (Some ''doc'')) = Inr d \<and> v < length d \<and> p < length new
         \<and> started (d ! v) (new ! p) \<and> (u, v) \<in> dag_edges d \<longrightarrow> (\<exists>q<p. succeeded (d ! u) (new ! q))"
    using flow_run_order [OF demo_flow_env_fields(3) demo_order demo_flow_env_fields(4), of "Some ''doc''" 7] by blast
  have "\<not> started (sample_dag ! 0) (hd (new @ [JNull]))"
  proof (cases new)
    case (Cons e es)
    have "flow_parse (fe_parse demo_flow_env) (nonnull_or [] (Some ''doc'')) = Inr sample_dag"
      by (simp add: demo_flow_env_fields nonnull_or_def sample_flow_parse)
    moreover have "0 < length sample_dag" "(1, 0) \<in> dag_edges sample_dag"
      by (simp add: sample_dag_def, simp add: sample_dag_edges)
    ultimately show ?thesis
      using O [rule_format, of sample_dag 0 0 1] Cons by auto
  qed (simp add: started_def)
  then show ?thesis
    using R by auto
qed

theorem flow_run_succeeds_iff_witness:
  "\<exists>fo w' new. flow_run demo_flow_env (Some ''doc'') 7 demo_flow_world = Some (fo, w') \<and> fw_bus w' = Some new
     \<and> (fo_rc fo = 0 \<longleftrightarrow> (\<exists>d. flow_parse sample_flow ''doc'' = Inr d \<and> list_all (\<lambda>nd. \<exists>ev\<in>set new. succeeded nd ev) d))"
proof -
  have "\<exists>fo w' new. flow_run demo_flow_env (Some ''doc'') 7 demo_flow_world = Some (fo, w') \<and> fw_bus w' = Some ([] @ new)"
    by (rule flow_run_cases [OF demo_flow_env_fields(3) demo_order demo_flow_env_fields(4), of "Some ''doc''" 7])
      (auto simp: finv_def demo_flow_env_fields)
  then obtain fo w' new where R: "flow_run demo_flow_env (Some ''doc'') 7 demo_flow_world = Some (fo, w')" "fw_bus w' = Some ([] @ new)"
    by blast
  from flow_run_succeeds_iff [OF demo_flow_env_fields(3) demo_order demo_flow_env_fields(4) R] R show ?thesis
    by (intro exI [of _ fo] exI [of _ w'] exI [of _ new]) (simp add: demo_flow_env_fields nonnull_or_def list_all_length)
qed

end
