(* ===== verification/Orchestrator.thy ===== *)
theory Orchestrator
  imports FlowOrder
begin

text \<open>
  The multi-agent orchestrator of \<open>src/backend/src/runtime/orchestrator.c\<close>: a task is decomposed by the language model into
  at most four steps for registered agents, compiled to a flow document, run by \<open>flow_run\<close> and merged. The model's
  replies (\<open>oe_llm\<close>, by the system prompt used and the user prompt) and the single-agent run are parameters; the booking
  of tokens is left out. The agent pool's lookups return (\<open>agent_index_is_linear_search\<close>), so a lookup is a truth value here.
\<close>

section \<open>Plans\<close>

definition ORCH_MAX_STEPS :: nat where
  "ORCH_MAX_STEPS = 4"

definition ORCH_MAX_TASKLEN :: nat where
  "ORCH_MAX_TASKLEN = 8192"

record plan_step =
  ps_agent :: cstr
  ps_task :: cstr
  ps_after :: "nat list"

definition is_registered :: "agent_pool \<Rightarrow> cstr \<Rightarrow> bool" where
  "is_registered p name = (case agent_pool_find p (Some name) of Some r \<Rightarrow> 0 \<le> r | None \<Rightarrow> False)"

definition scope_has :: "json list option \<Rightarrow> cstr \<Rightarrow> bool" where
  "scope_has allowed name = (case allowed of None \<Rightarrow> True | Some js \<Rightarrow> JStr name \<in> set js)"

definition scope_item_ok :: "agent_pool \<Rightarrow> json \<Rightarrow> bool" where
  "scope_item_ok p j = (case j of JStr s \<Rightarrow> is_registered p s | _ \<Rightarrow> False)"

text \<open>The persisted form of a task restricted to a roster; \<open>None\<close> is a refusal.\<close>

definition flow_scope_task ::
  "(cstr \<Rightarrow> json option) \<Rightarrow> (json \<Rightarrow> cstr) \<Rightarrow> agent_pool \<Rightarrow> cstr \<Rightarrow> cstr option \<Rightarrow> cstr option" where
  "flow_scope_task parse print p task agents_json =
     (case agents_json of
        None \<Rightarrow> Some task
      | Some txt \<Rightarrow>
          (let allowed = json_items (parse txt) in
           if allowed = [] \<or> \<not> list_all (scope_item_ok p) allowed then None
           else Some (print (JObj [(''coa_flow_scope'', JNum 1), (''task'', JStr task), (''agents'', JArr allowed)]))))"

text \<open>A prerequisite of step \<open>n\<close> (numbers from 1), as the index of an earlier step.\<close>

fun after_index :: "nat \<Rightarrow> json \<Rightarrow> nat option" where
  "after_index n (JNum r) =
     (if r < 1 \<or> of_nat n < r \<or> r \<noteq> of_int \<lfloor>r\<rfloor> then None else Some (nat \<lfloor>r\<rfloor> - 1))"
| "after_index n _ = None"

fun parse_after :: "nat \<Rightarrow> json list \<Rightarrow> nat list \<Rightarrow> nat list option" where
  "parse_after n [] acc = Some acc"
| "parse_after n (j # js) acc =
     (case after_index n j of
        None \<Rightarrow> None
      | Some i \<Rightarrow> parse_after n js (if i \<in> set acc \<or> ORCH_MAX_STEPS \<le> length acc then acc else acc @ [i]))"

definition step_after :: "nat \<Rightarrow> json option \<Rightarrow> nat list option" where
  "step_after n jaf =
     (case jaf of
        None \<Rightarrow> Some (if 0 < n then [n - 1] else [])
      | Some (JArr js) \<Rightarrow> parse_after n js []
      | Some _ \<Rightarrow> None)"

definition parse_step :: "agent_pool \<Rightarrow> nat \<Rightarrow> json \<Rightarrow> plan_step option" where
  "parse_step p n it =
     (if \<not> json_is_object (Some it) then None
      else case (json_nonempty_string (json_get ''agent'' (Some it)), json_nonempty_string (json_get ''task'' (Some it))) of
             (Some a, Some t) \<Rightarrow>
               if \<not> is_registered p a \<or> 64 \<le> length a \<or> ORCH_MAX_TASKLEN \<le> length t then None
               else map_option (\<lambda>af. \<lparr>ps_agent = a, ps_task = t, ps_after = af\<rparr>) (step_after n (json_get ''after'' (Some it)))
           | _ \<Rightarrow> None)"

fun parse_steps :: "agent_pool \<Rightarrow> json list \<Rightarrow> plan_step list \<Rightarrow> plan_step list option" where
  "parse_steps p [] acc = Some acc"
| "parse_steps p (it # its) acc =
     (case parse_step p (length acc) it of None \<Rightarrow> None | Some st \<Rightarrow> parse_steps p its (acc @ [st]))"

text \<open>The text from the first opening to the last closing bracket.\<close>

definition bracketed :: "cstr \<Rightarrow> cstr option" where
  "bracketed raw =
     (case (find_index (\<lambda>c. c = CHR ''['') raw, find_index (\<lambda>c. c = CHR '']'') (rev raw)) of
        (Some lb, Some k) \<Rightarrow>
          (let rb = length raw - 1 - k in if rb < lb then None else Some (take (rb - lb + 1) (drop lb raw)))
      | _ \<Rightarrow> None)"

text \<open>\<open>None\<close> is the code's -1, an invalid plan; no steps is 0, no plan at all.\<close>

definition parse_plan :: "(cstr \<Rightarrow> json option) \<Rightarrow> agent_pool \<Rightarrow> cstr option \<Rightarrow> plan_step list option" where
  "parse_plan parse p raw =
     (case Option.bind raw bracketed of
        None \<Rightarrow> Some []
      | Some txt \<Rightarrow>
          (case parse txt of
             Some (JArr its) \<Rightarrow> if ORCH_MAX_STEPS < length its then None else parse_steps p its []
           | _ \<Rightarrow> Some []))"

definition step_name :: "nat \<Rightarrow> cstr" where
  "step_name i = cbuf 16 (''step'' @ nat_str (i + 1))"

definition dag_document :: "plan_step list \<Rightarrow> json" where
  "dag_document steps =
     JObj [(''nodes'', JArr (map (\<lambda>i. JObj [(''id'', JStr (step_name i)), (''agent'', JStr (ps_agent (steps ! i))),
              (''task'', JStr (ps_task (steps ! i)))]) [0..<length steps])),
           (''edges'', JArr (concat (map (\<lambda>i. map (\<lambda>k. JObj [(''from'', JStr (step_name k)), (''to'', JStr (step_name i))])
              (ps_after (steps ! i))) [0..<length steps])))]"

definition build_dag_json :: "(json \<Rightarrow> cstr) \<Rightarrow> plan_step list \<Rightarrow> cstr" where
  "build_dag_json print steps = print (dag_document steps)"

section \<open>Decomposition\<close>

datatype llm_prompt = Decompose | Merge

record orch_env =
  oe_flow :: flow_env
  oe_llm :: "(llm_prompt \<Rightarrow> cstr \<Rightarrow> cstr option) option"
  oe_single :: "cstr \<Rightarrow> fsys \<Rightarrow> int \<times> cstr option \<times> fsys"
  oe_checkpoint :: "(task \<Rightarrow> task) option"

definition roster_line :: "json list option \<Rightarrow> json \<Rightarrow> cstr" where
  "roster_line allowed a =
     (let name = nonnull_or [] (json_string (json_get ''name'' (Some a))); role = nonnull_or [] (json_string (json_get ''role'' (Some a))) in
      if \<not> scope_has allowed name then [] else ''- '' @ name @ '' ('' @ role @ '')'' @ [CHR 0x0A])"

definition roster_text :: "orch_env \<Rightarrow> agent_pool \<Rightarrow> json list option \<Rightarrow> cstr option" where
  "roster_text env p allowed =
     (let agents = json_items (json_get ''agents'' (fe_parse (oe_flow env) (agent_pool_snapshot_json (fe_print (oe_flow env)) (fe_parse (oe_flow env)) p))) in
      if agents = [] then None else Some (concat (map (roster_line allowed) agents)))"

text \<open>The scope of a task: \<open>None\<close> when it is malformed, otherwise the roster (if any) and the text of the task.\<close>

definition task_scope :: "orch_env \<Rightarrow> agent_pool \<Rightarrow> cstr \<Rightarrow> (json list option \<times> cstr) option" where
  "task_scope env p task =
     (let scope = fe_parse (oe_flow env) task in
      case json_num (json_get ''coa_flow_scope'' scope) of
        None \<Rightarrow> Some (None, task)
      | Some _ \<Rightarrow>
          (let allowed = json_items (json_get ''agents'' scope) in
           case json_string (json_get ''task'' scope) of
             None \<Rightarrow> None
           | Some original \<Rightarrow>
               if allowed = [] \<or> \<not> list_all (scope_item_ok p) allowed then None else Some (Some allowed, original)))"

definition decompose_task :: "orch_env \<Rightarrow> agent_pool \<Rightarrow> cstr \<Rightarrow> plan_step list option" where
  "decompose_task env p task =
     (case task_scope env p task of
        None \<Rightarrow> None
      | Some (allowed, body) \<Rightarrow>
          (let roster = (if oe_llm env \<noteq> None \<and> 0 < agent_pool_count p then roster_text env p allowed else None);
               steps = (if nonnull_or [] roster = [] then Some []
                        else case the (oe_llm env) Decompose
                               ([CHR 0xE5, CHR 0x8F, CHR 0xAF, CHR 0xE7, CHR 0x94, CHR 0xA8] @ '' agent:'' @ [CHR 0x0A] @ nonnull_or [] roster @ [CHR 0x0A, CHR 0xE4, CHR 0xBB, CHR 0xBB, CHR 0xE5, CHR 0x8A, CHR 0xA1] @ '': '' @ body) of
                               None \<Rightarrow> Some []
                             | Some raw \<Rightarrow>
                                 (case parse_plan (fe_parse (oe_flow env)) p (Some raw) of
                                    None \<Rightarrow> None
                                  | Some sts \<Rightarrow> if list_all (\<lambda>st. scope_has allowed (ps_agent st)) sts then Some sts else None))
           in if allowed \<noteq> None \<and> steps = Some [] then None else steps))"

definition flow_decompose :: "orch_env \<Rightarrow> agent_pool \<Rightarrow> cstr option \<Rightarrow> cstr option" where
  "flow_decompose env p task =
     (if nonnull_or [] task = [] then None
      else case decompose_task env p (nonnull_or [] task) of
             None \<Rightarrow> None
           | Some steps \<Rightarrow> if steps = [] then None else Some (build_dag_json (fe_print (oe_flow env)) steps))"

section \<open>Orchestration\<close>

text \<open>The world of a flow and the scheduler's record of the task, when there is one.\<close>

record orch_world =
  ow_flow :: flow_world
  ow_task :: "task option"

text \<open>\<open>cJSON_DeleteItemFromObject\<close>: the first member of the name, letters compared without case.\<close>

fun json_delete :: "cstr \<Rightarrow> (cstr \<times> json) list \<Rightarrow> (cstr \<times> json) list" where
  "json_delete k [] = []"
| "json_delete k ((k', j) # kvs) = (if map c_tolower k' = map c_tolower k then kvs else (k', j) # json_delete k kvs)"

definition json_replace :: "cstr \<Rightarrow> json \<Rightarrow> (cstr \<times> json) list \<Rightarrow> (cstr \<times> json) list" where
  "json_replace k j kvs = json_delete k kvs @ [(k, j)]"

text \<open>An array has no named members to delete and takes the new values; another value that is no object keeps its text.\<close>

definition orchestration_stage :: "orch_env \<Rightarrow> int \<Rightarrow> cstr \<Rightarrow> cstr \<Rightarrow> orch_world \<Rightarrow> orch_world" where
  "orchestration_stage env tid stage activity w =
     (case ow_task w of
        None \<Rightarrow> w
      | Some t \<Rightarrow>
          if tid < 0 then w
          else let parse = fe_parse (oe_flow env);
                   old = (case Option.bind (task_progress_copy t) parse of None \<Rightarrow> JObj [] | Some j \<Rightarrow> j);
                   nodes = Option.bind (flow_progress_json (fe_print (oe_flow env)) (fe_view (oe_flow env)) (fw_progs (ow_flow w)) tid) parse;
                   new = (case old of
                            JObj kvs \<Rightarrow>
                              (let kvs1 = json_replace ''activity'' (JStr activity) (json_replace ''stage'' (JStr stage) kvs) in
                               JObj (case nodes of None \<Rightarrow> kvs1 | Some arr \<Rightarrow> json_replace ''flow_nodes'' arr kvs1))
                          | JArr js \<Rightarrow> JArr (js @ [JStr stage, JStr activity] @ (case nodes of None \<Rightarrow> [] | Some arr \<Rightarrow> [arr]))
                          | _ \<Rightarrow> old)
               in w\<lparr>ow_task := Some (task_set_progress parse (oe_checkpoint env) t (Some (fe_print (oe_flow env) new)))\<rparr>)"

record orch_result =
  or_rc :: int
  or_answer :: "cstr option"
  or_trace :: "cstr option"

definition merge_line :: "nat \<times> json \<Rightarrow> cstr" where
  "merge_line nit =
     (case nit of (i, it) \<Rightarrow>
       nat_str (i + 1) @ ''. ['' @ nonnull_or ''?'' (json_string (json_get ''agent'' (Some it))) @ ''/status=''
       @ nonnull_or ''?'' (json_string (json_get ''status'' (Some it))) @ ''] ''
       @ nonnull_or [] (json_string (json_get ''result'' (Some it))) @ [CHR 0x0A])"

definition merged_results :: "orch_env \<Rightarrow> cstr \<Rightarrow> cstr option \<Rightarrow> cstr option" where
  "merged_results env task trace =
     (case Option.bind trace (fe_parse (oe_flow env)) of
        None \<Rightarrow> None
      | Some arr \<Rightarrow>
          Some ([CHR 0xE4, CHR 0xBB, CHR 0xBB, CHR 0xE5, CHR 0x8A, CHR 0xA1] @ '': '' @ task @ [CHR 0x0A, CHR 0x0A, CHR 0xE5, CHR 0x90, CHR 0x84] @ '' agent '' @ [CHR 0xE7, CHR 0xBB, CHR 0x93, CHR 0xE6, CHR 0x9E, CHR 0x9C] @ '':'' @ [CHR 0x0A]
                @ concat (map merge_line (List.enumerate 0 (json_items (Some arr))))))"

definition final_answer :: "orch_env \<Rightarrow> nat \<Rightarrow> cstr option \<Rightarrow> cstr option \<Rightarrow> cstr" where
  "final_answer env nsteps merged flow_answer =
     (let reply = (case (oe_llm env, merged) of
                     (Some llm, Some m) \<Rightarrow> if 1 < nsteps then llm Merge m else None
                   | _ \<Rightarrow> None)
      in nonempty_or (nonempty_or (nonnull_or [] flow_answer) merged) reply)"

definition orchestrate_task :: "orch_env \<Rightarrow> cstr option \<Rightarrow> int \<Rightarrow> orch_world \<Rightarrow> (orch_result \<times> orch_world) option" where
  "orchestrate_task env task tid w0 =
     (if nonnull_or [] task = [] then Some (\<lparr>or_rc = -1, or_answer = None, or_trace = None\<rparr>, w0)
      else
        let txt = nonnull_or [] task;
            w1 = orchestration_stage env tid ''decomposing'' ([CHR 0xE6, CHR 0xAD, CHR 0xA3, CHR 0xE5, CHR 0x9C, CHR 0xA8, CHR 0xE5, CHR 0x88, CHR 0x86, CHR 0xE8, CHR 0xA7, CHR 0xA3, CHR 0xE4, CHR 0xBB, CHR 0xBB, CHR 0xE5, CHR 0x8A, CHR 0xA1, CHR 0xE5, CHR 0xB9, CHR 0xB6, CHR 0xE5, CHR 0x88, CHR 0x86, CHR 0xE9, CHR 0x85, CHR 0x8D] @ '' Agent'') w0 in
        case decompose_task env (fw_pool (ow_flow w1)) txt of
          None \<Rightarrow>
            Some (\<lparr>or_rc = -1, or_answer = Some ([CHR 0xE5, CHR 0xA4, CHR 0x9A] @ '' Agent '' @ [CHR 0xE8, CHR 0xAE, CHR 0xA1, CHR 0xE5, CHR 0x88, CHR 0x92, CHR 0xE6, CHR 0x97, CHR 0xA0, CHR 0xE6, CHR 0x95, CHR 0x88, CHR 0xEF, CHR 0xBC, CHR 0x9A, CHR 0xE8, CHR 0xAF, CHR 0xB7, CHR 0xE6, CHR 0xA3, CHR 0x80, CHR 0xE6, CHR 0x9F, CHR 0xA5] @ '' agent'' @ [CHR 0xE3, CHR 0x80, CHR 0x81, CHR 0xE4, CHR 0xBB, CHR 0xBB, CHR 0xE5, CHR 0x8A, CHR 0xA1, CHR 0xE9, CHR 0x95, CHR 0xBF, CHR 0xE5, CHR 0xBA, CHR 0xA6, CHR 0xE5, CHR 0x92, CHR 0x8C] @ '' after '' @ [CHR 0xE5, CHR 0x89, CHR 0x8D, CHR 0xE7, CHR 0xBD, CHR 0xAE, CHR 0xE7, CHR 0xBC, CHR 0x96, CHR 0xE5, CHR 0x8F, CHR 0xB7, CHR 0xEF, CHR 0xBC, CHR 0x9B, CHR 0xE6, CHR 0xAD, CHR 0xA5, CHR 0xE9, CHR 0xAA, CHR 0xA4, CHR 0xE6, CHR 0x9C, CHR 0xAA, CHR 0xE6, CHR 0x89, CHR 0xA7, CHR 0xE8, CHR 0xA1, CHR 0x8C, CHR 0xE3, CHR 0x80, CHR 0x82]), or_trace = None\<rparr>, w1)
        | Some [] \<Rightarrow>
            (case oe_single env txt (fw_fs (ow_flow w1)) of
               (rc, ans, fs) \<Rightarrow> Some (\<lparr>or_rc = rc, or_answer = ans, or_trace = None\<rparr>, w1\<lparr>ow_flow := (ow_flow w1)\<lparr>fw_fs := fs\<rparr>\<rparr>))
        | Some steps \<Rightarrow>
            let w2 = orchestration_stage env tid ''executing'' ([CHR 0xE6, CHR 0xAD, CHR 0xA3, CHR 0xE5, CHR 0x9C, CHR 0xA8, CHR 0xE6, CHR 0x89, CHR 0xA7, CHR 0xE8, CHR 0xA1, CHR 0x8C, CHR 0xE5, CHR 0xA4, CHR 0x9A] @ '' Agent '' @ [CHR 0xE8, CHR 0x8A, CHR 0x82, CHR 0xE7, CHR 0x82, CHR 0xB9]) w1 in
            (case flow_run (oe_flow env) (Some (build_dag_json (fe_print (oe_flow env)) steps)) tid (ow_flow w2) of
               None \<Rightarrow> None
             | Some (fo, fw) \<Rightarrow>
                 let w3 = orchestration_stage env tid (if fo_rc fo \<noteq> 0 then ''failed'' else ''merging'')
                            (if fo_rc fo \<noteq> 0 then [CHR 0xE8, CHR 0x8A, CHR 0x82, CHR 0xE7, CHR 0x82, CHR 0xB9, CHR 0xE6, CHR 0x89, CHR 0xA7, CHR 0xE8, CHR 0xA1, CHR 0x8C, CHR 0xE6, CHR 0x9C, CHR 0xAA, CHR 0xE5, CHR 0xAE, CHR 0x8C, CHR 0xE6, CHR 0x88, CHR 0x90] else [CHR 0xE6, CHR 0xAD, CHR 0xA3, CHR 0xE5, CHR 0x9C, CHR 0xA8, CHR 0xE7, CHR 0xBB, CHR 0xBC, CHR 0xE5, CHR 0x90, CHR 0x88, CHR 0xE5, CHR 0x90, CHR 0x84] @ '' Agent '' @ [CHR 0xE7, CHR 0x9A, CHR 0x84, CHR 0xE7, CHR 0xBB, CHR 0x93, CHR 0xE6, CHR 0x9E, CHR 0x9C])
                            (w2\<lparr>ow_flow := fw\<rparr>) in
                 if fo_rc fo \<noteq> 0
                 then Some (\<lparr>or_rc = -1, or_answer = Some (nonnull_or ([CHR 0xE5, CHR 0xA4, CHR 0x9A] @ '' Agent '' @ [CHR 0xE6, CHR 0x89, CHR 0xA7, CHR 0xE8, CHR 0xA1, CHR 0x8C, CHR 0xE6, CHR 0x9C, CHR 0xAA, CHR 0xE5, CHR 0xAE, CHR 0x8C, CHR 0xE6, CHR 0x88, CHR 0x90, CHR 0xE3, CHR 0x80, CHR 0x82]) (fo_answer fo)), or_trace = fo_trace fo\<rparr>, w3)
                 else let merged = merged_results env txt (fo_trace fo);
                          final = final_answer env (length steps) merged (fo_answer fo);
                          w4 = w3\<lparr>ow_flow := put_board (oe_flow env) ''flow/final'' final (ow_flow w3)\<rparr>
                      in Some (\<lparr>or_rc = 0, or_answer = Some final, or_trace = fo_trace fo\<rparr>,
                               orchestration_stage env tid ''completed'' ([CHR 0xE5, CHR 0xA4, CHR 0x9A] @ '' Agent '' @ [CHR 0xE6, CHR 0x89, CHR 0xA7, CHR 0xE8, CHR 0xA1, CHR 0x8C, CHR 0xE4, CHR 0xB8, CHR 0x8E, CHR 0xE7, CHR 0xBB, CHR 0xBC, CHR 0xE5, CHR 0x90, CHR 0x88, CHR 0xE5, CHR 0xB7, CHR 0xB2, CHR 0xE5, CHR 0xAE, CHR 0x8C, CHR 0xE6, CHR 0x88, CHR 0x90]) w4)))"

definition orchestrate :: "orch_env \<Rightarrow> cstr option \<Rightarrow> orch_world \<Rightarrow> (orch_result \<times> orch_world) option" where
  "orchestrate env task w = orchestrate_task env task (-1) w"

section \<open>Plans are acyclic\<close>

definition plan_ok :: "agent_pool \<Rightarrow> plan_step list \<Rightarrow> bool" where
  "plan_ok p steps \<longleftrightarrow> length steps \<le> ORCH_MAX_STEPS
     \<and> (\<forall>i<length steps. is_registered p (ps_agent (steps ! i)) \<and> ps_agent (steps ! i) \<noteq> [] \<and> length (ps_agent (steps ! i)) < 64
          \<and> ps_task (steps ! i) \<noteq> [] \<and> length (ps_task (steps ! i)) < ORCH_MAX_TASKLEN
          \<and> distinct (ps_after (steps ! i)) \<and> (\<forall>k\<in>set (ps_after (steps ! i)). k < i))"

lemma after_index_less: "after_index n j = Some i \<Longrightarrow> i < n"
proof (induction n j rule: after_index.induct)
  case (1 n r)
  then have r: "1 \<le> r" "r \<le> of_nat n" "i = nat \<lfloor>r\<rfloor> - 1"
    by (auto split: if_splits)
  have "\<lfloor>r\<rfloor> \<le> int n" "1 \<le> \<lfloor>r\<rfloor>"
    using r(1,2) by (simp_all add: floor_le_iff le_floor_iff)
  then show ?case
    using r(3) by linarith
qed simp_all

lemma parse_after_ok:
  "parse_after n js acc = Some af \<Longrightarrow> distinct acc \<Longrightarrow> \<forall>k\<in>set acc. k < n \<Longrightarrow> distinct af \<and> (\<forall>k\<in>set af. k < n)"
proof (induction js arbitrary: acc)
  case (Cons j js)
  obtain i where i: "after_index n j = Some i"
    "parse_after n js (if i \<in> set acc \<or> ORCH_MAX_STEPS \<le> length acc then acc else acc @ [i]) = Some af"
    using Cons.prems(1) by (auto split: option.splits)
  show ?case
    using after_index_less [OF i(1)] Cons.prems(2,3) by (intro Cons.IH [OF i(2)]) auto
qed simp

lemma parse_step_ok:
  assumes "parse_step p n it = Some st"
  shows "is_registered p (ps_agent st) \<and> ps_agent st \<noteq> [] \<and> length (ps_agent st) < 64 \<and> ps_task st \<noteq> []
    \<and> length (ps_task st) < ORCH_MAX_TASKLEN \<and> distinct (ps_after st) \<and> (\<forall>k\<in>set (ps_after st). k < n)"
proof -
  obtain a t af where S: "json_nonempty_string (json_get ''agent'' (Some it)) = Some a" "json_nonempty_string (json_get ''task'' (Some it)) = Some t"
    "is_registered p a" "length a < 64" "length t < ORCH_MAX_TASKLEN" "step_after n (json_get ''after'' (Some it)) = Some af"
    "st = \<lparr>ps_agent = a, ps_task = t, ps_after = af\<rparr>"
    using assms by (auto simp: parse_step_def split: if_splits option.splits)
  have "distinct af \<and> (\<forall>k\<in>set af. k < n)"
    using S(6) parse_after_ok [of n _ "[]" af] by (auto simp: step_after_def split: option.splits json.splits if_splits)
  with S show ?thesis
    by (simp add: json_nonempty_string_Some)
qed

lemma parse_steps_ok:
  "parse_steps p its acc = Some steps \<Longrightarrow> plan_ok p acc \<Longrightarrow> length acc + length its \<le> ORCH_MAX_STEPS \<Longrightarrow> plan_ok p steps"
proof (induction its arbitrary: acc)
  case (Cons it its)
  obtain st where st: "parse_step p (length acc) it = Some st" "parse_steps p its (acc @ [st]) = Some steps"
    using Cons.prems(1) by (auto split: option.splits)
  have "plan_ok p (acc @ [st])"
    using Cons.prems(2,3) parse_step_ok [OF st(1)] by (auto simp: plan_ok_def nth_append less_Suc_eq)
  then show ?case
    using Cons.prems(3) by (intro Cons.IH [OF st(2)]) simp_all
qed simp

lemma parse_plan_ok: "parse_plan parse p raw = Some steps \<Longrightarrow> plan_ok p steps"
  by (auto simp: parse_plan_def plan_ok_def [of p "[]"] intro: parse_steps_ok split: option.splits json.splits if_splits)

lemma decompose_ok: "decompose_task env p task = Some steps \<Longrightarrow> plan_ok p steps"
  by (auto simp: decompose_task_def Let_def plan_ok_def [of p "[]"] split: option.splits if_splits prod.splits dest: parse_plan_ok)

lemma step_name_simp: "i < 4 \<Longrightarrow> step_name i = ''step'' @ nat_str (i + 1)"
  unfolding step_name_def by (rule cbuf_id) (use length_nat_str [of "i + 1" 0] in simp)

lemma step_name_inj: "i < 4 \<Longrightarrow> k < 4 \<Longrightarrow> step_name i = step_name k \<longleftrightarrow> i = k"
  by (simp add: step_name_simp)

lemma step_name_length: "i < 4 \<Longrightarrow> step_name i \<noteq> [] \<and> length (step_name i) < 64"
  using length_nat_str [of "i + 1" 0] by (simp add: step_name_simp)

definition step_node :: "plan_step list \<Rightarrow> nat \<Rightarrow> flow_node" where
  "step_node steps i =
     \<lparr>fn_id = step_name i, fn_agent = ps_agent (steps ! i), fn_task = ps_task (steps ! i), fn_layer = 0, fn_indeg = 0, fn_adj = []\<rparr>"

lemma parse_nodes_steps:
  assumes "plan_ok p steps" "\<forall>i\<in>set is. i < length steps"
  shows "parse_nodes (map (\<lambda>i. JObj [(''id'', JStr (step_name i)), (''agent'', JStr (ps_agent (steps ! i))),
      (''task'', JStr (ps_task (steps ! i)))]) is) d = Inr (d @ map (step_node steps) is)"
  using assms(2)
proof (induction "is" arbitrary: d)
  case (Cons i "is")
  have i: "i < length steps" "length steps \<le> 4"
    using Cons.prems assms(1) by (auto simp: plan_ok_def ORCH_MAX_STEPS_def)
  have "step_name i \<noteq> []" "length (step_name i) < 64" "ps_agent (steps ! i) \<noteq> []" "length (ps_agent (steps ! i)) < 64"
    "ps_task (steps ! i) \<noteq> []" "length (ps_task (steps ! i)) < FLOW_MAX_TASKLEN"
    using assms(1) i step_name_length [of i] by (auto simp: plan_ok_def FLOW_MAX_TASKLEN_def ORCH_MAX_TASKLEN_def)
  then show ?case
    using Cons by (simp add: json_nonempty_string.simps step_node_def)
qed simp

lemma add_edge_small:
  assumes "wf_dag d" "length d < FLOW_MAX_NODES" "a < length d" "a \<noteq> b"
  shows "\<exists>d'. flow_add_edge d a b = Inr d'"
proof -
  have "distinct (fn_adj (d ! a))" "set (fn_adj (d ! a)) \<subseteq> {..<length d}"
    using wf_dag_distinct [OF assms(1,3)] wf_dag_range [OF assms(1), of a] assms(3) by (auto simp: dag_edges_iff)
  then have "length (fn_adj (d ! a)) \<le> length d"
    using card_mono [of "{..<length d}" "set (fn_adj (d ! a))"] by (simp add: distinct_card)
  then show ?thesis
    using assms by (auto simp: flow_add_edge_def Let_def)
qed

lemma parse_edges_small:
  "wf_dag d \<Longrightarrow> length d < FLOW_MAX_NODES \<Longrightarrow>
   \<forall>je\<in>set js. \<exists>f t u v. edge_ends je = (Some f, Some t) \<and> flow_node_index d f = Some u \<and> flow_node_index d t = Some v \<and> u \<noteq> v \<Longrightarrow>
   \<exists>d'. parse_edges js d = Inr d'"
proof (induction js arbitrary: d)
  case (Cons je js)
  obtain f t u v where E: "edge_ends je = (Some f, Some t)" "flow_node_index d f = Some u" "flow_node_index d t = Some v" "u \<noteq> v"
    using Cons.prems(3) by auto
  have uv: "u < length d" "v < length d"
    using E(2,3) [THEN flow_node_index_Some] by simp_all
  obtain d1 where d1: "flow_add_edge d u v = Inr d1"
    using add_edge_small [OF Cons.prems(1,2) uv(1) E(4)] by blast
  have g: "wf_dag d1" "length d1 = length d" "flow_node_index d1 i = flow_node_index d i" for i
    using add_edge_grown [OF d1 uv Cons.prems(1)] by (auto simp: grown_def same_nodesD flow_node_index_same)
  have "\<exists>d'. parse_edges js d1 = Inr d'"
    using Cons.prems(2,3) by (intro Cons.IH) (auto simp: g)
  then show ?case
    by (simp add: E d1)
qed simp

lemma split_at_None: "needle \<noteq> [] \<Longrightarrow> \<not> str_contains needle t \<Longrightarrow> split_at needle t = None"
proof (induction t)
  case (Cons c cs)
  have "\<not> str_contains needle cs" "take (length needle) (c # cs) \<noteq> needle"
    using Cons.prems(2) by simp_all
  then show ?case
    using Cons by simp
qed simp

lemma parse_all_refs_none:
  "\<forall>i\<in>set is. split_at ''{{'' (fn_task (d ! i)) = None \<Longrightarrow> parse_all_refs is d = Inr d"
  by (induction "is") (simp_all add: parse_refs.simps)

definition plain_tasks :: "plan_step list \<Rightarrow> bool" where
  "plain_tasks steps \<longleftrightarrow> list_all (\<lambda>st. \<not> str_contains ''{{'' (ps_task st)) steps"

lemma step_edge_ends:
  "edge_ends (JObj [(''from'', JStr a), (''to'', JStr b)]) = (Some a, Some b)"
  by (simp add: edge_ends_def)

lemma dag_document_parses:
  assumes ok: "plan_ok p steps" "steps \<noteq> []" "plain_tasks steps" and parse: "parse doc = Some (dag_document steps)"
  shows "\<exists>d. flow_parse parse doc = Inr d \<and> length d = length steps
    \<and> dag_edges d = {(k, i). i < length steps \<and> k \<in> set (ps_after (steps ! i))}"
proof -
  let ?n = "length steps"
  let ?d0 = "map (step_node steps) [0..<?n]"
  let ?es = "concat (map (\<lambda>i. map (\<lambda>k. JObj [(''from'', JStr (step_name k)), (''to'', JStr (step_name i))]) (ps_after (steps ! i))) [0..<?n])"
  have n: "0 < ?n" "?n \<le> 4"
    using ok(1,2) by (auto simp: plan_ok_def ORCH_MAX_STEPS_def)
  have after: "k < i \<and> k < ?n" if "i < ?n" "k \<in> set (ps_after (steps ! i))" for i k
    using ok(1) that unfolding plan_ok_def by (metis less_trans)
  have nodes: "parse_nodes (json_items (json_get ''nodes'' (parse doc))) [] = Inr ?d0"
    using parse_nodes_steps [OF ok(1), of "[0..<?n]" "[]"] by (simp add: parse dag_document_def)
  have dist: "distinct (map fn_id ?d0)"
    using n by (auto simp: distinct_conv_nth step_node_def step_name_inj)
  have idx: "flow_node_index ?d0 (step_name i) = Some i" if "i < ?n" for i
    using that n by (simp add: flow_node_index_distinct [OF dist] step_node_def)
  have w0: "wf_dag ?d0" "dag_edges ?d0 = {}"
  proof -
    have f: "fn_adj nd = []" "fn_indeg nd = 0" if "nd \<in> set ?d0" for nd
      using that by (auto simp: step_node_def)
    show "dag_edges ?d0 = {}"
      by (auto simp: dag_edges_def step_node_def)
    then show "wf_dag ?d0"
      by (auto simp: wf_dag_def step_node_def)
  qed
  have "\<forall>je\<in>set ?es. \<exists>f t u v. edge_ends je = (Some f, Some t) \<and> flow_node_index ?d0 f = Some u \<and> flow_node_index ?d0 t = Some v \<and> u \<noteq> v"
  proof
    fix je
    assume "je \<in> set ?es"
    then obtain i k where ik: "i < ?n" "k \<in> set (ps_after (steps ! i))" "je = JObj [(''from'', JStr (step_name k)), (''to'', JStr (step_name i))]"
      by auto
    then show "\<exists>f t u v. edge_ends je = (Some f, Some t) \<and> flow_node_index ?d0 f = Some u \<and> flow_node_index ?d0 t = Some v \<and> u \<noteq> v"
      using after [OF ik(1,2)] idx step_edge_ends by blast
  qed
  moreover have "length ?d0 < FLOW_MAX_NODES"
    using n by (simp add: FLOW_MAX_NODES_def)
  ultimately obtain d where d: "parse_edges ?es ?d0 = Inr d"
    using parse_edges_small [OF w0(1)] by blast
  have g: "same_nodes ?d0 d" "length d = ?n"
    using parse_edges_grown [OF d w0(1)] by (auto simp: grown_def same_nodesD)
  have node: "fn_id (d ! i) = step_name i" "fn_task (d ! i) = ps_task (steps ! i)" if "i < ?n" for i
    using same_nodesD(3) [OF g(1), of i] that by (simp_all add: step_node_def)
  have noref: "split_at ''{{'' (fn_task (d ! i)) = None" if "i < ?n" for i
    using ok(3) that node(2) [OF that] by (simp add: plain_tasks_def list_all_length split_at_None)
  have "parse_all_refs [0..<length d] d = Inr d"
    using noref g(2) by (intro parse_all_refs_none) simp
  then have P: "flow_parse parse doc = Inr d"
    using nodes d n dist parse by (simp add: flow_parse_def Let_def dag_document_def FLOW_MAX_NODES_def duplicate_id_None [THEN iffD2])
  have tr: "task_refs (fn_task (d ! i)) = []" if "i < ?n" for i
    by (simp add: task_refs.simps [of "fn_task (d ! i)"] noref [OF that])
  have es: "json_items (json_get ''edges'' (parse doc)) = ?es"
    by (simp add: parse dag_document_def)
  have "dag_edges d = {(u, v). u < ?n \<and> v < ?n \<and> (\<exists>je\<in>set ?es. edge_ends je = (Some (step_name u), Some (step_name v)))}"
    unfolding flow_parse_spec(5) [OF P] g(2) es
    by (intro Collect_cong prod.case_cong refl) (use node tr in \<open>simp cong: conj_cong\<close>)
  moreover have "u < ?n \<and> v < ?n \<and> (\<exists>je\<in>set ?es. edge_ends je = (Some (step_name u), Some (step_name v)))
    \<longleftrightarrow> v < ?n \<and> u \<in> set (ps_after (steps ! v))" for u v
  proof
    assume "u < ?n \<and> v < ?n \<and> (\<exists>je\<in>set ?es. edge_ends je = (Some (step_name u), Some (step_name v)))"
    then obtain je where uv: "u < ?n" "v < ?n" "je \<in> set ?es" "edge_ends je = (Some (step_name u), Some (step_name v))"
      by blast
    then obtain i k where ik: "i < ?n" "k \<in> set (ps_after (steps ! i))" "je = JObj [(''from'', JStr (step_name k)), (''to'', JStr (step_name i))]"
      by auto
    then have "step_name k = step_name u" "step_name i = step_name v"
      using uv(4) by (simp_all add: step_edge_ends)
    then have "k = u" "i = v"
      using step_name_inj uv(1,2) ik(1) after [OF ik(1,2)] n by auto
    then show "v < ?n \<and> u \<in> set (ps_after (steps ! v))"
      using ik by simp
  next
    assume uv: "v < ?n \<and> u \<in> set (ps_after (steps ! v))"
    then have "JObj [(''from'', JStr (step_name u)), (''to'', JStr (step_name v))] \<in> set ?es"
      by auto
    then show "u < ?n \<and> v < ?n \<and> (\<exists>je\<in>set ?es. edge_ends je = (Some (step_name u), Some (step_name v)))"
      using after uv step_edge_ends by blast
  qed
  ultimately have "dag_edges d = {(k, i). i < ?n \<and> k \<in> set (ps_after (steps ! i))}"
    by (simp only:)
  then show ?thesis
    using P g(2) by blast
qed

text \<open>A plan that the model's reply yields compiles to a flow document whose dependencies are
  exactly the plan's, each on an earlier step, and which the flow compiler accepts.\<close>

theorem plan_compiles_acyclic:
  assumes "parse_plan parse p raw = Some steps" "steps \<noteq> []" "plain_tasks steps"
    and "parse2 (build_dag_json print steps) = Some (dag_document steps)" "build_dag_json print steps \<noteq> []"
  shows "flow_validate parse2 (Some (build_dag_json print steps)) = Some (Inr ())
    \<and> (\<exists>d. flow_parse parse2 (build_dag_json print steps) = Inr d
         \<and> dag_edges d = {(k, i). i < length steps \<and> k \<in> set (ps_after (steps ! i))} \<and> dag_edges d \<subseteq> less_than)"
proof -
  have ok: "plan_ok p steps"
    by (rule parse_plan_ok [OF assms(1)])
  obtain d where d: "flow_parse parse2 (build_dag_json print steps) = Inr d" "length d = length steps"
    "dag_edges d = {(k, i). i < length steps \<and> k \<in> set (ps_after (steps ! i))}"
    using dag_document_parses [where parse = parse2 and doc = "build_dag_json print steps", OF ok assms(2,3) assms(4)] by blast
  have less: "dag_edges d \<subseteq> less_than"
    using ok unfolding d(3) plan_ok_def by auto
  then have "acyclic (dag_edges d)"
    using wf_acyclic wf_less_than wf_subset by blast
  then have "flow_validate parse2 (Some (build_dag_json print steps)) = Some (Inr ())"
    using flow_layer_acyclic [OF flow_parse_spec(1) [OF d(1)]] d(1) assms(5)
    by (cases "build_dag_json print steps") (auto simp: flow_validate_text)
  then show ?thesis
    using d less by blast
qed


section \<open>Examples\<close>

lemma demo_registered: "is_registered demo_pool ''x''" "is_registered demo_pool ''y''"
proof -
  have "''x'' \<in> ae_name ` set (ap_agents demo_pool)" "''y'' \<in> ae_name ` set (ap_agents demo_pool)"
    using demo_pool_ok by (metis list.set_intros set_map)+
  then show "is_registered demo_pool ''x''" "is_registered demo_pool ''y''"
    using demo_pool_ok find_index_names
    by (auto simp: is_registered_def agent_pool_find_def pool_ok_find split: option.split)
qed

definition demo_plan :: json where
  "demo_plan =
     JArr [JObj [(''agent'', JStr ''x''), (''task'', JStr ''look'')],
           JObj [(''agent'', JStr ''y''), (''task'', JStr ''write'')]]"

definition demo_steps :: "plan_step list" where
  "demo_steps = [\<lparr>ps_agent = ''x'', ps_task = ''look'', ps_after = []\<rparr>, \<lparr>ps_agent = ''y'', ps_task = ''write'', ps_after = [0]\<rparr>]"

lemma demo_parse_plan: "parse t = Some demo_plan \<Longrightarrow> bracketed raw = Some t \<Longrightarrow> parse_plan parse demo_pool (Some raw) = Some demo_steps"
  by (simp add: parse_plan_def demo_plan_def demo_steps_def parse_step_def step_after_def demo_registered ORCH_MAX_STEPS_def
      ORCH_MAX_TASKLEN_def)

lemma bracketed_sample: "bracketed ''[p]'' = Some ''[p]''"
  by (simp add: bracketed_def)

theorem plan_compiles_acyclic_witness:
  "parse_plan (\<lambda>_. Some demo_plan) demo_pool (Some ''[p]'') = Some demo_steps
   \<and> flow_validate (\<lambda>_. Some (dag_document demo_steps)) (Some ''t'') = Some (Inr ())"
proof -
  have P: "parse_plan (\<lambda>_. Some demo_plan) demo_pool (Some ''[p]'') = Some demo_steps"
    by (rule demo_parse_plan [OF refl bracketed_sample])
  have "plain_tasks demo_steps" "demo_steps \<noteq> []"
    by (simp_all add: plain_tasks_def demo_steps_def)
  with P plan_compiles_acyclic [OF P, of "\<lambda>_. Some (dag_document demo_steps)" "\<lambda>_. ''t''"] show ?thesis
    by (simp add: build_dag_json_def)
qed





end
