(* ===== verification/CText.thy ===== *)
theory CText
  imports Util Complex_Main
begin

text \<open>
  How the C library reads and prints numbers, as far as the job file, the memory records and the context manager use it:
  \<open>sscanf("%d")\<close>, \<open>atoi\<close>, \<open>atoll\<close>, \<open>atof\<close> and \<open>printf("%.3f")\<close>. A double that is not a NaN or an infinity is the rational number
  it stands for; the rounding of a result to the nearest double is the parameter \<open>fl\<close>.
\<close>

section \<open>Integers\<close>

definition c_space :: "char \<Rightarrow> bool" where
  "c_space c \<longleftrightarrow> c \<in> set [CHR '' '', CHR 0x09, CHR 0x0A, CHR 0x0B, CHR 0x0C, CHR 0x0D]"

definition c_digit :: "char \<Rightarrow> bool" where
  "c_digit c \<longleftrightarrow> 48 \<le> byte c \<and> byte c \<le> 57"

definition digits_val :: "cstr \<Rightarrow> int" where
  "digits_val ds = foldl (\<lambda>n c. n * 10 + (int (byte c) - 48)) 0 ds"

definition c_sign :: "cstr \<Rightarrow> bool \<times> cstr" where
  "c_sign s =
     (case s of [] \<Rightarrow> (False, [])
      | c # cs \<Rightarrow> if c = CHR ''-'' then (True, cs) else if c = CHR ''+'' then (False, cs) else (False, s))"

definition neg_if :: "bool \<Rightarrow> 'a::uminus \<Rightarrow> 'a" where
  "neg_if b x = (if b then - x else x)"

text \<open>White space, sign, digits; the number and what follows it.\<close>

definition scan_int :: "cstr \<Rightarrow> (int \<times> cstr) option" where
  "scan_int s =
     (case c_sign (dropWhile c_space s) of
        (neg, r) \<Rightarrow>
          if takeWhile c_digit r = [] then None
          else Some (neg_if neg (digits_val (takeWhile c_digit r)), dropWhile c_digit r))"

text \<open>What a number outside the range \<open>lo..hi\<close> of the type becomes is left open by C: it is the parameter \<open>ov\<close>.\<close>

definition c_atoi :: "(int \<Rightarrow> int) \<Rightarrow> int \<Rightarrow> int \<Rightarrow> cstr \<Rightarrow> int" where
  "c_atoi ov lo hi s =
     (case scan_int s of None \<Rightarrow> 0 | Some (n, _) \<Rightarrow> if lo \<le> n \<and> n \<le> hi then n else ov n)"

definition INT_MIN :: int where "INT_MIN = - 2147483648"
definition INT_MAX :: int where "INT_MAX = 2147483647"
definition LLONG_MIN :: int where "LLONG_MIN = - 9223372036854775808"
definition LLONG_MAX :: int where "LLONG_MAX = 9223372036854775807"

lemmas int_limits = INT_MIN_def INT_MAX_def LLONG_MIN_def LLONG_MAX_def

section \<open>Doubles\<close>

text \<open>Rounding to an integer, ties to the even one, as the default rounding mode prescribes.\<close>

definition round_half_even :: "rat \<Rightarrow> int" where
  "round_half_even x =
     (let f = \<lfloor>x\<rfloor> in
      if 2 * (x - of_int f) < 1 then f
      else if 1 < 2 * (x - of_int f) then f + 1
      else if even f then f else f + 1)"

definition digit_char :: "nat \<Rightarrow> char" where
  "digit_char d = char_of (48 + d)"

text \<open>\<open>%.3f\<close>.\<close>

definition fmt3 :: "rat \<Rightarrow> cstr" where
  "fmt3 x =
     (let m = nat (round_half_even (\<bar>x\<bar> * 1000)) in
      (if x < 0 then ''-'' else []) @ nat_str (m div 1000) @ ''.'' @
      [digit_char (m div 100 mod 10), digit_char (m div 10 mod 10), digit_char (m mod 10)])"

definition round3 :: "rat \<Rightarrow> rat" where
  "round3 x = neg_if (x < 0) (of_int (round_half_even (\<bar>x\<bar> * 1000)) / 1000)"

text \<open>\<open>%.2f\<close> and \<open>%.4f\<close>, and in general a fixed number of decimals.\<close>

primrec pad_digits :: "nat \<Rightarrow> nat \<Rightarrow> cstr" where
  "pad_digits 0 n = []"
| "pad_digits (Suc d) n = pad_digits d (n div 10) @ [digit_char (n mod 10)]"

definition fmt_fixed :: "nat \<Rightarrow> rat \<Rightarrow> cstr" where
  "fmt_fixed d x =
     (let m = nat (round_half_even (\<bar>x\<bar> * 10 ^ d)) in
      (if x < 0 then ''-'' else []) @ nat_str (m div 10 ^ d) @ ''.'' @ pad_digits d m)"

text \<open>
  \<open>atof\<close>: white space, sign, digits with an optional point, an optional exponent. Hexadecimal numbers, infinities and
  NaNs are left to the parameter \<open>other\<close>.
\<close>

definition special_number :: "cstr \<Rightarrow> bool" where
  "special_number s \<longleftrightarrow>
     take 2 s \<in> set [''0x'', ''0X''] \<or> take 1 s \<in> set [''i'', ''I'', ''n'', ''N'']"

definition exponent :: "cstr \<Rightarrow> int" where
  "exponent s =
     (if take 1 s \<in> set [''e'', ''E'']
      then case c_sign (tl s) of (neg, r) \<Rightarrow> neg_if neg (digits_val (takeWhile c_digit r))
      else 0)"

definition c_atof :: "(rat \<Rightarrow> rat) \<Rightarrow> (cstr \<Rightarrow> rat) \<Rightarrow> cstr \<Rightarrow> rat" where
  "c_atof fl other s =
     (case c_sign (dropWhile c_space s) of
        (neg, r) \<Rightarrow>
          if special_number r then other s
          else let ip = takeWhile c_digit r;
                   r1 = dropWhile c_digit r;
                   fp = (if take 1 r1 = ''.'' then takeWhile c_digit (tl r1) else []);
                   r2 = (if take 1 r1 = ''.'' then dropWhile c_digit (tl r1) else r1)
               in if ip = [] \<and> fp = [] then 0
                  else fl (neg_if neg (of_int (digits_val (ip @ fp)) * 10 powi (exponent r2 - int (length fp)))))"

section \<open>Reading what was printed\<close>

lemma nat_str_nonempty [simp]: "nat_str n \<noteq> []"
  by (subst nat_str.simps) simp

lemma c_digit_nat_str: "c \<in> set (nat_str n) \<Longrightarrow> c_digit c"
  using nat_str_digits [of c n] by (simp add: c_digit_def)

lemma c_digit_not: "c_digit c \<Longrightarrow> \<not> c_space c \<and> c \<noteq> CHR ''-'' \<and> c \<noteq> CHR ''+'' \<and> c \<noteq> CHR ''.'' \<and> c \<noteq> CHR 0x0A"
  by (auto simp: c_digit_def c_space_def byte_def)

lemma byte_digit_char: "d < 10 \<Longrightarrow> byte (digit_char d) = 48 + d"
  by (simp add: byte_def digit_char_def)

lemma c_digit_char [simp]: "d < 10 \<Longrightarrow> c_digit (digit_char d)"
  by (simp add: c_digit_def byte_digit_char)

lemma digits_val_append: "digits_val (xs @ ys) = digits_val xs * 10 ^ length ys + digits_val ys"
proof (induction ys rule: rev_induct)
  case Nil
  then show ?case by (simp add: digits_val_def)
next
  case (snoc y ys)
  then show ?case by (simp add: digits_val_def algebra_simps flip: append_assoc)
qed

lemma digits_val_nat_str [simp]: "digits_val (nat_str n) = int n"
proof (induction n rule: nat_str.induct)
  case (1 n)
  show ?case
  proof (cases "n < 10")
    case True
    then show ?thesis by (subst nat_str.simps) (simp add: digits_val_def byte_def)
  next
    case False
    with 1 show ?thesis by (subst nat_str.simps) (simp add: digits_val_append, simp add: digits_val_def byte_def, presburger)
  qed
qed

lemma nat_str_split: "\<exists>c cs. nat_str n = c # cs \<and> c_digit c"
  using c_digit_nat_str [of _ n] by (cases "nat_str n") auto

lemma dropWhile_space_nat_str [simp]: "dropWhile c_space (nat_str n @ r) = nat_str n @ r"
  using nat_str_split [of n] c_digit_not by (auto simp: dropWhile_append)

lemma c_sign_nat_str [simp]: "c_sign (nat_str n @ r) = (False, nat_str n @ r)"
  using nat_str_split [of n] c_digit_not by (auto simp: c_sign_def)

lemma take_digits_nat_str [simp]:
  assumes "r = [] \<or> \<not> c_digit (hd r)"
  shows "takeWhile c_digit (nat_str n @ r) = nat_str n" "dropWhile c_digit (nat_str n @ r) = r"
proof -
  have a: "\<forall>c \<in> set (nat_str n). c_digit c" by (simp add: c_digit_nat_str)
  have "takeWhile c_digit r = []" "dropWhile c_digit r = r" using assms by (cases r; simp)+
  with a show "takeWhile c_digit (nat_str n @ r) = nat_str n" "dropWhile c_digit (nat_str n @ r) = r"
    by (simp_all add: takeWhile_append2 dropWhile_append2)
qed

lemma takeWhile_nat_str [simp]: "takeWhile c_digit (nat_str n) = nat_str n" "dropWhile c_digit (nat_str n) = []"
  using take_digits_nat_str [of "[]" n] by simp_all

lemma scan_int_str: "scan_int (int_str i) = Some (i, [])"
proof (cases "i < 0")
  case True
  then show ?thesis
    by (simp add: c_digit_nat_str int_str_def scan_int_def c_space_def c_sign_def neg_if_def)
next
  case False
  then show ?thesis
    using dropWhile_space_nat_str [of "nat i" "[]"] c_sign_nat_str [of "nat i" "[]"]
    by (simp add: int_str_def scan_int_def neg_if_def)
qed

lemma c_atoi_str [simp]: "lo \<le> i \<Longrightarrow> i \<le> hi \<Longrightarrow> c_atoi ov lo hi (int_str i) = i"
  by (simp add: c_atoi_def scan_int_str)

lemma round_half_even_nonneg: "0 \<le> x \<Longrightarrow> 0 \<le> round_half_even x"
  by (auto simp: round_half_even_def Let_def)

lemma atof_digits:
  assumes "m = a * 1000 + d1 * 100 + d2 * 10 + d3" "d1 < 10" "d2 < 10" "d3 < 10"
  shows "digits_val (nat_str a @ [digit_char d1, digit_char d2, digit_char d3]) = int m"
  using assms by (simp add: digits_val_append) (simp add: digits_val_def byte_digit_char algebra_simps)

lemma special_nat_str: "r = CHR ''.'' # r' \<Longrightarrow> \<not> special_number (nat_str n @ r)"
proof -
  assume r: "r = CHR ''.'' # r'"
  obtain c cs where c: "nat_str n = c # cs" "c_digit c" using nat_str_split by blast
  have d: "c \<noteq> CHR ''i''" "c \<noteq> CHR ''I''" "c \<noteq> CHR ''n''" "c \<noteq> CHR ''N''"
    using c(2) by (auto simp: c_digit_def byte_def)
  have "set cs \<subseteq> Collect c_digit" using c_digit_nat_str [of _ n] c(1) by auto
  then have "cs = [] \<or> hd cs \<noteq> CHR ''x'' \<and> hd cs \<noteq> CHR ''X''"
    by (cases cs) (auto simp: c_digit_def byte_def)
  with c(1) d r show ?thesis by (cases cs) (auto simp: special_number_def)
qed

theorem atof_fmt3: "c_atof fl other (fmt3 x) = fl (round3 x)"
proof -
  define m where "m = nat (round_half_even (\<bar>x\<bar> * 1000))"
  define fp where "fp = [digit_char (m div 100 mod 10), digit_char (m div 10 mod 10), digit_char (m mod 10)]"
  have dig: "takeWhile c_digit fp = fp" "dropWhile c_digit fp = []" unfolding fp_def by simp_all
  have m: "int m = round_half_even (\<bar>x\<bar> * 1000)" using round_half_even_nonneg [of "\<bar>x\<bar> * 1000"] by (simp add: m_def)
  have "m = m div 1000 * 1000 + m div 100 mod 10 * 100 + m div 10 mod 10 * 10 + m mod 10"
    using div_mult_mod_eq [of m 10] div_mult_mod_eq [of "m div 10" 10] div_mult_mod_eq [of "m div 100" 10]
      div_mult2_eq [of m 10 10, simplified] div_mult2_eq [of m 100 10, simplified] by linarith
  then have v: "digits_val (nat_str (m div 1000) @ fp) = int m" unfolding fp_def by (rule atof_digits) auto
  have e: "10 powi (exponent [] - int (length fp)) = (1 / 1000 :: rat)"
    by (simp add: exponent_def fp_def power_int_def power3_eq_cube)
  have t: "takeWhile c_digit (nat_str k @ ''.'' @ fp) = nat_str k" "dropWhile c_digit (nat_str k @ ''.'' @ fp) = ''.'' @ fp" for k
    by (rule take_digits_nat_str, simp add: c_digit_def byte_def)+
  have sp: "\<not> special_number (nat_str k @ ''.'' @ fp)" for k by (rule special_nat_str) simp
  have f: "fmt3 x = (if x < 0 then ''-'' else []) @ nat_str (m div 1000) @ ''.'' @ fp"
    by (simp add: fmt3_def Let_def m_def fp_def)
  have s: "c_sign (dropWhile c_space (fmt3 x)) = (x < 0, nat_str (m div 1000) @ ''.'' @ fp)"
    using dropWhile_space_nat_str [of "m div 1000" "''.'' @ fp"] c_sign_nat_str [of "m div 1000" "''.'' @ fp"]
    unfolding f by (cases "x < 0") (simp_all add: c_space_def c_sign_def)
  have "c_atof fl other (fmt3 x) = fl (neg_if (x < 0) (of_int (int m) * (1 / 1000)))"
    unfolding c_atof_def s prod.case Let_def t using sp by (simp add: dig v e)
  then show ?thesis unfolding m round3_def by simp
qed

end
