(* ===== verification/Cron.thy ===== *)
theory Cron
  imports SchedulerRun Json Fs CText
begin

text \<open>
  Scheduled tasks, \<open>src/backend/src/runtime/cron.c\<close>: the job table, the two kinds of schedule (every \<open>n\<close> seconds, daily
  at a local time), the tick that submits the due jobs to the scheduler, and the job file.

  A tick is one atomic operation, since it holds the manager's mutex throughout. What it reads from outside is an
  argument: the clock, the local calendar (\<open>localtime\<close> and \<open>mktime\<close>), and, for each job, what the scheduler's
  submission depends on. The text of the job file goes through the vendored JSON library, so its printer and parser are
  parameters; numbers are stored as doubles, exact up to \<open>2^53\<close>, and identifiers and times are taken to stay below.
\<close>

section \<open>State\<close>

definition CRON_NAME_MAX :: nat where "CRON_NAME_MAX = 64"
definition CRON_PROMPT_MAX :: nat where "CRON_PROMPT_MAX = 1024"
definition CRON_SESSION_MAX :: nat where "CRON_SESSION_MAX = 64"
definition CRON_AT_MAX :: nat where "CRON_AT_MAX = 8"
definition CRON_MAX_JOBS :: nat where "CRON_MAX_JOBS = 64"
definition CRON_DEFAULT_SESSION :: cstr where "CRON_DEFAULT_SESSION = ''cron''"

lemmas cron_limits = CRON_NAME_MAX_def CRON_PROMPT_MAX_def CRON_SESSION_MAX_def CRON_AT_MAX_def CRON_MAX_JOBS_def

record cron_job =
  j_id :: int
  j_name :: cstr
  j_prompt :: cstr
  j_session :: cstr
  every_sec :: int
  j_at :: cstr
  enabled :: bool
  last_run_ms :: int
  next_run_ms :: int
  last_id :: int

record cron_mgr =
  c_sched :: "sched option"
  c_path :: cstr
  jobs :: "cron_job list"
  c_next_id :: int
  c_stop :: bool
  c_tick :: bool

definition job_zero :: cron_job where
  "job_zero = \<lparr>j_id = 0, j_name = [], j_prompt = [], j_session = [], every_sec = 0, j_at = [], enabled = False,
     last_run_ms = 0, next_run_ms = 0, last_id = 0\<rparr>"

section \<open>The time of day\<close>

text \<open>
  \<open>sscanf(at, "%d:%d", &hh, &mm) == 2\<close>. Each \<open>%d\<close> skips white space, takes a sign and at least one digit. What a
  number outside the range of \<open>int\<close> becomes is left open by C: it is the parameter \<open>ov\<close>. What follows the second number
  is ignored.
\<close>

definition scan_d :: "(int \<Rightarrow> int) \<Rightarrow> cstr \<Rightarrow> (int \<times> cstr) option" where
  "scan_d ov s =
     (case scan_int s of
        None \<Rightarrow> None
      | Some (n, r) \<Rightarrow> Some (if INT_MIN \<le> n \<and> n \<le> INT_MAX then n else ov n, r))"

definition scan_hm :: "(int \<Rightarrow> int) \<Rightarrow> cstr \<Rightarrow> (int \<times> int) option" where
  "scan_hm ov s =
     (case scan_d ov s of
        Some (hh, CHR '':'' # r) \<Rightarrow> (case scan_d ov r of None \<Rightarrow> None | Some (mm, _) \<Rightarrow> Some (hh, mm))
      | _ \<Rightarrow> None)"

text \<open>The test that \<open>cron_add\<close> and \<open>daily_next_ms\<close> share.\<close>

definition at_time :: "(int \<Rightarrow> int) \<Rightarrow> cstr \<Rightarrow> (int \<times> int) option" where
  "at_time ov s =
     (case scan_hm ov s of
        None \<Rightarrow> None
      | Some (hh, mm) \<Rightarrow> if hh < 0 \<or> 23 < hh \<or> mm < 0 \<or> 59 < mm then None else Some (hh, mm))"

text \<open>
  The clock as \<open>daily_next_ms\<close> reads it: \<open>mktime\<close> of the current local day at a given hour and minute, in milliseconds,
  and \<open>time_now_ms()\<close>.
\<close>

record clock =
  local_ms :: "int \<Rightarrow> int \<Rightarrow> int"
  wall_ms :: int

definition daily_next_ms :: "(int \<Rightarrow> int) \<Rightarrow> clock \<Rightarrow> cstr \<Rightarrow> int" where
  "daily_next_ms ov k s =
     (case at_time ov s of
        None \<Rightarrow> 0
      | Some (hh, mm) \<Rightarrow>
          (let candidate = local_ms k hh mm
           in if candidate \<le> wall_ms k then candidate + 24 * 3600 * 1000 else candidate))"

definition job_schedule_next :: "(int \<Rightarrow> int) \<Rightarrow> clock \<Rightarrow> int \<Rightarrow> cron_job \<Rightarrow> cron_job" where
  "job_schedule_next ov k now j =
     (if 0 < every_sec j then j\<lparr>next_run_ms := now + every_sec j * 1000\<rparr>
      else j\<lparr>next_run_ms := daily_next_ms ov k (j_at j)\<rparr>)"

section \<open>The job file\<close>

definition job_json :: "cron_job \<Rightarrow> json" where
  "job_json j = JObj
     ([(''id'', JNum (of_int (j_id j))), (''name'', JStr (j_name j)), (''prompt'', JStr (j_prompt j)),
       (''session'', JStr (j_session j)), (''every_sec'', JNum (of_int (every_sec j)))]
      @ (if j_at j \<noteq> [] then [(''at'', JStr (j_at j))] else [])
      @ [(''enabled'', JBool (enabled j)), (''last_run_ms'', JNum (of_int (last_run_ms j))),
         (''next_run_ms'', JNum (of_int (next_run_ms j))), (''last_id'', JNum (of_int (last_id j)))])"

text \<open>
  Memory of a save: \<open>None\<close> when the array or the text cannot be allocated, else the number of objects that can be
  created before one fails.
\<close>

definition cron_save_locked :: "(json \<Rightarrow> cstr) \<Rightarrow> nat option \<Rightarrow> cron_mgr \<Rightarrow> fsys \<Rightarrow> fsys" where
  "cron_save_locked print mem c fs =
     (case mem of
        None \<Rightarrow> fs
      | Some k \<Rightarrow> snd (fs_write_file (c_path c) (print (JArr (map job_json (take k (jobs c))))) fs))"

text \<open>\<open>(long long)valuedouble\<close> and \<open>(int)valuedouble\<close>, for values in range.\<close>

definition trunc :: "rat \<Rightarrow> int" where
  "trunc r = (if 0 \<le> r then \<lfloor>r\<rfloor> else \<lceil>r\<rceil>)"

definition num_or :: "int \<Rightarrow> json option \<Rightarrow> int" where
  "num_or d j = (case json_num j of None \<Rightarrow> d | Some r \<Rightarrow> trunc r)"

definition str_field :: "nat \<Rightarrow> json option \<Rightarrow> cstr" where
  "str_field n j = (case json_string j of None \<Rightarrow> [] | Some s \<Rightarrow> cbuf n s)"

definition load_job :: "json \<Rightarrow> cron_job option" where
  "load_job it =
     (let it = Some it in
      case json_string (json_get ''prompt'' it) of
        None \<Rightarrow> None
      | Some pr \<Rightarrow>
          if pr = [] then None
          else Some \<lparr>j_id = num_or 0 (json_get ''id'' it),
                     j_name = str_field CRON_NAME_MAX (json_get ''name'' it),
                     j_prompt = cbuf CRON_PROMPT_MAX pr,
                     j_session = str_field CRON_SESSION_MAX (json_get ''session'' it),
                     every_sec = num_or 0 (json_get ''every_sec'' it),
                     j_at = str_field CRON_AT_MAX (json_get ''at'' it),
                     enabled = (case json_get ''enabled'' it of None \<Rightarrow> True | Some e \<Rightarrow> e = JBool True),
                     last_run_ms = 0, next_run_ms = 0,
                     last_id = num_or 0 (json_get ''last_id'' it)\<rparr>)"

text \<open>The loop over the array: stop when the table is full, skip an entry without a prompt.\<close>

fun load_jobs :: "json list \<Rightarrow> cron_mgr \<Rightarrow> cron_mgr" where
  "load_jobs [] c = c"
| "load_jobs (it # its) c =
     (if length (jobs c) = CRON_MAX_JOBS then c
      else case load_job it of
             None \<Rightarrow> load_jobs its c
           | Some j \<Rightarrow>
               load_jobs its (c\<lparr>jobs := jobs c @ [j],
                                c_next_id := (if c_next_id c \<le> j_id j then j_id j + 1 else c_next_id c)\<rparr>))"

definition cron_load :: "(cstr \<Rightarrow> json option) \<Rightarrow> bool \<Rightarrow> fsys \<Rightarrow> cron_mgr \<Rightarrow> cron_mgr" where
  "cron_load parse mem fs c =
     (case fs_read_file fs (c_path c) of
        None \<Rightarrow> c
      | Some b \<Rightarrow>
          if b = [] \<or> 512 * 1024 < length b \<or> \<not> mem then c
          else load_jobs (json_items (parse (c_string b))) c)"

section \<open>Ticks\<close>

text \<open>
  What the environment supplies to one job of a tick: the clock when the job is first scheduled and when it is
  rescheduled, and the memory, time and thread creations of its submission.
\<close>

record tick_env =
  e_first :: clock
  e_next :: clock
  e_mem :: submit_mem
  e_now :: int
  e_threads :: nat

definition job_session :: "cron_job \<Rightarrow> cstr" where
  "job_session j = cbuf CRON_SESSION_MAX (if j_session j \<noteq> [] then j_session j else CRON_DEFAULT_SESSION)"

text \<open>One iteration of the loop in \<open>cron_tick\<close>: whether the job was submitted, the scheduler and the job after.\<close>

definition tick_job ::
  "(int \<Rightarrow> int) \<Rightarrow> int \<Rightarrow> tick_env \<Rightarrow> sched option \<Rightarrow> cron_job \<Rightarrow> bool \<times> sched option \<times> cron_job" where
  "tick_job ov now e so j =
     (if \<not> enabled j then (False, so, j)
      else let j1 = (if next_run_ms j = 0 then job_schedule_next ov (e_first e) now j else j)
           in if now < next_run_ms j1 then (False, so, j1)
              else case so of
                     None \<Rightarrow> (True, None, job_schedule_next ov (e_next e) now (j1\<lparr>last_run_ms := now\<rparr>))
                   | Some s \<Rightarrow>
                       (case scheduler_submit_tag (e_mem e) (e_now e) (e_threads e) s 0 (Some (j_prompt j1)) 0
                               (Some (job_session j1)) of
                          (tid, s') \<Rightarrow>
                            if tid < 0 then (False, Some s', j1\<lparr>next_run_ms := now + 1000\<rparr>)
                            else (True, Some s',
                                  job_schedule_next ov (e_next e) now (j1\<lparr>last_id := tid, last_run_ms := now\<rparr>))))"

fun tick_jobs ::
  "(int \<Rightarrow> int) \<Rightarrow> int \<Rightarrow> (nat \<Rightarrow> tick_env) \<Rightarrow> nat \<Rightarrow> sched option \<Rightarrow> cron_job list \<Rightarrow>
    nat \<times> sched option \<times> cron_job list" where
  "tick_jobs ov now env i so [] = (0, so, [])"
| "tick_jobs ov now env i so (j # js) =
     (case tick_job ov now (env i) so j of
        (b, so', j') \<Rightarrow>
          (case tick_jobs ov now env (Suc i) so' js of
             (n, so'', js') \<Rightarrow> ((if b then Suc n else n), so'', j' # js')))"

definition cron_tick ::
  "(json \<Rightarrow> cstr) \<Rightarrow> (int \<Rightarrow> int) \<Rightarrow> int \<Rightarrow> (nat \<Rightarrow> tick_env) \<Rightarrow> nat option \<Rightarrow> cron_mgr \<Rightarrow> fsys \<Rightarrow>
    nat \<times> cron_mgr \<times> fsys" where
  "cron_tick print ov now env mem c fs =
     (case tick_jobs ov now env 0 (c_sched c) (jobs c) of
        (n, so, js) \<Rightarrow>
          (let c' = c\<lparr>c_sched := so, jobs := js\<rparr> in (n, c', cron_save_locked print mem c' fs)))"

section \<open>The other operations\<close>

definition cron_new ::
  "(cstr \<Rightarrow> json option) \<Rightarrow> bool \<Rightarrow> fsys \<Rightarrow> sched option \<Rightarrow> cstr option \<Rightarrow> cron_mgr" where
  "cron_new parse mem fs so state_root =
     cron_load parse mem fs
       \<lparr>c_sched = so, c_path = path_join 600 (Some (cbuf 512 (nonnull_or ''state'' state_root))) (Some ''cron.json''),
        jobs = [], c_next_id = 0, c_stop = False, c_tick = False\<rparr>"

definition cron_start :: "bool \<Rightarrow> cron_mgr \<Rightarrow> int \<times> cron_mgr" where
  "cron_start ok c = (if c_tick c then (-1, c) else if ok then (0, c\<lparr>c_tick := True\<rparr>) else (-1, c))"

definition cron_add ::
  "(json \<Rightarrow> cstr) \<Rightarrow> (int \<Rightarrow> int) \<Rightarrow> nat option \<Rightarrow> cron_mgr \<Rightarrow> fsys \<Rightarrow> cstr option \<Rightarrow> cstr option \<Rightarrow> cstr option \<Rightarrow>
    int \<Rightarrow> cstr option \<Rightarrow> int \<times> cron_mgr \<times> fsys" where
  "cron_add print ov mem c fs name prompt session every when =
     (if nonnull_or [] prompt = [] then (-1, c, fs)
      else if every \<le> 0 \<and> nonnull_or [] when = [] then (-1, c, fs)
      else if nonnull_or [] when \<noteq> [] \<and> at_time ov (nonnull_or [] when) = None then (-1, c, fs)
      else if length (jobs c) < CRON_MAX_JOBS
      then let j = \<lparr>j_id = c_next_id c, j_name = cbuf CRON_NAME_MAX (nonempty_or ''job'' name),
                    j_prompt = cbuf CRON_PROMPT_MAX (take (CRON_PROMPT_MAX - 1) (nonnull_or [] prompt)),
                    j_session = cbuf CRON_SESSION_MAX (nonempty_or CRON_DEFAULT_SESSION session),
                    every_sec = every, j_at = cbuf CRON_AT_MAX (nonnull_or [] when), enabled = True,
                    last_run_ms = 0, next_run_ms = 0, last_id = 0\<rparr>;
               c' = c\<lparr>jobs := jobs c @ [j], c_next_id := c_next_id c + 1\<rparr>
           in (j_id j, c', cron_save_locked print mem c' fs)
      else (-1, c, fs))"

definition job_index :: "int \<Rightarrow> cron_mgr \<Rightarrow> nat option" where
  "job_index i c = find_index (\<lambda>j. j_id j = i) (jobs c)"

definition cron_remove ::
  "(json \<Rightarrow> cstr) \<Rightarrow> nat option \<Rightarrow> cron_mgr \<Rightarrow> fsys \<Rightarrow> int \<Rightarrow> int \<times> cron_mgr \<times> fsys" where
  "cron_remove print mem c fs i =
     (case job_index i c of
        None \<Rightarrow> (-1, c, fs)
      | Some k \<Rightarrow> (let c' = c\<lparr>jobs := remove_at k (jobs c)\<rparr> in (0, c', cron_save_locked print mem c' fs)))"

definition cron_set_job :: "nat \<Rightarrow> (cron_job \<Rightarrow> cron_job) \<Rightarrow> cron_mgr \<Rightarrow> cron_mgr" where
  "cron_set_job k f c = c\<lparr>jobs := (jobs c)[k := f (jobs c ! k)]\<rparr>"

definition cron_rename ::
  "(json \<Rightarrow> cstr) \<Rightarrow> nat option \<Rightarrow> cron_mgr \<Rightarrow> fsys \<Rightarrow> int \<Rightarrow> cstr option \<Rightarrow> int \<times> cron_mgr \<times> fsys" where
  "cron_rename print mem c fs i name =
     (case name of
        None \<Rightarrow> (-2, c, fs)
      | Some n \<Rightarrow>
          if n = [] \<or> CRON_NAME_MAX \<le> length n then (-2, c, fs)
          else case job_index i c of
                 None \<Rightarrow> (-1, c, fs)
               | Some k \<Rightarrow>
                   (let c' = cron_set_job k (\<lambda>j. j\<lparr>j_name := cbuf CRON_NAME_MAX n\<rparr>) c
                    in (0, c', cron_save_locked print mem c' fs)))"

definition cron_set_enabled ::
  "(json \<Rightarrow> cstr) \<Rightarrow> nat option \<Rightarrow> cron_mgr \<Rightarrow> fsys \<Rightarrow> int \<Rightarrow> int \<Rightarrow> int \<times> cron_mgr \<times> fsys" where
  "cron_set_enabled print mem c fs i en =
     (case job_index i c of
        None \<Rightarrow> (-1, c, fs)
      | Some k \<Rightarrow>
          (let c' = cron_set_job k (\<lambda>j. j\<lparr>enabled := (en \<noteq> 0)\<rparr>) c in (0, c', cron_save_locked print mem c' fs)))"

text \<open>The document \<open>cron_json\<close> prints, \<open>k\<close> the number of objects that can be created.\<close>

definition cron_json :: "nat \<Rightarrow> cron_mgr \<Rightarrow> json" where
  "cron_json k c = JArr (map job_json (take k (jobs c)))"

section \<open>What a tick submits\<close>

definition due :: "(int \<Rightarrow> int) \<Rightarrow> int \<Rightarrow> tick_env \<Rightarrow> cron_job \<Rightarrow> bool" where
  "due ov now e j \<longleftrightarrow> enabled j \<and>
     next_run_ms (if next_run_ms j = 0 then job_schedule_next ov (e_first e) now j else j) \<le> now"

lemma job_schedule_next_fields [simp]:
  "j_id (job_schedule_next ov k now j) = j_id j" "j_name (job_schedule_next ov k now j) = j_name j"
  "j_prompt (job_schedule_next ov k now j) = j_prompt j" "j_session (job_schedule_next ov k now j) = j_session j"
  "every_sec (job_schedule_next ov k now j) = every_sec j" "j_at (job_schedule_next ov k now j) = j_at j"
  "enabled (job_schedule_next ov k now j) = enabled j" "last_run_ms (job_schedule_next ov k now j) = last_run_ms j"
  "last_id (job_schedule_next ov k now j) = last_id j"
  by (simp_all add: job_schedule_next_def)

lemma job_session_next [simp]: "job_session (job_schedule_next ov k now j) = job_session j"
  by (simp add: job_session_def)

text \<open>What a tick never changes of a job.\<close>

definition job_key :: "cron_job \<Rightarrow> int \<times> cstr \<times> cstr \<times> cstr \<times> int \<times> cstr \<times> bool" where
  "job_key j = (j_id j, j_name j, j_prompt j, j_session j, every_sec j, j_at j, enabled j)"

lemma tick_job_key: "tick_job ov now e so j = (b, so', j') \<Longrightarrow> job_key j' = job_key j"
  by (auto simp: tick_job_def Let_def job_key_def split: if_splits option.splits prod.splits)

lemma tick_jobs_keys: "tick_jobs ov now env i so js = (n, so', js') \<Longrightarrow> map job_key js' = map job_key js"
  by (induction js arbitrary: i so n so' js') (auto split: prod.splits dest: tick_job_key)




lemma reschedule [simp]:
  "job_schedule_next ov k now (job_schedule_next ov k' now' j\<lparr>last_id := i, last_run_ms := r\<rparr>) =
     job_schedule_next ov k now (j\<lparr>last_id := i, last_run_ms := r\<rparr>)"
  "job_schedule_next ov k' now' j\<lparr>next_run_ms := m\<rparr> = j\<lparr>next_run_ms := m\<rparr>"
  by (simp_all add: job_schedule_next_def)





section \<open>The manager as a transition system\<close>

text \<open>
  The steps: the operations, each with whatever the environment supplies, and what the rest of the runtime does to the
  scheduler in between.
\<close>

inductive cron_step :: "(json \<Rightarrow> cstr) \<Rightarrow> (int \<Rightarrow> int) \<Rightarrow> cron_mgr \<times> fsys \<Rightarrow> cron_mgr \<times> fsys \<Rightarrow> bool"
  for print ov where
  step_tick: "0 < now \<Longrightarrow> cron_tick print ov now env mem c fs = (n, c', fs') \<Longrightarrow> cron_step print ov (c, fs) (c', fs')"
| step_add: "cron_add print ov mem c fs name prompt session every when = (r, c', fs') \<Longrightarrow>
    cron_step print ov (c, fs) (c', fs')"
| step_remove: "cron_remove print mem c fs i = (r, c', fs') \<Longrightarrow> cron_step print ov (c, fs) (c', fs')"
| step_rename: "cron_rename print mem c fs i name = (r, c', fs') \<Longrightarrow> cron_step print ov (c, fs) (c', fs')"
| step_enable: "cron_set_enabled print mem c fs i en = (r, c', fs') \<Longrightarrow> cron_step print ov (c, fs) (c', fs')"
| step_start: "cron_start ok c = (r, c') \<Longrightarrow> cron_step print ov (c, fs) (c', fs)"
| step_sched: "cron_step print ov (c, fs) (c\<lparr>c_sched := so\<rparr>, fs)"

definition spaced :: "cron_job \<Rightarrow> bool" where
  "spaced j \<longleftrightarrow> 0 \<le> last_run_ms j \<and>
     (0 < every_sec j \<and> last_run_ms j \<noteq> 0 \<longrightarrow> last_run_ms j + every_sec j * 1000 \<le> next_run_ms j)"

definition job_ok :: "cron_job \<Rightarrow> bool" where
  "job_ok j \<longleftrightarrow> j_prompt j \<noteq> [] \<and> length (j_prompt j) < CRON_PROMPT_MAX \<and> length (j_name j) < CRON_NAME_MAX \<and>
     length (j_session j) < CRON_SESSION_MAX \<and> length (j_at j) < CRON_AT_MAX \<and> spaced j"

definition cron_ok :: "cron_mgr \<Rightarrow> bool" where
  "cron_ok c \<longleftrightarrow> length (jobs c) \<le> CRON_MAX_JOBS \<and> (\<forall>j \<in> set (jobs c). job_ok j \<and> j_id j < c_next_id c)"

lemma cron_okD:
  "cron_ok c \<Longrightarrow> length (jobs c) \<le> CRON_MAX_JOBS"
  "cron_ok c \<Longrightarrow> j \<in> set (jobs c) \<Longrightarrow> job_ok j"
  "cron_ok c \<Longrightarrow> j \<in> set (jobs c) \<Longrightarrow> j_id j < c_next_id c"
  by (auto simp: cron_ok_def)

lemma tick_job_spaced:
  assumes "tick_job ov now e so j = (b, so', j')" "spaced j" "0 < now"
  shows "spaced j'"
    and "last_run_ms j' = last_run_ms j \<and> last_id j' = last_id j \<or>
         last_run_ms j' = now \<and> (0 < every_sec j \<and> last_run_ms j \<noteq> 0 \<longrightarrow> last_run_ms j + every_sec j * 1000 \<le> now)"
  using assms
  by (auto simp: tick_job_def job_schedule_next_def spaced_def Let_def split: if_splits option.splits prod.splits)

lemma tick_jobs_each:
  "tick_jobs ov now env i so js = (n, so', js') \<Longrightarrow> k < length js \<Longrightarrow>
   \<exists>so1 so2 b. tick_job ov now (env (i + k)) so1 (js ! k) = (b, so2, js' ! k)"
proof (induction js arbitrary: i so n so' js' k)
  case (Cons j js)
  then obtain b so1 j' m so2 js2 where t: "tick_job ov now (env i) so j = (b, so1, j')"
    "tick_jobs ov now env (Suc i) so1 js = (m, so2, js2)" "js' = j' # js2"
    by (auto split: prod.splits)
  show ?case
  proof (cases k)
    case 0
    with t show ?thesis by auto
  next
    case (Suc l)
    with Cons.IH [OF t(2), of l] Cons.prems(2) t(3) show ?thesis by simp
  qed
qed simp

lemma cron_tick_each:
  assumes "cron_tick print ov now env mem c fs = (n, c', fs')" "k < length (jobs c)"
  shows "\<exists>so1 so2 b. tick_job ov now (env k) so1 (jobs c ! k) = (b, so2, jobs c' ! k)"
  using tick_jobs_each [of ov now env 0 "c_sched c" "jobs c"] assms
  by (auto simp: cron_tick_def Let_def split: prod.splits)

lemma cron_tick_frame:
  assumes "cron_tick print ov now env mem c fs = (n, c', fs')"
  shows "length (jobs c') = length (jobs c)" "c_path c' = c_path c" "c_next_id c' = c_next_id c"
    "map job_key (jobs c') = map job_key (jobs c)"
proof -
  obtain so js where t: "tick_jobs ov now env 0 (c_sched c) (jobs c) = (n, so, js)" "c' = c\<lparr>c_sched := so, jobs := js\<rparr>"
    using assms by (auto simp: cron_tick_def Let_def split: prod.splits)
  show "map job_key (jobs c') = map job_key (jobs c)" using tick_jobs_keys [OF t(1)] t(2) by simp
  then show "length (jobs c') = length (jobs c)" by (metis length_map)
  show "c_path c' = c_path c" "c_next_id c' = c_next_id c" using t(2) by simp_all
qed

lemma cron_ok_tick:
  assumes "cron_ok c" "cron_tick print ov now env mem c fs = (n, c', fs')" "0 < now"
  shows "cron_ok c'"
proof -
  note f = cron_tick_frame [OF assms(2)]
  have "job_ok (jobs c' ! k) \<and> j_id (jobs c' ! k) < c_next_id c'" if k: "k < length (jobs c)" for k
  proof -
    have j: "job_ok (jobs c ! k)" "j_id (jobs c ! k) < c_next_id c" using cron_okD(2,3) [OF assms(1) nth_mem [OF k]] by auto
    obtain so1 so2 b where t: "tick_job ov now (env k) so1 (jobs c ! k) = (b, so2, jobs c' ! k)"
      using cron_tick_each [OF assms(2) k] by blast
    have "spaced (jobs c' ! k)" using tick_job_spaced(1) [OF t _ assms(3)] j(1) by (simp add: job_ok_def)
    with j tick_job_key [OF t] f(3) show ?thesis by (simp add: job_ok_def job_key_def)
  qed
  then show ?thesis using f(1) cron_okD(1) [OF assms(1)] by (auto simp: cron_ok_def in_set_conv_nth)
qed

lemma cron_ok_set:
  assumes "cron_ok c" "k < length (jobs c)" "job_ok (f (jobs c ! k))" "j_id (f (jobs c ! k)) = j_id (jobs c ! k)"
  shows "cron_ok (cron_set_job k f c)"
  using assms cron_okD(3) [OF assms(1) nth_mem [OF assms(2)]]
  by (auto simp: cron_ok_def cron_set_job_def dest!: set_update_subset_insert [THEN subsetD])

lemma cron_ok_extend:
  assumes "cron_ok c" "length (jobs c) < CRON_MAX_JOBS" "job_ok j"
  shows "cron_ok (c\<lparr>jobs := jobs c @ [j], c_next_id := (if c_next_id c \<le> j_id j then j_id j + 1 else c_next_id c)\<rparr>)"
  using assms(2,3) cron_okD(2,3) [OF assms(1)] by (force simp: cron_ok_def)

lemma cron_ok_append:
  "cron_ok c \<Longrightarrow> length (jobs c) < CRON_MAX_JOBS \<Longrightarrow> job_ok j \<Longrightarrow> j_id j = c_next_id c \<Longrightarrow>
   cron_ok (c\<lparr>jobs := jobs c @ [j], c_next_id := c_next_id c + 1\<rparr>)"
  using cron_ok_extend [of c j] by simp

lemma cron_ok_remove: "cron_ok c \<Longrightarrow> k < length (jobs c) \<Longrightarrow> cron_ok (c\<lparr>jobs := remove_at k (jobs c)\<rparr>)"
  using subsetD [OF set_remove_at_subset [of k "jobs c"]] by (auto simp: cron_ok_def length_remove_at)

lemma job_ok_updates:
  "job_ok j \<Longrightarrow> job_ok (j\<lparr>enabled := b\<rparr>)"
  "job_ok j \<Longrightarrow> job_ok (j\<lparr>j_name := cbuf CRON_NAME_MAX n\<rparr>)"
  by (auto simp: job_ok_def spaced_def cron_limits length_cbuf)

lemma cron_set_job_path [simp]: "c_path (cron_set_job k f c) = c_path c"
  by (simp add: cron_set_job_def)

lemma job_indexD: "job_index i c = Some k \<Longrightarrow> k < length (jobs c) \<and> j_id (jobs c ! k) = i"
  by (auto simp: job_index_def dest: find_index_SomeD)

lemma cron_ok_step:
  assumes "cron_ok c" "cron_step print ov (c, fs) (c', fs')"
  shows "cron_ok c' \<and> c_path c' = c_path c"
  using assms(2)
proof (cases rule: cron_step.cases)
  case step_tick
  then show ?thesis using cron_ok_tick [OF assms(1)] cron_tick_frame by auto
next
  case step_add
  then show ?thesis
    using assms(1)
    by (auto simp: cron_add_def Let_def job_ok_def spaced_def cron_limits cbuf_def split: if_splits
        intro!: cron_ok_append [unfolded cron_limits])
next
  case step_remove
  then show ?thesis
    using assms(1)
    by (auto simp: cron_remove_def Let_def intro!: cron_ok_remove dest!: job_indexD split: option.splits)
next
  case step_rename
  then show ?thesis
    using assms(1)
    by (auto simp: cron_rename_def Let_def job_ok_updates cron_okD(2) intro!: cron_ok_set dest!: job_indexD
        split: option.splits if_splits)
next
  case step_enable
  then show ?thesis
    using assms(1) 
    by (auto simp: cron_set_enabled_def Let_def job_ok_updates cron_okD(2) intro!: cron_ok_set dest!: job_indexD
        split: option.splits)
next
  case step_start
  then show ?thesis using assms(1) by (auto simp: cron_start_def cron_ok_def split: if_splits)
next
  case step_sched
  then show ?thesis using assms(1) by (auto simp: cron_ok_def)
qed


section \<open>Starting from the job file\<close>

lemma load_jobs_path [simp]: "c_path (load_jobs its c) = c_path c"
  by (induction its c rule: load_jobs.induct) (auto split: option.split)

lemma load_job_ok: "load_job it = Some j \<Longrightarrow> job_ok j \<and> last_run_ms j = 0 \<and> next_run_ms j = 0"
  by (auto simp: load_job_def job_ok_def spaced_def str_field_def Let_def cron_limits cbuf_def
      split: option.splits if_splits)

lemma cron_ok_load_jobs: "cron_ok c \<Longrightarrow> cron_ok (load_jobs its c)"
proof (induction its c rule: load_jobs.induct)
  case (2 it its c)
  have len: "length (jobs c) < CRON_MAX_JOBS" if "length (jobs c) \<noteq> CRON_MAX_JOBS"
    using cron_okD(1) [OF 2(3)] that by simp
  show ?case
  proof (cases "load_job it")
    case None
    with 2 show ?thesis by simp
  next
    case (Some j)
    show ?thesis
    proof (cases "length (jobs c) = CRON_MAX_JOBS")
      case True
      with 2(3) show ?thesis by simp
    next
      case False
      from 2(2) [OF False Some cron_ok_extend [OF 2(3) len [OF False]]] load_job_ok [OF Some] False Some
      show ?thesis by simp
    qed
  qed
qed simp

definition cron_path :: "cstr option \<Rightarrow> cstr" where
  "cron_path state_root = path_join 600 (Some (cbuf 512 (nonnull_or ''state'' state_root))) (Some ''cron.json'')"

lemma cron_ok_new: "cron_ok (cron_new parse mem fs so r) \<and> c_path (cron_new parse mem fs so r) = cron_path r"
  by (auto simp: cron_new_def cron_load_def cron_path_def cron_ok_def split: option.split
      intro!: cron_ok_load_jobs [unfolded cron_ok_def])

definition cron_start_state :: "cstr option \<Rightarrow> cron_mgr \<times> fsys \<Rightarrow> bool" where
  "cron_start_state r cf \<longleftrightarrow> (\<exists>parse mem fs so. fst cf = cron_new parse mem fs so r)"

interpretation cron_sys: invariant_system "cron_start_state r" "cron_step print ov"
    "\<lambda>cf. cron_ok (fst cf) \<and> c_path (fst cf) = cron_path r" for r print ov
proof unfold_locales
  fix cf assume "cron_start_state r cf"
  then show "cron_ok (fst cf) \<and> c_path (fst cf) = cron_path r" using cron_ok_new by (auto simp: cron_start_state_def)
next
  fix cf dg assume "cron_ok (fst cf) \<and> c_path (fst cf) = cron_path r" "cron_step print ov cf dg"
  then show "cron_ok (fst dg) \<and> c_path (fst dg) = cron_path r"
    using cron_ok_step by (cases cf; cases dg) fastforce
qed

text \<open>C14: whatever is done to the manager, from the file it loads at the start onwards, two
  submissions of an interval job are at least its interval apart: a tick leaves the last run and the last task id of
  the job alone, or the interval has passed since the run before.\<close>

theorem cron_interval_spacing:
  assumes "cron_start_state r cf0" "(cron_step print ov)\<^sup>*\<^sup>* cf0 (c, fs)"
    and "0 < now" "cron_tick print ov now env mem c fs = (n, c', fs')"
    and "k < length (jobs c)" "0 < every_sec (jobs c ! k)" "last_run_ms (jobs c ! k) \<noteq> 0"
  shows "last_run_ms (jobs c' ! k) = last_run_ms (jobs c ! k) \<and> last_id (jobs c' ! k) = last_id (jobs c ! k) \<or>
     last_run_ms (jobs c' ! k) = now \<and> last_run_ms (jobs c ! k) + every_sec (jobs c ! k) * 1000 \<le> now"
proof -
  have "cron_ok c" using cron_sys.inv_reachable [OF assms(1,2)] by simp
  then have "spaced (jobs c ! k)" using cron_okD(2) nth_mem [OF assms(5)] by (auto simp: job_ok_def)
  with cron_tick_each [OF assms(4,5)] tick_job_spaced(2) [OF _ _ assms(3)] assms(6,7) show ?thesis by blast
qed

section \<open>Restart\<close>

lemma load_job_json:
  assumes "job_ok j"
  shows "load_job (job_json j) = Some (j\<lparr>last_run_ms := 0, next_run_ms := 0\<rparr>)"
  using assms
  by (auto simp: load_job_def job_json_def job_ok_def num_or_def trunc_def str_field_def cbuf_id)

lemma load_jobs_json:
  "\<forall>j \<in> set js. job_ok j \<Longrightarrow> length (jobs c) + length js \<le> CRON_MAX_JOBS \<Longrightarrow>
   jobs (load_jobs (map job_json js) c) = jobs c @ map (\<lambda>j. j\<lparr>last_run_ms := 0, next_run_ms := 0\<rparr>) js"
  by (induction js arbitrary: c) (auto simp: load_job_json)

text \<open>C15: after a save that was written, a manager started on the same directory has the same jobs in the
  same order, with their ids, schedules and last task ids, not run yet and to be scheduled afresh; an id it gives next
  is none of theirs.\<close>

theorem cron_restart:
  assumes "cron_start_state r cf0" "(cron_step print ov)\<^sup>*\<^sup>* cf0 (c, fs)"
    and "fs' = cron_save_locked print (Some (length (jobs c))) c fs"
    and "cron_path r \<notin> set (denied fs)" "\<not> fs_is_dir fs (cron_path r)"
    and "\<forall>b. fs_get fs (cron_path r) \<noteq> Some (File b False)"
    and "parse (c_string (print (JArr (map job_json (jobs c))))) = Some (JArr (map job_json (jobs c)))"
    and "length (print (JArr (map job_json (jobs c)))) \<in> {1..512 * 1024}"
  shows "jobs (cron_new parse True fs' so r) = map (\<lambda>j. j\<lparr>last_run_ms := 0, next_run_ms := 0\<rparr>) (jobs c) \<and>
    (\<forall>j \<in> set (jobs c). j_id j < c_next_id (cron_new parse True fs' so r))"
proof -
  have ok: "cron_ok c" "c_path c = cron_path r" using cron_sys.inv_reachable [OF assms(1,2)] by simp_all
  have "fs_get fs' (cron_path r) = Some (File (print (JArr (map job_json (jobs c)))) True)"
    using assms(3-6) ok(2)
    by (auto simp: cron_save_locked_def fs_write_get split: option.split node.split)
  then have rd: "fs_read_file fs' (cron_path r) = Some (print (JArr (map job_json (jobs c))))"
    by (simp add: fs_read_file_def)
  have j: "\<forall>j \<in> set (jobs c). job_ok j" using cron_okD(2) [OF ok(1)] by blast
  have g: "jobs (cron_new parse True fs' so r) = map (\<lambda>j. j\<lparr>last_run_ms := 0, next_run_ms := 0\<rparr>) (jobs c)"
    using rd assms(7,8) cron_okD(1) [OF ok(1)]
    by (auto simp: cron_new_def cron_load_def load_jobs_json [OF j] simp flip: cron_path_def)
  moreover have "\<forall>j \<in> set (jobs c). j_id j < c_next_id (cron_new parse True fs' so r)"
  proof
    fix j assume "j \<in> set (jobs c)"
    then have "j\<lparr>last_run_ms := 0, next_run_ms := 0\<rparr> \<in> set (jobs (cron_new parse True fs' so r))" unfolding g by simp
    from cron_okD(3) [OF conjunct1 [OF cron_ok_new] this]
    show "j_id j < c_next_id (cron_new parse True fs' so r)" by simp
  qed
  ultimately show ?thesis by blast
qed


section \<open>The time of day, closer\<close>

lemma cbuf_at: "cbuf CRON_AT_MAX ''00000008:30'' = ''0000000''"
  by (simp add: cbuf_def CRON_AT_MAX_def)

lemmas scan_defs = at_time_def scan_hm_def scan_d_def scan_int_def c_sign_def neg_if_def c_space_def c_digit_def digits_val_def
  byte_def int_limits Let_def

text \<open>A daily job's next run is strictly in the future unless today's time is a whole day back, which a local day of
  25 hours allows.\<close>

lemma daily_next_future_iff:
  "at_time ov s = Some (hh, mm) \<Longrightarrow>
   wall_ms k < daily_next_ms ov k s \<longleftrightarrow> wall_ms k < local_ms k hh mm + 24 * 3600 * 1000"
  by (auto simp: daily_next_ms_def Let_def)

text \<open>A time of day that is accepted but longer than seven bytes is stored cut off; here it no
  longer parses, and the daily job it belongs to is due at every tick: each submission puts it back to the state in
  which it is due.\<close>

theorem cron_truncated_time:
  assumes "length (jobs c) < CRON_MAX_JOBS" "prompt \<noteq> []"
    and "cron_add print ov mem c fs name (Some prompt) session 0 (Some ''00000008:30'') = (i, c', fs')"
  shows "i = c_next_id c \<and> at_time ov ''00000008:30'' = Some (8, 30) \<and>
    (\<exists>j. jobs c' = jobs c @ [j] \<and>
      (\<forall>now e l t. 0 \<le> now \<longrightarrow>
         due ov now e (j\<lparr>last_run_ms := l, last_id := t\<rparr>) \<and>
         (\<forall>k. job_schedule_next ov k now (j\<lparr>last_run_ms := l, last_id := t\<rparr>) = j\<lparr>last_run_ms := l, last_id := t\<rparr>)))"
proof -
  have a: "at_time ov ''00000008:30'' = Some (8, 30)" by (simp add: scan_defs)
  have b: "daily_next_ms ov k ''0000000'' = 0" for k by (simp add: daily_next_ms_def scan_defs)
  show ?thesis
    using assms a by (auto simp: cron_add_def nonnull_or_def cbuf_at Let_def due_def job_schedule_next_def b)
qed

section \<open>Witnesses\<close>

definition demo_cron :: cron_mgr where
  "demo_cron = cron_new (\<lambda>_. None) True \<lparr>nodes = [], denied = []\<rparr> None (Some ''s'')"

definition demo_clock :: clock where
  "demo_clock = \<lparr>local_ms = (\<lambda>hh mm. (hh * 60 + mm) * 60000), wall_ms = 20000\<rparr>"

definition demo_tick_env :: "nat \<Rightarrow> tick_env" where
  "demo_tick_env _ = \<lparr>e_first = demo_clock, e_next = demo_clock,
     e_mem = \<lparr>ok_task = True, ok_dup = True, ok_all = True, ok_queue = True\<rparr>, e_now = 1, e_threads = 1\<rparr>"

definition demo_cron_job :: cron_job where
  "demo_cron_job = job_zero\<lparr>j_name := ''n'', j_prompt := ''p'', j_session := ''cron'', every_sec := 5, enabled := True\<rparr>"

lemma demo_cron_start [simp]: "cron_start_state (Some ''s'') (demo_cron, fs)"
  by (auto simp: cron_start_state_def demo_cron_def)

lemma demo_cron_eq:
  "demo_cron = \<lparr>c_sched = None, c_path = cron_path (Some ''s''), jobs = [], c_next_id = 0, c_stop = False, c_tick = False\<rparr>"
  by (simp add: demo_cron_def cron_new_def cron_load_def fs_read_file_def fs_get_def cron_path_def)

definition demo_cron_fs :: fsys where
  "demo_cron_fs = \<lparr>nodes = [], denied = []\<rparr>"

text \<open>Added, first scheduled at 1, run at 9000.\<close>

lemma demo_cron_run:
  "(cron_step print ov)\<^sup>*\<^sup>* (demo_cron, demo_cron_fs)
     (demo_cron\<lparr>jobs := [demo_cron_job\<lparr>last_run_ms := 9000, next_run_ms := 14000\<rparr>], c_next_id := 1\<rparr>, demo_cron_fs)"
proof -
  have "cron_step print ov (demo_cron, demo_cron_fs) (demo_cron\<lparr>jobs := [demo_cron_job], c_next_id := 1\<rparr>, demo_cron_fs)"
    by (rule step_add [of print ov None _ _ "Some ''n''" "Some ''p''" None 5 None 0])
      (simp add: cron_add_def demo_cron_eq demo_cron_job_def job_zero_def nonnull_or_def nonempty_or_def cron_limits
        CRON_DEFAULT_SESSION_def cbuf_def cron_save_locked_def)
  moreover have "cron_step print ov (demo_cron\<lparr>jobs := [demo_cron_job], c_next_id := 1\<rparr>, demo_cron_fs)
      (demo_cron\<lparr>jobs := [demo_cron_job\<lparr>next_run_ms := 5001\<rparr>], c_next_id := 1\<rparr>, demo_cron_fs)"
    by (rule step_tick [of 1 print ov demo_tick_env None _ _ 0])
      (simp_all add: cron_tick_def demo_cron_eq demo_cron_job_def job_zero_def tick_job_def job_schedule_next_def
        cron_save_locked_def)
  moreover have "cron_step print ov (demo_cron\<lparr>jobs := [demo_cron_job\<lparr>next_run_ms := 5001\<rparr>], c_next_id := 1\<rparr>, demo_cron_fs)
      (demo_cron\<lparr>jobs := [demo_cron_job\<lparr>last_run_ms := 9000, next_run_ms := 14000\<rparr>], c_next_id := 1\<rparr>, demo_cron_fs)"
    by (rule step_tick [of 9000 print ov demo_tick_env None _ _ 1])
      (simp_all add: cron_tick_def demo_cron_eq demo_cron_job_def job_zero_def tick_job_def job_schedule_next_def
        cron_save_locked_def)
  ultimately show ?thesis by (meson converse_rtranclp_into_rtranclp rtranclp.rtrancl_refl)
qed




lemma cron_interval_spacing_witness:
  "\<exists>n c' fs'. cron_tick (\<lambda>_. []) (\<lambda>_. 0) 15000 demo_tick_env None
       (demo_cron\<lparr>jobs := [demo_cron_job\<lparr>last_run_ms := 9000, next_run_ms := 14000\<rparr>], c_next_id := 1\<rparr>) demo_cron_fs = (n, c', fs') \<and>
     (last_run_ms (jobs c' ! 0) = 9000 \<and> last_id (jobs c' ! 0) = 0 \<or> last_run_ms (jobs c' ! 0) = 15000 \<and> 9000 + 5 * 1000 \<le> (15000::int))"
proof -
  obtain n c' fs' where t: "cron_tick (\<lambda>_. []) (\<lambda>_. 0) 15000 demo_tick_env None
       (demo_cron\<lparr>jobs := [demo_cron_job\<lparr>last_run_ms := 9000, next_run_ms := 14000\<rparr>], c_next_id := 1\<rparr>) demo_cron_fs = (n, c', fs')"
    by (metis prod_cases3)
  from cron_interval_spacing [OF demo_cron_start demo_cron_run _ t, of 0] t show ?thesis
    by (auto simp: demo_cron_job_def job_zero_def)
qed

lemma cron_restart_witness:
  "\<exists>parse fs'. jobs (cron_new parse True fs' None (Some ''s'')) = [demo_cron_job]"
proof -
  let ?c = "demo_cron\<lparr>jobs := [demo_cron_job\<lparr>last_run_ms := 9000, next_run_ms := 14000\<rparr>], c_next_id := 1\<rparr>"
  have "\<not> fs_is_dir demo_cron_fs p" "p \<notin> set (denied demo_cron_fs)" "\<forall>b. fs_get demo_cron_fs p \<noteq> Some (File b False)" for p
    by (simp_all add: demo_cron_fs_def fs_is_dir_def fs_get_def)
  then have "jobs (cron_new (\<lambda>_. Some (JArr (map job_json (jobs ?c)))) True
      (cron_save_locked (\<lambda>_. ''x'') (Some (length (jobs ?c))) ?c demo_cron_fs) None (Some ''s'')) =
      map (\<lambda>j. j\<lparr>last_run_ms := 0, next_run_ms := 0\<rparr>) (jobs ?c)"
    using cron_restart [OF demo_cron_start demo_cron_run [of "\<lambda>_. ''x''" "\<lambda>_. 0"] refl,
        of "\<lambda>_. Some (JArr (map job_json (jobs ?c)))" None] by simp
  also have "\<dots> = [demo_cron_job]" by (simp add: demo_cron_job_def job_zero_def)
  finally show ?thesis by blast
qed

lemma cron_truncated_time_witness:
  "\<exists>i c' fs' j. cron_add (\<lambda>_. []) (\<lambda>_. 0) None demo_cron demo_cron_fs None (Some ''p'') None 0 (Some ''00000008:30'') = (i, c', fs') \<and>
     jobs c' = [j] \<and> due (\<lambda>_. 0) 5 (demo_tick_env 0) j"
proof -
  obtain i c' fs' where t: "cron_add (\<lambda>_. []) (\<lambda>_. 0) None demo_cron demo_cron_fs None (Some ''p'') None 0
      (Some ''00000008:30'') = (i, c', fs')" by (metis prod_cases3)
  have "length (jobs demo_cron) < CRON_MAX_JOBS" by (simp add: demo_cron_eq CRON_MAX_JOBS_def)
  from cron_truncated_time [OF this _ t] obtain j where j: "jobs c' = [j]"
    and d: "\<forall>now e l t. 0 \<le> now \<longrightarrow> due (\<lambda>_. 0) now e (j\<lparr>last_run_ms := l, last_id := t\<rparr>)"
    by (auto simp: demo_cron_eq)
  have "due (\<lambda>_. 0) 5 (demo_tick_env 0) (j\<lparr>last_run_ms := last_run_ms j, last_id := last_id j\<rparr>)"
    by (rule d [rule_format]) simp
  moreover have "j\<lparr>last_run_ms := last_run_ms j, last_id := last_id j\<rparr> = j" by (cases j) simp
  ultimately show ?thesis using j t by auto
qed

end
