(* ===== verification/VectorStore.thy ===== *)
theory VectorStore
  imports KvStore CText
begin

text \<open>
  The vector store, \<open>src/backend/src/memory/vector.c\<close>: entries under an id, replaced in place, and the selection of the \<open>k\<close>
  best ones for a query. The embedding of a text and the two similarity scores come from a provider that may be a remote
  service: they are parameters. Scores are finite floats, read as rationals; \<open>fl\<close> rounds to the nearest one. An operation
  is one critical section of the store's mutex.
\<close>

section \<open>The entries\<close>

record 'e vec_entry =
  v_text :: cstr
  v_meta :: cstr
  v_vec :: 'e

type_synonym 'e vectorstore = "'e vec_entry kvs"

definition vectorstore_new :: "'e vectorstore" where
  "vectorstore_new = vec_new"

text \<open>\<open>dup\<close>: the three strings can be copied; \<open>grow\<close>: the array can grow.\<close>

definition vectorstore_add ::
  "(cstr \<Rightarrow> 'e) \<Rightarrow> bool \<Rightarrow> bool \<Rightarrow> 'e vectorstore \<Rightarrow> cstr \<Rightarrow> cstr \<Rightarrow> cstr option \<Rightarrow> int \<times> 'e vectorstore" where
  "vectorstore_add emb dup grow v i t meta =
     (if \<not> dup then (-1, v)
      else case kv_upsert grow i \<lparr>v_text = t, v_meta = nonnull_or [] meta, v_vec = emb t\<rparr> v of
             None \<Rightarrow> (-1, v)
           | Some v' \<Rightarrow> (0, v'))"

definition vectorstore_remove :: "'e vectorstore \<Rightarrow> cstr \<Rightarrow> int \<times> 'e vectorstore" where
  "vectorstore_remove v i = (case kv_delete i v of (f, v') \<Rightarrow> (if f then 1 else 0, v'))"

definition vectorstore_count :: "'e vectorstore \<Rightarrow> nat" where
  "vectorstore_count v = length (elems v)"

text \<open>The loop of \<open>vectorstore_remove_prefix\<close> at index \<open>i\<close>.\<close>

function remove_prefix_loop :: "cstr \<Rightarrow> nat \<Rightarrow> (cstr \<times> 'v) list \<Rightarrow> nat \<Rightarrow> nat \<times> (cstr \<times> 'v) list" where
  "remove_prefix_loop p i xs removed =
     (if length xs \<le> i then (removed, xs)
      else if take (length p) (fst (xs ! i)) \<noteq> p then remove_prefix_loop p (Suc i) xs removed
      else remove_prefix_loop p i (remove_at i xs) (Suc removed))"
  by pat_completeness auto
termination by (relation "measure (\<lambda>(p, i, xs, r). length xs - i)") (auto simp: length_remove_at)

declare remove_prefix_loop.simps [simp del]

definition vectorstore_remove_prefix :: "'e vectorstore \<Rightarrow> cstr \<Rightarrow> int \<times> 'e vectorstore" where
  "vectorstore_remove_prefix v p =
     (if p = [] then (-1, v)
      else case remove_prefix_loop p 0 (elems v) 0 of (n, xs) \<Rightarrow> (int n, v\<lparr>elems := xs\<rparr>))"

section \<open>Selection of the best\<close>

text \<open>\<open>while (pos > 0 && top_score[pos - 1] < s) pos--;\<close>\<close>

primrec shift_pos :: "(nat \<times> rat) list \<Rightarrow> rat \<Rightarrow> nat \<Rightarrow> nat" where
  "shift_pos tops s 0 = 0"
| "shift_pos tops s (Suc p) = (if snd (tops ! p) < s then shift_pos tops s p else Suc p)"

text \<open>
  One candidate of \<open>topk_json\<close>; \<open>tops\<close> is the filled part of the two arrays, and the loop that moves the entries up and the
  store at \<open>pos\<close> are the insertion, which drops what no longer fits.
\<close>

definition topk_step :: "nat \<Rightarrow> nat \<times> rat \<Rightarrow> (nat \<times> rat) list \<Rightarrow> (nat \<times> rat) list" where
  "topk_step k c tops =
     (if k \<le> length tops \<and> snd c \<le> snd (tops ! (length tops - 1)) then tops
      else let pos = shift_pos tops (snd c) (if length tops < k then length tops else k - 1);
               n = (if length tops < k then Suc (length tops) else length tops)
           in take n (take pos tops @ c # drop pos tops))"

definition topk :: "nat \<Rightarrow> rat list \<Rightarrow> (nat \<times> rat) list" where
  "topk k scores = fold (topk_step k) (enumerate 0 scores) []"

definition entry_json :: "'e vectorstore \<Rightarrow> nat \<times> rat \<Rightarrow> json" where
  "entry_json v c =
     (case elems v ! fst c of
        (i, e) \<Rightarrow> JObj [(''id'', JStr i), (''text'', JStr (v_text e)), (''meta'', JStr (v_meta e)), (''score'', JNum (snd c))])"

text \<open>\<open>None\<close>: the text \<open>"[]"\<close>, answered when an allocation fails or nothing is asked for.\<close>

definition topk_json :: "bool \<Rightarrow> 'e vectorstore \<Rightarrow> rat list \<Rightarrow> int \<Rightarrow> json option" where
  "topk_json ok v scores k =
     (if k \<le> 0 \<or> \<not> ok then None else Some (JArr (map (entry_json v) (topk (nat k) scores))))"

text \<open>
  \<open>vectorstore_nearest\<close> has its own loop, with arrays of \<open>max 1 k\<close> elements. \<open>None\<close> is a store outside of them.
\<close>

definition nearest_step :: "int \<Rightarrow> nat \<times> rat \<Rightarrow> (nat \<times> rat) list option \<Rightarrow> (nat \<times> rat) list option" where
  "nearest_step k c acc =
     (case acc of
        None \<Rightarrow> None
      | Some tops \<Rightarrow>
          if 0 < k \<and> k \<le> int (length tops) \<and> snd c \<le> snd (tops ! (length tops - 1)) then Some tops
          else let pos = shift_pos tops (snd c) (length tops);
                   n = (if 0 < k \<and> int (length tops) = k then length tops else Suc (length tops))
               in if max 1 k < int n then None
                  else if pos < n then Some (take n (take pos tops @ c # drop pos tops)) else Some tops)"

definition nearest_top :: "int \<Rightarrow> rat list \<Rightarrow> (nat \<times> rat) list option" where
  "nearest_top k scores = fold (nearest_step k) (enumerate 0 scores) (Some [])"

text \<open>Outside: a store out of bounds; inside: the text \<open>"[]"\<close>, answered when the arrays cannot be allocated.\<close>

definition vectorstore_nearest ::
  "(cstr \<Rightarrow> 'e) \<Rightarrow> ('e \<Rightarrow> 'e \<Rightarrow> rat) \<Rightarrow> bool \<Rightarrow> 'e vectorstore \<Rightarrow> cstr \<Rightarrow> int \<Rightarrow> json option option" where
  "vectorstore_nearest emb cosine ok v query k =
     (if \<not> ok then Some None
      else map_option (\<lambda>tops. Some (JArr (map (entry_json v) tops)))
             (nearest_top k (map (\<lambda>(_, e). cosine (emb query) (v_vec e)) (elems v))))"

text \<open>\<open>score_all\<close>; the constant 0.999 is the float nearest to it.\<close>

definition score_all ::
  "(rat \<Rightarrow> rat) \<Rightarrow> (cstr \<Rightarrow> 'e) \<Rightarrow> ('e \<Rightarrow> 'e \<Rightarrow> rat) \<Rightarrow> (cstr \<Rightarrow> cstr \<Rightarrow> rat) \<Rightarrow> 'e vectorstore \<Rightarrow> cstr \<Rightarrow> rat \<Rightarrow> rat list" where
  "score_all fl emb cosine keyword v query w =
     map (\<lambda>(_, e).
       (let cos = cosine (emb query) (v_vec e);
            s = fl (w * (if cos < 0 then 0 else cos))
        in if w < fl (999 / 1000) then fl (s + fl (fl (1 - w) * keyword query (v_text e))) else s)) (elems v)"

definition clamp_w :: "rat \<Rightarrow> rat" where
  "clamp_w w = (let w1 = (if w < 0 then 0 else w) in if 1 < w1 then 1 else w1)"

definition vectorstore_nearest_hybrid ::
  "(rat \<Rightarrow> rat) \<Rightarrow> (cstr \<Rightarrow> 'e) \<Rightarrow> ('e \<Rightarrow> 'e \<Rightarrow> rat) \<Rightarrow> (cstr \<Rightarrow> cstr \<Rightarrow> rat) \<Rightarrow> bool \<Rightarrow> 'e vectorstore \<Rightarrow> cstr option \<Rightarrow>
    int \<Rightarrow> rat \<Rightarrow> json option" where
  "vectorstore_nearest_hybrid fl emb cosine keyword ok v query k w =
     (case query of
        None \<Rightarrow> None
      | Some q \<Rightarrow>
          if k \<le> 0 \<or> elems v = [] \<or> \<not> ok then None
          else topk_json ok v (score_all fl emb cosine keyword v q (clamp_w w)) k)"

text \<open>
  Several queries: each entry keeps its best score over them, from 0 on. A query that is empty, or for which no memory
  is left, is skipped; \<open>qs\<close> holds each query with the outcome of its allocation.
\<close>

definition best_scores ::
  "(rat \<Rightarrow> rat) \<Rightarrow> (cstr \<Rightarrow> 'e) \<Rightarrow> ('e \<Rightarrow> 'e \<Rightarrow> rat) \<Rightarrow> (cstr \<Rightarrow> cstr \<Rightarrow> rat) \<Rightarrow> 'e vectorstore \<Rightarrow> (cstr option \<times> bool) list \<Rightarrow>
    rat list" where
  "best_scores fl emb cosine keyword v qs =
     foldl (\<lambda>best (q, ok).
        if nonnull_or [] q = [] \<or> \<not> ok then best
        else map2 (\<lambda>b s. if b < s then s else b) best (score_all fl emb cosine keyword v (nonnull_or [] q) 1))
      (replicate (length (elems v)) 0) qs"

definition vectorstore_nearest_multi ::
  "(rat \<Rightarrow> rat) \<Rightarrow> (cstr \<Rightarrow> 'e) \<Rightarrow> ('e \<Rightarrow> 'e \<Rightarrow> rat) \<Rightarrow> (cstr \<Rightarrow> cstr \<Rightarrow> rat) \<Rightarrow> bool \<Rightarrow> 'e vectorstore \<Rightarrow>
    (cstr option \<times> bool) list \<Rightarrow> int \<Rightarrow> json option" where
  "vectorstore_nearest_multi fl emb cosine keyword ok v qs k =
     (if qs = [] \<or> k \<le> 0 \<or> elems v = [] \<or> \<not> ok then None
      else topk_json ok v (best_scores fl emb cosine keyword v qs) k)"

section \<open>The store as a map\<close>

definition vec_put :: "(cstr \<Rightarrow> 'e) \<Rightarrow> cstr \<Rightarrow> cstr \<times> cstr \<Rightarrow> 'e vectorstore \<Rightarrow> 'e vectorstore" where
  "vec_put emb i tm v = snd (vectorstore_add emb True True v i (fst tm) (Some (snd tm)))"

definition vec_del :: "cstr \<Rightarrow> 'e vectorstore \<Rightarrow> 'e vectorstore" where
  "vec_del i v = snd (vectorstore_remove v i)"

definition vec_get :: "'e vectorstore \<Rightarrow> cstr \<Rightarrow> (cstr \<times> cstr) option" where
  "vec_get v i = map_option (\<lambda>e. (v_text e, v_meta e)) (kv_lookup v i)"

lemma vec_put_kv: "vec_put emb i (t, m) v = kv_put i \<lparr>v_text = t, v_meta = m, v_vec = emb t\<rparr> v"
  by (simp add: vec_put_def vectorstore_add_def kv_put_def nonnull_or_def split: option.split)

lemma vec_del_kv: "vec_del i v = kv_drop i v"
  by (simp add: vec_del_def vectorstore_remove_def kv_drop_def split: prod.split)

interpretation vstore: keyed_store vec_get "vec_put emb" vec_del kv_ok for emb :: "cstr \<Rightarrow> 'e"
proof
  fix s :: "'e vectorstore" and k and v :: "cstr \<times> cstr"
  assume ok: "kv_ok s"
  show "vec_get (vec_put emb k v s) = (vec_get s)(k \<mapsto> v)"
    by (cases v) (auto simp: vec_get_def vec_put_kv kv.get_put [OF ok] fun_eq_iff)
  show "vec_get (vec_del k s) = (vec_get s)(k := None)"
    by (auto simp: vec_get_def vec_del_kv kv.get_del [OF ok] fun_eq_iff)
  show "kv_ok (vec_put emb k v s)" by (cases v) (simp add: vec_put_kv kv.inv_put [OF ok])
  show "kv_ok (vec_del k s)" by (simp add: vec_del_kv kv.inv_del [OF ok])
qed

lemma remove_prefix_loop_filter:
  "i \<le> length xs \<Longrightarrow> remove_prefix_loop p i xs r =
     (r + length (filter (\<lambda>e. take (length p) (fst e) = p) (drop i xs)),
      take i xs @ filter (\<lambda>e. take (length p) (fst e) \<noteq> p) (drop i xs))"
proof (induction p i xs r rule: remove_prefix_loop.induct)
  case (1 p i xs r)
  show ?case
  proof (cases "i < length xs")
    case False
    with 1(3) show ?thesis by (subst remove_prefix_loop.simps) simp
  next
    case True
    then have d: "drop i xs = xs ! i # drop (Suc i) xs" by (simp add: Cons_nth_drop_Suc)
    show ?thesis
    proof (cases "take (length p) (fst (xs ! i)) = p")
      case False
      from 1(1) [OF _ False] True d False show ?thesis
        by (subst remove_prefix_loop.simps) (simp add: take_Suc_conv_app_nth)
    next
      case True': True
      have "take i (remove_at i xs) = take i xs" "drop i (remove_at i xs) = drop (Suc i) xs"
        using True by (simp_all add: remove_at_def)
      with 1(2) True True' d show ?thesis
        by (subst remove_prefix_loop.simps) (simp add: length_remove_at)
    qed
  qed
qed

lemma map_of_filter_fst:
  "map_of (filter (\<lambda>e. take (length p) (fst e) \<noteq> p) xs) i = (if take (length p) i = p then None else map_of xs i)"
  by (induction xs) auto

lemma remove_prefix_get:
  assumes "kv_ok v" "p \<noteq> []" "vectorstore_remove_prefix v p = (n, v')"
  shows "kv_ok v' \<and> vec_get v' = (\<lambda>i. if take (length p) i = p then None else vec_get v i)"
proof -
  have e: "v' = v\<lparr>elems := filter (\<lambda>e. take (length p) (fst e) \<noteq> p) (elems v)\<rparr>"
    using assms(2,3) by (simp add: vectorstore_remove_prefix_def remove_prefix_loop_filter)
  show ?thesis
    using assms(1) unfolding e
    by (auto simp: kv_ok_def vec_ok_def vec_get_def kv_lookup_map_of distinct_map_filter map_of_filter_fst fun_eq_iff
        intro: le_trans [OF length_filter_le])
qed


section \<open>The selection is a sort\<close>

abbreviation by_score :: "nat \<times> rat \<Rightarrow> rat" where
  "by_score c \<equiv> - snd c"

abbreviation ranked :: "(nat \<times> rat) list \<Rightarrow> (nat \<times> rat) list" where
  "ranked cs \<equiv> sort_key by_score cs"

text \<open>Behind the entries that are at least as good.\<close>

definition insert_ranked :: "nat \<times> rat \<Rightarrow> (nat \<times> rat) list \<Rightarrow> (nat \<times> rat) list" where
  "insert_ranked c cs = filter (\<lambda>x. snd c \<le> snd x) cs @ c # filter (\<lambda>x. \<not> snd c \<le> snd x) cs"

lemma ranked_snoc: "ranked (cs @ [c]) = insert_ranked c (ranked cs)"
proof (rule properties_for_sort_key)
  show "mset (insert_ranked c (ranked cs)) = mset (cs @ [c])"
    by (simp add: insert_ranked_def flip: multiset_partition)
  show "filter (\<lambda>x. by_score k = by_score x) (insert_ranked c (ranked cs)) =
      filter (\<lambda>x. by_score k = by_score x) (cs @ [c])" for k
  proof -
    have e: "filter (\<lambda>x. by_score k = by_score x) (ranked cs) = filter (\<lambda>x. by_score k = by_score x) cs"
      using sort_key_stable [of by_score "by_score k" cs] by (simp add: eq_commute)
    have "filter (\<lambda>x. by_score k = by_score x \<and> snd c \<le> snd x) (ranked cs) =
        (if snd c \<le> snd k then filter (\<lambda>x. by_score k = by_score x) (ranked cs) else [])"
      "filter (\<lambda>x. by_score k = by_score x \<and> \<not> snd c \<le> snd x) (ranked cs) =
        (if snd c \<le> snd k then [] else filter (\<lambda>x. by_score k = by_score x) (ranked cs))"
      by (auto intro!: filter_cong simp: filter_empty_conv)
    then show ?thesis using e by (auto simp: insert_ranked_def conj_commute)
  qed
  show "sorted (map by_score (insert_ranked c (ranked cs)))"
    by (auto simp: insert_ranked_def sorted_append sorted_filter)
qed

lemma shift_pos_ranked:
  assumes "sorted (map by_score cs)" "p \<le> length cs" "\<forall>x \<in> set (drop p cs). snd x < s"
  shows "take (shift_pos cs s p) cs = filter (\<lambda>x. s \<le> snd x) cs \<and>
     drop (shift_pos cs s p) cs = filter (\<lambda>x. \<not> s \<le> snd x) cs"
  using assms(2,3)
proof (induction p)
  case 0
  then have "filter (\<lambda>x. s \<le> snd x) cs = []" "filter (\<lambda>x. \<not> s \<le> snd x) cs = cs"
    by (auto simp: filter_empty_conv filter_id_conv)
  then show ?case by simp
next
  case (Suc p)
  have d: "drop p cs = cs ! p # drop (Suc p) cs" using Suc.prems(1) by (simp add: Cons_nth_drop_Suc)
  show ?case
  proof (cases "snd (cs ! p) < s")
    case True
    with Suc d show ?thesis by simp
  next
    case False
    have "\<forall>x \<in> set (take (Suc p) cs). s \<le> snd x"
    proof
      fix x assume "x \<in> set (take (Suc p) cs)"
      then obtain i where "i \<le> p" "x = cs ! i" using Suc.prems(1) by (auto simp: in_set_conv_nth less_Suc_eq_le)
      with assms(1) Suc.prems(1) False show "s \<le> snd x"
        using sorted_nth_mono [of "map by_score cs" i p] by simp
    qed
    then have "filter (\<lambda>x. s \<le> snd x) (take (Suc p) cs @ drop (Suc p) cs) = take (Suc p) cs"
      "filter (\<lambda>x. \<not> s \<le> snd x) (take (Suc p) cs @ drop (Suc p) cs) = drop (Suc p) cs"
      unfolding filter_append using Suc.prems(2) by (force simp: filter_empty_conv filter_id_conv)+
    with False show ?thesis by simp
  qed
qed


lemma length_insert_ranked: "length (insert_ranked c cs) = Suc (length cs)"
  using sum_length_filter_compl [of "\<lambda>x. snd c \<le> snd x" cs] by (simp add: insert_ranked_def)

lemma take_insert_ranked:
  assumes "sorted (map by_score cs)"
  shows "take k (insert_ranked c (take k cs)) = take k (insert_ranked c cs)"
proof -
  let ?A = "filter (\<lambda>x. snd c \<le> snd x) cs" and ?B = "filter (\<lambda>x. \<not> snd c \<le> snd x) cs"
  have cs: "cs = ?A @ ?B"
    using shift_pos_ranked [OF assms, of "length cs" "snd c"] by (metis append_take_drop_id drop_all empty_iff le_refl list.set(1))
  have k: "take k cs = take k ?A @ take (k - length ?A) ?B" by (subst cs) simp
  have "insert_ranked c (take k ?A @ take (k - length ?A) ?B) = take k ?A @ c # take (k - length ?A) ?B"
  proof -
    have "filter (\<lambda>x. snd c \<le> snd x) (take k ?A) = take k ?A" "filter (\<lambda>x. \<not> snd c \<le> snd x) (take k ?A) = []"
      "filter (\<lambda>x. snd c \<le> snd x) (take (k - length ?A) ?B) = []"
      "filter (\<lambda>x. \<not> snd c \<le> snd x) (take (k - length ?A) ?B) = take (k - length ?A) ?B"
      by (auto simp: filter_id_conv filter_empty_conv dest: in_set_takeD)
    then show ?thesis by (simp add: insert_ranked_def)
  qed
  then show ?thesis
    unfolding k by (cases "k \<le> length ?A") (auto simp: insert_ranked_def take_Cons' min_def)
qed

lemma topk_step_ranked:
  assumes "sorted (map by_score cs)" "length cs \<le> k" "0 < k"
  shows "topk_step k c cs = take k (insert_ranked c cs)"
proof (cases "length cs < k")
  case True
  then have "topk_step k c cs = take (Suc (length cs)) (insert_ranked c cs)"
    using shift_pos_ranked [OF assms(1), of "length cs" "snd c"]
      length_insert_ranked [of c cs, unfolded insert_ranked_def]
    by (simp add: topk_step_def insert_ranked_def del: take_append)
  with True show ?thesis by (simp add: length_insert_ranked)
next
  case False
  then have len: "length cs = k" using assms(2) by simp
  define l where "l = cs ! (k - 1)"
  have cs: "cs = take (k - 1) cs @ [l]" using len assms(3) by (simp add: l_def flip: take_Suc_conv_app_nth)
  have d: "drop (k - 1) cs = [l]" using cs len by (metis append_eq_conv_conj diff_le_self length_take min.absorb2)
  show ?thesis
  proof (cases "snd c \<le> snd l")
    case True
    have "snd l \<le> snd (cs ! i)" if "i < k" for i
      using assms(1) that len sorted_nth_mono [of "map by_score cs" i "k - 1"] by (simp add: l_def)
    then have "\<forall>x \<in> set cs. snd l \<le> snd x" using len by (metis in_set_conv_nth)
    with True have "filter (\<lambda>x. snd c \<le> snd x) cs = cs" by (force simp: filter_id_conv)
    with True len show ?thesis by (simp add: topk_step_def insert_ranked_def l_def)
  next
    case False
    with shift_pos_ranked [OF assms(1), of "k - 1" "snd c"] d len show ?thesis
      by (simp add: topk_step_def insert_ranked_def l_def Let_def del: take_append)
  qed
qed


lemma topk_fold:
  "0 < k \<Longrightarrow> fold (topk_step k) cs [] = take k (ranked cs)"
proof (induction cs rule: rev_induct)
  case (snoc c cs)
  have "sorted (map by_score (take k (ranked cs)))" by (simp add: sorted_wrt_take flip: take_map)
  with snoc topk_step_ranked [of "take k (ranked cs)" k c] show ?case
    by (simp add: take_insert_ranked ranked_snoc)
qed simp

text \<open>C21: the entries a hybrid query answers are the first \<open>k\<close> of all entries sorted by descending score,
  the older one first among equals.\<close>

theorem vector_topk_sorted:
  assumes "0 < k" "elems v \<noteq> []"
  shows "vectorstore_nearest_hybrid fl emb cosine keyword True v (Some q) k w =
     Some (JArr (map (entry_json v)
       (take (nat k) (sort_key (\<lambda>c. - snd c) (enumerate 0 (score_all fl emb cosine keyword v q (clamp_w w)))))))"
  using assms topk_fold [of "nat k"] by (simp add: vectorstore_nearest_hybrid_def topk_json_def topk_def)

lemma vector_topk_sorted_witness:
  "vectorstore_nearest_hybrid (\<lambda>x. x) (\<lambda>_. ()) (\<lambda>_ _. 1) (\<lambda>_ _. 0) True
     (vec_put (\<lambda>_. ()) ''b'' (''y'', []) (vec_put (\<lambda>_. ()) ''a'' (''x'', []) vectorstore_new)) (Some ''q'') 1 1 =
   Some (JArr [JObj [(''id'', JStr ''a''), (''text'', JStr ''x''), (''meta'', JStr []), (''score'', JNum 1)]])"
proof -
  let ?v = "vec_put (\<lambda>_. ()) ''b'' (''y'', []) (vec_put (\<lambda>_. ()) ''a'' (''x'', []) vectorstore_new)"
  have e: "elems ?v = [(''a'', \<lparr>v_text = ''x'', v_meta = [], v_vec = ()\<rparr>), (''b'', \<lparr>v_text = ''y'', v_meta = [], v_vec = ()\<rparr>)]"
    by code_simp
  then have "elems ?v \<noteq> []" by simp
  from vector_topk_sorted [OF _ this, of 1 "\<lambda>x. x" "\<lambda>_. ()" "\<lambda>_ _. 1" "\<lambda>_ _. 0" "''q''" 1] show ?thesis
    by (simp add: e score_all_def clamp_w_def entry_json_def)
qed

text \<open>
  The loop of \<open>vectorstore_nearest\<close> selects the same for a positive \<open>k\<close>; for \<open>k\<close> zero or negative it stores outside its
  arrays as soon as there are two entries.
\<close>

lemma shift_pos_le: "shift_pos tops s p \<le> p"
  by (induction p) auto

lemma nearest_step_topk:
  assumes "0 < k" "length tops \<le> nat k"
  shows "nearest_step k c (Some tops) = Some (topk_step (nat k) c tops)"
proof (cases "length tops = nat k")
  case True
  then obtain p where p: "length tops = Suc p" using assms(1) by (cases "nat k") auto
  have k: "k = int (Suc p)" using True p assms(1) by simp
  have [simp]: "nat (1 + int p) = Suc p" by simp
  show ?thesis
    unfolding k using p shift_pos_le [of tops "snd c" p]
    by (auto simp: nearest_step_def topk_step_def Let_def not_le simp del: take_append)
next
  case False
  then have l: "length tops < nat k" "\<not> k \<le> int (length tops)" using assms by auto
  show ?thesis
    using l assms(1) shift_pos_le [of tops "snd c" "length tops"]
    by (auto simp: nearest_step_def topk_step_def Let_def)
qed

lemma length_topk_step: "length tops \<le> k \<Longrightarrow> length (topk_step k c tops) \<le> k"
  by (auto simp: topk_step_def Let_def simp del: take_append)

lemma nearest_top_topk:
  assumes "0 < k"
  shows "nearest_top k scores = Some (topk (nat k) scores)"
proof -
  have "fold (nearest_step k) cs (Some tops) = Some (fold (topk_step (nat k)) cs tops)" if "length tops \<le> nat k" for cs tops
    using that by (induction cs arbitrary: tops) (simp_all add: nearest_step_topk [OF assms] length_topk_step)
  then show ?thesis by (simp add: nearest_top_def topk_def)
qed

lemma nearest_negative: "k \<le> 0 \<Longrightarrow> nearest_top k (a # b # ss) = None"
proof -
  assume k: "k \<le> 0"
  have n: "fold (nearest_step k) cs None = None" for cs by (induction cs) (simp_all add: nearest_step_def)
  show ?thesis using k by (simp add: nearest_top_def nearest_step_def n Let_def)
qed

end
