(* ===== verification/MemRecord.thy ===== *)
theory MemRecord
  imports VectorStore Fs SshSecrets
begin

text \<open>
  Long-term memory records, \<open>src/backend/src/memory/record.c\<close>: the record, its Markdown form with the frontmatter that the
  same file writes and reads, the record store over a directory of such files, and the index rebuilt from it.

  Attributes are doubles, read as the rational they stand for; \<open>fl\<close> rounds to the nearest double, \<open>other\<close> and \<open>ov\<close> are what
  the C library makes of numbers outside the range of their type. The text of a record is built in a growing buffer;
  its allocations are taken to succeed, the other ones are arguments.
\<close>

section \<open>The record\<close>

datatype mem_type = MEMR_SEMANTIC | MEMR_EPISODIC | MEMR_PROCEDURAL | MEMR_PREFERENCE | MEMR_PROJECT | MEMR_ENTITY

datatype mem_status = MEM_STATUS_PROVISIONAL | MEM_STATUS_TRUSTED | MEM_STATUS_VERIFIED | MEM_STATUS_DEPRECATED
  | MEM_STATUS_CONTRADICTED | MEM_STATUS_ARCHIVED

datatype mem_outcome = MEM_OUTCOME_UNKNOWN | MEM_OUTCOME_SUCCESS | MEM_OUTCOME_FAILURE | MEM_OUTCOME_PARTIAL

definition MEM_ID_MAX :: nat where "MEM_ID_MAX = 40"
definition MEM_SCOPE_MAX :: nat where "MEM_SCOPE_MAX = 256"
definition MEM_SOURCE_MAX :: nat where "MEM_SOURCE_MAX = 32"
definition MEM_EVIDENCE_MAX :: nat where "MEM_EVIDENCE_MAX = 160"
definition MEM_TITLE_MAX :: nat where "MEM_TITLE_MAX = 128"

lemmas mem_limits = MEM_ID_MAX_def MEM_SCOPE_MAX_def MEM_SOURCE_MAX_def MEM_EVIDENCE_MAX_def MEM_TITLE_MAX_def

record mem_record =
  m_id :: cstr
  m_type :: mem_type
  m_title :: cstr
  m_scope :: cstr
  m_status :: mem_status
  importance :: rat
  confidence :: rat
  utility :: rat
  valence :: rat
  arousal :: rat
  salience :: rat
  m_source :: cstr
  origin_id :: cstr
  m_outcome :: mem_outcome
  evidence :: cstr
  m_version :: int
  m_created_ms :: int
  m_updated_ms :: int
  last_access_ms :: int
  access_count :: "32 word"
  m_content :: "cstr option"

fun type_name :: "mem_type \<Rightarrow> cstr" where
  "type_name MEMR_SEMANTIC = ''semantic''"
| "type_name MEMR_EPISODIC = ''episodic''"
| "type_name MEMR_PROCEDURAL = ''procedural''"
| "type_name MEMR_PREFERENCE = ''preference''"
| "type_name MEMR_PROJECT = ''project''"
| "type_name MEMR_ENTITY = ''entity''"

definition type_from :: "cstr \<Rightarrow> mem_type" where
  "type_from s =
     (if s = ''episodic'' then MEMR_EPISODIC
      else if s = ''procedural'' then MEMR_PROCEDURAL
      else if s = ''preference'' then MEMR_PREFERENCE
      else if s = ''project'' then MEMR_PROJECT
      else if s = ''entity'' then MEMR_ENTITY
      else MEMR_SEMANTIC)"

fun status_name :: "mem_status \<Rightarrow> cstr" where
  "status_name MEM_STATUS_PROVISIONAL = ''provisional''"
| "status_name MEM_STATUS_TRUSTED = ''trusted''"
| "status_name MEM_STATUS_VERIFIED = ''verified''"
| "status_name MEM_STATUS_DEPRECATED = ''deprecated''"
| "status_name MEM_STATUS_CONTRADICTED = ''contradicted''"
| "status_name MEM_STATUS_ARCHIVED = ''archived''"

definition status_from :: "cstr \<Rightarrow> mem_status" where
  "status_from s =
     (if s = ''trusted'' then MEM_STATUS_TRUSTED
      else if s = ''verified'' then MEM_STATUS_VERIFIED
      else if s = ''deprecated'' then MEM_STATUS_DEPRECATED
      else if s = ''contradicted'' then MEM_STATUS_CONTRADICTED
      else if s = ''archived'' then MEM_STATUS_ARCHIVED
      else MEM_STATUS_PROVISIONAL)"

definition status_indexable :: "mem_status \<Rightarrow> bool" where
  "status_indexable s \<longleftrightarrow> s \<noteq> MEM_STATUS_DEPRECATED \<and> s \<noteq> MEM_STATUS_CONTRADICTED \<and> s \<noteq> MEM_STATUS_ARCHIVED"

fun outcome_name :: "mem_outcome \<Rightarrow> cstr" where
  "outcome_name MEM_OUTCOME_SUCCESS = ''SUCCESS''"
| "outcome_name MEM_OUTCOME_FAILURE = ''FAILURE''"
| "outcome_name MEM_OUTCOME_PARTIAL = ''PARTIAL_SUCCESS''"
| "outcome_name MEM_OUTCOME_UNKNOWN = ''UNKNOWN''"

definition outcome_from :: "cstr \<Rightarrow> mem_outcome" where
  "outcome_from s =
     (if s = ''SUCCESS'' then MEM_OUTCOME_SUCCESS
      else if s = ''FAILURE'' then MEM_OUTCOME_FAILURE
      else if s = ''PARTIAL_SUCCESS'' then MEM_OUTCOME_PARTIAL
      else MEM_OUTCOME_UNKNOWN)"

lemma names_roundtrip [simp]:
  "type_from (type_name t) = t" "status_from (status_name s) = s" "outcome_from (outcome_name u) = u"
  by (cases t; simp add: type_from_def) ((cases s; simp add: status_from_def), (cases u; simp add: outcome_from_def))

section \<open>The Markdown form\<close>

definition nl :: cstr where
  "nl = [CHR 0x0A]"

definition quote :: cstr where
  "quote = [CHR 0x22]"

text \<open>One frontmatter line, as key, separator and value: \<open>strbuf_appendf(&sb, "key: %s\n", value)\<close>.\<close>

definition fm_line :: "cstr \<Rightarrow> cstr \<Rightarrow> cstr" where
  "fm_line key val = key @ '': '' @ val @ nl"

text \<open>\<open>%u\<close>.\<close>

definition word_str :: "32 word \<Rightarrow> cstr" where
  "word_str w = nat_str (unat w)"

definition body_text :: "cstr \<Rightarrow> cstr" where
  "body_text c = (if c \<noteq> [] \<and> last c \<noteq> CHR 0x0A then c @ nl else c)"

definition mem_record_to_md :: "mem_record \<Rightarrow> cstr option" where
  "mem_record_to_md r =
     (case m_content r of
        None \<Rightarrow> None
      | Some content \<Rightarrow>
          if m_id r = [] then None
          else Some (''---'' @ nl @ concat
            ([fm_line ''id'' (m_id r), fm_line ''type'' (type_name (m_type r))]
             @ (if m_title r \<noteq> [] then [fm_line ''title'' (quote @ m_title r @ quote)] else [])
             @ [fm_line ''scope'' (if m_scope r \<noteq> [] then m_scope r else ''global''),
                fm_line ''status'' (status_name (m_status r)),
                fm_line ''importance'' (fmt3 (importance r)), fm_line ''confidence'' (fmt3 (confidence r)),
                fm_line ''utility'' (fmt3 (utility r)), ''emotion:'' @ nl,
                fm_line ''  valence'' (fmt3 (valence r)), fm_line ''  arousal'' (fmt3 (arousal r)),
                fm_line ''  salience'' (fmt3 (salience r)), ''source:'' @ nl,
                fm_line ''  type'' (if m_source r \<noteq> [] then m_source r else ''experience'')]
             @ (if origin_id r \<noteq> [] then [fm_line ''  derived_from'' (origin_id r)] else [])
             @ [fm_line ''outcome'' (outcome_name (m_outcome r))]
             @ (if evidence r \<noteq> [] then [fm_line ''evidence'' (quote @ evidence r @ quote)] else [])
             @ [fm_line ''version'' (int_str (m_version r)), fm_line ''created'' (int_str (m_created_ms r)),
                fm_line ''updated'' (int_str (m_updated_ms r)), fm_line ''access_count'' (word_str (access_count r)),
                fm_line ''last_access'' (int_str (last_access_ms r)), ''---'' @ nl, body_text content])))"

definition copy_quoted :: "nat \<Rightarrow> cstr \<Rightarrow> cstr" where
  "copy_quoted n val =
     (if 2 \<le> length val \<and> hd val = CHR 0x22 \<and> last val = CHR 0x22
      then take (if n \<le> length val - 2 then n - 1 else length val - 2) (tl val)
      else cbuf n val)"

text \<open>What the C library supplies to the reader of a number.\<close>

record num_env =
  ne_fl :: "rat \<Rightarrow> rat"
  ne_other :: "cstr \<Rightarrow> rat"
  ne_ov :: "int \<Rightarrow> int"

definition c_double :: "num_env \<Rightarrow> cstr \<Rightarrow> rat" where
  "c_double ne = c_atof (ne_fl ne) (ne_other ne)"

definition c_int :: "num_env \<Rightarrow> cstr \<Rightarrow> int" where
  "c_int ne = c_atoi (ne_ov ne) INT_MIN INT_MAX"

definition c_llong :: "num_env \<Rightarrow> cstr \<Rightarrow> int" where
  "c_llong ne = c_atoi (ne_ov ne) LLONG_MIN LLONG_MAX"

definition feed_field :: "num_env \<Rightarrow> cstr \<Rightarrow> cstr \<Rightarrow> bool \<Rightarrow> bool \<Rightarrow> mem_record \<Rightarrow> mem_record" where
  "feed_field ne key val in_emotion in_source r =
     (if in_emotion then
        (if key = ''valence'' then r\<lparr>valence := c_double ne val\<rparr>
         else if key = ''arousal'' then r\<lparr>arousal := c_double ne val\<rparr>
         else if key = ''salience'' then r\<lparr>salience := c_double ne val\<rparr>
         else r)
      else if in_source then
        (if key = ''type'' then r\<lparr>m_source := cbuf MEM_SOURCE_MAX val\<rparr>
         else if key = ''derived_from'' then r\<lparr>origin_id := cbuf MEM_ID_MAX val\<rparr>
         else r)
      else if key = ''id'' then r\<lparr>m_id := cbuf MEM_ID_MAX val\<rparr>
      else if key = ''type'' then r\<lparr>m_type := type_from val\<rparr>
      else if key = ''title'' then r\<lparr>m_title := copy_quoted MEM_TITLE_MAX val\<rparr>
      else if key = ''scope'' then r\<lparr>m_scope := cbuf MEM_SCOPE_MAX val\<rparr>
      else if key = ''status'' then r\<lparr>m_status := status_from val\<rparr>
      else if key = ''importance'' then r\<lparr>importance := c_double ne val\<rparr>
      else if key = ''confidence'' then r\<lparr>confidence := c_double ne val\<rparr>
      else if key = ''utility'' then r\<lparr>utility := c_double ne val\<rparr>
      else if key = ''outcome'' then r\<lparr>m_outcome := outcome_from val\<rparr>
      else if key = ''evidence'' then r\<lparr>evidence := copy_quoted MEM_EVIDENCE_MAX val\<rparr>
      else if key = ''version'' then r\<lparr>m_version := c_int ne val\<rparr>
      else if key = ''created'' then r\<lparr>m_created_ms := c_llong ne val\<rparr>
      else if key = ''updated'' then r\<lparr>m_updated_ms := c_llong ne val\<rparr>
      else if key = ''access_count'' then r\<lparr>access_count := word_of_int (c_int ne val)\<rparr>
      else if key = ''last_access'' then r\<lparr>last_access_ms := c_llong ne val\<rparr>
      else r)"

definition fm_blank :: "char \<Rightarrow> bool" where
  "fm_blank c \<longleftrightarrow> c = CHR '' '' \<or> c = CHR 0x09"

text \<open>
  One line (at most 511 bytes of it) of the frontmatter; the state is the record and whether the lines below belong to
  \<open>emotion:\<close> or to \<open>source:\<close>.
\<close>

definition feed_line :: "num_env \<Rightarrow> cstr \<Rightarrow> mem_record \<times> bool \<times> bool \<Rightarrow> mem_record \<times> bool \<times> bool" where
  "feed_line ne full st =
     (case st of (r, em, sr) \<Rightarrow>
        let line = cbuf 512 full;
            key = takeWhile (\<lambda>c. c \<noteq> CHR '':'') line;
            rest = dropWhile (\<lambda>c. c \<noteq> CHR '':'') line;
            val = dropWhile (\<lambda>c. c = CHR '' '') (tl rest)
        in if line \<noteq> [] \<and> fm_blank (hd line)
           then (if rest = [] then st else (feed_field ne (dropWhile fm_blank key) val em sr r, em, sr))
           else if rest = [] then st
           else let em' = (key = ''emotion''); sr' = (key = ''source'')
                in (if \<not> em' \<and> \<not> sr' then feed_field ne key val False False r else r, em', sr'))"

text \<open>The loop over the lines; \<open>None\<close> when the frontmatter is not terminated. The result has the rest of the text.\<close>

function feed_lines :: "num_env \<Rightarrow> cstr \<Rightarrow> mem_record \<times> bool \<times> bool \<Rightarrow> (mem_record \<times> cstr) option" where
  "feed_lines ne p st =
     (if CHR 0x0A \<notin> set p then None
      else let line = takeWhile (\<lambda>c. c \<noteq> CHR 0x0A) p; p' = tl (dropWhile (\<lambda>c. c \<noteq> CHR 0x0A) p)
           in if line = ''---'' then Some (fst st, p') else feed_lines ne p' (feed_line ne line st))"
  by pat_completeness auto
termination
proof (relation "measure (\<lambda>(ne, p, st). length p)")
  fix p :: cstr and line p'
  assume "\<not> CHR 0x0A \<notin> set p" "p' = tl (dropWhile (\<lambda>c. c \<noteq> CHR 0x0A) p)"
  then show "((ne, p', st'), (ne, p, st)) \<in> measure (\<lambda>(ne, p, st). length p)" for ne st st'
    using length_dropWhile_le [of "\<lambda>c. c \<noteq> CHR 0x0A" p] by (cases p) (auto intro: le_less_trans)
qed simp

declare feed_lines.simps [simp del]

definition mem_record_zero :: mem_record where
  "mem_record_zero =
     \<lparr>m_id = [], m_type = MEMR_SEMANTIC, m_title = [], m_scope = [], m_status = MEM_STATUS_PROVISIONAL, importance = 0,
      confidence = 0, utility = 0, valence = 0, arousal = 0, salience = 0, m_source = [], origin_id = [],
      m_outcome = MEM_OUTCOME_UNKNOWN, evidence = [], m_version = 0, m_created_ms = 0, m_updated_ms = 0,
      last_access_ms = 0, access_count = 0, m_content = None\<rparr>"

text \<open>\<open>ok\<close>: the record and the copy of its body can be allocated.\<close>

definition mem_record_from_md :: "num_env \<Rightarrow> bool \<Rightarrow> cstr \<Rightarrow> mem_record option" where
  "mem_record_from_md ne ok md =
     (if take 4 md \<noteq> ''---'' @ nl \<or> \<not> ok then None
      else case feed_lines ne (drop 4 md) (mem_record_zero\<lparr>m_version := 1\<rparr>, False, False) of
             None \<Rightarrow> None
           | Some (r, p) \<Rightarrow> if m_id r = [] then None else Some (r\<lparr>m_content := Some p\<rparr>))"

section \<open>Reading a record back\<close>

text \<open>A value that survives a frontmatter line.\<close>

definition fm_value :: "cstr \<Rightarrow> bool" where
  "fm_value v \<longleftrightarrow> CHR 0x0A \<notin> set v \<and> (v = [] \<or> hd v \<noteq> CHR '' '') \<and> length v \<le> 400"

lemma feed_lines_line:
  assumes "CHR 0x0A \<notin> set line" "line \<noteq> ''---''"
  shows "feed_lines ne (line @ nl @ rest) st = feed_lines ne rest (feed_line ne line st)"
proof -
  have "takeWhile (\<lambda>c. c \<noteq> CHR 0x0A) (line @ nl @ rest) = line" "dropWhile (\<lambda>c. c \<noteq> CHR 0x0A) (line @ nl @ rest) = nl @ rest"
    using assms(1) by (induction line) (auto simp: nl_def)
  with assms(2) show ?thesis by (subst feed_lines.simps) (simp add: nl_def)
qed

lemma feed_lines_end: "feed_lines ne (''---'' @ nl @ rest) st = Some (fst st, rest)"
  by (subst feed_lines.simps) (simp add: nl_def)

lemma split_colon:
  "CHR '':'' \<notin> set key \<Longrightarrow> takeWhile (\<lambda>c. c \<noteq> CHR '':'') (key @ CHR '':'' # v) = key"
  "CHR '':'' \<notin> set key \<Longrightarrow> dropWhile (\<lambda>c. c \<noteq> CHR '':'') (key @ CHR '':'' # v) = CHR '':'' # v"
  by (induction key) auto

lemma drop_blanks: "v = [] \<or> hd v \<noteq> CHR '' '' \<Longrightarrow> dropWhile (\<lambda>c. c = CHR '' '') v = v"
  by (cases v) auto

definition top_key :: "cstr \<Rightarrow> bool" where
  "top_key key \<longleftrightarrow> CHR 0x0A \<notin> set key \<and> CHR '':'' \<notin> set key \<and> key \<noteq> [] \<and> \<not> fm_blank (hd key) \<and> length key \<le> 100 \<and>
     key \<noteq> ''emotion'' \<and> key \<noteq> ''source''"

lemma feed_top:
  assumes "top_key key" "fm_value v"
  shows "feed_lines ne (fm_line key v @ rest) (r, em, sr) =
    feed_lines ne rest (feed_field ne key v False False r, False, False)"
proof -
  have l: "CHR 0x0A \<notin> set (key @ '': '' @ v)" "key @ '': '' @ v \<noteq> ''---''"
    using assms by (auto simp: top_key_def fm_value_def append_eq_Cons_conv)
  have "cbuf 512 (key @ '': '' @ v) = key @ '': '' @ v"
    using assms by (intro cbuf_id) (auto simp: top_key_def fm_value_def)
  then have "feed_line ne (key @ '': '' @ v) (r, em, sr) = (feed_field ne key v False False r, False, False)"
    using assms by (auto simp: feed_line_def split_colon top_key_def fm_value_def drop_blanks Let_def)
  with feed_lines_line [OF l, of ne rest "(r, em, sr)"] show ?thesis by (simp add: fm_line_def)
qed

definition sub_key :: "cstr \<Rightarrow> bool" where
  "sub_key key \<longleftrightarrow> CHR 0x0A \<notin> set key \<and> CHR '':'' \<notin> set key \<and> key \<noteq> [] \<and> \<not> fm_blank (hd key) \<and> length key \<le> 90"

lemma feed_sub:
  assumes "sub_key key" "fm_value v"
  shows "feed_lines ne (fm_line (CHR '' '' # CHR '' '' # key) v @ rest) (r, em, sr) =
    feed_lines ne rest (feed_field ne key v em sr r, em, sr)"
proof -
  let ?k = "CHR '' '' # CHR '' '' # key"
  have l: "CHR 0x0A \<notin> set (?k @ '': '' @ v)" "?k @ '': '' @ v \<noteq> ''---''"
    using assms by (auto simp: sub_key_def fm_value_def)
  have c: "cbuf 512 (?k @ '': '' @ v) = ?k @ '': '' @ v"
    using assms by (intro cbuf_id) (auto simp: sub_key_def fm_value_def)
  have "dropWhile fm_blank key = key" using assms(1) by (cases key) (auto simp: sub_key_def)
  then have "feed_line ne (?k @ '': '' @ v) (r, em, sr) = (feed_field ne key v em sr r, em, sr)"
    unfolding feed_line_def prod.case c Let_def
    using assms by (auto simp: split_colon sub_key_def fm_value_def drop_blanks fm_blank_def)
  with feed_lines_line [OF l, of ne rest "(r, em, sr)"] show ?thesis by (simp add: fm_line_def)
qed

lemma feed_block:
  "feed_lines ne (''emotion:'' @ nl @ rest) (r, em, sr) = feed_lines ne rest (r, True, False)"
  "feed_lines ne (''source:'' @ nl @ rest) (r, em, sr) = feed_lines ne rest (r, False, True)"
  using feed_lines_line [of "''emotion:''" ne rest "(r, em, sr)"] feed_lines_line [of "''source:''" ne rest "(r, em, sr)"]
  by (simp_all add: feed_line_def cbuf_def fm_blank_def)

lemma feed_if_top:
  assumes "top_key key" "b \<Longrightarrow> fm_value v"
  shows "feed_lines ne ((if b then fm_line key v else []) @ rest) (r, False, False) =
    feed_lines ne rest (if b then feed_field ne key v False False r else r, False, False)"
  using assms feed_top by simp

lemma feed_if_sub:
  assumes "sub_key key" "b \<Longrightarrow> fm_value v"
  shows "feed_lines ne ((if b then fm_line (CHR '' '' # CHR '' '' # key) v else []) @ rest) (r, em, sr) =
    feed_lines ne rest (if b then feed_field ne key v em sr r else r, em, sr)"
  using assms feed_sub by simp

section \<open>Printed values\<close>

lemma digits_fm_value:
  assumes "\<forall>c \<in> set v. c_digit c \<or> c = CHR ''.'' \<or> c = CHR ''-''" "length v \<le> 400"
  shows "fm_value v"
proof -
  have "\<not> c_digit (CHR 0x0A)" "\<not> c_digit (CHR '' '')" by (simp_all add: c_digit_def byte_def)
  with assms have "CHR 0x0A \<notin> set v" "CHR '' '' \<notin> set v" by auto
  with assms(2) show ?thesis by (cases v) (auto simp: fm_value_def)
qed

lemma length_int_str: "length (int_str i) \<le> Suc (length (nat_str (nat \<bar>i\<bar>)))"
  by (simp add: int_str_def)

lemma int_str_chars: "c \<in> set (int_str i) \<Longrightarrow> c_digit c \<or> c = CHR ''-''"
  by (auto simp: int_str_def c_digit_nat_str split: if_splits)

lemma int_str_value:
  assumes "\<bar>i\<bar> < 10 ^ 19"
  shows "fm_value (int_str i)"
proof (rule digits_fm_value)
  show "\<forall>c \<in> set (int_str i). c_digit c \<or> c = CHR ''.'' \<or> c = CHR ''-''"
    using int_str_chars by blast
  have "nat \<bar>i\<bar> < nat (10 ^ 19)" using assms by linarith
  then have "nat \<bar>i\<bar> < 10 ^ Suc 18" by simp
  from length_nat_str [OF this] length_int_str [of i] show "length (int_str i) \<le> 400" by linarith
qed

lemma word_str_value: "fm_value (word_str w)"
proof (rule digits_fm_value)
  show "\<forall>c \<in> set (word_str w). c_digit c \<or> c = CHR ''.'' \<or> c = CHR ''-''"
    using c_digit_nat_str by (auto simp only: word_str_def)
  have "unat w < 2 ^ 32" using unsigned_less [of w] by simp
  then have "unat w < 10 ^ Suc 9" by simp
  from length_nat_str [OF this] show "length (word_str w) \<le> 400" unfolding word_str_def by linarith
qed

lemma round_half_even_le: "of_int (round_half_even x) \<le> x + 1"
proof -
  have "rat_of_int \<lfloor>x\<rfloor> \<le> x" by (rule of_int_floor_le)
  then have "rat_of_int \<lfloor>x\<rfloor> \<le> x + 1" by linarith
  with of_int_floor_le [of x] show ?thesis by (simp add: round_half_even_def Let_def)
qed

lemma fmt3_value:
  assumes "\<bar>x\<bar> \<le> 1000000"
  shows "fm_value (fmt3 x)"
proof (rule digits_fm_value)
  let ?m = "nat (round_half_even (\<bar>x\<bar> * 1000))"
  show "\<forall>c \<in> set (fmt3 x). c_digit c \<or> c = CHR ''.'' \<or> c = CHR ''-''"
    by (auto simp: fmt3_def Let_def c_digit_nat_str split: if_splits)
  have "rat_of_int (round_half_even (\<bar>x\<bar> * 1000)) \<le> 1000000001"
    using round_half_even_le [of "\<bar>x\<bar> * 1000"] assms by linarith
  then have "round_half_even (\<bar>x\<bar> * 1000) \<le> 1000000001" by linarith
  then have "?m \<le> 1000000001" by linarith
  then have "?m div 1000 \<le> 1000000001 div 1000" by (rule div_le_mono)
  then have "?m div 1000 < 10 ^ Suc 6" by simp
  from length_nat_str [OF this] have "length (nat_str (?m div 1000)) \<le> Suc 6" .
  moreover have "length (fmt3 x) \<le> 5 + length (nat_str (?m div 1000))" by (simp add: fmt3_def Let_def)
  ultimately show "length (fmt3 x) \<le> 400" by linarith
qed


lemma copy_quoted_quote: "length v < n \<Longrightarrow> copy_quoted n (quote @ v @ quote) = v"
  by (simp add: copy_quoted_def quote_def)

text \<open>A record whose text fields survive the frontmatter, and whose numbers are in range.\<close>

definition fm_record :: "mem_record \<Rightarrow> bool" where
  "fm_record r \<longleftrightarrow>
     m_id r \<noteq> [] \<and> fm_value (m_id r) \<and> length (m_id r) < MEM_ID_MAX \<and>
     CHR 0x0A \<notin> set (m_title r) \<and> length (m_title r) < MEM_TITLE_MAX \<and>
     fm_value (m_scope r) \<and> length (m_scope r) < MEM_SCOPE_MAX \<and>
     fm_value (m_source r) \<and> length (m_source r) < MEM_SOURCE_MAX \<and>
     fm_value (origin_id r) \<and> length (origin_id r) < MEM_ID_MAX \<and>
     CHR 0x0A \<notin> set (evidence r) \<and> length (evidence r) < MEM_EVIDENCE_MAX \<and>
     (\<forall>x \<in> {importance r, confidence r, utility r, valence r, arousal r, salience r}. \<bar>x\<bar> \<le> 1000000) \<and>
     INT_MIN \<le> m_version r \<and> m_version r \<le> INT_MAX \<and> unat (access_count r) < 2 ^ 31 \<and>
     (\<forall>t \<in> {m_created_ms r, m_updated_ms r, last_access_ms r}. LLONG_MIN \<le> t \<and> t \<le> LLONG_MAX)"

text \<open>The record as it comes back.\<close>

definition reread :: "num_env \<Rightarrow> mem_record \<Rightarrow> mem_record" where
  "reread ne r =
     r\<lparr>m_scope := (if m_scope r = [] then ''global'' else m_scope r),
       m_source := (if m_source r = [] then ''experience'' else m_source r),
       importance := ne_fl ne (round3 (importance r)), confidence := ne_fl ne (round3 (confidence r)),
       utility := ne_fl ne (round3 (utility r)), valence := ne_fl ne (round3 (valence r)),
       arousal := ne_fl ne (round3 (arousal r)), salience := ne_fl ne (round3 (salience r)),
       m_content := map_option body_text (m_content r)\<rparr>"

lemma quoted_value: "CHR 0x0A \<notin> set v \<Longrightarrow> length v < 200 \<Longrightarrow> fm_value (quote @ v @ quote)"
  by (simp add: fm_value_def quote_def)

lemma name_values:
  "fm_value (type_name t)" "fm_value (status_name s)" "fm_value (outcome_name u)"
  "fm_value ''global''" "fm_value ''experience''"
proof -
  show "fm_value (type_name t)" by (cases t) (simp_all add: fm_value_def)
  show "fm_value (status_name s)" by (cases s) (simp_all add: fm_value_def)
  show "fm_value (outcome_name u)" by (cases u) (simp_all add: fm_value_def)
qed (simp_all add: fm_value_def)

lemma fm_values:
  assumes "fm_record r"
  shows "fm_value (m_id r)" "fm_value (if m_scope r \<noteq> [] then m_scope r else ''global'')"
    "fm_value (if m_source r \<noteq> [] then m_source r else ''experience'')"
    "fm_value (quote @ m_title r @ quote)" "fm_value (quote @ evidence r @ quote)" "fm_value (origin_id r)"
    "fm_value (fmt3 (importance r))" "fm_value (fmt3 (confidence r))" "fm_value (fmt3 (utility r))"
    "fm_value (fmt3 (valence r))" "fm_value (fmt3 (arousal r))" "fm_value (fmt3 (salience r))"
    "fm_value (int_str (m_version r))" "fm_value (int_str (m_created_ms r))" "fm_value (int_str (m_updated_ms r))"
    "fm_value (int_str (last_access_ms r))" "fm_value (word_str (access_count r))"
  using assms
  by (auto simp: fm_record_def mem_limits int_limits name_values word_str_value intro!: quoted_value fmt3_value int_str_value)

lemma keys:
  "top_key ''id''" "top_key ''type''" "top_key ''title''" "top_key ''scope''" "top_key ''status''" "top_key ''importance''"
  "top_key ''confidence''" "top_key ''utility''" "top_key ''outcome''" "top_key ''evidence''" "top_key ''version''"
  "top_key ''created''" "top_key ''updated''" "top_key ''access_count''" "top_key ''last_access''"
  "sub_key ''valence''" "sub_key ''arousal''" "sub_key ''salience''" "sub_key ''type''" "sub_key ''derived_from''"
  by (simp_all add: top_key_def sub_key_def fm_blank_def)

lemma concat_if: "concat (if b then [x] else []) = (if b then x else [])"
  by simp

lemma read_values:
  assumes "fm_record r"
  shows "c_int ne (int_str (m_version r)) = m_version r" "c_llong ne (int_str (m_created_ms r)) = m_created_ms r"
    "c_llong ne (int_str (m_updated_ms r)) = m_updated_ms r" "c_llong ne (int_str (last_access_ms r)) = last_access_ms r"
    "word_of_int (c_int ne (word_str (access_count r))) = access_count r"
    "cbuf MEM_ID_MAX (m_id r) = m_id r" "cbuf MEM_ID_MAX (origin_id r) = origin_id r"
    "cbuf MEM_SCOPE_MAX (if m_scope r \<noteq> [] then m_scope r else ''global'') = (if m_scope r \<noteq> [] then m_scope r else ''global'')"
    "cbuf MEM_SOURCE_MAX (if m_source r \<noteq> [] then m_source r else ''experience'') =
       (if m_source r \<noteq> [] then m_source r else ''experience'')"
    "copy_quoted MEM_TITLE_MAX (quote @ m_title r @ quote) = m_title r"
    "copy_quoted MEM_EVIDENCE_MAX (quote @ evidence r @ quote) = evidence r"
proof -
  let ?n = "unat (access_count r)"
  have "?n < 2147483648" using assms by (simp add: fm_record_def)
  then have "INT_MIN \<le> int ?n" "int ?n \<le> INT_MAX" unfolding int_limits by linarith+
  then have "c_int ne (int_str (int ?n)) = int ?n" unfolding c_int_def by (rule c_atoi_str)
  then have "c_int ne (word_str (access_count r)) = int ?n" by (simp add: word_str_def int_str_def)
  then show "word_of_int (c_int ne (word_str (access_count r))) = access_count r" by simp
qed (use assms in \<open>auto simp: fm_record_def c_int_def c_llong_def cbuf_id mem_limits copy_quoted_quote\<close>)

lemma feed_keys:
  "feed_field ne ''valence'' v True sr r = r\<lparr>valence := c_double ne v\<rparr>"
  "feed_field ne ''arousal'' v True sr r = r\<lparr>arousal := c_double ne v\<rparr>"
  "feed_field ne ''salience'' v True sr r = r\<lparr>salience := c_double ne v\<rparr>"
  "feed_field ne ''type'' v False True r = r\<lparr>m_source := cbuf MEM_SOURCE_MAX v\<rparr>"
  "feed_field ne ''derived_from'' v False True r = r\<lparr>origin_id := cbuf MEM_ID_MAX v\<rparr>"
  "feed_field ne ''id'' v False False r = r\<lparr>m_id := cbuf MEM_ID_MAX v\<rparr>"
  "feed_field ne ''type'' v False False r = r\<lparr>m_type := type_from v\<rparr>"
  "feed_field ne ''title'' v False False r = r\<lparr>m_title := copy_quoted MEM_TITLE_MAX v\<rparr>"
  "feed_field ne ''scope'' v False False r = r\<lparr>m_scope := cbuf MEM_SCOPE_MAX v\<rparr>"
  "feed_field ne ''status'' v False False r = r\<lparr>m_status := status_from v\<rparr>"
  "feed_field ne ''importance'' v False False r = r\<lparr>importance := c_double ne v\<rparr>"
  "feed_field ne ''confidence'' v False False r = r\<lparr>confidence := c_double ne v\<rparr>"
  "feed_field ne ''utility'' v False False r = r\<lparr>utility := c_double ne v\<rparr>"
  "feed_field ne ''outcome'' v False False r = r\<lparr>m_outcome := outcome_from v\<rparr>"
  "feed_field ne ''evidence'' v False False r = r\<lparr>evidence := copy_quoted MEM_EVIDENCE_MAX v\<rparr>"
  "feed_field ne ''version'' v False False r = r\<lparr>m_version := c_int ne v\<rparr>"
  "feed_field ne ''created'' v False False r = r\<lparr>m_created_ms := c_llong ne v\<rparr>"
  "feed_field ne ''updated'' v False False r = r\<lparr>m_updated_ms := c_llong ne v\<rparr>"
  "feed_field ne ''access_count'' v False False r = r\<lparr>access_count := word_of_int (c_int ne v)\<rparr>"
  "feed_field ne ''last_access'' v False False r = r\<lparr>last_access_ms := c_llong ne v\<rparr>"
  by (simp_all add: feed_field_def)

lemma c_double_fmt3: "c_double ne (fmt3 x) = ne_fl ne (round3 x)"
  by (simp add: c_double_def atof_fmt3)

lemma feed_record:
  assumes "fm_record r"
  shows "feed_lines ne (concat
            ([fm_line ''id'' (m_id r), fm_line ''type'' (type_name (m_type r))]
             @ (if m_title r \<noteq> [] then [fm_line ''title'' (quote @ m_title r @ quote)] else [])
             @ [fm_line ''scope'' (if m_scope r \<noteq> [] then m_scope r else ''global''),
                fm_line ''status'' (status_name (m_status r)),
                fm_line ''importance'' (fmt3 (importance r)), fm_line ''confidence'' (fmt3 (confidence r)),
                fm_line ''utility'' (fmt3 (utility r)), ''emotion:'' @ nl,
                fm_line ''  valence'' (fmt3 (valence r)), fm_line ''  arousal'' (fmt3 (arousal r)),
                fm_line ''  salience'' (fmt3 (salience r)), ''source:'' @ nl,
                fm_line ''  type'' (if m_source r \<noteq> [] then m_source r else ''experience'')]
             @ (if origin_id r \<noteq> [] then [fm_line ''  derived_from'' (origin_id r)] else [])
             @ [fm_line ''outcome'' (outcome_name (m_outcome r))]
             @ (if evidence r \<noteq> [] then [fm_line ''evidence'' (quote @ evidence r @ quote)] else [])
             @ [fm_line ''version'' (int_str (m_version r)), fm_line ''created'' (int_str (m_created_ms r)),
                fm_line ''updated'' (int_str (m_updated_ms r)), fm_line ''access_count'' (word_str (access_count r)),
                fm_line ''last_access'' (int_str (last_access_ms r)), ''---'' @ nl, body]))
       (mem_record_zero\<lparr>m_version := 1\<rparr>, False, False) =
     Some ((reread ne r)\<lparr>m_content := None\<rparr>, body)"
  unfolding concat_append concat_if concat.simps append_Nil append_assoc
  apply (simp only: feed_top feed_sub feed_block feed_if_top feed_if_sub keys fm_values [OF assms] name_values append_Nil2
      feed_lines_end fst_conv feed_keys c_double_fmt3 read_values [OF assms] names_roundtrip)
  by (cases "m_title r = []"; cases "origin_id r = []"; cases "evidence r = []")
    (simp_all add: reread_def mem_record_zero_def)

theorem mem_record_roundtrip:
  assumes "fm_record r" "m_content r = Some content"
  shows "\<exists>md. mem_record_to_md r = Some md \<and> mem_record_from_md ne True md = Some (reread ne r)"
proof -
  have "m_id r \<noteq> []" using assms(1) by (simp add: fm_record_def)
  moreover have "take 4 (''---'' @ nl @ x) = ''---'' @ nl" "drop 4 (''---'' @ nl @ x) = x" for x
    by (simp_all add: nl_def)
  moreover have "m_id (reread ne r) = m_id r" by (simp add: reread_def)
  moreover have "(reread ne r)\<lparr>m_content := Some (body_text content)\<rparr> = reread ne r"
    by (simp add: reread_def assms(2))
  ultimately show ?thesis
    using feed_record [OF assms(1), of ne "body_text content"]
    by (simp add: mem_record_to_md_def mem_record_from_md_def assms(2) del: concat_append concat.simps append_assoc)
qed

end
