(* ===== verification/MemStore.thy ===== *)
theory MemStore
  imports MemRecord
begin

text \<open>
  The record store of \<open>src/backend/src/memory/record.c\<close>: the records in memory and one Markdown file for each of them under
  \<open><root>/records\<close>. \<open>ps\<close> is the registry of known passwords; \<open>scan\<close>, \<open>ok\<close> and \<open>grow\<close> are the outcomes of the allocations of
  the redaction, of the copy of a record and of the growth of the array. \<open>fs_write_file\<close> answers whether a file could be
  written.
\<close>

section \<open>The store\<close>

record mem_records =
  rs_dir :: cstr
  rs_items :: "mem_record vec"

definition records_path :: "mem_records \<Rightarrow> cstr \<Rightarrow> cstr" where
  "records_path rs i = path_join 1024 (Some (rs_dir rs)) (Some (cbuf (MEM_ID_MAX + 8) (i @ ''.md'')))"

text \<open>One directory entry of \<open>mem_records_new\<close>.\<close>

definition load_entry ::
  "num_env \<Rightarrow> (cstr \<Rightarrow> bool) \<Rightarrow> (cstr \<Rightarrow> bool) \<Rightarrow> fsys \<Rightarrow> cstr \<times> bool \<Rightarrow> mem_records \<Rightarrow> mem_records" where
  "load_entry ne ok grow fs e rs =
     (case e of (name, is_dir) \<Rightarrow>
        if is_dir \<or> length name < 4 \<or> drop (length name - 3) name \<noteq> ''.md'' then rs
        else case fs_read_file fs (path_join 1024 (Some (rs_dir rs)) (Some name)) of
               None \<Rightarrow> rs
             | Some md \<Rightarrow>
                 (case mem_record_from_md ne (ok name) (c_string md) of
                    None \<Rightarrow> rs
                  | Some r \<Rightarrow>
                      (case vec_push 16 (grow name) r (rs_items rs) of
                         None \<Rightarrow> rs
                       | Some v \<Rightarrow> rs\<lparr>rs_items := v\<rparr>)))"

definition mem_records_new ::
  "num_env \<Rightarrow> (cstr \<Rightarrow> bool) \<Rightarrow> (cstr \<Rightarrow> bool) \<Rightarrow> fsys \<Rightarrow> cstr option \<Rightarrow> mem_records option \<times> fsys" where
  "mem_records_new ne ok grow fs base =
     (if nonnull_or [] base = [] then (None, fs)
      else let rs = \<lparr>rs_dir = path_join 512 base (Some ''records''), rs_items = vec_new\<rparr>;
               fs' = snd (fs_mkdirs (rs_dir rs) fs)
           in (Some (case fs_list_dir fs' (rs_dir rs) of
                       None \<Rightarrow> rs
                     | Some es \<Rightarrow> fold (load_entry ne ok grow fs') es rs), fs'))"

definition record_index :: "mem_records \<Rightarrow> cstr \<Rightarrow> nat option" where
  "record_index rs i = find_index (\<lambda>r. m_id r = i) (elems (rs_items rs))"

text \<open>The end of \<open>mem_records_put_impl\<close>: the Markdown file.\<close>

definition put_persist :: "mem_records \<Rightarrow> mem_record \<Rightarrow> fsys \<Rightarrow> int \<times> mem_records \<times> fsys" where
  "put_persist rs r fs =
     (case mem_record_to_md r of
        None \<Rightarrow> (-1, rs, fs)
      | Some md \<Rightarrow>
          (case fs_write_file (records_path rs (m_id r)) md fs of
             (rc, fs') \<Rightarrow> (if rc = 0 then 0 else -1, rs, fs')))"

definition mem_records_put_impl ::
  "bool \<Rightarrow> bool \<Rightarrow> mem_records \<Rightarrow> mem_record \<Rightarrow> fsys \<Rightarrow> int \<times> mem_records \<times> fsys" where
  "mem_records_put_impl ok grow rs r fs =
     (if m_id r = [] \<or> m_content r = None then (-1, rs, fs)
      else case record_index rs (m_id r) of
             Some i \<Rightarrow>
               if \<not> ok then (-1, rs, fs)
               else put_persist (rs\<lparr>rs_items := (rs_items rs)\<lparr>elems := (elems (rs_items rs))[i := r]\<rparr>\<rparr>) r fs
           | None \<Rightarrow>
               let v = rs_items rs; full = (length (elems v) = vcap v) in
               if full \<and> \<not> grow then (-1, rs, fs)
               else let v' = (if full then v\<lparr>vcap := grow_cap 16 (vcap v)\<rparr> else v)
                    in if \<not> ok then (-1, rs\<lparr>rs_items := v'\<rparr>, fs)
                       else put_persist (rs\<lparr>rs_items := v'\<lparr>elems := elems v @ [r]\<rparr>\<rparr>) r fs)"

definition mem_records_put ::
  "cstr list \<Rightarrow> bool \<Rightarrow> bool \<Rightarrow> bool \<Rightarrow> mem_records \<Rightarrow> mem_record \<Rightarrow> fsys \<Rightarrow> int \<times> mem_records \<times> fsys" where
  "mem_records_put ps scan ok grow rs rin fs =
     (case m_content rin of
        None \<Rightarrow> (-1, rs, fs)
      | Some content \<Rightarrow>
          if m_id rin = [] then (-1, rs, fs)
          else case secret_redact_ssh_passwords scan ps content None of
                 None \<Rightarrow> mem_records_put_impl ok grow rs rin fs
               | Some clean \<Rightarrow> mem_records_put_impl ok grow rs (rin\<lparr>m_content := Some clean\<rparr>) fs)"

definition mem_records_at :: "mem_records \<Rightarrow> int \<Rightarrow> mem_record option" where
  "mem_records_at rs i =
     (if i < 0 \<or> int (length (elems (rs_items rs))) \<le> i then None else Some (elems (rs_items rs) ! nat i))"

definition mem_records_count :: "mem_records \<Rightarrow> nat" where
  "mem_records_count rs = length (elems (rs_items rs))"

definition mem_records_find :: "mem_records \<Rightarrow> cstr \<Rightarrow> mem_record option" where
  "mem_records_find rs i = List.find (\<lambda>r. m_id r = i) (elems (rs_items rs))"

definition mem_records_find_origin :: "mem_records \<Rightarrow> cstr option \<Rightarrow> mem_record option" where
  "mem_records_find_origin rs org =
     (if nonnull_or [] org = [] then None
      else List.find (\<lambda>r. origin_id r = nonnull_or [] org) (elems (rs_items rs)))"

definition mem_records_remove :: "mem_records \<Rightarrow> cstr \<Rightarrow> fsys \<Rightarrow> int \<times> mem_records \<times> fsys" where
  "mem_records_remove rs i fs =
     (case record_index rs i of
        None \<Rightarrow> (0, rs, fs)
      | Some k \<Rightarrow>
          (1, rs\<lparr>rs_items := (rs_items rs)\<lparr>elems := remove_at k (elems (rs_items rs))\<rparr>\<rparr>,
           snd (fs_remove (records_path rs (cbuf MEM_ID_MAX i)) fs)))"

text \<open>The index of the live records, each under \<open>"r:"\<close> and its id; the number returned does not depend on whether the
  vector store could take them.\<close>

definition record_vid :: "cstr \<Rightarrow> cstr" where
  "record_vid i = cbuf 64 (''r:'' @ i)"

definition index_record :: "(cstr \<Rightarrow> 'e) \<Rightarrow> (cstr \<Rightarrow> bool) \<Rightarrow> mem_record \<Rightarrow> 'e vectorstore \<Rightarrow> 'e vectorstore" where
  "index_record emb ok r vs =
     (if status_indexable (m_status r)
      then snd (vectorstore_add emb (ok (m_id r)) (ok (m_id r)) vs (record_vid (m_id r)) (nonnull_or [] (m_content r)) (Some ''record''))
      else vs)"

definition mem_records_rebuild_index ::
  "(cstr \<Rightarrow> 'e) \<Rightarrow> (cstr \<Rightarrow> bool) \<Rightarrow> mem_records \<Rightarrow> 'e vectorstore option \<Rightarrow> int \<times> 'e vectorstore option" where
  "mem_records_rebuild_index emb ok rs vso =
     (case vso of
        None \<Rightarrow> (-1, None)
      | Some vs \<Rightarrow>
          (int (length (filter (\<lambda>r. status_indexable (m_status r)) (elems (rs_items rs)))),
           Some (fold (index_record emb ok) (elems (rs_items rs)) (snd (vectorstore_remove_prefix vs ''r:'')))))"

definition touch_record :: "int \<Rightarrow> mem_record \<Rightarrow> mem_record" where
  "touch_record now r =
     (let r' = r\<lparr>access_count := access_count r + 1\<rparr> in if 0 < now then r'\<lparr>last_access_ms := now\<rparr> else r')"

definition mem_records_touch :: "mem_records \<Rightarrow> cstr \<Rightarrow> int \<Rightarrow> mem_records" where
  "mem_records_touch rs i now =
     (case record_index rs i of
        None \<Rightarrow> rs
      | Some k \<Rightarrow>
          rs\<lparr>rs_items := (rs_items rs)\<lparr>elems := (elems (rs_items rs))[k := touch_record now (elems (rs_items rs) ! k)]\<rparr>\<rparr>)"

text \<open>The listing, printed without escaping.\<close>

definition jfield :: "cstr \<Rightarrow> cstr \<Rightarrow> cstr" where
  "jfield key val = quote @ key @ quote @ '':'' @ val"

definition record_attrs :: "mem_record \<Rightarrow> cstr" where
  "record_attrs r = ''{'' @ jfield ''id'' (quote @ m_id r @ quote) @ '','' @ jfield ''type'' (quote @ type_name (m_type r) @ quote)
     @ '','' @ jfield ''scope'' (quote @ m_scope r @ quote) @ '','' @ jfield ''status'' (quote @ status_name (m_status r) @ quote)
     @ '','' @ jfield ''importance'' (fmt3 (importance r)) @ '','' @ jfield ''confidence'' (fmt3 (confidence r))
     @ '','' @ jfield ''utility'' (fmt3 (utility r)) @ '','' @ jfield ''outcome'' (quote @ outcome_name (m_outcome r) @ quote)
     @ '','' @ jfield ''version'' (int_str (m_version r)) @ '','' @ jfield ''access_count'' (word_str (access_count r)) @ ''}''"

definition mem_records_json :: "mem_records \<Rightarrow> cstr" where
  "mem_records_json rs =
     ''['' @ concat (map (\<lambda>(i, r). (if 0 < i then '','' else []) @ record_attrs r) (enumerate 0 (elems (rs_items rs)))) @ '']''"

section \<open>Operations that succeed\<close>

datatype rec_op = R_put mem_record | R_del cstr

fun rec_apply :: "cstr list \<Rightarrow> rec_op \<Rightarrow> mem_records \<times> fsys \<Rightarrow> mem_records \<times> fsys" where
  "rec_apply ps (R_put r) (rs, fs) = snd (mem_records_put ps True True True rs r fs)"
| "rec_apply ps (R_del i) (rs, fs) = snd (mem_records_remove rs i fs)"

text \<open>What is stored of a record.\<close>

definition cleaned :: "cstr list \<Rightarrow> mem_record \<Rightarrow> mem_record" where
  "cleaned ps r = r\<lparr>m_content := map_option (\<lambda>c. the (secret_redact_ssh_passwords True ps c None)) (m_content r)\<rparr>"

primrec rec_spec :: "cstr list \<Rightarrow> (cstr \<Rightarrow> mem_record option) \<Rightarrow> rec_op list \<Rightarrow> cstr \<Rightarrow> mem_record option" where
  "rec_spec ps m [] = m"
| "rec_spec ps m (p # ops) =
     rec_spec ps (case p of R_put r \<Rightarrow> m(m_id r \<mapsto> cleaned ps r) | R_del i \<Rightarrow> m(i := None)) ops"

definition nul_free :: "cstr \<Rightarrow> bool" where
  "nul_free s \<longleftrightarrow> CHR 0x00 \<notin> set s"

definition storable :: "mem_record \<Rightarrow> bool" where
  "storable r \<longleftrightarrow> fm_record r \<and> CHR ''/'' \<notin> set (m_id r) \<and> m_content r \<noteq> None \<and>
     nul_free (m_id r) \<and> nul_free (m_title r) \<and> nul_free (m_scope r) \<and> nul_free (m_source r) \<and> nul_free (origin_id r) \<and>
     nul_free (evidence r) \<and> nul_free (the (m_content r))"

definition rec_path :: "cstr \<Rightarrow> cstr \<Rightarrow> cstr" where
  "rec_path dir i = dir @ ''/'' @ i @ ''.md''"

definition good_dir :: "cstr \<Rightarrow> bool" where
  "good_dir dir \<longleftrightarrow> dir \<noteq> [] \<and> last dir \<noteq> CHR ''/'' \<and> last dir \<noteq> CHR 0x5C \<and> length dir \<le> 511"

lemma records_path_eq:
  assumes "good_dir (rs_dir rs)" "length i < MEM_ID_MAX"
  shows "records_path rs i = rec_path (rs_dir rs) i"
proof -
  have "cbuf (MEM_ID_MAX + 8) (i @ ''.md'') = i @ ''.md''" using assms(2) by (intro cbuf_id) (simp add: MEM_ID_MAX_def)
  then show ?thesis
    using assms by (simp add: records_path_def path_join_def nonnull_or_def good_dir_def rec_path_def MEM_ID_MAX_def cbuf_id)
qed

text \<open>\<open>q\<close> names an entry directly below a directory.\<close>

definition entry_of :: "cstr \<Rightarrow> cstr \<Rightarrow> bool" where
  "entry_of dir q \<longleftrightarrow> below dir q \<and> drop (Suc (length dir)) q \<noteq> [] \<and> CHR ''/'' \<notin> set (drop (Suc (length dir)) q)"

text \<open>The directory holds exactly the files of the records in memory.\<close>

definition synced :: "mem_records \<Rightarrow> fsys \<Rightarrow> bool" where
  "synced rs fs \<longleftrightarrow>
     good_dir (rs_dir rs) \<and> distinct (map m_id (elems (rs_items rs))) \<and> vec_ok (rs_items rs) \<and>
     (\<forall>r \<in> set (elems (rs_items rs)). storable r \<and>
        fs_get fs (rec_path (rs_dir rs) (m_id r)) = Some (File (the (mem_record_to_md r)) True)) \<and>
     fs_is_dir fs (rs_dir rs) \<and> distinct (map fst (nodes fs)) \<and> (\<forall>p \<in> set (denied fs). \<not> below (rs_dir rs) p) \<and>
     (\<forall>q \<in> fst ` set (nodes fs). entry_of (rs_dir rs) q \<longrightarrow>
        (\<exists>r \<in> set (elems (rs_items rs)). q = rec_path (rs_dir rs) (m_id r)))"

section \<open>Records that can be stored\<close>

lemma redact_from_set: "set (redact_from t rep pos ms) \<subseteq> set t \<union> set rep"
  by (induction t rep pos ms rule: redact_from.induct) (auto dest: in_set_takeD in_set_dropD)

lemma redact_Some:
  "\<exists>out. secret_redact_ssh_passwords True ps c None = Some out \<and> (nul_free c \<longrightarrow> nul_free out)"
proof -
  have "secret_scan_ssh_passwords True ps c \<noteq> None" by (simp add: secret_scan_ssh_passwords_def Let_def)
  then obtain ms where ms: "secret_scan_ssh_passwords True ps c = Some ms" by blast
  have "CHR 0x00 \<notin> set ''[REDACTED:ssh_password]''" by simp
  with redact_from_set [of c "''[REDACTED:ssh_password]''" 0 ms] show ?thesis
    unfolding secret_redact_ssh_passwords_def ms nonnull_or_def nul_free_def by auto
qed

lemma cleaned_fields [simp]:
  "m_id (cleaned ps r) = m_id r" "m_content (cleaned ps r) = None \<longleftrightarrow> m_content r = None" "fm_record (cleaned ps r) = fm_record r"
  by (simp_all add: cleaned_def fm_record_def)

lemma storable_cleaned: "storable r \<Longrightarrow> storable (cleaned ps r)"
  using redact_Some [of ps "the (m_content r)"] by (auto simp: storable_def cleaned_def fm_record_def)

lemma nul_free_append [simp]: "nul_free (a @ b) \<longleftrightarrow> nul_free a \<and> nul_free b"
  by (auto simp: nul_free_def)

lemma nul_free_Cons [simp]: "nul_free []" "nul_free (c # s) \<longleftrightarrow> c \<noteq> CHR 0x00 \<and> nul_free s"
  by (auto simp: nul_free_def)

lemma nul_free_concat: "nul_free (concat xs) \<longleftrightarrow> (\<forall>x \<in> set xs. nul_free x)"
  by (auto simp: nul_free_def)

lemma nul_free_digits: "\<forall>c \<in> set v. c_digit c \<or> c = CHR ''.'' \<or> c = CHR ''-'' \<Longrightarrow> nul_free v"
  by (auto simp: nul_free_def c_digit_def byte_def)

lemma nul_free_numbers: "nul_free (fmt3 x)" "nul_free (int_str i)" "nul_free (word_str w)"
proof -
  show "nul_free (fmt3 x)"
    by (rule nul_free_digits) (auto simp: fmt3_def Let_def c_digit_nat_str split: if_splits)
  show "nul_free (int_str i)" by (rule nul_free_digits) (use int_str_chars in blast)
  show "nul_free (word_str w)" by (rule nul_free_digits) (use c_digit_nat_str in \<open>auto simp only: word_str_def\<close>)
qed

lemma nul_free_names:
  "nul_free (type_name t)" "nul_free (status_name s)" "nul_free (outcome_name u)"
proof -
  show "nul_free (type_name t)" by (cases t) (simp_all add: nul_free_def)
  show "nul_free (status_name s)" by (cases s) (simp_all add: nul_free_def)
  show "nul_free (outcome_name u)" by (cases u) (simp_all add: nul_free_def)
qed

lemma storable_md:
  assumes "storable r"
  obtains md where "mem_record_to_md r = Some md" "c_string md = md" "mem_record_from_md ne True md = Some (reread ne r)"
proof -
  obtain content where c: "m_content r = Some content" using assms by (auto simp: storable_def)
  obtain md where md: "mem_record_to_md r = Some md" "mem_record_from_md ne True md = Some (reread ne r)"
    using mem_record_roundtrip [OF _ c, of ne] assms by (auto simp: storable_def)
  have lit: "nul_free nl" "nul_free quote" by (simp_all add: nul_free_def nl_def quote_def)
  have b: "nul_free (body_text content)" using assms c lit by (simp add: storable_def body_text_def)
  have line: "nul_free (fm_line k v) \<longleftrightarrow> nul_free k \<and> nul_free v" for k v
    using lit by (simp add: fm_line_def)
  have "nul_free md"
    using md(1) assms c
    by (auto simp: mem_record_to_md_def storable_def line lit b nul_free_numbers nul_free_names
        split: if_splits)
  with md show ?thesis using that c_string_id unfolding nul_free_def by blast
qed

section \<open>Memory and directory stay in step\<close>

lemma find_Some_iff:
  "distinct (map m_id rs) \<Longrightarrow> List.find (\<lambda>r. m_id r = i) rs = Some r \<longleftrightarrow> r \<in> set rs \<and> m_id r = i"
  by (induction rs) (auto simp: rev_image_eqI)

lemma syncedD:
  assumes "synced rs fs"
  shows "good_dir (rs_dir rs)" "distinct (map m_id (elems (rs_items rs)))" "vec_ok (rs_items rs)"
    "\<And>r. r \<in> set (elems (rs_items rs)) \<Longrightarrow> storable r \<and>
        fs_get fs (rec_path (rs_dir rs) (m_id r)) = Some (File (the (mem_record_to_md r)) True)"
    "fs_is_dir fs (rs_dir rs)" "distinct (map fst (nodes fs))" "\<And>p. p \<in> set (denied fs) \<Longrightarrow> \<not> below (rs_dir rs) p"
    "\<And>q. q \<in> fst ` set (nodes fs) \<Longrightarrow> entry_of (rs_dir rs) q \<Longrightarrow>
        \<exists>r \<in> set (elems (rs_items rs)). q = rec_path (rs_dir rs) (m_id r)"
  using assms unfolding synced_def by blast+

lemma storable_id: "storable r \<Longrightarrow> length (m_id r) < MEM_ID_MAX \<and> m_id r \<noteq> [] \<and> CHR ''/'' \<notin> set (m_id r) \<and> m_content r \<noteq> None"
  by (auto simp: storable_def fm_record_def)

lemma rec_path_inj [simp]: "rec_path dir i = rec_path dir k \<longleftrightarrow> i = k"
  by (simp add: rec_path_def)

lemma below_rec_path [simp]: "below dir (rec_path dir i)" "rec_path dir i \<noteq> dir"
  by (simp_all add: below_def rec_path_def)

lemma nodes_put:
  "fst ` set (nodes (put_node p n fs)) = insert p (fst ` set (nodes fs))"
  "distinct (map fst (nodes fs)) \<Longrightarrow> distinct (map fst (nodes (put_node p n fs)))"
proof -
  show "fst ` set (nodes (put_node p n fs)) = insert p (fst ` set (nodes fs))"
    by (simp add: put_node_def update_conv' flip: dom_map_of_conv_image_fst)
qed (simp add: put_node_def distinct_update)

lemma nodes_del:
  "fst ` set (nodes (del_node p fs)) = fst ` set (nodes fs) - {p}"
  "distinct (map fst (nodes fs)) \<Longrightarrow> distinct (map fst (nodes (del_node p fs)))"
proof -
  show "fst ` set (nodes (del_node p fs)) = fst ` set (nodes fs) - {p}"
    by (simp add: del_node_def delete_conv' flip: dom_map_of_conv_image_fst)
qed (simp add: del_node_def delete_keys distinct_removeAll)

text \<open>The write of a record's file.\<close>

lemma put_persist_file:
  assumes "good_dir (rs_dir rs)" "storable r" "\<And>p. p \<in> set (denied fs) \<Longrightarrow> \<not> below (rs_dir rs) p"
    and "fs_get fs (rec_path (rs_dir rs) (m_id r)) = None \<or> (\<exists>b. fs_get fs (rec_path (rs_dir rs) (m_id r)) = Some (File b True))"
  shows "put_persist rs r fs =
    (0, rs, put_node (rec_path (rs_dir rs) (m_id r)) (File (the (mem_record_to_md r)) True) fs)"
proof -
  obtain md where md: "mem_record_to_md r = Some md" using storable_md [OF assms(2)] by metis
  have p: "records_path rs (m_id r) = rec_path (rs_dir rs) (m_id r)"
    using records_path_eq [OF assms(1)] storable_id [OF assms(2)] by simp
  have "rec_path (rs_dir rs) (m_id r) \<notin> set (denied fs)" using assms(3) below_rec_path(1) by blast
  with assms(4) show ?thesis by (auto simp: put_persist_def md p fs_write_file_def)
qed

text \<open>In a synced directory the file of a record can be written.\<close>

lemma synced_persist:
  assumes s: "synced rs fs" and r: "storable r"
  shows "put_persist (rs\<lparr>rs_items := v\<rparr>) r fs =
    (0, rs\<lparr>rs_items := v\<rparr>, put_node (rec_path (rs_dir rs) (m_id r)) (File (the (mem_record_to_md r)) True) fs)"
proof -
  note d = syncedD [OF s]
  have nf: "fs_get fs (rec_path (rs_dir rs) (m_id r)) = None \<or> (\<exists>b. fs_get fs (rec_path (rs_dir rs) (m_id r)) = Some (File b True))"
  proof (cases "rec_path (rs_dir rs) (m_id r) \<in> fst ` set (nodes fs)")
    case True
    have "entry_of (rs_dir rs) (rec_path (rs_dir rs) (m_id r))"
      using storable_id [OF r] by (simp add: entry_of_def) (simp add: rec_path_def)
    from d(8) [OF True this] d(4) show ?thesis by auto
  next
    case False
    then show ?thesis by (simp add: fs_get_def map_of_eq_None_iff)
  qed
  then show ?thesis using put_persist_file [of "rs\<lparr>rs_items := v\<rparr>" r fs] d(1,7) r by simp
qed

lemma synced_put_node:
  assumes s: "synced rs fs" and r: "storable r" and v: "vec_ok v" "distinct (map m_id (elems v))"
    and e: "set (elems v) = insert r (set (elems (rs_items rs)) - {x. m_id x = m_id r})"
  shows "synced (rs\<lparr>rs_items := v\<rparr>) (put_node (rec_path (rs_dir rs) (m_id r)) (File (the (mem_record_to_md r)) True) fs)"
    (is "synced _ ?fs")
proof -
  note d = syncedD [OF s]
  have q: "\<exists>x \<in> set (elems v). q = rec_path (rs_dir rs) (m_id x)"
    if "q \<in> fst ` set (nodes ?fs)" "entry_of (rs_dir rs) q" for q
  proof (cases "q = rec_path (rs_dir rs) (m_id r)")
    case True
    then show ?thesis using e by auto
  next
    case False
    then have "q \<in> fst ` set (nodes fs)" using that(1) by (simp add: nodes_put)
    from d(8) [OF this that(2)] obtain x where "x \<in> set (elems (rs_items rs))" "q = rec_path (rs_dir rs) (m_id x)" by blast
    moreover from this False have "m_id x \<noteq> m_id r" by auto
    ultimately show ?thesis using e by auto
  qed
  have f: "fs_get ?fs (rec_path (rs_dir rs) (m_id x)) = Some (File (the (mem_record_to_md x)) True)" "storable x"
    if "x \<in> set (elems v)" for x
  proof -
    from that e consider "x = r" | "x \<in> set (elems (rs_items rs))" "m_id x \<noteq> m_id r" by auto
    then show "fs_get ?fs (rec_path (rs_dir rs) (m_id x)) = Some (File (the (mem_record_to_md x)) True)" "storable x"
      using d(4) r by (cases; simp)+
  qed
  have dir: "fs_is_dir ?fs (rs_dir rs)" using d(5) by (simp add: fs_is_dir_def not_sym [OF below_rec_path(2)])
  show ?thesis
    unfolding synced_def using d(1,6,7) v f q dir nodes_put(2) by simp
qed

lemma synced_put:
  assumes s: "synced rs fs" and r: "storable r"
  shows "synced (fst (rec_apply ps (R_put r) (rs, fs))) (snd (rec_apply ps (R_put r) (rs, fs))) \<and>
    rs_dir (fst (rec_apply ps (R_put r) (rs, fs))) = rs_dir rs \<and>
    mem_records_find (fst (rec_apply ps (R_put r) (rs, fs))) = (mem_records_find rs)(m_id r \<mapsto> cleaned ps r)"
proof -
  let ?c = "cleaned ps r" and ?xs = "elems (rs_items rs)"
  let ?fs = "put_node (rec_path (rs_dir rs) (m_id r)) (File (the (mem_record_to_md ?c)) True) fs"
  note d = syncedD [OF s] and sc = storable_cleaned [OF r, of ps]
  have pp: "put_persist (rs\<lparr>rs_items := v\<rparr>) ?c fs = (0, rs\<lparr>rs_items := v\<rparr>, ?fs)" for v
    using synced_persist [OF s sc] by simp
  have ap: "rec_apply ps (R_put r) (rs, fs) = snd (mem_records_put_impl True True rs ?c fs)"
    using storable_id [OF r] redact_Some [of ps "the (m_content r)"]
    by (auto simp: mem_records_put_def cleaned_def)
  obtain v where v: "snd (mem_records_put_impl True True rs ?c fs) = (rs\<lparr>rs_items := v\<rparr>, ?fs)" "vec_ok v"
    "distinct (map m_id (elems v))" "set (elems v) = insert ?c (set ?xs - {x. m_id x = m_id r})"
  proof (cases "record_index rs (m_id r)")
    case None
    then have "\<forall>x \<in> set ?xs. m_id x \<noteq> m_id r" by (simp add: record_index_def find_index_None_iff)
    moreover have "vec_ok ((if length ?xs = vcap (rs_items rs) then (rs_items rs)\<lparr>vcap := grow_cap 16 (vcap (rs_items rs))\<rparr>
        else rs_items rs)\<lparr>elems := ?xs @ [?c]\<rparr>)"
      using d(3) by (auto simp: vec_ok_def grow_cap_def)
    ultimately show ?thesis
      using None d(2) storable_id [OF sc]
      by (intro that [of "(if length ?xs = vcap (rs_items rs) then (rs_items rs)\<lparr>vcap := grow_cap 16 (vcap (rs_items rs))\<rparr>
        else rs_items rs)\<lparr>elems := ?xs @ [?c]\<rparr>"]) (auto simp: mem_records_put_impl_def Let_def pp)
  next
    case (Some k)
    then have k: "k < length ?xs" "m_id (?xs ! k) = m_id r" by (auto simp: record_index_def dest: find_index_SomeD)
    have ids: "map m_id (?xs[k := ?c]) = map m_id ?xs" using k by (metis cleaned_fields(1) list_update_id map_update)
    have "x \<in> set (?xs[k := ?c]) \<longleftrightarrow> x = ?c \<or> x \<in> set ?xs \<and> m_id x \<noteq> m_id r" for x
    proof -
      have "m_id (?xs ! l) = m_id r \<longleftrightarrow> l = k" if "l < length ?xs" for l
        using d(2) k that by (metis length_map nth_eq_iff_index_eq nth_map)
      then show ?thesis using k by (fastforce simp: in_set_conv_nth nth_list_update)
    qed
    then have "set (?xs[k := ?c]) = insert ?c (set ?xs - {x. m_id x = m_id r})" by blast
    then show ?thesis
      using Some d(2,3) ids storable_id [OF sc]
      by (intro that [of "(rs_items rs)\<lparr>elems := ?xs[k := ?c]\<rparr>"])
        (auto simp: mem_records_put_impl_def vec_ok_def pp)
  qed
  have "synced (rs\<lparr>rs_items := v\<rparr>) ?fs" using synced_put_node [OF s sc v(2,3)] v(4) by simp
  moreover have "mem_records_find (rs\<lparr>rs_items := v\<rparr>) = (mem_records_find rs)(m_id r \<mapsto> ?c)"
  proof
    fix i
    have "mem_records_find (rs\<lparr>rs_items := v\<rparr>) i = Some x \<longleftrightarrow> ((mem_records_find rs)(m_id r \<mapsto> ?c)) i = Some x" for x
      using v(4) by (auto simp: mem_records_find_def find_Some_iff [OF v(3)] find_Some_iff [OF d(2)])
    then show "mem_records_find (rs\<lparr>rs_items := v\<rparr>) i = ((mem_records_find rs)(m_id r \<mapsto> ?c)) i"
      by (metis not_None_eq)
  qed
  ultimately show ?thesis using ap v(1) by auto
qed

lemma put_succeeds:
  assumes s: "synced rs fs" and r: "storable r"
  shows "fst (mem_records_put ps True True True rs r fs) = 0"
proof -
  have "fst (mem_records_put ps True True True rs r fs) = fst (mem_records_put_impl True True rs (cleaned ps r) fs)"
    using storable_id [OF r] redact_Some [of ps "the (m_content r)"] by (auto simp: mem_records_put_def cleaned_def)
  also have "\<dots> = 0"
    using synced_persist [OF s storable_cleaned [OF r, of ps]] storable_id [OF storable_cleaned [OF r, of ps]]
    by (auto simp: mem_records_put_impl_def Let_def split: option.split)
  finally show ?thesis .
qed

lemma synced_del:
  assumes s: "synced rs fs" and i: "length i < MEM_ID_MAX"
  shows "synced (fst (rec_apply ps (R_del i) (rs, fs))) (snd (rec_apply ps (R_del i) (rs, fs))) \<and>
    rs_dir (fst (rec_apply ps (R_del i) (rs, fs))) = rs_dir rs \<and>
    mem_records_find (fst (rec_apply ps (R_del i) (rs, fs))) = (mem_records_find rs)(i := None)"
proof (cases "record_index rs i")
  case None
  then have "\<forall>x \<in> set (elems (rs_items rs)). m_id x \<noteq> i" by (simp add: record_index_def find_index_None_iff)
  then have "mem_records_find rs i = None" by (auto simp: mem_records_find_def find_None_iff)
  with s None show ?thesis by (simp add: mem_records_remove_def fun_upd_idem)
next
  case (Some k)
  let ?xs = "elems (rs_items rs)"
  let ?p = "rec_path (rs_dir rs) i" and ?v = "(rs_items rs)\<lparr>elems := remove_at k ?xs\<rparr>"
  note d = syncedD [OF s]
  have k: "k < length ?xs" "m_id (?xs ! k) = i" using Some by (auto simp: record_index_def dest: find_index_SomeD)
  have dm: "distinct (map m_id (remove_at k ?xs))" using d(2) by (simp add: map_remove_at distinct_remove_at)
  have "distinct ?xs" using d(2) by (simp add: distinct_map)
  then have e: "set (remove_at k ?xs) = set ?xs - {?xs ! k}" using k(1) by (rule set_remove_at_distinct)
  have "x = ?xs ! k \<longleftrightarrow> m_id x = i" if "x \<in> set ?xs" for x
    using that d(2) k by (metis distinct_map inj_on_eq_iff nth_mem)
  with e have e': "set (remove_at k ?xs) = {x \<in> set ?xs. m_id x \<noteq> i}" by auto
  have f: "\<exists>b. fs_get fs ?p = Some (File b True)" using d(4) [OF nth_mem [OF k(1)]] k(2) by auto
  have nd: "?p \<notin> set (denied fs)" using d(7) below_rec_path(1) by blast
  have rem: "rec_apply ps (R_del i) (rs, fs) = (rs\<lparr>rs_items := ?v\<rparr>, del_node ?p fs)"
    using Some f nd records_path_eq [OF d(1) i] i
    by (auto simp: mem_records_remove_def cbuf_id fs_remove_def)
  have q: "\<exists>x \<in> set (elems ?v). q = rec_path (rs_dir rs) (m_id x)"
    if "q \<in> fst ` set (nodes (del_node ?p fs))" "entry_of (rs_dir rs) q" for q
  proof -
    have "q \<in> fst ` set (nodes fs)" "q \<noteq> ?p" using that(1) by (auto simp: nodes_del)
    with d(8) [OF this(1) that(2)] e' show ?thesis by auto
  qed
  have "synced (rs\<lparr>rs_items := ?v\<rparr>) (del_node ?p fs)"
    unfolding synced_def
    using d(1,3,4,5,6,7) dm e' q nodes_del(2) k(1)
    by (auto simp: vec_ok_def length_remove_at fs_is_dir_def not_sym [OF below_rec_path(2)])
  moreover have "mem_records_find (rs\<lparr>rs_items := ?v\<rparr>) = (mem_records_find rs)(i := None)"
  proof
    fix l
    have "mem_records_find (rs\<lparr>rs_items := ?v\<rparr>) l = Some x \<longleftrightarrow> ((mem_records_find rs)(i := None)) l = Some x" for x
      using e' by (auto simp: mem_records_find_def find_Some_iff [OF dm] find_Some_iff [OF d(2)])
    then show "mem_records_find (rs\<lparr>rs_items := ?v\<rparr>) l = ((mem_records_find rs)(i := None)) l"
      by (metis not_None_eq)
  qed
  ultimately show ?thesis using rem by simp
qed

section \<open>Opening the store\<close>

lemma update_fresh: "k \<notin> fst ` set xs \<Longrightarrow> AList.update k v xs = xs @ [(k, v)]"
  by (induction xs) auto

lemma mkdir_nodes:
  "mkdir p fs = (b, fs') \<Longrightarrow> denied fs' = denied fs \<and> (nodes fs' = nodes fs \<or> nodes fs' = nodes fs @ [(p, Dir 4096)])"
  by (auto simp: mkdir_def fs_exists_def fs_get_def put_node_def map_of_eq_None_iff update_fresh split: if_splits)

lemma mkdir_steps_nodes:
  "mkdir_steps ps fs = (rc, fs') \<Longrightarrow>
   denied fs' = denied fs \<and> (\<exists>ds. nodes fs' = nodes fs @ map (\<lambda>d. (d, Dir 4096)) ds \<and> set ds \<subseteq> set ps)"
proof (induction ps arbitrary: fs)
  case Nil
  then show ?case by (auto intro: exI [of _ "[]"])
next
  case (Cons p ps)
  obtain b fs1 where m: "mkdir p fs = (b, fs1)" by fastforce
  note n = mkdir_nodes [OF m]
  obtain ds where ds: "nodes fs1 = nodes fs @ map (\<lambda>d. (d, Dir 4096)) ds" "set ds \<subseteq> {p}"
    using n by (cases "nodes fs1 = nodes fs") (auto intro: that [of "[]"] that [of "[p]"])
  show ?case
  proof (cases b)
    case True
    with Cons m obtain es where "denied fs' = denied fs1" "nodes fs' = nodes fs1 @ map (\<lambda>d. (d, Dir 4096)) es" "set es \<subseteq> set ps"
      by auto
    with n ds show ?thesis by (intro conjI exI [of _ "ds @ es"]) auto
  next
    case False
    with Cons.prems m n ds show ?thesis by (intro conjI exI [of _ ds]) auto
  qed
qed

lemma map_filter_append: "List.map_filter f (xs @ ys) = List.map_filter f xs @ List.map_filter f ys"
  by (simp add: List.map_filter_def)

lemma in_map_filter: "e \<in> set (List.map_filter f xs) \<longleftrightarrow> (\<exists>x \<in> set xs. f x = Some e)"
  by (induction xs) (auto simp: List.map_filter_simps split: option.split)

lemma map_filter_Nil: "List.map_filter f xs = [] \<longleftrightarrow> (\<forall>x \<in> set xs. f x = None)"
  by (induction xs) (auto simp: List.map_filter_simps split: option.split)

lemma not_below_shorter: "length d \<le> length dir \<Longrightarrow> \<not> below dir d"
  by (auto simp: below_def dest: arg_cong [of _ _ length])

text \<open>Making the directory of an open store again changes no file and no listing.\<close>

lemma mkdirs_again:
  assumes "fs_is_dir fs dir"
  shows "fs_list_dir (snd (fs_mkdirs dir fs)) dir = fs_list_dir fs dir"
    and "fs_get fs p \<noteq> None \<Longrightarrow> fs_get (snd (fs_mkdirs dir fs)) p = fs_get fs p"
proof -
  have "\<exists>ds. nodes (snd (fs_mkdirs dir fs)) = nodes fs @ map (\<lambda>d. (d, Dir 4096)) ds \<and> (\<forall>d \<in> set ds. length d \<le> length dir)"
  proof (cases "cbuf 1024 dir = []")
    case True
    then show ?thesis by (simp add: fs_mkdirs_def)
  next
    case False
    obtain rc fs' where m: "fs_mkdirs dir fs = (rc, fs')" by fastforce
    with False have "mkdir_steps (map (\<lambda>i. take i (cbuf 1024 dir)) (filter (\<lambda>i. cbuf 1024 dir ! i = CHR ''/'')
        [1..<length (cbuf 1024 dir)]) @ [cbuf 1024 dir]) fs = (rc, fs')" by (simp add: fs_mkdirs_def Let_def)
    from mkdir_steps_nodes [OF this] obtain ds where ds: "nodes fs' = nodes fs @ map (\<lambda>d. (d, Dir 4096)) ds"
      "set ds \<subseteq> set (map (\<lambda>i. take i (cbuf 1024 dir)) (filter (\<lambda>i. cbuf 1024 dir ! i = CHR ''/'')
        [1..<length (cbuf 1024 dir)]) @ [cbuf 1024 dir])" by blast
    have "\<forall>d \<in> set ds. length d \<le> length dir" using ds(2) by (auto simp: cbuf_def)
    with ds(1) m show ?thesis by auto
  qed
  then obtain ds where ds: "nodes (snd (fs_mkdirs dir fs)) = nodes fs @ map (\<lambda>d. (d, Dir 4096)) ds"
    "\<forall>d \<in> set ds. length d \<le> length dir" by blast
  show g: "fs_get (snd (fs_mkdirs dir fs)) p = fs_get fs p" if "fs_get fs p \<noteq> None" for p
    using that ds(1) by (auto simp: fs_get_def map_add_def split: option.split)
  have "fs_get fs dir \<noteq> None" using assms by (cases "fs_get fs dir") (simp_all add: fs_is_dir_def)
  from g [OF this] have "fs_is_dir (snd (fs_mkdirs dir fs)) dir" using assms by (simp add: fs_is_dir_def)
  moreover have "List.map_filter (\<lambda>(q, n). let r = drop (Suc (length dir)) q in
        if below dir q \<and> r \<noteq> [] \<and> CHR ''/'' \<notin> set r then Some (r, node_is_dir (Some n)) else None)
      (map (\<lambda>d. (d, Dir 4096)) ds) = []"
    using ds(2) by (auto simp: List.map_filter_def filter_empty_conv not_below_shorter)
  ultimately show "fs_list_dir (snd (fs_mkdirs dir fs)) dir = fs_list_dir fs dir"
    using assms by (simp add: fs_list_dir_def ds(1) map_filter_append)
qed

lemma distinct_map_filter_key:
  "distinct (map fst xs) \<Longrightarrow> (\<And>x e. f x = Some e \<Longrightarrow> x \<in> set xs \<Longrightarrow> g e = fst x) \<Longrightarrow> distinct (List.map_filter f xs)"
proof (induction xs)
  case (Cons x xs)
  then have d: "distinct (List.map_filter f xs)" by auto
  show ?case
  proof (cases "f x")
    case None
    with d show ?thesis by (simp add: List.map_filter_simps)
  next
    case (Some e)
    have "e \<notin> set (List.map_filter f xs)"
    proof
      assume "e \<in> set (List.map_filter f xs)"
      then obtain y where "y \<in> set xs" "f y = Some e" by (auto simp: in_map_filter)
      with Cons.prems(2) [of y e] Cons.prems(2) [OF Some] Cons.prems(1) show False by force
    qed
    with d Some show ?thesis by (simp add: List.map_filter_simps)
  qed
qed (simp add: List.map_filter_simps)


text \<open>What the loop over the directory makes of a synced directory.\<close>

lemma load_entry_synced:
  assumes s: "synced rs fs" and x: "x \<in> set (elems (rs_items rs))"
    and g: "\<And>p. fs_get fs p \<noteq> None \<Longrightarrow> fs_get fs' p = fs_get fs p" and dir: "rs_dir rs0 = rs_dir rs"
  shows "\<exists>rs1. load_entry ne (\<lambda>_. True) (\<lambda>_. True) fs' (m_id x @ ''.md'', False) rs0 = rs1 \<and> rs_dir rs1 = rs_dir rs \<and>
     elems (rs_items rs1) = elems (rs_items rs0) @ [reread ne x]"
proof -
  note d = syncedD [OF s]
  have st: "storable x" and f: "fs_get fs (rec_path (rs_dir rs) (m_id x)) = Some (File (the (mem_record_to_md x)) True)"
    using d(4) [OF x] by auto
  obtain md where md: "mem_record_to_md x = Some md" "c_string md = md" "mem_record_from_md ne True md = Some (reread ne x)"
    by (rule storable_md [OF st])
  have "path_join 1024 (Some (rs_dir rs)) (Some (m_id x @ ''.md'')) = rec_path (rs_dir rs) (m_id x)"
    using d(1) storable_id [OF st]
    by (simp add: path_join_def nonnull_or_def good_dir_def rec_path_def MEM_ID_MAX_def cbuf_id)
  moreover have "fs_read_file fs' (rec_path (rs_dir rs) (m_id x)) = Some md"
    using g [of "rec_path (rs_dir rs) (m_id x)"] f md(1) by (simp add: fs_read_file_def)
  moreover obtain v where v: "vec_push 16 True (reread ne x) (rs_items rs0) = Some v"
    using vec_push_ok_Some [of 16 "reread ne x" "rs_items rs0"] by blast
  moreover have "4 \<le> length (m_id x @ ''.md'')" using storable_id [OF st] by (cases "m_id x") auto
  ultimately show ?thesis
    using md(2,3) dir vec_push_elems [OF v] storable_id [OF st] by (simp add: load_entry_def)
qed

lemma load_entries_synced:
  assumes s: "synced rs fs" and g: "\<And>p. fs_get fs p \<noteq> None \<Longrightarrow> fs_get fs' p = fs_get fs p"
    and e: "\<forall>e \<in> set es. \<exists>x \<in> set (elems (rs_items rs)). e = (m_id x @ ''.md'', False)" and dir: "rs_dir rs0 = rs_dir rs"
  shows "\<exists>ys. elems (rs_items (fold (load_entry ne (\<lambda>_. True) (\<lambda>_. True) fs') es rs0)) = elems (rs_items rs0) @ map (reread ne) ys \<and>
     map (\<lambda>x. (m_id x @ ''.md'', False)) ys = es \<and> set ys \<subseteq> set (elems (rs_items rs))"
  using e dir
proof (induction es arbitrary: rs0)
  case (Cons e es)
  then obtain x where x: "x \<in> set (elems (rs_items rs))" "e = (m_id x @ ''.md'', False)" by auto
  from load_entry_synced [OF s x(1) g Cons.prems(2), of ne] obtain rs1 where
    rs1: "load_entry ne (\<lambda>_. True) (\<lambda>_. True) fs' e rs0 = rs1" "rs_dir rs1 = rs_dir rs"
      "elems (rs_items rs1) = elems (rs_items rs0) @ [reread ne x]" using x(2) by auto
  from Cons.IH [OF _ rs1(2)] Cons.prems(1) obtain ys where
    "elems (rs_items (fold (load_entry ne (\<lambda>_. True) (\<lambda>_. True) fs') es rs1)) = elems (rs_items rs1) @ map (reread ne) ys"
    "map (\<lambda>x. (m_id x @ ''.md'', False)) ys = es" "set ys \<subseteq> set (elems (rs_items rs))" by auto
  with rs1 x show ?case by (intro exI [of _ "x # ys"]) simp
qed simp

lemma synced_listing:
  assumes "synced rs fs"
  obtains es where "fs_list_dir fs (rs_dir rs) = Some es" "distinct es"
    "set es = (\<lambda>x. (m_id x @ ''.md'', False)) ` set (elems (rs_items rs))"
proof -
  note d = syncedD [OF assms]
  let ?dir = "rs_dir rs" and ?f = "\<lambda>(q, n). let r = drop (Suc (length (rs_dir rs))) q in
      if below (rs_dir rs) q \<and> r \<noteq> [] \<and> CHR ''/'' \<notin> set r then Some (r, node_is_dir (Some n)) else None"
  define es where "es = List.map_filter ?f (nodes fs)"
  have "q = ?dir @ ''/'' @ drop (Suc (length ?dir)) q" if "below ?dir q" for q
    using that append_take_drop_id [of "Suc (length ?dir)" q] by (simp add: below_def)
  then have "distinct es"
    unfolding es_def by (intro distinct_map_filter_key [OF d(6), of _ "\<lambda>e. ?dir @ ''/'' @ fst e"]) (auto simp: Let_def split: if_splits)
  moreover have "e \<in> set es \<longleftrightarrow> e \<in> (\<lambda>x. (m_id x @ ''.md'', False)) ` set (elems (rs_items rs))" for e
  proof
    assume "e \<in> set es"
    then obtain q n where q: "(q, n) \<in> set (nodes fs)" "entry_of ?dir q" "e = (drop (Suc (length ?dir)) q, node_is_dir (Some n))"
      by (auto simp: es_def in_map_filter entry_of_def Let_def split: if_splits)
    from d(8) [OF _ q(2)] q(1) obtain x where x: "x \<in> set (elems (rs_items rs))" "q = rec_path ?dir (m_id x)" by force
    have "fs_get fs q = Some n" using q(1) d(6) by (simp add: fs_get_def)
    with d(4) [OF x(1)] x(2) have "n = File (the (mem_record_to_md x)) True" by simp
    with q(3) x show "e \<in> (\<lambda>x. (m_id x @ ''.md'', False)) ` set (elems (rs_items rs))" by (auto simp: rec_path_def)
  next
    assume "e \<in> (\<lambda>x. (m_id x @ ''.md'', False)) ` set (elems (rs_items rs))"
    then obtain x where x: "x \<in> set (elems (rs_items rs))" "e = (m_id x @ ''.md'', False)" by blast
    from d(4) [OF x(1)] have "(rec_path ?dir (m_id x), File (the (mem_record_to_md x)) True) \<in> set (nodes fs)"
      by (auto simp: fs_get_def dest: map_of_SomeD)
    moreover have "?f (rec_path ?dir (m_id x), File (the (mem_record_to_md x)) True) = Some e"
      using storable_id d(4) [OF x(1)] x(2) by (auto simp: Let_def) (auto simp: rec_path_def)
    ultimately show "e \<in> set es" unfolding es_def in_map_filter by blast
  qed
  moreover have "fs_list_dir fs ?dir = Some es" using d(5) by (simp add: fs_list_dir_def es_def)
  ultimately show ?thesis using that by blast
qed


lemma rec_apply_synced:
  assumes "synced rs fs" "case p of R_put r \<Rightarrow> storable r | R_del i \<Rightarrow> length i < MEM_ID_MAX" "rec_apply ps p (rs, fs) = (rs', fs')"
  shows "synced rs' fs' \<and> rs_dir rs' = rs_dir rs \<and>
    mem_records_find rs' = (case p of R_put r \<Rightarrow> (mem_records_find rs)(m_id r \<mapsto> cleaned ps r) | R_del i \<Rightarrow> (mem_records_find rs)(i := None))"
proof (cases p)
  case (R_put r)
  with assms(2,3) synced_put [OF assms(1), of r ps] show ?thesis by (simp del: rec_apply.simps)
next
  case (R_del i)
  with assms(2,3) synced_del [OF assms(1), of i ps] show ?thesis by (simp del: rec_apply.simps)
qed

lemma rec_ops_synced:
  assumes "synced rs fs" "\<forall>p \<in> set ops. case p of R_put r \<Rightarrow> storable r | R_del i \<Rightarrow> length i < MEM_ID_MAX"
    and "fold (rec_apply ps) ops (rs, fs) = (rs', fs')"
  shows "synced rs' fs' \<and> rs_dir rs' = rs_dir rs \<and> mem_records_find rs' = rec_spec ps (mem_records_find rs) ops"
  using assms
proof (induction ops arbitrary: rs fs)
  case (Cons p ops)
  obtain rs1 fs1 where p: "rec_apply ps p (rs, fs) = (rs1, fs1)" by fastforce
  have "case p of R_put r \<Rightarrow> storable r | R_del i \<Rightarrow> length i < MEM_ID_MAX" using Cons.prems(2) by simp
  from rec_apply_synced [OF Cons.prems(1) this p] Cons.IH [of rs1 fs1] Cons.prems(2,3) p
  show ?case by simp
qed simp

lemma load_entries_dir: "rs_dir (fold (load_entry ne ok grow fs) es rs) = rs_dir rs"
  by (induction es arbitrary: rs) (auto simp: load_entry_def split: prod.split option.split)

lemma reopen_find:
  assumes s: "synced rs fs" and dir: "rs_dir rs = path_join 512 base (Some ''records'')" and b: "nonnull_or [] base \<noteq> []"
    and n: "mem_records_new ne (\<lambda>_. True) (\<lambda>_. True) fs base = (Some rs', fs')"
  shows "mem_records_find rs' = (\<lambda>i. map_option (reread ne) (mem_records_find rs i))"
proof -
  note d = syncedD [OF s]
  let ?rs0 = "\<lparr>rs_dir = rs_dir rs, rs_items = vec_new\<rparr>" and ?fs = "snd (fs_mkdirs (rs_dir rs) fs)"
  obtain es where es: "fs_list_dir fs (rs_dir rs) = Some es" "distinct es"
    "set es = (\<lambda>x. (m_id x @ ''.md'', False)) ` set (elems (rs_items rs))" by (rule synced_listing [OF s])
  have rs': "rs' = fold (load_entry ne (\<lambda>_. True) (\<lambda>_. True) ?fs) es ?rs0"
    using n b mkdirs_again(1) [OF d(5)] es(1) by (auto simp: mem_records_new_def Let_def simp flip: dir)
  obtain ys where ys: "elems (rs_items rs') = map (reread ne) ys" "map (\<lambda>x. (m_id x @ ''.md'', False)) ys = es"
    "set ys \<subseteq> set (elems (rs_items rs))"
    using load_entries_synced [OF s mkdirs_again(2) [OF d(5)], of es ?rs0 ne] es(3) rs' by auto
  have "distinct (map (\<lambda>x. (m_id x @ ''.md'', False)) ys)" using ys(2) es(2) by simp
  then have dy: "distinct (map m_id ys)" by (auto simp: distinct_map inj_on_def)
  have "set (elems (rs_items rs)) \<subseteq> set ys"
  proof
    fix x assume x: "x \<in> set (elems (rs_items rs))"
    then have "(m_id x @ ''.md'', False) \<in> set (map (\<lambda>x. (m_id x @ ''.md'', False)) ys)" using ys(2) es(3) by simp
    then obtain y where y: "y \<in> set ys" "m_id y = m_id x" by auto
    with x ys(3) d(2) have "y = x" by (auto simp: distinct_map dest: inj_onD)
    with y show "x \<in> set ys" by simp
  qed
  with ys(3) have sy: "set ys = set (elems (rs_items rs))" by blast
  have mid: "m_id (reread ne x) = m_id x" for x by (simp add: reread_def)
  then have dr: "distinct (map m_id (elems (rs_items rs')))" using dy ys(1) by (simp add: o_def)
  show ?thesis
  proof
    fix i
    have "mem_records_find rs' i = Some z \<longleftrightarrow> z \<in> reread ne ` set (elems (rs_items rs)) \<and> m_id z = i" for z
      by (simp add: mem_records_find_def find_Some_iff [OF dr]) (simp add: ys(1) sy)
    moreover have "mem_records_find rs i = Some x \<longleftrightarrow> x \<in> set (elems (rs_items rs)) \<and> m_id x = i" for x
      by (simp add: mem_records_find_def find_Some_iff [OF d(2)])
    ultimately have "mem_records_find rs' i = Some z \<longleftrightarrow> map_option (reread ne) (mem_records_find rs i) = Some z" for z
      using mid by auto
    then show "mem_records_find rs' i = map_option (reread ne) (mem_records_find rs i)" by (metis not_None_eq)
  qed
qed

text \<open>C22: from an empty directory on, after any sequence of insertions and removals the store finds what
  the finite map of these operations holds, each record with its known passwords redacted, and a store opened anew on the
  directory finds the same records, as the frontmatter renders them.\<close>

theorem mem_records_reopen:
  assumes "mem_records_new ne (\<lambda>_. True) (\<lambda>_. True) fs0 base = (Some rs0, fs1)" "good_dir (rs_dir rs0)"
    and "fs_list_dir fs1 (rs_dir rs0) = Some []" "distinct (map fst (nodes fs1))" "\<forall>p \<in> set (denied fs1). \<not> below (rs_dir rs0) p"
    and "\<forall>p \<in> set ops. case p of R_put r \<Rightarrow> storable r | R_del i \<Rightarrow> length i < MEM_ID_MAX"
    and "fold (rec_apply ps) ops (rs0, fs1) = (rs, fs)"
    and "mem_records_new ne (\<lambda>_. True) (\<lambda>_. True) fs base = (Some rs', fs')"
  shows "mem_records_find rs = rec_spec ps Map.empty ops \<and>
    mem_records_find rs' = (\<lambda>i. map_option (reread ne) (rec_spec ps Map.empty ops i))"
proof -
  have b: "nonnull_or [] base \<noteq> []" using assms(1) by (auto simp: mem_records_new_def split: if_splits)
  have dir: "rs_dir rs0 = path_join 512 base (Some ''records'')"
    using assms(1) b by (auto simp: mem_records_new_def Let_def load_entries_dir split: option.splits)
  then have it: "rs_items rs0 = vec_new"
    using assms(1,3) b by (auto simp: mem_records_new_def Let_def simp flip: dir) (metis mem_records.select_convs(2))
  have "\<not> entry_of (rs_dir rs0) q" if "q \<in> fst ` set (nodes fs1)" for q
  proof
    assume q: "entry_of (rs_dir rs0) q"
    from that obtain n where "(q, n) \<in> set (nodes fs1)" by force
    with q show False
      using assms(3) by (auto simp: fs_list_dir_def entry_of_def map_filter_Nil Let_def split: if_splits)
  qed
  moreover have "fs_is_dir fs1 (rs_dir rs0)" using assms(3) by (simp add: fs_list_dir_def split: if_splits)
  ultimately have s0: "synced rs0 fs1" using assms(2,4,5) by (auto simp: synced_def it)
  have f0: "mem_records_find rs0 = Map.empty" by (simp add: mem_records_find_def it fun_eq_iff)
  from rec_ops_synced [OF s0 assms(6,7)] f0
  have s: "synced rs fs" "rs_dir rs = rs_dir rs0" "mem_records_find rs = rec_spec ps Map.empty ops" by auto
  from reopen_find [OF s(1) _ b assms(8)] dir s(2,3) show ?thesis by simp
qed

section \<open>Witnesses\<close>

definition demo_ne :: num_env where
  "demo_ne = \<lparr>ne_fl = (\<lambda>x. x), ne_other = (\<lambda>_. 0), ne_ov = (\<lambda>_. 0)\<rparr>"

definition demo_record :: mem_record where
  "demo_record = mem_record_zero\<lparr>m_id := ''mem_1'', m_title := ''t'', m_version := 1, m_content := Some ''pw''\<rparr>"

lemma demo_storable: "storable demo_record"
  by (simp add: storable_def fm_record_def demo_record_def mem_record_zero_def fm_value_def nul_free_def mem_limits int_limits)

lemma mem_records_reopen_witness:
  "\<exists>rs fs rs' fs'. fold (rec_apply []) [R_put demo_record] (\<lparr>rs_dir = ''s/records'', rs_items = vec_new\<rparr>,
       \<lparr>nodes = [(''s'', Dir 4096), (''s/records'', Dir 4096)], denied = []\<rparr>) = (rs, fs) \<and>
     mem_records_new demo_ne (\<lambda>_. True) (\<lambda>_. True) fs (Some ''s'') = (Some rs', fs') \<and>
     mem_records_find rs' ''mem_1'' = Some (reread demo_ne (cleaned [] demo_record))"
proof -
  let ?fs0 = "\<lparr>nodes = [], denied = []\<rparr> :: fsys"
  let ?rs0 = "\<lparr>rs_dir = ''s/records'', rs_items = vec_new\<rparr>" and ?fs1 = "\<lparr>nodes = [(''s'', Dir 4096), (''s/records'', Dir 4096)], denied = []\<rparr>"
  have n: "mem_records_new demo_ne (\<lambda>_. True) (\<lambda>_. True) ?fs0 (Some ''s'') = (Some ?rs0, ?fs1)"
    by code_simp
  have e: "good_dir (rs_dir ?rs0)" "fs_list_dir ?fs1 (rs_dir ?rs0) = Some []" "distinct (map fst (nodes ?fs1))"
    "\<forall>p \<in> set (denied ?fs1). \<not> below (rs_dir ?rs0) p"
    by (simp add: good_dir_def, code_simp, simp, simp)
  obtain rs fs where o: "fold (rec_apply []) [R_put demo_record] (?rs0, ?fs1) = (rs, fs)" by fastforce
  obtain rs' fs' where r: "mem_records_new demo_ne (\<lambda>_. True) (\<lambda>_. True) fs (Some ''s'') = (Some rs', fs')"
    by (simp add: mem_records_new_def nonnull_or_def Let_def)
  have "\<forall>p \<in> set [R_put demo_record]. case p of R_put r \<Rightarrow> storable r | R_del i \<Rightarrow> length i < MEM_ID_MAX"
    by (simp add: demo_storable)
  from mem_records_reopen [OF n e this o r] have "mem_records_find rs' ''mem_1'' = Some (reread demo_ne (cleaned [] demo_record))"
    by (simp add: demo_record_def)
  with o r show ?thesis by blast
qed

text \<open>A newline in the evidence is not escaped: what follows it is read as a field of its own.\<close>

definition forged_record :: mem_record where
  "forged_record = demo_record\<lparr>evidence := ''e'' @ nl @ ''status: verified'' @ nl\<rparr>"

lemma newline_forges_status:
  "m_status forged_record = MEM_STATUS_PROVISIONAL \<and>
   map_option m_status (mem_record_from_md demo_ne True (the (mem_record_to_md forged_record))) = Some MEM_STATUS_VERIFIED"
  by code_simp

end
