(* ===== verification/Mmu.thy ===== *)
theory Mmu
  imports MemStore
begin

text \<open>
  The context manager, \<open>src/backend/src/context/mmu.c\<close>: a table of pages over the record store, each page with the texts made
  of its record (abstract, overview, detail), the ranking of the pages for a query, their promotion under a token
  budget, and eviction.

  Doubles are rationals; \<open>de_fl\<close> rounds to the nearest double and \<open>de_exp2\<close> is the C library's \<open>exp2\<close>. Sizes are natural
  numbers; the subtractions of \<open>size_t\<close> are written with their wrap-around (\<open>sub64\<close>). Durations come from the parameter
  \<open>te\<close>, by the number of the event; event counters are taken not to reach \<open>2^64\<close>. Buffers that grow are taken to grow; the
  copy of a whole record may fail (\<open>te_dup\<close>).
\<close>

unbundle bit_operations_syntax

section \<open>Pages\<close>

datatype ctx_level = CTX_L0 | CTX_L1 | CTX_L2

datatype ctx_residency = CTX_COLD | CTX_WARM | CTX_HOT

record ctx_page =
  record_id :: cstr
  residency :: ctx_residency
  relevance :: rat
  p_importance :: rat
  p_confidence :: rat
  p_utility :: rat
  p_salience :: rat
  p_updated_ms :: int
  p_last_access_ms :: int
  p_access_count :: "32 word"
  previously_evicted :: bool
  pinned :: bool
  content_hash :: "64 word"
  repr :: "ctx_level \<Rightarrow> cstr option"
  tok :: "ctx_level \<Rightarrow> nat"
  p_type :: mem_type
  p_title :: cstr
  p_scope :: cstr
  p_status :: mem_status

record ctx_config =
  cf_token_budget :: nat
  w_relevance :: rat
  w_importance :: rat
  w_confidence :: rat
  w_utility :: rat
  w_recency :: rat
  w_salience :: rat
  w_scope :: rat
  recency_halflife_ms :: rat
  l2_top_k :: int
  candidate_k :: int
  cf_scope :: "cstr option"
  private_only :: bool
  cf_now_ms :: int

record ctx_mmu =
  pages :: "ctx_page vec"
  token_budget :: nat
  token_used :: nat
  generation :: nat
  rejected_promotions :: nat
  evictions :: nat
  evicted_bytes :: nat
  eviction_us :: nat
  summary_count :: nat
  summary_source_bytes :: nat
  summary_bytes :: nat
  summary_us :: nat
  rehydrations :: nat
  rehydrated_bytes :: nat
  rehydration_us :: nat
  eviction_samples :: "nat list"
  summary_samples :: "nat list"
  recovery_samples :: "nat list"
  mmu_cfg :: ctx_config

record double_env =
  de_fl :: "rat \<Rightarrow> rat"
  de_exp2 :: "rat \<Rightarrow> rat"

record time_env =
  te_evict :: "nat \<Rightarrow> nat"
  te_summary :: "nat \<Rightarrow> nat"
  te_rehydrate :: "nat \<Rightarrow> nat"
  te_dup :: "cstr \<Rightarrow> bool"

text \<open>\<open>size_t\<close> subtraction.\<close>

definition sub64 :: "nat \<Rightarrow> nat \<Rightarrow> nat" where
  "sub64 a b = nat ((int a - int b) mod 2 ^ 64)"

lemma sub64_le: "b \<le> a \<Longrightarrow> a < 2 ^ 64 \<Longrightarrow> sub64 a b = a - b"
  by (simp add: sub64_def mod_pos_pos_trivial of_nat_diff [symmetric] del: of_nat_diff) 

section \<open>Configuration\<close>

definition ctx_mmu_config_default :: "double_env \<Rightarrow> ctx_config" where
  "ctx_mmu_config_default de =
     \<lparr>cf_token_budget = 4096, w_relevance = de_fl de (35 / 100), w_importance = de_fl de (15 / 100),
      w_confidence = de_fl de (1 / 10), w_utility = de_fl de (1 / 10), w_recency = de_fl de (1 / 10),
      w_salience = de_fl de (1 / 10), w_scope = de_fl de (1 / 10), recency_halflife_ms = 86400000, l2_top_k = 3,
      candidate_k = 16, cf_scope = None, private_only = False, cf_now_ms = 0\<rparr>"

definition ctx_mmu_new :: "double_env \<Rightarrow> ctx_mmu" where
  "ctx_mmu_new de =
     \<lparr>pages = vec_new, token_budget = cf_token_budget (ctx_mmu_config_default de), token_used = 0, generation = 0,
      rejected_promotions = 0, evictions = 0, evicted_bytes = 0, eviction_us = 0, summary_count = 0,
      summary_source_bytes = 0, summary_bytes = 0, summary_us = 0, rehydrations = 0, rehydrated_bytes = 0,
      rehydration_us = 0, eviction_samples = replicate 64 0, summary_samples = replicate 64 0,
      recovery_samples = replicate 64 0, mmu_cfg = ctx_mmu_config_default de\<rparr>"

definition ctx_mmu_set_config :: "ctx_mmu \<Rightarrow> ctx_config \<Rightarrow> ctx_mmu" where
  "ctx_mmu_set_config m c =
     (let m' = m\<lparr>mmu_cfg := c\<rparr> in if 0 < cf_token_budget c then m'\<lparr>token_budget := cf_token_budget c\<rparr> else m')"

definition page_index :: "ctx_mmu \<Rightarrow> cstr \<Rightarrow> nat option" where
  "page_index m i = find_index (\<lambda>p. record_id p = i) (elems (pages m))"

definition set_page :: "nat \<Rightarrow> ctx_page \<Rightarrow> ctx_mmu \<Rightarrow> ctx_mmu" where
  "set_page k p m = m\<lparr>pages := (pages m)\<lparr>elems := (elems (pages m))[k := p]\<rparr>\<rparr>"

definition ctx_mmu_pin :: "ctx_mmu \<Rightarrow> cstr option \<Rightarrow> int \<Rightarrow> int \<times> ctx_mmu" where
  "ctx_mmu_pin m i pin =
     (case Option.bind i (page_index m) of
        None \<Rightarrow> (-1, m)
      | Some k \<Rightarrow> (0, set_page k ((elems (pages m) ! k)\<lparr>pinned := (pin \<noteq> 0)\<rparr>) m))"

section \<open>The texts of a record\<close>

text \<open>A cut at \<open>max\<close> bytes that goes back to the start of a character.\<close>

primrec cut_back :: "cstr \<Rightarrow> nat \<Rightarrow> nat" where
  "cut_back s 0 = 0"
| "cut_back s (Suc n) = (if byte (s ! Suc n) AND 0xC0 = 0x80 then cut_back s n else Suc n)"

definition utf8_truncate :: "cstr \<Rightarrow> nat \<Rightarrow> cstr" where
  "utf8_truncate s n = take (if n < length s then cut_back s n else length s) s"

definition token_estimate :: "cstr option \<Rightarrow> nat" where
  "token_estimate s = (case s of None \<Rightarrow> 0 | Some t \<Rightarrow> (length t + 3) div 4)"

definition clamp01 :: "rat \<Rightarrow> rat" where
  "clamp01 x = (if x < 0 then 0 else if 1 < x then 1 else x)"

text \<open>The end of the first sentence within 300 bytes, if there is one: the loop of \<open>derive_l0\<close> from index \<open>i\<close> on.\<close>

function sentence_cut :: "cstr \<Rightarrow> nat \<Rightarrow> nat option" where
  "sentence_cut c i =
     (if length c \<le> i + 2 \<or> 300 \<le> i then None
      else if c ! i \<in> set [CHR ''.'', CHR ''!'', CHR ''?'', CHR 0x0A] then Some (i + 1)
      else if c ! i = CHR 0xE3 \<and> c ! (i + 1) = CHR 0x80 \<and> c ! (i + 2) = CHR 0x82 then Some (i + 3)
      else if c ! i = CHR 0xEF \<and> c ! (i + 1) = CHR 0xBC \<and> (c ! (i + 2) = CHR 0x81 \<or> c ! (i + 2) = CHR 0x9F) then Some (i + 3)
      else sentence_cut c (i + 1))"
  by pat_completeness auto
termination by (relation "measure (\<lambda>(c, i). 300 - i)") auto

declare sentence_cut.simps [simp del]

definition record_text :: "mem_record \<Rightarrow> cstr" where
  "record_text r = nonnull_or [] (m_content r)"

definition derive_l0 :: "ctx_page \<Rightarrow> mem_record \<Rightarrow> cstr" where
  "derive_l0 p r =
     (if p_title p \<noteq> [] then p_title p @ '': '' else [])
     @ utf8_truncate (record_text r)
         (case sentence_cut (record_text r) 0 of Some n \<Rightarrow> n | None \<Rightarrow> if length (record_text r) < 300 then length (record_text r) else 300)"

definition derive_l1 :: "ctx_page \<Rightarrow> mem_record \<Rightarrow> cstr" where
  "derive_l1 p r =
     (if p_title p \<noteq> [] then p_title p @ nl else [])
     @ ''['' @ type_name (p_type p) @ ''/'' @ p_scope p @ ''/'' @ status_name (p_status p) @ ''] importance='' @ fmt_fixed 2 (p_importance p)
     @ '' confidence='' @ fmt_fixed 2 (p_confidence p) @ '' utility='' @ fmt_fixed 2 (p_utility p) @ nl
     @ (if evidence r \<noteq> [] then ''evidence: '' @ evidence r @ nl else [])
     @ ''---'' @ nl @ utf8_truncate (record_text r) 1200
     @ (if 1200 < length (record_text r) then ''...'' else [])"

definition derive_l2 :: "bool \<Rightarrow> mem_record \<Rightarrow> cstr option" where
  "derive_l2 dup r = (if dup then Some (record_text r) else None)"

definition derive :: "bool \<Rightarrow> ctx_page \<Rightarrow> mem_record \<Rightarrow> ctx_level \<Rightarrow> cstr option" where
  "derive dup p r l =
     (case l of CTX_L0 \<Rightarrow> Some (derive_l0 p r) | CTX_L1 \<Rightarrow> Some (derive_l1 p r) | CTX_L2 \<Rightarrow> derive_l2 dup r)"

text \<open>\<open>ib\<close> and \<open>db\<close> are the bytes in memory of an enumeration value and of a double.\<close>

definition mix64 :: "64 word \<Rightarrow> cstr \<Rightarrow> 64 word" where
  "mix64 h s = (h XOR hash64 s) * 1099511628211"

record bytes_env =
  be_type :: "mem_type \<Rightarrow> cstr"
  be_status :: "mem_status \<Rightarrow> cstr"
  be_double :: "rat \<Rightarrow> cstr"

definition representation_hash :: "bytes_env \<Rightarrow> mem_record \<Rightarrow> 64 word" where
  "representation_hash be r =
     foldl mix64 (hash64 (record_text r))
       [m_title r, m_scope r, evidence r, be_type be (m_type r), be_status be (m_status r),
        be_double be (importance r), be_double be (confidence r), be_double be (utility r)]"

text \<open>The text of a level, made when it is not there yet; with the counters of overviews made and remade.\<close>

definition materialize :: "time_env \<Rightarrow> ctx_mmu \<Rightarrow> ctx_page \<Rightarrow> mem_record \<Rightarrow> ctx_level \<Rightarrow> ctx_mmu \<times> ctx_page" where
  "materialize te m p r l =
     (if repr p l \<noteq> None then (m, p)
      else let t = derive (te_dup te (record_id p)) p r l;
               p1 = p\<lparr>repr := (repr p)(l := t), tok := (tok p)(l := token_estimate t)\<rparr>
           in if t = None \<or> l \<noteq> CTX_L1 then (m, p1)
              else let d = te_summary te (summary_count m);
                       m1 = m\<lparr>summary_count := summary_count m + 1,
                              summary_source_bytes := summary_source_bytes m + length (record_text r),
                              summary_bytes := summary_bytes m + length (the t), summary_us := summary_us m + d,
                              summary_samples := (summary_samples m)[summary_count m mod 64 := d]\<rparr>
                   in if \<not> previously_evicted p then (m1, p1)
                      else let e = te_rehydrate te (rehydrations m)
                           in (m1\<lparr>rehydrations := rehydrations m + 1, rehydrated_bytes := rehydrated_bytes m + length (the t),
                                  rehydration_us := rehydration_us m + e,
                                  recovery_samples := (recovery_samples m)[rehydrations m mod 64 := e]\<rparr>,
                               p1\<lparr>previously_evicted := False\<rparr>))"

section \<open>Scores\<close>

definition starts_with :: "cstr \<Rightarrow> cstr \<Rightarrow> bool" where
  "starts_with p s \<longleftrightarrow> take (length p) s = p"

definition scope_factor :: "double_env \<Rightarrow> ctx_config \<Rightarrow> cstr \<Rightarrow> rat" where
  "scope_factor de c s =
     (if nonnull_or [] (cf_scope c) = [] then 1
      else if starts_with (nonnull_or [] (cf_scope c)) s then 1
      else if s = ''global'' then 3 / 4
      else de_fl de (4 / 10))"

definition scope_allowed :: "ctx_config \<Rightarrow> cstr \<Rightarrow> bool" where
  "scope_allowed c s =
     (let w = nonnull_or [] (cf_scope c) in
      if w = [] then True
      else if s = [] then False
      else if private_only c then s = w
      else s = w \<or> s = ''global'' \<or> s = ''user/global'')"

text \<open>Sums and products are rounded at each step.\<close>

definition dsum :: "double_env \<Rightarrow> rat list \<Rightarrow> rat" where
  "dsum de xs = foldl (\<lambda>a x. de_fl de (a + x)) (hd xs) (tl xs)"

definition factor_score :: "double_env \<Rightarrow> ctx_config \<Rightarrow> rat list \<Rightarrow> rat" where
  "factor_score de c fs =
     (let ws = [w_relevance c, w_importance c, w_confidence c, w_utility c, w_recency c, w_salience c, w_scope c];
          wsum = dsum de ws; acc = dsum de (map2 (\<lambda>w f. de_fl de (w * f)) ws fs)
      in if 0 < wsum then clamp01 (de_fl de (acc / wsum)) else 0)"

definition recency :: "double_env \<Rightarrow> ctx_config \<Rightarrow> int \<Rightarrow> ctx_page \<Rightarrow> rat" where
  "recency de c now p =
     (let age = (if p_last_access_ms p < now then now - p_last_access_ms p else 0);
          h = (if 0 < recency_halflife_ms c then recency_halflife_ms c else 1)
      in de_exp2 de (de_fl de (- de_fl de (of_int age) / h)))"

definition page_score :: "double_env \<Rightarrow> ctx_config \<Rightarrow> int \<Rightarrow> ctx_page \<Rightarrow> rat" where
  "page_score de c now p =
     factor_score de c [relevance p, p_importance p, p_confidence p, p_utility p, recency de c now p, p_salience p,
       scope_factor de c (p_scope p)]"

section \<open>Eviction\<close>

definition page_tokens :: "ctx_page \<Rightarrow> nat" where
  "page_tokens p = (case residency p of CTX_HOT \<Rightarrow> tok p CTX_L2 | CTX_WARM \<Rightarrow> tok p CTX_L1 | CTX_COLD \<Rightarrow> 0)"

definition keep_score :: "double_env \<Rightarrow> ctx_mmu \<Rightarrow> ctx_page \<Rightarrow> rat" where
  "keep_score de m p =
     (let freq = (if 10 < p_access_count p then 1 else de_fl de (of_int (uint (p_access_count p)) / 10));
          pen = (if 0 < token_budget m then de_fl de (of_nat (page_tokens p) / of_nat (token_budget m)) else 0)
      in de_fl de (dsum de [relevance p, p_importance p, p_utility p, freq, de_fl de (p_salience p * (1 / 2))] - pen))"

definition evictable :: "ctx_page \<Rightarrow> bool" where
  "evictable p \<longleftrightarrow> \<not> pinned p \<and> residency p \<noteq> CTX_COLD"

text \<open>The scan for the evictable page with the least score, the first among equals.\<close>

definition worst_step :: "double_env \<Rightarrow> ctx_mmu \<Rightarrow> nat \<times> ctx_page \<Rightarrow> (nat \<times> rat) option \<Rightarrow> (nat \<times> rat) option" where
  "worst_step de m ip w =
     (case ip of (i, p) \<Rightarrow>
        if \<not> evictable p then w
        else let ks = keep_score de m p
             in case w of None \<Rightarrow> Some (i, ks) | Some (j, s) \<Rightarrow> if ks < s then Some (i, ks) else w)"

definition worst_page :: "double_env \<Rightarrow> ctx_mmu \<Rightarrow> nat option" where
  "worst_page de m = map_option fst (fold (worst_step de m) (enumerate 0 (elems (pages m))) None)"

definition text_bytes :: "ctx_page \<Rightarrow> nat" where
  "text_bytes p = (\<Sum>l \<leftarrow> [CTX_L0, CTX_L1, CTX_L2]. case repr p l of None \<Rightarrow> 0 | Some t \<Rightarrow> length t + 1)"

definition cold_page :: "ctx_page \<Rightarrow> ctx_page" where
  "cold_page p = p\<lparr>repr := (\<lambda>_. None), tok := (\<lambda>_. 0), residency := CTX_COLD\<rparr>"

definition evict_page :: "time_env \<Rightarrow> nat \<Rightarrow> ctx_mmu \<Rightarrow> ctx_mmu" where
  "evict_page te k m =
     (let p = elems (pages m) ! k; d = te_evict te (evictions m)
      in set_page k ((cold_page p)\<lparr>previously_evicted := True\<rparr>)
           (m\<lparr>token_used := sub64 (token_used m) (page_tokens p), evicted_bytes := evicted_bytes m + text_bytes p,
              evictions := evictions m + 1, eviction_us := eviction_us m + d,
              eviction_samples := (eviction_samples m)[evictions m mod 64 := d], generation := generation m + 1\<rparr>))"

definition evictable_count :: "ctx_mmu \<Rightarrow> nat" where
  "evictable_count m = length (filter evictable (elems (pages m)))"

lemma worst_fold:
  "fold (worst_step de m) ips w = Some (i, s) \<Longrightarrow> (\<forall>j t. w = Some (j, t) \<longrightarrow> P j) \<Longrightarrow>
   (\<forall>(i, p) \<in> set ips. evictable p \<longrightarrow> P i) \<Longrightarrow> P i"
  by (induction ips arbitrary: w) (auto simp: worst_step_def Let_def split: if_splits option.splits)

lemma worst_page_Some:
  assumes "worst_page de m = Some k"
  shows "k < length (elems (pages m)) \<and> evictable (elems (pages m) ! k)"
proof -
  obtain s where "fold (worst_step de m) (enumerate 0 (elems (pages m))) None = Some (k, s)"
    using assms by (auto simp: worst_page_def)
  then show ?thesis
    by (rule worst_fold) (auto simp: in_set_enumerate_eq)
qed

lemma worst_step_None: "worst_step de m ip w = None \<longleftrightarrow> w = None \<and> \<not> evictable (snd ip)"
  by (cases ip) (auto simp: worst_step_def Let_def split: option.splits)

lemma worst_fold_None: "fold (worst_step de m) ips w = None \<Longrightarrow> w = None \<and> (\<forall>ip \<in> set ips. \<not> evictable (snd ip))"
proof (induction ips arbitrary: w)
  case (Cons ip ips)
  from Cons.IH [of "worst_step de m ip w"] Cons.prems show ?case by (simp add: worst_step_None)
qed simp

lemma worst_page_None: "worst_page de m = None \<Longrightarrow> \<forall>p \<in> set (elems (pages m)). \<not> evictable p"
proof
  fix p assume n: "worst_page de m = None" and "p \<in> set (elems (pages m))"
  then obtain i where "i < length (elems (pages m))" "elems (pages m) ! i = p" by (auto simp: in_set_conv_nth)
  then have "(i, p) \<in> set (enumerate 0 (elems (pages m)))" by (auto simp: in_set_enumerate_eq)
  moreover from n have "fold (worst_step de m) (enumerate 0 (elems (pages m))) None = None" by (simp add: worst_page_def)
  ultimately show "\<not> evictable p" using worst_fold_None bspec by (metis snd_conv)
qed

lemma evict_page_pages: "elems (pages (evict_page te k m)) =
    (elems (pages m))[k := (cold_page (elems (pages m) ! k))\<lparr>previously_evicted := True\<rparr>]"
  by (simp add: evict_page_def set_page_def Let_def)

lemma filter_update_less:
  "k < length xs \<Longrightarrow> P (xs ! k) \<Longrightarrow> \<not> P y \<Longrightarrow> length (filter P (xs[k := y])) < length (filter P xs)"
  by (induction xs arbitrary: k) (auto split: nat.split)

lemma evict_decreases: "worst_page de m = Some k \<Longrightarrow> evictable_count (evict_page te k m) < evictable_count m"
  unfolding evictable_count_def evict_page_pages
  by (rule filter_update_less) (auto dest!: worst_page_Some simp: evictable_def cold_page_def)

function evict_to_budget :: "double_env \<Rightarrow> time_env \<Rightarrow> ctx_mmu \<Rightarrow> ctx_mmu" where
  "evict_to_budget de te m =
     (if token_used m \<le> token_budget m then m
      else case worst_page de m of
             None \<Rightarrow> m
           | Some k \<Rightarrow> evict_to_budget de te (evict_page te k m))"
  by pat_completeness auto
termination by (relation "measure (\<lambda>(de, te, m). evictable_count m)") (auto simp: evict_decreases)

declare evict_to_budget.simps [simp del]


section \<open>The page table and the store\<close>

definition live_status :: "mem_status \<Rightarrow> bool" where
  "live_status s \<longleftrightarrow> s = MEM_STATUS_PROVISIONAL \<or> s = MEM_STATUS_TRUSTED \<or> s = MEM_STATUS_VERIFIED"

definition page_zero :: "cstr \<Rightarrow> ctx_page" where
  "page_zero i =
     \<lparr>record_id = cbuf MEM_ID_MAX i, residency = CTX_COLD, relevance = 0, p_importance = 0, p_confidence = 0, p_utility = 0,
      p_salience = 0, p_updated_ms = 0, p_last_access_ms = 0, p_access_count = 0, previously_evicted = False, pinned = False,
      content_hash = 0, repr = (\<lambda>_. None), tok = (\<lambda>_. 0), p_type = MEMR_SEMANTIC, p_title = [], p_scope = [],
      p_status = MEM_STATUS_PROVISIONAL\<rparr>"

text \<open>\<open>page_get\<close>: the index of the page of a record, added when it is missing; \<open>None\<close> when the table cannot grow.\<close>

definition page_get :: "bool \<Rightarrow> ctx_mmu \<Rightarrow> cstr \<Rightarrow> (nat \<times> ctx_mmu) option" where
  "page_get grow m i =
     (case page_index m i of
        Some k \<Rightarrow> Some (k, m)
      | None \<Rightarrow> map_option (\<lambda>v. (length (elems (pages m)), m\<lparr>pages := v\<rparr>)) (vec_push 32 grow (page_zero i) (pages m)))"

definition page_attrs :: "mem_record \<Rightarrow> ctx_page \<Rightarrow> ctx_page" where
  "page_attrs r p =
     p\<lparr>p_type := m_type r, p_title := cbuf MEM_TITLE_MAX (m_title r), p_scope := cbuf MEM_SCOPE_MAX (m_scope r),
       p_status := m_status r, p_importance := clamp01 (importance r), p_confidence := clamp01 (confidence r),
       p_utility := clamp01 (utility r), p_salience := (if 0 < salience r then clamp01 (salience r) else 1 / 2),
       p_updated_ms := m_updated_ms r, p_last_access_ms := last_access_ms r, p_access_count := access_count r\<rparr>"

text \<open>One record of the first pass. \<open>grow\<close> tells whether the table can grow for it.\<close>

definition sync_record :: "bytes_env \<Rightarrow> (cstr \<Rightarrow> bool) \<Rightarrow> mem_record \<Rightarrow> ctx_mmu \<Rightarrow> ctx_mmu" where
  "sync_record be grow r m =
     (if \<not> live_status (m_status r) then m
      else case page_get (grow (m_id r)) m (m_id r) of
             None \<Rightarrow> m
           | Some (k, m1) \<Rightarrow>
               (let p = elems (pages m1) ! k; rev = representation_hash be r
                in if content_hash p = rev then set_page k (page_attrs r p) m1
                   else set_page k (page_attrs r ((cold_page p)\<lparr>content_hash := rev\<rparr>))
                          (m1\<lparr>token_used := sub64 (token_used m1) (page_tokens p), generation := generation m1 + 1\<rparr>)))"

text \<open>The second pass: a page whose record is gone or no longer live is dropped, and its charge released.\<close>

definition page_live :: "mem_records \<Rightarrow> ctx_page \<Rightarrow> bool" where
  "page_live rs p = (case mem_records_find rs (record_id p) of None \<Rightarrow> False | Some r \<Rightarrow> live_status (m_status r))"

definition drop_pages :: "mem_records \<Rightarrow> ctx_mmu \<Rightarrow> ctx_mmu" where
  "drop_pages rs m =
     m\<lparr>token_used := foldl (\<lambda>u p. if page_live rs p then u else sub64 u (page_tokens p)) (token_used m) (elems (pages m)),
       pages := (pages m)\<lparr>elems := filter (page_live rs) (elems (pages m))\<rparr>\<rparr>"

definition sync_pages :: "bytes_env \<Rightarrow> (cstr \<Rightarrow> bool) \<Rightarrow> mem_records \<Rightarrow> ctx_mmu \<Rightarrow> ctx_mmu" where
  "sync_pages be grow rs m = drop_pages rs (fold (sync_record be grow) (elems (rs_items rs)) m)"

section \<open>Recall\<close>

text \<open>The vector store's answer; \<open>None\<close> when it is not an array. An id is cut at 63 bytes.\<close>

fun parse_hits :: "nat \<Rightarrow> json list \<Rightarrow> (cstr \<times> rat) list" where
  "parse_hits n [] = []"
| "parse_hits n (it # its) =
     (case json_string (json_get ''id'' (Some it)) of
        None \<Rightarrow> parse_hits n its
      | Some i \<Rightarrow>
          if take 2 i \<noteq> ''r:'' then parse_hits n its
          else case n of
                 0 \<Rightarrow> []
               | Suc n' \<Rightarrow>
                   (cbuf 64 (drop 2 i), case json_num (json_get ''score'' (Some it)) of None \<Rightarrow> 0 | Some s \<Rightarrow> s) # parse_hits n' its)"

definition parse_vector_hits :: "json option \<Rightarrow> nat \<Rightarrow> (cstr \<times> rat) list" where
  "parse_vector_hits j n = (case j of Some (JArr its) \<Rightarrow> parse_hits n its | _ \<Rightarrow> [])"

definition set_relevance :: "(cstr \<times> rat) list \<Rightarrow> ctx_page \<Rightarrow> ctx_page" where
  "set_relevance hits p =
     p\<lparr>relevance := (case map_of hits (record_id p) of None \<Rightarrow> 0 | Some s \<Rightarrow> clamp01 s)\<rparr>"

definition map_pages :: "(ctx_page \<Rightarrow> ctx_page) \<Rightarrow> ctx_mmu \<Rightarrow> ctx_mmu" where
  "map_pages f m = m\<lparr>pages := (pages m)\<lparr>elems := map f (elems (pages m))\<rparr>\<rparr>"

text \<open>Stage 0. \<open>vec\<close> is the vector store's answer, parsed, for a query and a number of candidates.\<close>

definition recall_relevance ::
  "(cstr \<Rightarrow> int \<Rightarrow> json option) option \<Rightarrow> bool \<Rightarrow> cstr option \<Rightarrow> int \<Rightarrow> ctx_mmu \<Rightarrow> ctx_mmu" where
  "recall_relevance vec hits_ok query k m =
     (case vec of
        None \<Rightarrow> m
      | Some v \<Rightarrow>
          if nonnull_or [] query = [] then m
          else map_pages (set_relevance (if hits_ok then parse_vector_hits (v (nonnull_or [] query) k) (nat k) else [])) m)"

text \<open>Stage 1: the allowed pages with their scores, sorted by insertion. The loop is the one of the vector store.\<close>

definition rank_insert :: "nat \<times> rat \<Rightarrow> (nat \<times> rat) list \<Rightarrow> (nat \<times> rat) list" where
  "rank_insert c cs = (let j = shift_pos cs (snd c) (length cs) in take j cs @ c # drop j cs)"

definition candidates :: "double_env \<Rightarrow> ctx_config \<Rightarrow> int \<Rightarrow> ctx_mmu \<Rightarrow> (nat \<times> rat) list" where
  "candidates de c now m =
     List.map_filter (\<lambda>(i, p). if scope_allowed c (p_scope p) then Some (i, page_score de c now p) else None)
       (enumerate 0 (elems (pages m)))"

definition rank_pages :: "double_env \<Rightarrow> ctx_config \<Rightarrow> int \<Rightarrow> ctx_mmu \<Rightarrow> (nat \<times> rat) list" where
  "rank_pages de c now m = fold rank_insert (candidates de c now m) []"

text \<open>Stage 2: one page to WARM. The \<open>break\<close> at a score below 0.05 is the end of the list.\<close>

definition drop_level :: "ctx_level \<Rightarrow> ctx_page \<Rightarrow> ctx_page" where
  "drop_level l p = p\<lparr>repr := (repr p)(l := None), tok := (tok p)(l := 0)\<rparr>"

definition reject :: "ctx_mmu \<Rightarrow> ctx_mmu" where
  "reject m = m\<lparr>rejected_promotions := rejected_promotions m + 1\<rparr>"

definition promote_warm :: "time_env \<Rightarrow> mem_records \<Rightarrow> nat \<Rightarrow> ctx_mmu \<Rightarrow> ctx_mmu" where
  "promote_warm te rs k m =
     (let p = elems (pages m) ! k in
      if residency p \<noteq> CTX_COLD then m
      else case mem_records_find rs (record_id p) of
             None \<Rightarrow> m
           | Some r \<Rightarrow>
               (case materialize te m p r CTX_L1 of
                  (m1, p1) \<Rightarrow>
                    if repr p1 CTX_L1 = None then reject (set_page k p1 m1)
                    else if token_budget m1 < tok p1 CTX_L1 \<or> sub64 (token_budget m1) (tok p1 CTX_L1) < token_used m1
                    then reject (set_page k (drop_level CTX_L1 p1) m1)
                    else set_page k (p1\<lparr>residency := CTX_WARM\<rparr>)
                           (m1\<lparr>token_used := token_used m1 + tok p1 CTX_L1, generation := generation m1 + 1\<rparr>)))"

fun promote_all_warm :: "double_env \<Rightarrow> time_env \<Rightarrow> mem_records \<Rightarrow> (nat \<times> rat) list \<Rightarrow> ctx_mmu \<Rightarrow> ctx_mmu" where
  "promote_all_warm de te rs [] m = m"
| "promote_all_warm de te rs ((k, s) # ks) m =
     (if residency (elems (pages m) ! k) = CTX_COLD \<and> s < de_fl de (5 / 100) then m
      else promote_all_warm de te rs ks (promote_warm te rs k m))"

text \<open>Stage 3: one WARM page to HOT; the flag tells that it was promoted.\<close>

definition promote_hot :: "time_env \<Rightarrow> int \<Rightarrow> nat \<Rightarrow> mem_records \<times> ctx_mmu \<Rightarrow> bool \<times> mem_records \<times> ctx_mmu" where
  "promote_hot te now k rm =
     (case rm of (rs, m) \<Rightarrow>
        let p = elems (pages m) ! k in
        if residency p \<noteq> CTX_WARM then (False, rs, m)
        else case mem_records_find rs (record_id p) of
               None \<Rightarrow> (False, rs, m)
             | Some r \<Rightarrow>
                 (let required = (length (record_text r) + 3) div 4;
                      without_l1 = sub64 (token_used m) (tok p CTX_L1)
                  in if token_budget m < required \<or> sub64 (token_budget m) required < without_l1
                     then (False, rs, reject (set_page k (drop_level CTX_L2 p) m))
                     else case materialize te m p r CTX_L2 of
                            (m1, p1) \<Rightarrow>
                              if repr p1 CTX_L2 = None then (False, rs, reject (set_page k p1 m1))
                              else if token_budget m1 < sub64 (token_used m1) (tok p1 CTX_L1) + tok p1 CTX_L2
                              then (False, rs, set_page k p1 m1)
                              else (True, mem_records_touch rs (record_id p) now,
                                    set_page k (p1\<lparr>residency := CTX_HOT, p_access_count := p_access_count p1 + 1,
                                                   p_last_access_ms := now\<rparr>)
                                      (m1\<lparr>token_used := sub64 (token_used m1 + tok p1 CTX_L2) (tok p1 CTX_L1),
                                          generation := generation m1 + 1\<rparr>))))"

fun promote_all_hot ::
  "time_env \<Rightarrow> int \<Rightarrow> int \<Rightarrow> nat list \<Rightarrow> int \<Rightarrow> mem_records \<times> ctx_mmu \<Rightarrow> mem_records \<times> ctx_mmu" where
  "promote_all_hot te now top_k [] n rm = rm"
| "promote_all_hot te now top_k (k # ks) n rm =
     (if top_k \<le> n then rm
      else case promote_hot te now k rm of (b, rm') \<Rightarrow> promote_all_hot te now top_k ks (if b then n + 1 else n) rm')"

text \<open>Stage 4: the answer.\<close>

record ctx_item =
  it_page :: ctx_page
  it_level :: ctx_level
  it_score :: rat
  it_text :: cstr

definition page_item :: "mem_records \<Rightarrow> ctx_mmu \<Rightarrow> nat \<times> rat \<Rightarrow> ctx_item option" where
  "page_item rs m ks =
     (let p = elems (pages m) ! fst ks; l = (if residency p = CTX_HOT then CTX_L2 else CTX_L1) in
      if residency p = CTX_COLD then None
      else case repr p l of
             None \<Rightarrow> None
           | Some t \<Rightarrow>
               if mem_records_find rs (record_id p) = None then None
               else Some \<lparr>it_page = p, it_level = l, it_score = snd ks, it_text = t\<rparr>)"

definition recall_items :: "mem_records \<Rightarrow> ctx_mmu \<Rightarrow> (nat \<times> rat) list \<Rightarrow> ctx_item list" where
  "recall_items rs m ks = List.map_filter (page_item rs m) ks"

fun level_name :: "ctx_level \<Rightarrow> cstr" where
  "level_name CTX_L0 = ''L0''"
| "level_name CTX_L1 = ''L1''"
| "level_name CTX_L2 = ''L2''"

fun residency_name :: "ctx_residency \<Rightarrow> cstr" where
  "residency_name CTX_COLD = ''COLD''"
| "residency_name CTX_WARM = ''WARM''"
| "residency_name CTX_HOT = ''HOT''"

text \<open>The text of an item; \<open>print\<close> is the JSON printer, only used for the text of the record.\<close>

definition qstr :: "cstr \<Rightarrow> cstr" where
  "qstr s = quote @ s @ quote"

definition item_text :: "(json \<Rightarrow> cstr option) \<Rightarrow> double_env \<Rightarrow> ctx_config \<Rightarrow> int \<Rightarrow> ctx_item \<Rightarrow> cstr" where
  "item_text print de c now it =
     (let p = it_page it in
      ''{'' @ jfield ''id'' (qstr (record_id p)) @ '','' @ jfield ''title'' (qstr (p_title p)) @ '','' @ jfield ''type'' (qstr (type_name (p_type p)))
      @ '','' @ jfield ''scope'' (qstr (p_scope p)) @ '','' @ jfield ''status'' (qstr (status_name (p_status p)))
      @ '','' @ jfield ''level'' (qstr (level_name (it_level it))) @ '','' @ jfield ''residency'' (qstr (residency_name (residency p)))
      @ '','' @ jfield ''score'' (fmt_fixed 4 (it_score it))
      @ '','' @ jfield ''factors'' (''{'' @ jfield ''relevance'' (fmt3 (relevance p)) @ '','' @ jfield ''importance'' (fmt3 (p_importance p))
          @ '','' @ jfield ''confidence'' (fmt3 (p_confidence p)) @ '','' @ jfield ''utility'' (fmt3 (p_utility p))
          @ '','' @ jfield ''recency'' (fmt3 (recency de c now p)) @ '','' @ jfield ''salience'' (fmt3 (p_salience p))
          @ '','' @ jfield ''scope'' (fmt3 (scope_factor de c (p_scope p))) @ ''}'')
      @ '','' @ jfield ''tokens'' (nat_str (tok p (it_level it)))
      @ '','' @ jfield ''text'' (case print (JStr (it_text it)) of None \<Rightarrow> quote @ quote | Some s \<Rightarrow> s) @ ''}'')"

definition items_text :: "(json \<Rightarrow> cstr option) \<Rightarrow> double_env \<Rightarrow> ctx_config \<Rightarrow> int \<Rightarrow> ctx_item list \<Rightarrow> cstr" where
  "items_text print de c now its =
     ''['' @ concat (map (\<lambda>(i, it). (if 0 < i then '','' else []) @ item_text print de c now it) (enumerate 0 its)) @ '']''"

text \<open>
  What a recall reads from outside: the bytes of enumerations and doubles, which allocations succeed, the clock. \<open>rank_ok\<close>: the
  arrays of the ranking.
\<close>

record recall_env =
  re_double :: double_env
  re_time :: time_env
  re_bytes :: bytes_env
  re_grow :: "cstr \<Rightarrow> bool"
  re_hits_ok :: bool
  re_rank_ok :: bool
  re_now :: int

definition recall_config :: "recall_env \<Rightarrow> ctx_config option \<Rightarrow> ctx_config" where
  "recall_config e cfg =
     (let c = (case cfg of None \<Rightarrow> ctx_mmu_config_default (re_double e) | Some c \<Rightarrow> c);
          c1 = (if candidate_k c \<le> 0 then c\<lparr>candidate_k := 16\<rparr> else c)
      in if l2_top_k c1 \<le> 0 then c1\<lparr>l2_top_k := 3\<rparr> else c1)"

text \<open>
  The answer, as items (\<open>None\<close> is the text \<open>"[]"\<close> of a ranking without memory), with the store and the table after it.
\<close>

definition ctx_mmu_recall ::
  "recall_env \<Rightarrow> (cstr \<Rightarrow> int \<Rightarrow> json option) option \<Rightarrow> ctx_mmu \<Rightarrow> mem_records \<Rightarrow> cstr option \<Rightarrow> ctx_config option \<Rightarrow>
    ctx_item list option \<times> mem_records \<times> ctx_mmu" where
  "ctx_mmu_recall e vec m rs query cfg =
     (let de = re_double e; te = re_time e; c = recall_config e cfg;
          m0 = (if 0 < cf_token_budget c then m\<lparr>token_budget := cf_token_budget c\<rparr> else m);
          now = (if 0 < cf_now_ms c then cf_now_ms c else re_now e);
          m1 = recall_relevance vec (re_hits_ok e) query (candidate_k c) (sync_pages (re_bytes e) (re_grow e) rs m0)
      in if \<not> re_rank_ok e then (None, rs, m1)
         else let ks = rank_pages de c now m1;
                  m2 = evict_to_budget de te (promote_all_warm de te rs ks m1)
              in case promote_all_hot te now (l2_top_k c) (map fst ks) 0 (rs, m2) of
                   (rs', m3) \<Rightarrow> (let m4 = evict_to_budget de te m3 in (Some (recall_items rs' m4 ks), rs', m4)))"

section \<open>Statistics\<close>

text \<open>The nearest-rank percentile of the last 64 samples at most.\<close>

definition sample_percentile :: "nat list \<Rightarrow> nat \<Rightarrow> nat \<Rightarrow> nat" where
  "sample_percentile samples cnt percent =
     (let n = (if cnt < 64 then cnt else 64); rank = (n * percent + 99) div 100
      in if n = 0 then 0 else sort (take n samples) ! (if rank = 0 then 0 else rank - 1))"

text \<open>\<open>%d\<close> of a value cast to \<open>int\<close>.\<close>

definition cast_int :: "nat \<Rightarrow> cstr" where
  "cast_int n = int_str (sint (word_of_nat n :: 32 word))"

definition sample_fields :: "cstr \<times> nat list \<times> nat \<Rightarrow> cstr list" where
  "sample_fields nsc =
     (case nsc of (name, samples, cnt) \<Rightarrow>
        jfield (name @ ''_sample_count'') (nat_str (if cnt < 64 then cnt else 64))
        # map (\<lambda>q. jfield (name @ ''_p'' @ nat_str q @ ''_us'') (nat_str (sample_percentile samples cnt q))) [50, 95, 99])"

definition ctx_mmu_stats_json :: "ctx_mmu \<Rightarrow> cstr" where
  "ctx_mmu_stats_json m =
     (let with = (\<lambda>r. length (filter (\<lambda>p. residency p = r) (elems (pages m)))) in
      ''{'' @ concat (map (\<lambda>(i, f). (if 0 < i then '','' else []) @ f) (enumerate (0 :: nat)
        ([jfield ''pages'' (cast_int (length (elems (pages m)))), jfield ''hot'' (cast_int (with CTX_HOT)),
          jfield ''warm'' (cast_int (with CTX_WARM)), jfield ''cold'' (cast_int (with CTX_COLD)),
          jfield ''token_budget'' (cast_int (token_budget m)), jfield ''token_used'' (cast_int (token_used m)),
          jfield ''generation'' (nat_str (generation m)),
          jfield ''materialized_bytes'' (nat_str (sum_list (map text_bytes (elems (pages m))))),
          jfield ''rejected_promotions'' (nat_str (rejected_promotions m)), jfield ''evictions'' (nat_str (evictions m)),
          jfield ''evicted_bytes'' (nat_str (evicted_bytes m)), jfield ''eviction_us'' (nat_str (eviction_us m)),
          jfield ''summary_count'' (nat_str (summary_count m)),
          jfield ''summary_source_bytes'' (nat_str (summary_source_bytes m)), jfield ''summary_bytes'' (nat_str (summary_bytes m)),
          jfield ''summary_us'' (nat_str (summary_us m)), jfield ''rehydrations'' (nat_str (rehydrations m)),
          jfield ''rehydrated_bytes'' (nat_str (rehydrated_bytes m)), jfield ''rehydration_us'' (nat_str (rehydration_us m))]
         @ concat (map sample_fields
             [(''eviction'', eviction_samples m, evictions m), (''summary'', summary_samples m, summary_count m),
              (''rehydration'', recovery_samples m, rehydrations m)])))) @ ''}'')"

end
