(* ===== verification/MmuInv.thy ===== *)
theory MmuInv
  imports Mmu
begin

text \<open>
  What the context manager guarantees: the tokens charged are those of the resident pages, a recall ends within the budget,
  its answer holds only records of the allowed scopes, in the order of their scores.
\<close>

section \<open>The invariant of the page table\<close>

definition page_ok :: "ctx_page \<Rightarrow> bool" where
  "page_ok p \<longleftrightarrow> (\<forall>l. tok p l = token_estimate (repr p l)) \<and> (residency p = CTX_WARM \<longrightarrow> repr p CTX_L1 \<noteq> None) \<and>
     (residency p = CTX_HOT \<longrightarrow> repr p CTX_L2 \<noteq> None)"

definition charges :: "ctx_mmu \<Rightarrow> nat" where
  "charges m = sum_list (map page_tokens (elems (pages m)))"

definition mmu_ok :: "ctx_mmu \<Rightarrow> bool" where
  "mmu_ok m \<longleftrightarrow> (\<forall>p \<in> set (elems (pages m)). page_ok p) \<and> distinct (map record_id (elems (pages m))) \<and>
     token_used m = charges m \<and> token_used m < 2 ^ 64 \<and> token_budget m < 2 ^ 64"

abbreviation page_at :: "ctx_mmu \<Rightarrow> nat \<Rightarrow> ctx_page" where
  "page_at m k \<equiv> elems (pages m) ! k"

abbreviation page_count :: "ctx_mmu \<Rightarrow> nat" where
  "page_count m \<equiv> length (elems (pages m))"

lemma page_ok_cold: "residency p = CTX_COLD \<Longrightarrow> page_ok p \<longleftrightarrow> (\<forall>l. tok p l = token_estimate (repr p l))"
  by (simp add: page_ok_def)

lemma page_ok_cold_page [simp]: "page_ok (cold_page p)" "page_tokens (cold_page p) = 0" "record_id (cold_page p) = record_id p"
  by (simp_all add: page_ok_def cold_page_def page_tokens_def token_estimate_def)

lemma mmu_okD:
  assumes "mmu_ok m" "k < page_count m"
  shows "page_ok (page_at m k)" "page_tokens (page_at m k) \<le> token_used m"
  using assms member_le_sum_list [of "page_tokens (page_at m k)" "map page_tokens (elems (pages m))"]
  by (auto simp: mmu_ok_def charges_def)

text \<open>One page is replaced, and the charge changes by the difference.\<close>

lemma mmu_ok_update:
  assumes ok: "mmu_ok m" and k: "k < page_count m" and p: "page_ok p" "record_id p = record_id (page_at m k)"
    and e: "elems (pages m') = (elems (pages m))[k := p]"
    and u: "token_used m' + page_tokens (page_at m k) = token_used m + page_tokens p" "token_used m' < 2 ^ 64"
    and b: "token_budget m' = token_budget m"
  shows "mmu_ok m'"
proof -
  have "charges m' = charges m + page_tokens p - page_tokens (page_at m k)"
    using k by (simp add: charges_def e map_update sum_list_update)
  moreover have "token_used m = charges m" using ok by (simp add: mmu_ok_def)
  ultimately have "token_used m' = charges m'" using u(1) by simp
  moreover have "map record_id (elems (pages m')) = map record_id (elems (pages m))"
    using k p(2) by (simp add: e map_update list_update_same_conv)
  moreover have "\<forall>q \<in> set (elems (pages m')). page_ok q"
    using ok p(1) set_update_subset_insert [of "elems (pages m)" k p] by (auto simp: e mmu_ok_def)
  ultimately show ?thesis using ok u(2) b by (simp add: mmu_ok_def)
qed

lemma set_page_simps [simp]:
  "elems (pages (set_page k p m)) = (elems (pages m))[k := p]" "token_used (set_page k p m) = token_used m"
  "token_budget (set_page k p m) = token_budget m" "evictions (set_page k p m) = evictions m"
  by (simp_all add: set_page_def)

lemma reject_simps [simp]:
  "pages (reject m) = pages m" "token_used (reject m) = token_used m" "token_budget (reject m) = token_budget m"
  "evictions (reject m) = evictions m" "mmu_ok (reject m) = mmu_ok m"
  by (simp_all add: reject_def mmu_ok_def charges_def)

text \<open>The parts of a page that a promotion or an eviction leaves alone.\<close>

definition page_key :: "ctx_page \<Rightarrow> cstr \<times> cstr \<times> bool \<times> rat" where
  "page_key p = (record_id p, p_scope p, pinned p, relevance p)"

definition page_keys :: "ctx_mmu \<Rightarrow> (cstr \<times> cstr \<times> bool \<times> rat) list" where
  "page_keys m = map page_key (elems (pages m))"

lemma page_keys_update:
  "elems (pages m') = (elems (pages m))[k := p] \<Longrightarrow> page_key p = page_key (page_at m k) \<Longrightarrow> page_keys m' = page_keys m"
  by (metis list_update_id map_update page_keys_def)

lemma page_keys_eqD:
  assumes "page_keys m' = page_keys m"
  shows "page_count m' = page_count m" "k < page_count m \<Longrightarrow> page_key (page_at m' k) = page_key (page_at m k)"
proof -
  show "page_count m' = page_count m" using assms by (metis length_map page_keys_def)
  then show "k < page_count m \<Longrightarrow> page_key (page_at m' k) = page_key (page_at m k)"
    using assms by (metis nth_map page_keys_def)
qed

section \<open>Eviction\<close>

lemma evict_page_ok:
  assumes ok: "mmu_ok m" and w: "worst_page de m = Some k"
  shows "mmu_ok (evict_page te k m) \<and> page_keys (evict_page te k m) = page_keys m"
proof -
  have k: "k < page_count m" using worst_page_Some [OF w] by simp
  have t: "page_tokens (page_at m k) \<le> token_used m" "token_used m < 2 ^ 64"
    using mmu_okD [OF ok k] ok by (auto simp: mmu_ok_def)
  let ?p = "(cold_page (page_at m k))\<lparr>previously_evicted := True\<rparr>"
  have p: "page_ok ?p" "page_tokens ?p = 0" "record_id ?p = record_id (page_at m k)"
    by (simp_all add: page_ok_def cold_page_def page_tokens_def token_estimate_def)
  have u: "token_used (evict_page te k m) = token_used m - page_tokens (page_at m k)"
    using t by (simp add: evict_page_def Let_def sub64_le)
  have "mmu_ok (evict_page te k m)"
  proof (rule mmu_ok_update [OF ok k p(1,3) evict_page_pages])
    show "token_used (evict_page te k m) + page_tokens (page_at m k) = token_used m + page_tokens ?p"
      using t(1) unfolding u p(2) by simp
    show "token_used (evict_page te k m) < 2 ^ 64" using t(2) unfolding u by simp
  qed (simp add: evict_page_def Let_def)
  moreover have "page_keys (evict_page te k m) = page_keys m"
    by (rule page_keys_update [OF evict_page_pages]) (simp add: page_key_def cold_page_def)
  ultimately show ?thesis by simp
qed

lemma evict_to_budget_ok:
  "mmu_ok m \<Longrightarrow> mmu_ok (evict_to_budget de te m) \<and> page_keys (evict_to_budget de te m) = page_keys m \<and>
     token_budget (evict_to_budget de te m) = token_budget m"
proof (induction de te m rule: evict_to_budget.induct)
  case (1 de te m)
  have "token_budget (evict_page te k m) = token_budget m" for k by (simp add: evict_page_def Let_def)
  with 1 evict_page_ok [OF "1.prems"] show ?case
    by (subst (1 2 3) evict_to_budget.simps) (auto split: option.split)
qed

lemma evict_to_budget_within:
  "token_used (evict_to_budget de te m) \<le> token_budget (evict_to_budget de te m) \<or>
   (\<forall>p \<in> set (elems (pages (evict_to_budget de te m))). \<not> evictable p)"
proof (induction de te m rule: evict_to_budget.induct)
  case (1 de te m)
  then show ?case
    by (subst (1 2 3) evict_to_budget.simps) (auto split: option.split dest: worst_page_None)
qed

lemma evict_to_budget_idle: "token_used m \<le> token_budget m \<Longrightarrow> evict_to_budget de te m = m"
  by (simp add: evict_to_budget.simps)

section \<open>Promotion\<close>

lemma materialize_ok:
  assumes "materialize te m p r l = (m1, p1)" "page_ok p"
  shows "page_ok p1" "page_tokens p1 = page_tokens p" "page_key p1 = page_key p" "residency p1 = residency p"
    "\<forall>k. k \<noteq> l \<longrightarrow> repr p1 k = repr p k"
    "pages m1 = pages m" "token_used m1 = token_used m" "token_budget m1 = token_budget m" "evictions m1 = evictions m"
proof -
  have r: "page_ok p1 \<and> page_tokens p1 = page_tokens p" 
  proof (cases "repr p l")
    case None
    then have "page_ok (p\<lparr>repr := (repr p)(l := t), tok := (tok p)(l := token_estimate t)\<rparr>)"
      "page_tokens (p\<lparr>repr := (repr p)(l := t), tok := (tok p)(l := token_estimate t)\<rparr>) = page_tokens p" for t
      using assms(2) by (auto simp: page_ok_def page_tokens_def split: ctx_residency.split)
    moreover have "page_ok (q\<lparr>previously_evicted := b\<rparr>) = page_ok q" "page_tokens (q\<lparr>previously_evicted := b\<rparr>) = page_tokens q" for q :: ctx_page and b
      by (simp_all add: page_ok_def page_tokens_def split: ctx_residency.split)
    ultimately show ?thesis
      using assms(1) None by (auto simp: materialize_def Let_def split: if_splits)
  qed (use assms in \<open>auto simp: materialize_def\<close>)
  then show "page_ok p1" "page_tokens p1 = page_tokens p" by simp_all
  show "page_key p1 = page_key p" "residency p1 = residency p" "\<forall>k. k \<noteq> l \<longrightarrow> repr p1 k = repr p k"
    "pages m1 = pages m" "token_used m1 = token_used m" "token_budget m1 = token_budget m" "evictions m1 = evictions m"
    using assms(1) by (auto simp: materialize_def Let_def page_key_def split: if_splits)
qed

lemma page_ok_drop:
  assumes "page_ok p" "(residency p = CTX_WARM \<longrightarrow> l \<noteq> CTX_L1)" "residency p = CTX_HOT \<longrightarrow> l \<noteq> CTX_L2"
  shows "page_ok (drop_level l p) \<and> page_tokens (drop_level l p) = page_tokens p \<and> page_key (drop_level l p) = page_key p"
  using assms by (auto simp: page_ok_def drop_level_def page_tokens_def page_key_def token_estimate_def split: ctx_residency.split)

text \<open>What an operation on one page keeps: the invariant, the keys, the budget, and staying within it.\<close>

definition keeps :: "ctx_mmu \<Rightarrow> ctx_mmu \<Rightarrow> bool" where
  "keeps m m' \<longleftrightarrow> mmu_ok m' \<and> page_keys m' = page_keys m \<and> token_budget m' = token_budget m \<and>
     (token_used m \<le> token_budget m \<longrightarrow> token_used m' \<le> token_budget m \<and> evictions m' = evictions m)"

lemma keeps_refl: "mmu_ok m \<Longrightarrow> keeps m m"
  by (simp add: keeps_def)

lemma keeps_trans: "keeps a b \<Longrightarrow> keeps b c \<Longrightarrow> keeps a c"
  by (auto simp: keeps_def)

lemma keeps_reject [simp]: "keeps m (reject m') = keeps m m'"
  by (simp add: keeps_def page_keys_def)

lemma keeps_set_page:
  assumes "mmu_ok m" "k < page_count m" "page_ok p" "page_key p = page_key (page_at m k)"
    "pages m1 = pages m" "token_budget m1 = token_budget m" "evictions m1 = evictions m"
    "token_used m1 + page_tokens (page_at m k) = token_used m + page_tokens p"
    "token_used m1 \<le> token_used m \<or> token_used m1 \<le> token_budget m"
  shows "keeps m (set_page k p m1)"
proof -
  have "token_used m1 < 2 ^ 64" using assms(1,9) by (auto simp: mmu_ok_def)
  then have "mmu_ok (set_page k p m1)"
    by (intro mmu_ok_update [OF assms(1-3)]) (use assms in \<open>auto simp: page_key_def\<close>)
  moreover have "page_keys (set_page k p m1) = page_keys m"
    using assms by (intro page_keys_update [of _ _ k p]) auto
  ultimately show ?thesis using assms by (auto simp: keeps_def)
qed

lemma promote_warm_keeps:
  assumes ok: "mmu_ok m" and k: "k < page_count m"
  shows "keeps m (promote_warm te rs k m)"
proof (cases "residency (page_at m k) = CTX_COLD \<and> (\<exists>r. mem_records_find rs (record_id (page_at m k)) = Some r)")
  case False
  then show ?thesis using keeps_refl [OF ok] by (auto simp: promote_warm_def Let_def split: option.split)
next
  case True
  then obtain r where c: "residency (page_at m k) = CTX_COLD" and f: "mem_records_find rs (record_id (page_at m k)) = Some r"
    by blast
  obtain m1 p1 where mt: "materialize te m (page_at m k) r CTX_L1 = (m1, p1)" by fastforce
  note mat = materialize_ok [OF mt mmu_okD(1) [OF ok k]]
  have c1: "residency p1 = CTX_COLD" "page_tokens p1 = 0" "page_tokens (page_at m k) = 0"
    using mat(2,4) c by (simp_all add: page_tokens_def)
  have b: "token_used m < 2 ^ 64" "token_budget m < 2 ^ 64" using ok by (auto simp: mmu_ok_def)
  have d: "page_ok (drop_level CTX_L1 p1)" "page_tokens (drop_level CTX_L1 p1) = 0"
    "page_key (drop_level CTX_L1 p1) = page_key (page_at m k)"
    using page_ok_drop [OF mat(1), of CTX_L1] c1 mat(3) by auto
  show ?thesis
  proof (cases "repr p1 CTX_L1 = None \<or> token_budget m < tok p1 CTX_L1 \<or> sub64 (token_budget m) (tok p1 CTX_L1) < token_used m")
    case True
    have "keeps m (set_page k p1 m1)" "keeps m (set_page k (drop_level CTX_L1 p1) m1)"
      by (rule keeps_set_page [OF ok k]; use mat c1 d in simp)+
    with True show ?thesis by (auto simp: promote_warm_def c f mt mat)
  next
    case False
    let ?p = "p1\<lparr>residency := CTX_WARM\<rparr>"
    have p: "page_ok ?p" "page_tokens ?p = tok p1 CTX_L1" "page_key ?p = page_key (page_at m k)"
      using mat(1,3) False by (auto simp: page_ok_def page_tokens_def page_key_def)
    have u: "token_used m + tok p1 CTX_L1 \<le> token_budget m" 
      using False b sub64_le [of "tok p1 CTX_L1" "token_budget m"] by auto
    have "keeps m (set_page k ?p (m1\<lparr>token_used := token_used m1 + tok p1 CTX_L1, generation := generation m1 + 1\<rparr>))"
      by (rule keeps_set_page [OF ok k p(1,3)]) (use mat c1 p(2) u in simp_all)
    with False show ?thesis by (auto simp: promote_warm_def c f mt mat)
  qed
qed

lemma promote_all_warm_keeps:
  "mmu_ok m \<Longrightarrow> \<forall>(k, s) \<in> set ks. k < page_count m \<Longrightarrow> keeps m (promote_all_warm de te rs ks m)"
proof (induction de te rs ks m rule: promote_all_warm.induct)
  case (2 de te rs k s ks m)
  have k: "keeps m (promote_warm te rs k m)" using 2 by (intro promote_warm_keeps) auto
  then have "page_count (promote_warm te rs k m) = page_count m" by (auto simp: keeps_def dest: page_keys_eqD(1))
  with 2 k have "\<not> (residency (page_at m k) = CTX_COLD \<and> s < de_fl de (5 / 100)) \<Longrightarrow>
      keeps (promote_warm te rs k m) (promote_all_warm de te rs ks (promote_warm te rs k m))"
    by (auto simp: keeps_def)
  with k "2.prems"(1) show ?case by (auto intro: keeps_trans keeps_refl)
qed (simp add: keeps_refl)

text \<open>A promotion to HOT charges the detail and releases the overview.\<close>

lemma promote_hot_keeps:
  assumes ok: "mmu_ok m" and k: "k < page_count m" and ph: "promote_hot te now k (rs, m) = (b, rs', m')"
  shows "keeps m m'"
proof (cases "residency (page_at m k) = CTX_WARM \<and> (\<exists>r. mem_records_find rs (record_id (page_at m k)) = Some r)")
  case False
  then show ?thesis using keeps_refl [OF ok] ph by (auto simp: promote_hot_def Let_def split: option.splits if_splits)
next
  case True
  then obtain r where c: "residency (page_at m k) = CTX_WARM" and f: "mem_records_find rs (record_id (page_at m k)) = Some r"
    by blast
  obtain m1 p1 where mt: "materialize te m (page_at m k) r CTX_L2 = (m1, p1)" by fastforce
  note mat = materialize_ok [OF mt mmu_okD(1) [OF ok k]]
  let ?l1 = "tok (page_at m k) CTX_L1"
  have t: "page_tokens (page_at m k) = ?l1" "?l1 \<le> token_used m" "tok p1 CTX_L1 = ?l1" "residency p1 = CTX_WARM"
    using c mat(2,4) mmu_okD(2) [OF ok k] by (simp_all add: page_tokens_def)
  have bd: "token_used m < 2 ^ 64" "token_budget m < 2 ^ 64" using ok by (auto simp: mmu_ok_def)
  have drop: "keeps m (set_page k (drop_level CTX_L2 (page_at m k)) m)"
    using page_ok_drop [OF mmu_okD(1) [OF ok k], of CTX_L2] c by (intro keeps_set_page [OF ok k]) auto
  have keep1: "keeps m (set_page k p1 m1)"
    by (rule keeps_set_page [OF ok k]) (use mat in simp_all)
  let ?p = "p1\<lparr>residency := CTX_HOT, p_access_count := p_access_count p1 + 1, p_last_access_ms := now\<rparr>"
  let ?m = "m1\<lparr>token_used := sub64 (token_used m1 + tok p1 CTX_L2) (tok p1 CTX_L1), generation := generation m1 + 1\<rparr>"
  have s: "sub64 (token_used m) ?l1 = token_used m - ?l1" using t(2) bd(1) by (rule sub64_le)
  have "keeps m (set_page k ?p ?m)"
    if l2: "repr p1 CTX_L2 \<noteq> None" and fit: "token_used m - ?l1 + tok p1 CTX_L2 \<le> token_budget m"
  proof -
    have "sub64 (token_used m + tok p1 CTX_L2) ?l1 = token_used m - ?l1 + tok p1 CTX_L2"
      using t(2) fit bd(2) by (simp add: sub64_def of_nat_diff)
    then have u: "token_used ?m = token_used m - ?l1 + tok p1 CTX_L2" using mat(7) t(3) by simp
    have p: "page_ok ?p" "page_tokens ?p = tok p1 CTX_L2" "page_key ?p = page_key (page_at m k)"
      using mat(1,3) l2 by (auto simp: page_ok_def page_tokens_def page_key_def)
    show ?thesis
      by (rule keeps_set_page [OF ok k p(1,3)]) (use mat u t p(2) fit in simp_all)
  qed
  with ph drop keep1 show ?thesis
    by (auto simp: promote_hot_def c f mt mat s t(3) Let_def split: if_splits)
qed

lemma promote_all_hot_keeps:
  "mmu_ok m \<Longrightarrow> \<forall>k \<in> set ks. k < page_count m \<Longrightarrow> promote_all_hot te now top_k ks n (rs, m) = (rs', m') \<Longrightarrow> keeps m m'"
proof (induction ks arbitrary: n rs m)
  case (Cons k ks)
  show ?case
  proof (cases "top_k \<le> n")
    case False
    obtain b rs1 m1 where ph: "promote_hot te now k (rs, m) = (b, rs1, m1)" by (metis prod_cases3)
    have k1: "keeps m m1" using Cons.prems(1,2) by (intro promote_hot_keeps [OF _ _ ph]) auto
    then have "page_count m1 = page_count m" "mmu_ok m1" by (auto simp: keeps_def dest: page_keys_eqD(1))
    with Cons.IH [of m1 "if b then n + 1 else n" rs1] Cons.prems(2,3) ph False have "keeps m1 m'" by simp
    with k1 show ?thesis by (rule keeps_trans)
  qed (use Cons.prems keeps_refl in simp)
qed (simp add: keeps_refl)

section \<open>The ranking\<close>

lemma rank_insert_ranked: "rank_insert c (ranked cs) = insert_ranked c (ranked cs)"
  using shift_pos_ranked [of "ranked cs" "length (ranked cs)" "snd c"]
  by (simp add: rank_insert_def insert_ranked_def Let_def)

lemma fold_rank_insert: "fold rank_insert cs (ranked ds) = ranked (ds @ cs)"
  by (induction cs arbitrary: ds) (simp_all add: rank_insert_ranked flip: ranked_snoc)

lemma rank_pages_sorted: "rank_pages de c now m = ranked (candidates de c now m)"
  using fold_rank_insert [of "candidates de c now m" "[]"] by (simp add: rank_pages_def)

lemma in_candidates:
  "(k, s) \<in> set (candidates de c now m) \<longleftrightarrow>
     k < page_count m \<and> scope_allowed c (p_scope (page_at m k)) \<and> s = page_score de c now (page_at m k)"
proof -
  have "(k, s) \<in> set (candidates de c now m) \<longleftrightarrow> (\<exists>ip \<in> set (enumerate 0 (elems (pages m))).
      scope_allowed c (p_scope (snd ip)) \<and> k = fst ip \<and> s = page_score de c now (snd ip))"
    by (auto simp: candidates_def in_map_filter case_prod_beta intro!: bexI split: if_splits)
  then show ?thesis by (auto simp: in_set_enumerate_eq Bex_def)
qed

lemma distinct_candidates: "distinct (map fst (candidates de c now m))"
proof -
  have "distinct (map fst (List.map_filter (\<lambda>(i, p). if P p then Some (i, g p) else None) xs))" if "distinct (map fst xs)"
    for P and g :: "ctx_page \<Rightarrow> rat" and xs :: "(nat \<times> ctx_page) list"
    using that by (induction xs) (fastforce simp: List.map_filter_simps in_map_filter image_iff split: if_splits)+
  then show ?thesis by (simp add: candidates_def)
qed

lemma rank_pages_facts:
  "distinct (map fst (rank_pages de c now m))" "\<forall>(k, s) \<in> set (rank_pages de c now m). k < page_count m"
proof -
  have "mset (map fst (rank_pages de c now m)) = mset (map fst (candidates de c now m))"
    by (simp add: rank_pages_sorted)
  then show "distinct (map fst (rank_pages de c now m))" using distinct_candidates by (metis mset_eq_imp_distinct_iff)
  show "\<forall>(k, s) \<in> set (rank_pages de c now m). k < page_count m"
    by (auto simp: rank_pages_sorted in_candidates)
qed

section \<open>The table follows the store\<close>

lemma mmu_ok_append:
  assumes "mmu_ok m" "vec_push n grow p (pages m) = Some v" "page_ok p" "page_tokens p = 0" "record_id p \<notin> record_id ` set (elems (pages m))"
  shows "mmu_ok (m\<lparr>pages := v\<rparr>)"
  using assms by (auto simp: mmu_ok_def charges_def vec_simps)

lemma page_zero_ok [simp]: "page_ok (page_zero i)" "page_tokens (page_zero i) = 0" "record_id (page_zero i) = cbuf MEM_ID_MAX i"
  by (simp_all add: page_zero_def page_ok_def page_tokens_def token_estimate_def)

lemma page_get_ok:
  assumes ok: "mmu_ok m" and i: "length i < MEM_ID_MAX" and g: "page_get grow m i = Some (k, m1)"
  shows "mmu_ok m1 \<and> k < page_count m1 \<and> record_id (page_at m1 k) = i \<and> token_used m1 = token_used m \<and>
     token_budget m1 = token_budget m \<and> evictions m1 = evictions m \<and> (\<forall>p \<in> set (elems (pages m1)). p \<in> set (elems (pages m)) \<or> record_id p = i)"
proof (cases "page_index m i")
  case (Some j)
  with g ok find_index_SomeD [of "\<lambda>p. record_id p = i"] show ?thesis
    by (auto simp: page_get_def page_index_def)
next
  case None
  then obtain v where v: "vec_push 32 grow (page_zero i) (pages m) = Some v" "k = page_count m" "m1 = m\<lparr>pages := v\<rparr>"
    using g by (auto simp: page_get_def)
  have "i \<notin> record_id ` set (elems (pages m))" using None by (auto simp: page_index_def find_index_None_iff)
  with v ok i show ?thesis by (auto simp: cbuf_id vec_simps intro!: mmu_ok_append)
qed

text \<open>What the first pass makes of the page of a record.\<close>

definition page_of :: "mem_record \<Rightarrow> ctx_page \<Rightarrow> bool" where
  "page_of r p \<longleftrightarrow> record_id p = m_id r \<longrightarrow> p_scope p = cbuf MEM_SCOPE_MAX (m_scope r)"

lemma page_attrs_ok [simp]:
  "page_ok (page_attrs r p) = page_ok p" "page_tokens (page_attrs r p) = page_tokens p" "record_id (page_attrs r p) = record_id p"
  "p_scope (page_attrs r p) = cbuf MEM_SCOPE_MAX (m_scope r)"
  by (simp_all add: page_attrs_def page_ok_def page_tokens_def split: ctx_residency.split)

lemma sync_record_ok:
  assumes ok: "mmu_ok m" and i: "length (m_id r) < MEM_ID_MAX" and s: "sync_record be grow r m = m'"
  shows "mmu_ok m'" "token_budget m' = token_budget m" "token_used m' \<le> token_used m" "evictions m' = evictions m"
    "live_status (m_status r) \<Longrightarrow> \<forall>p \<in> set (elems (pages m')). page_of r p"
    "\<forall>p \<in> set (elems (pages m')). p \<in> set (elems (pages m)) \<or> record_id p = m_id r"
proof -
  have "mmu_ok m' \<and> token_budget m' = token_budget m \<and> token_used m' \<le> token_used m \<and> evictions m' = evictions m \<and>
    (live_status (m_status r) \<longrightarrow> (\<forall>p \<in> set (elems (pages m')). page_of r p)) \<and>
    (\<forall>p \<in> set (elems (pages m')). p \<in> set (elems (pages m)) \<or> record_id p = m_id r)"
  proof (cases "live_status (m_status r)")
    case True
    show ?thesis
    proof (cases "page_get (grow (m_id r)) m (m_id r)")
      case None
      then have "\<forall>p \<in> set (elems (pages m)). record_id p \<noteq> m_id r"
        by (auto simp: page_get_def page_index_def find_index_None_iff split: option.splits)
      moreover have "m' = m" using None s \<open>live_status _\<close> by (simp add: sync_record_def)
      ultimately show ?thesis using ok by (simp add: page_of_def)
    next
      case (Some km)
      then obtain k m1 where g: "page_get (grow (m_id r)) m (m_id r) = Some (k, m1)" by (cases km) auto
      note pg = page_get_ok [OF ok i g]
      then have ok1: "mmu_ok m1" and k: "k < page_count m1" by simp_all
      let ?p = "page_at m1 k"
      obtain p where p: "page_ok p" "record_id p = m_id r" "p_scope p = cbuf MEM_SCOPE_MAX (m_scope r)"
          "elems (pages m') = (elems (pages m1))[k := p]" "token_used m' + page_tokens ?p = token_used m1 + page_tokens p"
          "page_tokens p \<le> page_tokens ?p" "token_budget m' = token_budget m1" "evictions m' = evictions m1"
      proof (cases "content_hash ?p = representation_hash be r")
        case True
        with s g \<open>live_status _\<close> pg mmu_okD(1) [OF ok1 k] show ?thesis
          by (intro that [of "page_attrs r ?p"]) (auto simp: sync_record_def)
      next
        case False
        have "sub64 (token_used m1) (page_tokens ?p) = token_used m1 - page_tokens ?p"
          using ok1 mmu_okD(2) [OF ok1 k] by (intro sub64_le) (auto simp: mmu_ok_def)
        moreover have "page_ok ((cold_page ?p)\<lparr>content_hash := h\<rparr>)" "page_tokens ((cold_page ?p)\<lparr>content_hash := h\<rparr>) = 0"
            "record_id ((cold_page ?p)\<lparr>content_hash := h\<rparr>) = record_id ?p" for h
          by (simp_all add: page_ok_def cold_page_def page_tokens_def token_estimate_def)
        ultimately show ?thesis
          using s g \<open>live_status _\<close> pg mmu_okD(2) [OF ok1 k] False
          by (intro that [of "page_attrs r ((cold_page ?p)\<lparr>content_hash := representation_hash be r\<rparr>)"])
            (auto simp: sync_record_def Let_def)
      qed
      have u: "token_used m' \<le> token_used m1" using p(5,6) by linarith
      have "mmu_ok m'"
        by (rule mmu_ok_update [OF ok1 k p(1) _ p(4,5) _ p(7)]) (use p(2) pg u ok1 in \<open>auto simp: mmu_ok_def\<close>)
      moreover have "page_of r q" if q: "q \<in> set (elems (pages m'))" for q
      proof -
        obtain j where j: "j < page_count m1" "q = (elems (pages m1))[k := p] ! j"
          using q by (auto simp: p(4) in_set_conv_nth)
        have "record_id (page_at m1 j) \<noteq> m_id r" if "j \<noteq> k"
        proof -
          have "map record_id (elems (pages m1)) ! j \<noteq> map record_id (elems (pages m1)) ! k"
            using ok1 that j(1) k by (subst nth_eq_iff_index_eq) (auto simp: mmu_ok_def)
          then show ?thesis using j(1) k pg by simp
        qed
        with j k p(3) show ?thesis by (auto simp: page_of_def nth_list_update)
      qed
      moreover have "q \<in> set (elems (pages m)) \<or> record_id q = m_id r" if "q \<in> set (elems (pages m'))" for q
        using that p(2,4) pg set_update_subset_insert [of "elems (pages m1)" k p] by auto
      ultimately show ?thesis using p(7,8) u pg by auto
    qed
  qed (use ok s in \<open>simp add: sync_record_def\<close>)
  then show "mmu_ok m'" "token_budget m' = token_budget m" "token_used m' \<le> token_used m" "evictions m' = evictions m"
    "live_status (m_status r) \<Longrightarrow> \<forall>p \<in> set (elems (pages m')). page_of r p"
    "\<forall>p \<in> set (elems (pages m')). p \<in> set (elems (pages m)) \<or> record_id p = m_id r" by blast+
qed

text \<open>The ids of a store differ, and fields fit their arrays.\<close>

definition good_ids :: "mem_record list \<Rightarrow> bool" where
  "good_ids rs \<longleftrightarrow> distinct (map m_id rs) \<and> (\<forall>r \<in> set rs. length (m_id r) < MEM_ID_MAX \<and> length (m_scope r) < MEM_SCOPE_MAX)"

lemma sync_records_ok:
  "good_ids rs \<Longrightarrow> mmu_ok m \<Longrightarrow> fold (sync_record be grow) rs m = m' \<Longrightarrow>
     mmu_ok m' \<and> token_budget m' = token_budget m \<and> token_used m' \<le> token_used m \<and> evictions m' = evictions m \<and>
     (\<forall>r \<in> set rs. live_status (m_status r) \<longrightarrow> (\<forall>p \<in> set (elems (pages m')). page_of r p))"
proof (induction rs arbitrary: m' rule: rev_induct)
  case (snoc r rs)
  let ?m = "fold (sync_record be grow) rs m"
  have m': "sync_record be grow r ?m = m'" using snoc.prems(3) by simp
  have g: "good_ids rs" "length (m_id r) < MEM_ID_MAX" "\<forall>q \<in> set rs. m_id q \<noteq> m_id r"
    using snoc.prems(1) by (auto simp: good_ids_def image_iff)
  note ih = snoc.IH [OF g(1) snoc.prems(2) refl]
  note sr = sync_record_ok [OF conjunct1 [OF ih] g(2) m']
  have "page_of q p" if "q \<in> set rs" "live_status (m_status q)" "p \<in> set (elems (pages m'))" for q p
    using bspec [OF sr(6) that(3)] that bspec [OF g(3) that(1)] ih by (auto simp: page_of_def)
  with sr ih show ?case by auto
qed simp

lemma release_pages:
  assumes "sum_list (map t (filter (Not \<circ> P) ps)) \<le> u" "u < 2 ^ 64"
  shows "foldl (\<lambda>u p. if P p then u else sub64 u (t p)) u ps = u - sum_list (map t (filter (Not \<circ> P) ps))"
  using assms by (induction ps arbitrary: u) (auto simp: sub64_le)

lemma sum_list_split: "sum_list (map t xs) = sum_list (map t (filter P xs)) + sum_list (map t (filter (Not \<circ> P) xs))"
  for t :: "'a \<Rightarrow> nat"
  by (induction xs) auto

lemma drop_pages_ok:
  assumes ok: "mmu_ok m"
  shows "mmu_ok (drop_pages rs m) \<and> token_used (drop_pages rs m) \<le> token_used m"
proof -
  have s: "token_used m = sum_list (map page_tokens (filter (page_live rs) (elems (pages m)))) +
      sum_list (map page_tokens (filter (Not \<circ> page_live rs) (elems (pages m))))"
    using ok sum_list_split [of page_tokens "elems (pages m)" "page_live rs"] by (simp add: mmu_ok_def charges_def)
  have "token_used (drop_pages rs m) = token_used m - sum_list (map page_tokens (filter (Not \<circ> page_live rs) (elems (pages m))))"
    unfolding drop_pages_def using ok s by (simp add: release_pages mmu_ok_def)
  then have "token_used (drop_pages rs m) = charges (drop_pages rs m)" using s by (simp add: charges_def drop_pages_def)
  with s ok show ?thesis by (auto simp: mmu_ok_def charges_def drop_pages_def distinct_map_filter)
qed

text \<open>After the passes a page stands for a live record of the store, with the record's scope.\<close>

definition page_current :: "mem_records \<Rightarrow> ctx_page \<Rightarrow> bool" where
  "page_current rs p \<longleftrightarrow> (\<exists>r. mem_records_find rs (record_id p) = Some r \<and> live_status (m_status r) \<and>
     p_scope p = cbuf MEM_SCOPE_MAX (m_scope r))"

lemma sync_pages_ok:
  assumes ok: "mmu_ok m" and g: "good_ids (elems (rs_items rs))"
  shows "mmu_ok (sync_pages be grow rs m)" "token_budget (sync_pages be grow rs m) = token_budget m"
    "token_used (sync_pages be grow rs m) \<le> token_used m" "evictions (sync_pages be grow rs m) = evictions m"
    "\<forall>p \<in> set (elems (pages (sync_pages be grow rs m))). page_current rs p"
proof -
  let ?m = "fold (sync_record be grow) (elems (rs_items rs)) m"
  note s = sync_records_ok [OF g ok refl, of be grow]
  note d = drop_pages_ok [OF conjunct1 [OF s], of rs]
  show "mmu_ok (sync_pages be grow rs m)" "token_used (sync_pages be grow rs m) \<le> token_used m"
    using d s by (auto simp: sync_pages_def)
  show "token_budget (sync_pages be grow rs m) = token_budget m" "evictions (sync_pages be grow rs m) = evictions m"
    using s by (simp_all add: sync_pages_def drop_pages_def)
  show "\<forall>p \<in> set (elems (pages (sync_pages be grow rs m))). page_current rs p"
  proof
    fix p assume "p \<in> set (elems (pages (sync_pages be grow rs m)))"
    then have p: "p \<in> set (elems (pages ?m))" "page_live rs p" by (auto simp: sync_pages_def drop_pages_def)
    then obtain r where r: "mem_records_find rs (record_id p) = Some r" "live_status (m_status r)"
      by (auto simp: page_live_def split: option.splits)
    then have "r \<in> set (elems (rs_items rs))" "m_id r = record_id p"
      using g find_Some_iff [of "elems (rs_items rs)" "record_id p" r] by (auto simp: mem_records_find_def good_ids_def)
    with s r p show "page_current rs p" by (auto simp: page_current_def page_of_def)
  qed
qed

section \<open>A recall\<close>

lemma map_pages_ok:
  assumes "mmu_ok m" "\<And>p. page_ok (f p) = page_ok p \<and> page_tokens (f p) = page_tokens p \<and> record_id (f p) = record_id p"
  shows "mmu_ok (map_pages f m)"
  using assms by (auto simp: mmu_ok_def map_pages_def charges_def comp_def)

lemma set_relevance_simps [simp]:
  "page_ok (set_relevance hits p) = page_ok p" "page_tokens (set_relevance hits p) = page_tokens p"
  "record_id (set_relevance hits p) = record_id p" "page_current rs (set_relevance hits p) = page_current rs p"
  by (simp_all add: set_relevance_def page_ok_def page_tokens_def page_current_def split: ctx_residency.split)

lemma recall_relevance_ok:
  assumes "mmu_ok m"
  shows "mmu_ok (recall_relevance vec h q k m)" "token_budget (recall_relevance vec h q k m) = token_budget m"
    "token_used (recall_relevance vec h q k m) = token_used m" "evictions (recall_relevance vec h q k m) = evictions m"
    "\<forall>p \<in> set (elems (pages m)). page_current rs p \<Longrightarrow> \<forall>p \<in> set (elems (pages (recall_relevance vec h q k m))). page_current rs p"
  using assms by (auto simp: recall_relevance_def map_pages_ok split: option.split) (auto simp: map_pages_def)

text \<open>A configuration whose budget is a \<open>size_t\<close>.\<close>

definition config_ok :: "ctx_config option \<Rightarrow> bool" where
  "config_ok cfg \<longleftrightarrow> (case cfg of None \<Rightarrow> True | Some c \<Rightarrow> cf_token_budget c < 2 ^ 64)"

text \<open>The budget a recall works with.\<close>

definition recall_budget :: "recall_env \<Rightarrow> ctx_config option \<Rightarrow> ctx_mmu \<Rightarrow> nat" where
  "recall_budget e cfg m =
     (let b = cf_token_budget (recall_config e cfg) in if 0 < b then b else token_budget m)"

lemma recall_config_simps [simp]:
  "cf_token_budget (recall_config e cfg) = (case cfg of None \<Rightarrow> 4096 | Some c \<Rightarrow> cf_token_budget c)"
  "cf_scope (recall_config e cfg) = (case cfg of None \<Rightarrow> None | Some c \<Rightarrow> cf_scope c)"
  "private_only (recall_config e cfg) = (case cfg of None \<Rightarrow> False | Some c \<Rightarrow> private_only c)"
  by (auto simp: recall_config_def Let_def ctx_mmu_config_default_def split: option.split)

text \<open>The stages of a recall.\<close>

lemma recall_stages:
  assumes ok: "mmu_ok m" and c: "config_ok cfg" and g: "good_ids (elems (rs_items rs))"
    and rc: "ctx_mmu_recall e vec m rs query cfg = (ans, rs', m')"
  obtains m1 where "mmu_ok m1" "token_budget m1 = recall_budget e cfg m" "token_used m1 \<le> token_used m" "evictions m1 = evictions m"
    "\<forall>p \<in> set (elems (pages m1)). page_current rs p" "mmu_ok m'" "token_budget m' = token_budget m1"
    "page_keys m' = page_keys m1" "token_used m1 \<le> token_budget m1 \<Longrightarrow> evictions m' = evictions m1 \<and> token_used m' \<le> token_budget m1"
    "re_rank_ok e \<Longrightarrow> \<exists>now. ans = Some (recall_items rs' m' (rank_pages (re_double e) (recall_config e cfg) now m1))"
    "re_rank_ok e \<Longrightarrow> token_used m' \<le> token_budget m' \<or> (\<forall>p \<in> set (elems (pages m')). \<not> evictable p)"
    "\<not> re_rank_ok e \<Longrightarrow> ans = None \<and> m' = m1"
proof -
  define c' where "c' = recall_config e cfg"
  define now where "now = (if 0 < cf_now_ms c' then cf_now_ms c' else re_now e)"
  define m0 where "m0 = (if 0 < cf_token_budget c' then m\<lparr>token_budget := cf_token_budget c'\<rparr> else m)"
  define ms where "ms = sync_pages (re_bytes e) (re_grow e) rs m0"
  define m1 where "m1 = recall_relevance vec (re_hits_ok e) query (candidate_k c') ms"
  have b0: "token_budget m0 = recall_budget e cfg m"
    by (simp add: m0_def recall_budget_def c'_def Let_def)
  have "mmu_ok m0" using ok c by (auto simp: m0_def c'_def mmu_ok_def charges_def config_ok_def split: option.splits)
  note sy = sync_pages_ok [OF this g, of "re_bytes e" "re_grow e", folded ms_def]
  note re = recall_relevance_ok [OF sy(1), where vec = vec and h = "re_hits_ok e" and q = query and k = "candidate_k c'", folded m1_def]
  have m1: "mmu_ok m1" "token_budget m1 = recall_budget e cfg m" "token_used m1 \<le> token_used m" "evictions m1 = evictions m"
    "\<forall>p \<in> set (elems (pages m1)). page_current rs p"
    using re(1-4) re(5) [OF sy(5)] sy(2-4) b0 by (auto simp: m0_def split: if_splits)
  show ?thesis
  proof (cases "re_rank_ok e")
    case False
    then have "ans = None" "m' = m1"
      using rc unfolding ctx_mmu_recall_def Let_def m1_def ms_def m0_def c'_def by (auto split: if_splits)
    with m1 False show ?thesis by (intro that [of m1]) auto
  next
    case True
    define ks where "ks = rank_pages (re_double e) c' now m1"
    define mw where "mw = promote_all_warm (re_double e) (re_time e) rs ks m1"
    define m2 where "m2 = evict_to_budget (re_double e) (re_time e) mw"
    obtain m3 where h: "promote_all_hot (re_time e) now (l2_top_k c') (map fst ks) 0 (rs, m2) = (rs', m3)"
        and m': "m' = evict_to_budget (re_double e) (re_time e) m3" and ans: "ans = Some (recall_items rs' m' ks)"
      using rc True unfolding ctx_mmu_recall_def Let_def m1_def ms_def m0_def c'_def now_def ks_def mw_def m2_def
      by (auto split: prod.splits)
    note rf = rank_pages_facts [of "re_double e" c' now m1, folded ks_def]
    have kw: "keeps m1 mw" unfolding mw_def by (rule promote_all_warm_keeps [OF m1(1) rf(2)])
    then have e2: "mmu_ok m2" "page_keys m2 = page_keys m1" "token_budget m2 = token_budget m1"
      using evict_to_budget_ok [of mw "re_double e" "re_time e"] by (auto simp: m2_def keeps_def)
    have "\<forall>k \<in> set (map fst ks). k < page_count m2" using rf(2) page_keys_eqD(1) [OF e2(2)] by auto
    then have kh: "keeps m2 m3" by (rule promote_all_hot_keeps [OF e2(1) _ h])
    then have e4: "mmu_ok m'" "page_keys m' = page_keys m1" "token_budget m' = token_budget m1"
      using evict_to_budget_ok [of m3 "re_double e" "re_time e"] e2 by (auto simp: m' keeps_def)
    have "evictions m' = evictions m1 \<and> token_used m' \<le> token_budget m1" if u: "token_used m1 \<le> token_budget m1"
    proof -
      have "token_used mw \<le> token_budget mw" "evictions mw = evictions m1" using kw u by (auto simp: keeps_def)
      then have "m2 = mw" by (simp add: m2_def evict_to_budget_idle)
      with kh kw u have "token_used m3 \<le> token_budget m3" "evictions m3 = evictions m1" "token_budget m3 = token_budget m1"
        by (auto simp: keeps_def)
      then show ?thesis by (simp add: m' evict_to_budget_idle)
    qed
    moreover have "token_used m' \<le> token_budget m' \<or> (\<forall>p \<in> set (elems (pages m')). \<not> evictable p)"
      unfolding m' by (rule evict_to_budget_within)
    ultimately show ?thesis using m1 e4 ans True by (intro that [of m1]) (auto simp: ks_def c'_def)
  qed
qed

section \<open>Runs\<close>

inductive mmu_step :: "ctx_mmu \<Rightarrow> ctx_mmu \<Rightarrow> bool" where
  pin: "mmu_step m (snd (ctx_mmu_pin m i b))"
| set_config: "cf_token_budget c < 2 ^ 64 \<Longrightarrow> mmu_step m (ctx_mmu_set_config m c)"
| recall: "config_ok cfg \<Longrightarrow> good_ids (elems (rs_items rs)) \<Longrightarrow> mmu_step m (snd (snd (ctx_mmu_recall e vec m rs query cfg)))"

definition mmu_start :: "ctx_mmu \<Rightarrow> bool" where
  "mmu_start m \<longleftrightarrow> (\<exists>de. m = ctx_mmu_new de)"

lemma mmu_ok_pin: "mmu_ok m \<Longrightarrow> mmu_ok (snd (ctx_mmu_pin m i b))"
proof -
  assume ok: "mmu_ok m"
  show ?thesis
  proof (cases "Option.bind i (page_index m)")
    case (Some k)
    then have k: "k < page_count m" by (auto simp: page_index_def bind_eq_Some_conv dest: find_index_SomeD)
    have "mmu_ok (set_page k ((page_at m k)\<lparr>pinned := (b \<noteq> 0)\<rparr>) m)"
      by (rule mmu_ok_update [OF ok k, of "(page_at m k)\<lparr>pinned := (b \<noteq> 0)\<rparr>"])
        (use ok mmu_okD(1) [OF ok k] in \<open>auto simp: mmu_ok_def page_ok_def page_tokens_def split: ctx_residency.split\<close>)
    with Some show ?thesis by (simp add: ctx_mmu_pin_def)
  qed (simp add: ctx_mmu_pin_def ok)
qed

interpretation mmu_sys: invariant_system mmu_start mmu_step mmu_ok
proof unfold_locales
  fix m assume "mmu_start m"
  then show "mmu_ok m"
    by (auto simp: mmu_start_def ctx_mmu_new_def mmu_ok_def charges_def vec_new_def ctx_mmu_config_default_def)
next
  fix m m' assume ok: "mmu_ok m" and "mmu_step m m'"
  from this(2) show "mmu_ok m'"
  proof cases
    case (set_config c)
    with ok show ?thesis by (auto simp: ctx_mmu_set_config_def mmu_ok_def charges_def Let_def)
  next
    case (recall cfg rs e vec query)
    obtain a rs' m2 where r: "ctx_mmu_recall e vec m rs query cfg = (a, rs', m2)" by (metis prod_cases3)
    from recall_stages [OF ok recall(2,3) r] have "mmu_ok m2" by blast
    with recall(1) r show ?thesis by simp
  qed (simp add: mmu_ok_pin [OF ok])
qed

section \<open>What a recall answers\<close>

lemma page_item_Some:
  assumes "page_item rs m ks = Some it"
  shows "it_page it = page_at m (fst ks)" "it_score it = snd ks" "tok (it_page it) (it_level it) = page_tokens (it_page it)"
    "repr (it_page it) (it_level it) = Some (it_text it)"
  using assms by (auto simp: page_item_def Let_def page_tokens_def split: if_splits option.splits ctx_residency.split)

definition item_tokens :: "ctx_item \<Rightarrow> nat" where
  "item_tokens it = tok (it_page it) (it_level it)"

lemma sum_map_filter_le:
  "(\<And>x y. x \<in> set xs \<Longrightarrow> g x = Some y \<Longrightarrow> f y = h x) \<Longrightarrow> sum_list (map f (List.map_filter g xs)) \<le> sum_list (map h xs)"
  for f :: "'b \<Rightarrow> nat"
proof (induction xs)
  case (Cons a xs)
  then have "sum_list (map f (List.map_filter g xs)) \<le> sum_list (map h xs)" by simp
  with Cons.prems [of a] show ?case by (auto simp: List.map_filter_simps split: option.split)
qed (simp add: List.map_filter_simps)

lemma recall_items_tokens:
  assumes "distinct (map fst ks)" "\<forall>(k, s) \<in> set ks. k < page_count m"
  shows "sum_list (map item_tokens (recall_items rs m ks)) \<le> charges m"
proof -
  have "sum_list (map item_tokens (recall_items rs m ks)) \<le> sum_list (map (\<lambda>x. page_tokens (page_at m (fst x))) ks)"
    unfolding recall_items_def by (rule sum_map_filter_le) (metis item_tokens_def page_item_Some(1,3))
  also have "\<dots> = sum_list (map (\<lambda>k. page_tokens (page_at m k)) (map fst ks))" by (simp add: comp_def)
  also have "\<dots> = (\<Sum>k \<in> set (map fst ks). page_tokens (page_at m k))" using assms(1) by (rule sum_list_distinct_conv_sum_set)
  also have "\<dots> \<le> (\<Sum>k \<in> {0..<page_count m}. page_tokens (page_at m k))" using assms(2) by (intro sum_mono2) auto
  also have "\<dots> = charges m" by (simp add: charges_def sum_list_sum_nth)
  finally show ?thesis .
qed

lemma recall_budget_ok:
  assumes ok: "mmu_ok m" and cfg: "config_ok cfg" "good_ids (elems (rs_items rs))"
    and rc: "ctx_mmu_recall e vec m rs query cfg = (Some items, rs', m')"
  shows "token_used m' = (\<Sum>p \<leftarrow> elems (pages m'). page_tokens p) \<and>
    (token_used m' \<le> recall_budget e cfg m \<or> (\<forall>p \<in> set (elems (pages m')). residency p \<noteq> CTX_COLD \<longrightarrow> pinned p)) \<and>
    (\<Sum>it \<leftarrow> items. item_tokens it) \<le> token_used m'"
proof -
  show ?thesis
  proof (rule recall_stages [OF ok cfg rc])
    fix m1
    assume h: "mmu_ok m1" "token_budget m1 = recall_budget e cfg m" "mmu_ok m'" "token_budget m' = token_budget m1"
      "page_keys m' = page_keys m1"
      "re_rank_ok e \<Longrightarrow> \<exists>now. Some items = Some (recall_items rs' m' (rank_pages (re_double e) (recall_config e cfg) now m1))"
      "re_rank_ok e \<Longrightarrow> token_used m' \<le> token_budget m' \<or> (\<forall>p \<in> set (elems (pages m')). \<not> evictable p)"
      "\<not> re_rank_ok e \<Longrightarrow> Some items = None \<and> m' = m1"
    then have ok: "re_rank_ok e" by blast
    with h(6) obtain now where it: "items = recall_items rs' m' (rank_pages (re_double e) (recall_config e cfg) now m1)" by auto
    have "(\<Sum>it \<leftarrow> items. item_tokens it) \<le> charges m'"
      unfolding it using rank_pages_facts page_keys_eqD(1) [OF h(5)] by (intro recall_items_tokens) auto
    with h(2-4) h(7) [OF ok] show ?thesis by (auto simp: mmu_ok_def charges_def evictable_def)
  qed
qed

text \<open>C16: whatever was recalled, pinned and configured before, after a recall the tokens booked are exactly those
  of the texts of the resident pages, they exceed the budget only when every resident page is pinned, and the texts of the
  answer together cost no more than what is booked.\<close>

theorem ctx_recall_budget:
  assumes "mmu_step\<^sup>*\<^sup>* m0 m" "mmu_start m0" "config_ok cfg" "good_ids (elems (rs_items rs))"
    and rc: "ctx_mmu_recall e vec m rs query cfg = (Some items, rs', m')"
  shows "token_used m' = (\<Sum>p \<leftarrow> elems (pages m'). page_tokens p) \<and>
    (token_used m' \<le> recall_budget e cfg m \<or> (\<forall>p \<in> set (elems (pages m')). residency p \<noteq> CTX_COLD \<longrightarrow> pinned p)) \<and>
    (\<Sum>it \<leftarrow> items. item_tokens it) \<le> token_used m'"
  by (rule recall_budget_ok [OF mmu_sys.inv_reachable [OF assms(2,1)] assms(3-5)])

lemma recall_items_scores: "map it_score (recall_items rs m ks) = map snd (filter (\<lambda>c. page_item rs m c \<noteq> None) ks)"
  by (induction ks) (auto simp: recall_items_def List.map_filter_simps page_item_Some split: option.split)

lemma scores_descend: "sorted_wrt (\<lambda>a b. a \<ge> b) (map it_score (recall_items rs m (ranked cs)))"
proof -
  have "sorted (map by_score (filter (\<lambda>c. page_item rs m c \<noteq> None) (ranked cs)))"
    by (rule sorted_filter) simp
  then show ?thesis unfolding recall_items_scores by (simp add: sorted_wrt_map)
qed

lemma recall_scope_ok:
  assumes ok: "mmu_ok m" and cfg: "cf_token_budget c < 2 ^ 64" "good_ids (elems (rs_items rs))"
    and rc: "ctx_mmu_recall e vec m rs query (Some c) = (Some items, rs', m')"
    and w: "cf_scope c = Some w" "w \<noteq> []"
  shows "(\<forall>it \<in> set items. \<exists>r. mem_records_find rs (record_id (it_page it)) = Some r \<and> live_status (m_status r) \<and>
      (m_scope r = w \<or> \<not> private_only c \<and> m_scope r \<in> {''global'', ''user/global''})) \<and>
    sorted_wrt (\<lambda>a b. a \<ge> b) (map it_score items)"
proof -
  have c: "config_ok (Some c)" using cfg(1) by (simp add: config_ok_def)
  show ?thesis
  proof (rule recall_stages [OF ok c cfg(2) rc])
    fix m1
    assume h: "\<forall>p \<in> set (elems (pages m1)). page_current rs p" "page_keys m' = page_keys m1"
      "re_rank_ok e \<Longrightarrow> \<exists>now. Some items = Some (recall_items rs' m' (rank_pages (re_double e) (recall_config e (Some c)) now m1))"
      "\<not> re_rank_ok e \<Longrightarrow> Some items = None \<and> m' = m1"
    then obtain now where it: "items = recall_items rs' m' (ranked (candidates (re_double e) (recall_config e (Some c)) now m1))"
      by (auto simp: rank_pages_sorted)
    have "\<exists>r. mem_records_find rs (record_id (it_page it)) = Some r \<and> live_status (m_status r) \<and>
        (m_scope r = w \<or> \<not> private_only c \<and> m_scope r \<in> {''global'', ''user/global''})" if "it \<in> set items" for it
    proof -
      from that obtain k s where ks: "(k, s) \<in> set (candidates (re_double e) (recall_config e (Some c)) now m1)"
          "page_item rs' m' (k, s) = Some it"
        by (auto simp: it recall_items_def in_map_filter)
      then have k: "k < page_count m1" "scope_allowed (recall_config e (Some c)) (p_scope (page_at m1 k))"
        by (auto simp: in_candidates)
      obtain r where r: "mem_records_find rs (record_id (page_at m1 k)) = Some r" "live_status (m_status r)"
          "p_scope (page_at m1 k) = cbuf MEM_SCOPE_MAX (m_scope r)"
        using h(1) k(1) by (auto simp: page_current_def dest: nth_mem)
      then have "r \<in> set (elems (rs_items rs))"
        using assms(3) find_Some_iff [of "elems (rs_items rs)" "record_id (page_at m1 k)" r]
        by (auto simp: mem_records_find_def good_ids_def)
      then have "p_scope (page_at m1 k) = m_scope r" using assms(3) r(3) by (auto simp: good_ids_def cbuf_id)
      moreover have "record_id (it_page it) = record_id (page_at m1 k)"
        using page_keys_eqD(2) [OF h(2) k(1)] page_item_Some(1) [OF ks(2)] by (simp add: page_key_def)
      ultimately show ?thesis using r k(2) w by (auto simp: scope_allowed_def nonnull_or_def Let_def split: if_splits)
    qed
    then show ?thesis using scores_descend it by blast
  qed
qed

text \<open>A recall for a scope answers with live records of the store only, each of that very scope or, unless the
  recall is private, of the shared ones, and in the order of descending score.\<close>

theorem ctx_recall_scope:
  assumes "mmu_step\<^sup>*\<^sup>* m0 m" "mmu_start m0" "cf_token_budget c < 2 ^ 64" "good_ids (elems (rs_items rs))"
    and rc: "ctx_mmu_recall e vec m rs query (Some c) = (Some items, rs', m')"
    and w: "cf_scope c = Some w" "w \<noteq> []"
  shows "(\<forall>it \<in> set items. \<exists>r. mem_records_find rs (record_id (it_page it)) = Some r \<and> live_status (m_status r) \<and>
      (m_scope r = w \<or> \<not> private_only c \<and> m_scope r \<in> {''global'', ''user/global''})) \<and>
    sorted_wrt (\<lambda>a b. a \<ge> b) (map it_score items)"
  by (rule recall_scope_ok [OF mmu_sys.inv_reachable [OF assms(2,1)] assms(3-7)])

lemma recall_never_evicts:
  assumes ok: "mmu_ok m" and cfg: "config_ok cfg" "good_ids (elems (rs_items rs))"
    and fits: "token_used m \<le> recall_budget e cfg m"
    and rc: "ctx_mmu_recall e vec m rs query cfg = (ans, rs', m')"
  shows "evictions m' = evictions m \<and> token_used m' \<le> recall_budget e cfg m"
proof -
  show ?thesis
  proof (rule recall_stages [OF ok cfg rc])
    fix m1
    assume h: "token_budget m1 = recall_budget e cfg m" "token_used m1 \<le> token_used m" "evictions m1 = evictions m"
      "token_used m1 \<le> token_budget m1 \<Longrightarrow> evictions m' = evictions m1 \<and> token_used m' \<le> token_budget m1"
    from h(1,2) fits have "token_used m1 \<le> token_budget m1" by linarith
    from h(4) [OF this] h(1,3) show ?thesis by simp
  qed
qed

text \<open>As long as the tokens booked fit the budget at the start of a recall, nothing is evicted by
  it: a page that does not fit beside the resident ones is refused, whatever its score.\<close>

theorem ctx_recall_never_replaces:
  assumes "mmu_step\<^sup>*\<^sup>* m0 m" "mmu_start m0" "config_ok cfg" "good_ids (elems (rs_items rs))"
    and fits: "token_used m \<le> recall_budget e cfg m"
    and rc: "ctx_mmu_recall e vec m rs query cfg = (ans, rs', m')"
  shows "evictions m' = evictions m \<and> token_used m' \<le> recall_budget e cfg m"
  by (rule recall_never_evicts [OF mmu_sys.inv_reachable [OF assms(2,1)] assms(3-6)])

section \<open>An example\<close>

text \<open>A private record of a session, a shared one, and one of another session, recalled under a small budget.\<close>

definition demo_env :: recall_env where
  "demo_env =
     \<lparr>re_double = \<lparr>de_fl = (\<lambda>x. x), de_exp2 = (\<lambda>_. 1)\<rparr>,
      re_time = \<lparr>te_evict = (\<lambda>_. 0), te_summary = (\<lambda>_. 0), te_rehydrate = (\<lambda>_. 0), te_dup = (\<lambda>_. True)\<rparr>,
      re_bytes = \<lparr>be_type = (\<lambda>_. []), be_status = (\<lambda>_. []), be_double = (\<lambda>_. [])\<rparr>,
      re_grow = (\<lambda>_. True), re_hits_ok = True, re_rank_ok = True, re_now = 5\<rparr>"

definition demo_mem :: "cstr \<Rightarrow> cstr \<Rightarrow> rat \<Rightarrow> mem_record" where
  "demo_mem i s x = mem_record_zero\<lparr>m_id := i, m_scope := s, importance := x, m_content := Some ''fact''\<rparr>"

definition demo_store :: mem_records where
  "demo_store = \<lparr>rs_dir = ''d'', rs_items = \<lparr>elems = [demo_mem ''a'' ''s1'' 0, demo_mem ''b'' ''s2'' 1, demo_mem ''c'' ''global'' 1], vcap = 16\<rparr>\<rparr>"

definition demo_config :: ctx_config where
  "demo_config = (ctx_mmu_config_default (re_double demo_env))\<lparr>cf_token_budget := 60, cf_scope := Some ''s1''\<rparr>"

lemma demo_recall:
  "case ctx_mmu_recall demo_env None (ctx_mmu_new (re_double demo_env)) demo_store None (Some demo_config) of (ans, rs', m') \<Rightarrow>
     map_option (map (\<lambda>it. (record_id (it_page it), it_level it, item_tokens it))) ans = Some [(''c'', CTX_L2, 1), (''a'', CTX_L2, 1)] \<and>
     token_used m' = 2 \<and> evictions m' = 0"
  by code_simp

lemma demo_recall_ex:
  "\<exists>items rs' m'. ctx_mmu_recall demo_env None (ctx_mmu_new (re_double demo_env)) demo_store None (Some demo_config) = (Some items, rs', m') \<and>
     map (record_id \<circ> it_page) items = [''c'', ''a''] \<and> token_used m' = 2"
proof -
  obtain ans rs' m' where r: "ctx_mmu_recall demo_env None (ctx_mmu_new (re_double demo_env)) demo_store None (Some demo_config) = (ans, rs', m')"
    by (metis prod_cases3)
  with demo_recall obtain items where i: "ans = Some items"
    "map (\<lambda>it. (record_id (it_page it), it_level it, item_tokens it)) items = [(''c'', CTX_L2, 1), (''a'', CTX_L2, 1)]" "token_used m' = 2"
    by auto
  from arg_cong [OF i(2), of "map fst"] have "map (record_id \<circ> it_page) items = [''c'', ''a'']" by (simp add: comp_def)
  with r i show ?thesis by (intro exI [of _ items] exI [of _ rs'] exI [of _ m']) simp
qed

lemma demo_hyps:
  "mmu_start (ctx_mmu_new (re_double demo_env))" "config_ok (Some demo_config)" "cf_token_budget demo_config < 2 ^ 64"
  "good_ids (elems (rs_items demo_store))" "cf_scope demo_config = Some ''s1''" "token_used (ctx_mmu_new de) \<le> recall_budget e cfg m"
  by (auto simp: mmu_start_def config_ok_def demo_config_def good_ids_def demo_store_def demo_mem_def mem_record_zero_def mem_limits ctx_mmu_new_def)

lemma ctx_recall_budget_witness:
  "\<exists>items rs' m'. ctx_mmu_recall demo_env None (ctx_mmu_new (re_double demo_env)) demo_store None (Some demo_config) = (Some items, rs', m') \<and>
     items \<noteq> [] \<and> (\<Sum>it \<leftarrow> items. item_tokens it) \<le> token_used m' \<and> token_used m' = (\<Sum>p \<leftarrow> elems (pages m'). page_tokens p)"
proof -
  from demo_recall_ex obtain items rs' m' where
    r: "ctx_mmu_recall demo_env None (ctx_mmu_new (re_double demo_env)) demo_store None (Some demo_config) = (Some items, rs', m')"
      "map (record_id \<circ> it_page) items = [''c'', ''a'']" by (elim exE conjE) (rule that)
  from r(2) have "items \<noteq> []" by auto
  with r(1) ctx_recall_budget [OF rtranclp.rtrancl_refl demo_hyps(1,2,4) r(1)] show ?thesis by blast
qed

lemma ctx_recall_scope_witness:
  "\<exists>items rs' m'. ctx_mmu_recall demo_env None (ctx_mmu_new (re_double demo_env)) demo_store None (Some demo_config) = (Some items, rs', m') \<and>
     map (record_id \<circ> it_page) items = [''c'', ''a''] \<and> sorted_wrt (\<lambda>a b. a \<ge> b) (map it_score items)"
proof -
  from demo_recall_ex obtain items rs' m' where
    r: "ctx_mmu_recall demo_env None (ctx_mmu_new (re_double demo_env)) demo_store None (Some demo_config) = (Some items, rs', m')"
      "map (record_id \<circ> it_page) items = [''c'', ''a'']" by (elim exE conjE) (rule that)
  with ctx_recall_scope [OF rtranclp.rtrancl_refl demo_hyps(1,3,4) r(1) demo_hyps(5)] show ?thesis by auto
qed

lemma ctx_recall_never_replaces_witness:
  "\<exists>items rs' m'. ctx_mmu_recall demo_env None (ctx_mmu_new (re_double demo_env)) demo_store None (Some demo_config) = (Some items, rs', m') \<and>
     token_used m' = 2 \<and> evictions m' = 0"
proof -
  from demo_recall_ex obtain items rs' m' where
    r: "ctx_mmu_recall demo_env None (ctx_mmu_new (re_double demo_env)) demo_store None (Some demo_config) = (Some items, rs', m')"
      "token_used m' = 2" by fast
  with ctx_recall_never_replaces [OF rtranclp.rtrancl_refl demo_hyps(1,2,4,6) r(1)] show ?thesis
    by (auto simp: ctx_mmu_new_def)
qed

end
