(* ===== verification/Promotion.thy ===== *)
theory Promotion
  imports MmuInv
begin

text \<open>
  The promotion gate of the long-term memory, \<open>src/backend/src/memory/promotion.c\<close>: a candidate is scored, then rejected,
  merged into the live record of the same origin, or promoted to a new record; the vector mirror follows.
\<close>

section \<open>Candidates and configuration\<close>

record mem_candidate =
  cd_type :: mem_type
  cd_scope :: cstr
  cd_content :: "cstr option"
  cd_importance :: rat
  cd_confidence :: rat
  cd_valence :: rat
  cd_arousal :: rat
  cd_salience :: rat
  cd_source :: cstr
  cd_origin_id :: cstr
  cd_outcome :: mem_outcome
  cd_evidence :: cstr

definition mem_candidate_init :: mem_candidate where
  "mem_candidate_init =
     \<lparr>cd_type = MEMR_SEMANTIC, cd_scope = [], cd_content = None, cd_importance = 0, cd_confidence = 0, cd_valence = 0,
      cd_arousal = 0, cd_salience = 0, cd_source = ''experience'', cd_origin_id = [], cd_outcome = MEM_OUTCOME_UNKNOWN,
      cd_evidence = []\<rparr>"

record mem_gate_config =
  promote_threshold :: rat
  merge_threshold :: rat
  require_evidence :: bool
  no_evidence_cap :: rat
  reinforcement :: rat
  utility_bump :: rat
  gc_now_ms :: int

definition mem_gate_config_default :: "double_env \<Rightarrow> mem_gate_config" where
  "mem_gate_config_default de =
     \<lparr>promote_threshold = de_fl de (55 / 100), merge_threshold = de_fl de (35 / 100), require_evidence = True,
      no_evidence_cap = de_fl de (1 / 2), reinforcement = de_fl de (5 / 100), utility_bump = de_fl de (5 / 100), gc_now_ms = 0\<rparr>"

datatype mem_gate_decision = MEM_GATE_REJECT | MEM_GATE_PROMOTE | MEM_GATE_MERGE

record mem_gate_result =
  gr_decision :: mem_gate_decision
  gr_id :: cstr
  gr_score :: rat
  gr_version :: int

section \<open>Scoring\<close>

definition outcome_weight :: "double_env \<Rightarrow> mem_candidate \<Rightarrow> rat" where
  "outcome_weight de c =
     (case cd_outcome c of
        MEM_OUTCOME_SUCCESS \<Rightarrow> 1
      | MEM_OUTCOME_PARTIAL \<Rightarrow> de_fl de (7 / 10)
      | MEM_OUTCOME_FAILURE \<Rightarrow> if cd_type c = MEMR_PROCEDURAL then de_fl de (9 / 10) else de_fl de (6 / 10)
      | MEM_OUTCOME_UNKNOWN \<Rightarrow> de_fl de (4 / 10))"

fun evidence_class_rank :: "mem_outcome \<Rightarrow> nat" where
  "evidence_class_rank MEM_OUTCOME_SUCCESS = 3"
| "evidence_class_rank MEM_OUTCOME_FAILURE = 3"
| "evidence_class_rank MEM_OUTCOME_PARTIAL = 2"
| "evidence_class_rank MEM_OUTCOME_UNKNOWN = 1"

definition matured_status :: "mem_status \<Rightarrow> mem_candidate \<Rightarrow> mem_status" where
  "matured_status cur c =
     (if cd_evidence c = [] then cur
      else if cur = MEM_STATUS_PROVISIONAL then MEM_STATUS_TRUSTED
      else if cur = MEM_STATUS_TRUSTED \<and> 3 \<le> evidence_class_rank (cd_outcome c) then MEM_STATUS_VERIFIED
      else cur)"

definition weigh :: "double_env \<Rightarrow> rat \<Rightarrow> rat \<Rightarrow> rat" where
  "weigh de w x = de_fl de (de_fl de w * x)"

definition mem_gate_score :: "double_env \<Rightarrow> mem_candidate \<Rightarrow> mem_gate_config option \<Rightarrow> rat" where
  "mem_gate_score de c cfg =
     (let g = (case cfg of None \<Rightarrow> mem_gate_config_default de | Some g \<Rightarrow> g);
          s = dsum de [weigh de (40 / 100) (clamp01 (cd_importance c)), weigh de (30 / 100) (clamp01 (cd_confidence c)),
                       weigh de (20 / 100) (outcome_weight de c), weigh de (10 / 100) (clamp01 (cd_salience c))]
      in clamp01 (if require_evidence g \<and> cd_evidence c = [] \<and> no_evidence_cap g < s then no_evidence_cap g else s))"

section \<open>The gate\<close>

definition or_text :: "cstr \<Rightarrow> cstr \<Rightarrow> cstr" where
  "or_text s d = (if s \<noteq> [] then s else d)"

definition candidate_id :: "mem_candidate \<Rightarrow> cstr" where
  "candidate_id c =
     cbuf MEM_ID_MAX (''mem_'' @ take 12 (hash_hex (hash64
       (or_text (cd_origin_id c) ''-'' @ ''|'' @ or_text (cd_scope c) ''global'' @ ''|'' @ nonnull_or [] (cd_content c)))))"

text \<open>The mirror of a record; \<open>dup\<close> and \<open>grow\<close> are the outcomes of the vector store's allocations.\<close>

definition refresh_mirror ::
  "(cstr \<Rightarrow> 'e) \<Rightarrow> bool \<Rightarrow> bool \<Rightarrow> 'e vectorstore option \<Rightarrow> cstr \<Rightarrow> mem_record \<Rightarrow> 'e vectorstore option" where
  "refresh_mirror emb dup grow v i r =
     map_option (\<lambda>vs.
       (let vs' = snd (vectorstore_remove vs (record_vid i)) in
        if live_status (m_status r)
        then snd (vectorstore_add emb dup grow vs' (record_vid i) (nonnull_or [] (m_content r)) (Some ''record''))
        else vs')) v"

text \<open>
  What the gate takes from outside: the known passwords, the clock, the outcome of allocations (the redaction's scan, the copy of
  the old content, the record's copy, the growth of the arrays).
\<close>

record 'e gate_env =
  ge_double :: double_env
  ge_passwords :: "cstr list"
  ge_scan :: bool
  ge_copy :: bool
  ge_ok :: bool
  ge_grow :: bool
  ge_emb :: "cstr \<Rightarrow> 'e"
  ge_vdup :: bool
  ge_vgrow :: bool
  ge_now :: int

text \<open>The record that a merge makes of the one in the store.\<close>

definition merged_record :: "double_env \<Rightarrow> mem_gate_config \<Rightarrow> int \<Rightarrow> mem_candidate \<Rightarrow> mem_record \<Rightarrow> mem_record" where
  "merged_record de g now c org =
     (let nr = org\<lparr>m_version := m_version org + 1, confidence := clamp01 (de_fl de (confidence org + reinforcement g)),
                   utility := clamp01 (de_fl de (utility org + utility_bump g)), m_status := matured_status (m_status org) c,
                   m_updated_ms := now\<rparr>;
          nr' = (if cd_evidence c \<noteq> [] \<and> evidence_class_rank (m_outcome org) \<le> evidence_class_rank (cd_outcome c)
                 then nr\<lparr>m_outcome := cd_outcome c, evidence := cbuf MEM_EVIDENCE_MAX (cd_evidence c)\<rparr> else nr)
      in nr'\<lparr>m_content := cd_content c\<rparr>)"

text \<open>The record a candidate is promoted to.\<close>

definition promoted_record :: "int \<Rightarrow> mem_candidate \<Rightarrow> mem_record" where
  "promoted_record now c =
     \<lparr>m_id = candidate_id c, m_type = cd_type c, m_title = [], m_scope = cbuf MEM_SCOPE_MAX (or_text (cd_scope c) ''global''),
      m_status = MEM_STATUS_PROVISIONAL, importance = clamp01 (cd_importance c), confidence = clamp01 (cd_confidence c), utility = 0,
      valence = cd_valence c, arousal = clamp01 (cd_arousal c), salience = clamp01 (cd_salience c),
      m_source = cbuf MEM_SOURCE_MAX (or_text (cd_source c) ''experience''), origin_id = cbuf MEM_ID_MAX (cd_origin_id c),
      m_outcome = cd_outcome c, evidence = cbuf MEM_EVIDENCE_MAX (cd_evidence c), m_version = 1, m_created_ms = now,
      m_updated_ms = now, last_access_ms = now, access_count = 0, m_content = cd_content c\<rparr>"

text \<open>The record of the same origin, or for a candidate without origin the one under its own id.\<close>

definition gate_origin :: "mem_records \<Rightarrow> mem_candidate \<Rightarrow> mem_record option" where
  "gate_origin rs c =
     (if cd_origin_id c \<noteq> [] then mem_records_find_origin rs (Some (cd_origin_id c)) else mem_records_find rs (candidate_id c))"

definition rejected :: "rat \<Rightarrow> mem_gate_result" where
  "rejected s = \<lparr>gr_decision = MEM_GATE_REJECT, gr_id = [], gr_score = s, gr_version = 0\<rparr>"

definition gate_merge ::
  "'e gate_env \<Rightarrow> mem_gate_config \<Rightarrow> int \<Rightarrow> rat \<Rightarrow> mem_candidate \<Rightarrow> mem_record \<Rightarrow> mem_records \<times> 'e vectorstore option \<times> fsys \<Rightarrow>
    mem_gate_result \<times> mem_records \<times> 'e vectorstore option \<times> fsys" where
  "gate_merge e g now s c org st =
     (case st of (rs, v, fs) \<Rightarrow>
        if \<not> ge_copy e then (rejected s, rs, v, fs)
        else let nr = merged_record (ge_double e) g now c org in
             case mem_records_put (ge_passwords e) (ge_scan e) (ge_ok e) (ge_grow e) rs nr fs of
               (rc, rs', fs') \<Rightarrow>
                 if rc \<noteq> 0 then (rejected s, rs', v, fs')
                 else (\<lparr>gr_decision = MEM_GATE_MERGE, gr_id = m_id nr, gr_score = s, gr_version = m_version nr\<rparr>, rs',
                       (case mem_records_find rs' (m_id nr) of
                          None \<Rightarrow> v
                        | Some stored \<Rightarrow> refresh_mirror (ge_emb e) (ge_vdup e) (ge_vgrow e) v (m_id stored) stored), fs'))"

definition gate_promote ::
  "'e gate_env \<Rightarrow> int \<Rightarrow> rat \<Rightarrow> mem_candidate \<Rightarrow> mem_records \<times> 'e vectorstore option \<times> fsys \<Rightarrow>
    mem_gate_result \<times> mem_records \<times> 'e vectorstore option \<times> fsys" where
  "gate_promote e now s c st =
     (case st of (rs, v, fs) \<Rightarrow>
        let r = promoted_record now c in
        case mem_records_put (ge_passwords e) (ge_scan e) (ge_ok e) (ge_grow e) rs r fs of
          (rc, rs', fs') \<Rightarrow>
            if rc \<noteq> 0 then (rejected s, rs', v, fs')
            else (\<lparr>gr_decision = MEM_GATE_PROMOTE, gr_id = m_id r, gr_score = s, gr_version = 1\<rparr>, rs',
                  refresh_mirror (ge_emb e) (ge_vdup e) (ge_vgrow e) v (m_id r) r, fs'))"

definition mem_gate_apply ::
  "'e gate_env \<Rightarrow> mem_gate_config option \<Rightarrow> mem_candidate \<Rightarrow> mem_records \<times> 'e vectorstore option \<times> fsys \<Rightarrow>
    mem_gate_result \<times> mem_records \<times> 'e vectorstore option \<times> fsys" where
  "mem_gate_apply e cfg c st =
     (if nonnull_or [] (cd_content c) = [] then (rejected 0, st)
      else let g = (case cfg of None \<Rightarrow> mem_gate_config_default (ge_double e) | Some g \<Rightarrow> g);
               now = (if 0 < gc_now_ms g then gc_now_ms g else ge_now e);
               s = mem_gate_score (ge_double e) c (Some g)
           in if s < merge_threshold g then (rejected s, st)
              else case gate_origin (fst st) c of
                     Some org \<Rightarrow>
                       if live_status (m_status org) then gate_merge e g now s c org st
                       else if promote_threshold g \<le> s then gate_promote e now s c st
                       else (rejected s, st)
                   | None \<Rightarrow> if promote_threshold g \<le> s then gate_promote e now s c st else (rejected s, st))"

section \<open>Insertion seen through lookup\<close>

text \<open>The content that a record gets: redacted, unless the redaction runs out of memory.\<close>

definition stored_content :: "cstr list \<Rightarrow> bool \<Rightarrow> cstr \<Rightarrow> cstr" where
  "stored_content ps scan t = (case secret_redact_ssh_passwords scan ps t None of None \<Rightarrow> t | Some clean \<Rightarrow> clean)"

lemma find_update:
  "find_index (\<lambda>r. m_id r = i) xs = Some k \<Longrightarrow> m_id x = i \<Longrightarrow>
   List.find (\<lambda>r. m_id r = j) (xs[k := x]) = (if j = i then Some x else List.find (\<lambda>r. m_id r = j) xs)"
  by (induction xs arbitrary: k) (auto split: if_splits)

lemma find_snoc:
  "find_index (\<lambda>r. m_id r = i) xs = None \<Longrightarrow> m_id x = i \<Longrightarrow>
   List.find (\<lambda>r. m_id r = j) (xs @ [x]) = (if j = i then Some x else List.find (\<lambda>r. m_id r = j) xs)"
  by (induction xs) (auto split: if_splits)

lemma put_persist_store: "fst (snd (put_persist rs r fs)) = rs"
  by (simp add: put_persist_def split: option.split prod.split)

lemma put_impl_find:
  assumes "mem_records_put_impl ok grow rs r fs = (rc, rs', fs')"
  shows "mem_records_find rs' = mem_records_find rs \<and> rc \<noteq> 0 \<or> mem_records_find rs' = (mem_records_find rs)(m_id r \<mapsto> r)"
proof -
  have p: "put_persist q r fs = (rc, rs', fs') \<Longrightarrow> rs' = q" for q using put_persist_store [of q r fs] by simp
  have cap: "mem_records_find (rs\<lparr>rs_items := rs_items rs\<lparr>vcap := n\<rparr>\<rparr>) = mem_records_find rs" for n
    by (simp add: mem_records_find_def fun_eq_iff)
  consider "rc \<noteq> 0" "mem_records_find rs' = mem_records_find rs" |
    k where "record_index rs (m_id r) = Some k" "elems (rs_items rs') = (elems (rs_items rs))[k := r]" |
    "record_index rs (m_id r) = None" "elems (rs_items rs') = elems (rs_items rs) @ [r]"
    using assms by (auto simp: mem_records_put_impl_def Let_def cap split: if_splits option.splits dest!: p)
  then show ?thesis
  proof cases
    case 2
    with find_update [of "m_id r" "elems (rs_items rs)" k r] show ?thesis
      by (auto simp: mem_records_find_def record_index_def fun_eq_iff)
  next
    case 3
    with find_snoc [of "m_id r" "elems (rs_items rs)" r] show ?thesis
      by (auto simp: mem_records_find_def record_index_def fun_eq_iff)
  qed simp
qed

lemma put_find:
  assumes "mem_records_put ps scan ok grow rs r fs = (rc, rs', fs')" "m_content r = Some t"
  shows "mem_records_find rs' = mem_records_find rs \<and> rc \<noteq> 0 \<or>
    mem_records_find rs' = (mem_records_find rs)(m_id r \<mapsto> r\<lparr>m_content := Some (stored_content ps scan t)\<rparr>)"
proof (cases "m_id r = []")
  case False
  have e: "r\<lparr>m_content := Some t\<rparr> = r" using assms(2) by simp
  from assms False have "mem_records_put_impl ok grow rs (r\<lparr>m_content := Some (stored_content ps scan t)\<rparr>) fs = (rc, rs', fs')"
    by (auto simp: mem_records_put_def stored_content_def e split: option.splits)
  from put_impl_find [OF this] show ?thesis by simp
qed (use assms in \<open>simp add: mem_records_put_def\<close>)

section \<open>What the gate does to the store\<close>

lemma candidate_id_nonempty: "candidate_id c \<noteq> []"
  by (simp add: candidate_id_def cbuf_def MEM_ID_MAX_def)

lemma merged_record_simps [simp]:
  "m_id (merged_record de g now c org) = m_id org" "m_content (merged_record de g now c org) = cd_content c"
  "m_status (merged_record de g now c org) = matured_status (m_status org) c"
  "m_version (merged_record de g now c org) = m_version org + 1" "m_scope (merged_record de g now c org) = m_scope org"
  "origin_id (merged_record de g now c org) = origin_id org"
  by (simp_all add: merged_record_def Let_def)


lemma gate_merge_effect:
  assumes "gate_merge e g now s c org (rs, v, fs) = (res, rs', v', fs')" "cd_content c = Some t"
  shows "gr_decision res \<noteq> MEM_GATE_PROMOTE"
    "mem_records_find rs' = mem_records_find rs \<and> gr_decision res = MEM_GATE_REJECT \<or>
     mem_records_find rs' = (mem_records_find rs)
       (m_id org \<mapsto> (merged_record (ge_double e) g now c org)\<lparr>m_content := Some (stored_content (ge_passwords e) (ge_scan e) t)\<rparr>)"
proof -
  obtain rc rs1 fs1 where p: "mem_records_put (ge_passwords e) (ge_scan e) (ge_ok e) (ge_grow e) rs
      (merged_record (ge_double e) g now c org) fs = (rc, rs1, fs1)"
    by (metis prod_cases3)
  from put_find [OF this] assms p show "gr_decision res \<noteq> MEM_GATE_PROMOTE"
    "mem_records_find rs' = mem_records_find rs \<and> gr_decision res = MEM_GATE_REJECT \<or>
     mem_records_find rs' = (mem_records_find rs)
       (m_id org \<mapsto> (merged_record (ge_double e) g now c org)\<lparr>m_content := Some (stored_content (ge_passwords e) (ge_scan e) t)\<rparr>)"
    by (auto simp: gate_merge_def Let_def rejected_def split: if_splits)
qed

lemma gate_promote_effect:
  assumes "gate_promote e now s c (rs, v, fs) = (res, rs', v', fs')" "cd_content c = Some t"
  shows "gr_decision res \<noteq> MEM_GATE_MERGE"
    "mem_records_find rs' = mem_records_find rs \<and> gr_decision res = MEM_GATE_REJECT \<or>
     mem_records_find rs' = (mem_records_find rs)
       (candidate_id c \<mapsto> (promoted_record now c)\<lparr>m_content := Some (stored_content (ge_passwords e) (ge_scan e) t)\<rparr>)"
proof -
  have i: "m_id (promoted_record now c) = candidate_id c" "m_content (promoted_record now c) = cd_content c"
    by (simp_all add: promoted_record_def)
  obtain rc rs1 fs1 where p: "mem_records_put (ge_passwords e) (ge_scan e) (ge_ok e) (ge_grow e) rs (promoted_record now c) fs = (rc, rs1, fs1)"
    by (metis prod_cases3)
  from put_find [OF this] assms p i show "gr_decision res \<noteq> MEM_GATE_MERGE"
    "mem_records_find rs' = mem_records_find rs \<and> gr_decision res = MEM_GATE_REJECT \<or>
     mem_records_find rs' = (mem_records_find rs)
       (candidate_id c \<mapsto> (promoted_record now c)\<lparr>m_content := Some (stored_content (ge_passwords e) (ge_scan e) t)\<rparr>)"
    by (auto simp: gate_promote_def Let_def rejected_def split: if_splits)
qed

text \<open>The three ways the gate goes.\<close>

lemma gate_cases:
  assumes "mem_gate_apply e (Some g) c (rs, v, fs) = (res, rs', v', fs')"
  obtains (nothing) "gr_decision res = MEM_GATE_REJECT" "rs' = rs" "v' = v" "fs' = fs"
  | (merge) t org now where "cd_content c = Some t" "gate_origin rs c = Some org" "live_status (m_status org)"
      "merge_threshold g \<le> mem_gate_score (ge_double e) c (Some g)"
      "gate_merge e g now (mem_gate_score (ge_double e) c (Some g)) c org (rs, v, fs) = (res, rs', v', fs')"
  | (promote) t now where "cd_content c = Some t" "\<forall>org. gate_origin rs c = Some org \<longrightarrow> \<not> live_status (m_status org)"
      "promote_threshold g \<le> mem_gate_score (ge_double e) c (Some g)"
      "gate_promote e now (mem_gate_score (ge_double e) c (Some g)) c (rs, v, fs) = (res, rs', v', fs')"
  using assms
  by (cases "cd_content c")
    (auto simp: mem_gate_apply_def Let_def rejected_def nonnull_or_def not_less split: if_splits option.splits)

lemma gate_origin_id:
  assumes "gate_origin rs c = Some org" "good_ids (elems (rs_items rs))"
  shows "mem_records_find rs (m_id org) = Some org"
proof -
  have "org \<in> set (elems (rs_items rs))"
    using assms(1) by (auto simp: gate_origin_def mem_records_find_def mem_records_find_origin_def List.find_Some_iff split: if_splits)
  then show ?thesis
    using assms(2) find_Some_iff [of "elems (rs_items rs)" "m_id org" org] by (auto simp: mem_records_find_def good_ids_def)
qed

text \<open>C17: the gate changes at most one record. Either it matures a live record of the candidate's origin, by one
  version and by at most one step, provisional to trusted on evidence, trusted to verified on evidence with a success or a
  failure; or it enters the candidate as a provisional record of version 1, whose score reaches the bar.\<close>

theorem gate_lifecycle:
  assumes "good_ids (elems (rs_items rs))" "mem_gate_apply e (Some g) c (rs, v, fs) = (res, rs', v', fs')"
  shows "mem_records_find rs' = mem_records_find rs \<or>
    (\<exists>r r'. gate_origin rs c = Some r \<and> live_status (m_status r) \<and> mem_records_find rs (m_id r) = Some r \<and>
       mem_records_find rs' = (mem_records_find rs)(m_id r \<mapsto> r') \<and> m_version r' = m_version r + 1 \<and>
       (m_status r' = m_status r \<or>
        cd_evidence c \<noteq> [] \<and> m_status r = MEM_STATUS_PROVISIONAL \<and> m_status r' = MEM_STATUS_TRUSTED \<or>
        cd_evidence c \<noteq> [] \<and> m_status r = MEM_STATUS_TRUSTED \<and> m_status r' = MEM_STATUS_VERIFIED \<and>
          cd_outcome c \<in> {MEM_OUTCOME_SUCCESS, MEM_OUTCOME_FAILURE})) \<or>
    (\<exists>r'. mem_records_find rs' = (mem_records_find rs)(candidate_id c \<mapsto> r') \<and> m_version r' = 1 \<and>
       m_status r' = MEM_STATUS_PROVISIONAL \<and> promote_threshold g \<le> mem_gate_score (ge_double e) c (Some g) \<and>
       (\<forall>r. gate_origin rs c = Some r \<longrightarrow> \<not> live_status (m_status r)))"
  using assms(2)
proof (cases rule: gate_cases)
  case (merge t org now)
  have m: "m_status (merged_record (ge_double e) g now c org) = m_status org \<or>
      cd_evidence c \<noteq> [] \<and> m_status org = MEM_STATUS_PROVISIONAL \<and> m_status (merged_record (ge_double e) g now c org) = MEM_STATUS_TRUSTED \<or>
      cd_evidence c \<noteq> [] \<and> m_status org = MEM_STATUS_TRUSTED \<and> m_status (merged_record (ge_double e) g now c org) = MEM_STATUS_VERIFIED \<and>
        cd_outcome c \<in> {MEM_OUTCOME_SUCCESS, MEM_OUTCOME_FAILURE}"
    by (cases "cd_outcome c") (auto simp: matured_status_def)
  from gate_merge_effect(2) [OF merge(5,1)] show ?thesis
  proof
    assume f: "mem_records_find rs' = (mem_records_find rs)
       (m_id org \<mapsto> (merged_record (ge_double e) g now c org)\<lparr>m_content := Some (stored_content (ge_passwords e) (ge_scan e) t)\<rparr>)"
    show ?thesis
      by (rule disjI2, rule disjI1, rule exI [of _ org], rule exI, intro conjI, rule merge(2), rule merge(3),
          rule gate_origin_id [OF merge(2) assms(1)], rule f) (use m in auto)
  qed simp
next
  case (promote t now)
  from gate_promote_effect(2) [OF promote(4,1)] show ?thesis
  proof
    assume f: "mem_records_find rs' = (mem_records_find rs)
       (candidate_id c \<mapsto> (promoted_record now c)\<lparr>m_content := Some (stored_content (ge_passwords e) (ge_scan e) t)\<rparr>)"
    show ?thesis
      by (rule disjI2, rule disjI2, rule exI, intro conjI, rule f) (use promote in \<open>auto simp: promoted_record_def\<close>)
  qed simp
qed simp


section \<open>Witnesses\<close>

definition demo_gate :: "unit gate_env" where
  "demo_gate =
     \<lparr>ge_double = \<lparr>de_fl = (\<lambda>x. x), de_exp2 = (\<lambda>_. 1)\<rparr>, ge_passwords = [], ge_scan = True, ge_copy = True, ge_ok = True,
      ge_grow = True, ge_emb = (\<lambda>_. ()), ge_vdup = True, ge_vgrow = True, ge_now = 7\<rparr>"

definition demo_rule :: mem_gate_config where
  "demo_rule = mem_gate_config_default (ge_double demo_gate)"

definition demo_verified :: mem_records where
  "demo_verified =
     \<lparr>rs_dir = ''d'', rs_items =
        \<lparr>elems = [mem_record_zero\<lparr>m_id := ''mem_1'', m_status := MEM_STATUS_VERIFIED, origin_id := ''o'', evidence := ''3 runs'',
                                  m_content := Some ''true''\<rparr>], vcap = 16\<rparr>\<rparr>"

definition demo_claim :: "cstr \<Rightarrow> mem_candidate" where
  "demo_claim o' = mem_candidate_init\<lparr>cd_origin_id := o', cd_importance := 1, cd_confidence := 1, cd_content := Some ''false''\<rparr>"

lemma demo_good: "good_ids (elems (rs_items demo_verified))"
  by (simp add: good_ids_def demo_verified_def mem_record_zero_def mem_limits)


text \<open>A claim with evidence about an unknown origin enters as a provisional record.\<close>

lemma gate_lifecycle_witness:
  "\<exists>res rs' v' fs' r. mem_gate_apply demo_gate (Some demo_rule) (demo_claim ''p''\<lparr>cd_evidence := ''1 run''\<rparr>) (demo_verified, None, \<lparr>nodes = [], denied = []\<rparr>) = (res, rs', v', fs') \<and>
     mem_records_find rs' = (mem_records_find demo_verified)(gr_id res \<mapsto> r) \<and> m_status r = MEM_STATUS_PROVISIONAL \<and> gr_id res \<noteq> ''mem_1''"
proof -
  let ?c = "demo_claim ''p''\<lparr>cd_evidence := ''1 run''\<rparr>"
  obtain res rs' v' fs' where
    r: "mem_gate_apply demo_gate (Some demo_rule) ?c (demo_verified, None, \<lparr>nodes = [], denied = []\<rparr>) = (res, rs', v', fs')"
    by (metis prod_cases4)
  have c: "case mem_gate_apply demo_gate (Some demo_rule) ?c (demo_verified, None, \<lparr>nodes = [], denied = []\<rparr>) of (res, rs', _) \<Rightarrow>
      gr_id res \<noteq> ''mem_1'' \<and> mem_records_find rs' (gr_id res) \<noteq> mem_records_find demo_verified (gr_id res) \<and> gr_id res = candidate_id ?c"
    by code_simp
  have "gate_origin demo_verified ?c = None" by code_simp
  with gate_lifecycle [OF demo_good r] c r show ?thesis by fastforce
qed

end
