(* ===== verification/MemRuntime.thy ===== *)
theory MemRuntime
  imports Promotion
begin

text \<open>
  The memory of a running agent, \<open>src/backend/src/memory/runtime.c\<close>: the record store with its vector mirror behind one lock,
  recall through a context manager made for the one call, and learning from a finished task through the promotion gate.
  Each operation under the lock is one step. Writing the log line is input and output.
\<close>

section \<open>State and environment\<close>

record 'e memory_runtime =
  mr_records :: mem_records
  mr_vectors :: "'e vectorstore"

text \<open>
  What a recall takes from outside: that of the context manager; the embedding, cosine and keyword score of the vector store; the
  answer of the store as the JSON parser reads it back from the printed text; the outcome of the allocations.
\<close>

record 'e runtime_env =
  rt_recall :: recall_env
  rt_emb :: "cstr \<Rightarrow> 'e"
  rt_cosine :: "'e \<Rightarrow> 'e \<Rightarrow> rat"
  rt_keyword :: "cstr \<Rightarrow> cstr \<Rightarrow> rat"
  rt_reparse :: "json \<Rightarrow> json option"
  rt_vec_ok :: bool
  rt_mmu_ok :: bool

section \<open>Operations\<close>

text \<open>The loop of \<open>bounded_copy\<close> is that of \<open>utf8_truncate\<close>; the character after a text that is not cut is the NUL.\<close>

definition bounded_copy :: "bool \<Rightarrow> cstr \<Rightarrow> nat \<Rightarrow> cstr option" where
  "bounded_copy ok s cap = (if ok then Some (utf8_truncate s cap) else None)"

definition scoped :: "cstr option \<Rightarrow> cstr" where
  "scoped s = cbuf MEM_SCOPE_MAX (or_text (nonnull_or [] s) ''global'')"

definition memory_runtime_new ::
  "num_env \<Rightarrow> (cstr \<Rightarrow> 'e) \<Rightarrow> (cstr \<Rightarrow> bool) \<Rightarrow> (cstr \<Rightarrow> bool) \<Rightarrow> (cstr \<Rightarrow> bool) \<Rightarrow> fsys \<Rightarrow> cstr option \<Rightarrow> 'e memory_runtime option \<times> fsys" where
  "memory_runtime_new ne emb ok grow vok fs state_root =
     (case mem_records_new ne ok grow fs (Some (cbuf 768 (or_text (nonnull_or [] state_root) ''state'' @ ''/memory''))) of
        (None, fs') \<Rightarrow> (None, fs')
      | (Some rs, fs') \<Rightarrow>
          (Some \<lparr>mr_records = rs,
                 mr_vectors = case_option vectorstore_new (\<lambda>v. v) (snd (mem_records_rebuild_index emb vok rs (Some vectorstore_new)))\<rparr>, fs'))"

text \<open>The configuration of a recall: the scope, and the budget in tokens of four bytes.\<close>

definition request_config :: "double_env \<Rightarrow> cstr option \<Rightarrow> int \<Rightarrow> bool \<Rightarrow> ctx_config" where
  "request_config de scope char_budget include_shared =
     (let c = (ctx_mmu_config_default de)\<lparr>cf_scope := Some (scoped scope), private_only := \<not> include_shared\<rparr>;
          b = (if 0 < char_budget then nat char_budget div 4 else cf_token_budget c)
      in c\<lparr>cf_token_budget := (if b < 64 then 64 else b)\<rparr>)"

definition hybrid_answer :: "'e runtime_env \<Rightarrow> 'e vectorstore \<Rightarrow> cstr \<Rightarrow> int \<Rightarrow> json option" where
  "hybrid_answer e vs q k =
     (case vectorstore_nearest_hybrid (de_fl (re_double (rt_recall e))) (rt_emb e) (rt_cosine e) (rt_keyword e) (rt_vec_ok e) vs (Some q) k
             (de_fl (re_double (rt_recall e)) (6 / 10)) of
        None \<Rightarrow> Some (JArr [])
      | Some j \<Rightarrow> rt_reparse e j)"

definition memory_runtime_recall_ex ::
  "'e runtime_env \<Rightarrow> 'e memory_runtime \<Rightarrow> cstr option \<Rightarrow> cstr option \<Rightarrow> int \<Rightarrow> bool \<Rightarrow> ctx_item list option \<times> 'e memory_runtime" where
  "memory_runtime_recall_ex e rt scope query char_budget include_shared =
     (if \<not> rt_mmu_ok e then (None, rt)
      else case ctx_mmu_recall (rt_recall e) (Some (hybrid_answer e (mr_vectors rt))) (ctx_mmu_new (re_double (rt_recall e)))
                  (mr_records rt) query (Some (request_config (re_double (rt_recall e)) scope char_budget include_shared)) of
             (ans, rs', m) \<Rightarrow> (ans, rt\<lparr>mr_records := rs'\<rparr>))"

definition memory_runtime_recall ::
  "'e runtime_env \<Rightarrow> 'e memory_runtime \<Rightarrow> cstr option \<Rightarrow> cstr option \<Rightarrow> int \<Rightarrow> ctx_item list option \<times> 'e memory_runtime" where
  "memory_runtime_recall e rt scope query char_budget = memory_runtime_recall_ex e rt scope query char_budget True"

text \<open>The candidate that a finished task makes.\<close>

definition task_origin :: "cstr \<Rightarrow> cstr \<Rightarrow> cstr" where
  "task_origin scope task = cbuf MEM_ID_MAX (''task_'' @ take 12 (hash_hex (hash64 (scope @ ''|'' @ task))))"

definition learned ::
  "double_env \<Rightarrow> cstr option \<Rightarrow> cstr \<Rightarrow> cstr \<Rightarrow> cstr \<Rightarrow> int \<Rightarrow> bool \<Rightarrow> mem_candidate" where
  "learned de scope task task_cap answer_cap n all_ok =
     mem_candidate_init
       \<lparr>cd_type := MEMR_EPISODIC, cd_scope := scoped scope, cd_importance := de_fl de (72 / 100),
        cd_confidence := de_fl de (if all_ok then 88 / 100 else 68 / 100), cd_salience := de_fl de (70 / 100),
        cd_outcome := (if all_ok then MEM_OUTCOME_SUCCESS else MEM_OUTCOME_PARTIAL), cd_source := ''experience'',
        cd_evidence := cbuf MEM_EVIDENCE_MAX (int_str n @ '' successful tool receipt'' @ (if n = 1 then [] else ''s'')),
        cd_origin_id := task_origin (scoped scope) task,
        cd_content := Some (''Task: '' @ task_cap @ nl @ ''Result: '' @ answer_cap)\<rparr>"

definition memory_runtime_learn ::
  "'e gate_env \<Rightarrow> bool \<Rightarrow> bool \<Rightarrow> 'e memory_runtime \<times> fsys \<Rightarrow> cstr option \<Rightarrow> cstr option \<Rightarrow> cstr option \<Rightarrow> int \<Rightarrow> bool \<Rightarrow>
    int \<times> 'e memory_runtime \<times> fsys" where
  "memory_runtime_learn e ok1 ok2 st scope task answer n all_ok =
     (case st of (rt, fs) \<Rightarrow>
        if nonnull_or [] task = [] \<or> nonnull_or [] answer = [] \<or> n \<le> 0 then (0, rt, fs)
        else case (bounded_copy ok1 (nonnull_or [] task) 2048, bounded_copy ok2 (nonnull_or [] answer) 4096) of
               (Some tc, Some ac) \<Rightarrow>
                 (case mem_gate_apply e (Some (mem_gate_config_default (ge_double e)))
                         (learned (ge_double e) scope (nonnull_or [] task) tc ac n all_ok) (mr_records rt, Some (mr_vectors rt), fs) of
                    (res, rs', v', fs') \<Rightarrow>
                      (if gr_decision res = MEM_GATE_REJECT then 0 else 1,
                       \<lparr>mr_records = rs', mr_vectors = case_option (mr_vectors rt) (\<lambda>v. v) v'\<rparr>, fs'))
             | _ \<Rightarrow> (0, rt, fs))"

definition memory_runtime_count :: "'e memory_runtime \<Rightarrow> nat" where
  "memory_runtime_count rt = mem_records_count (mr_records rt)"

section \<open>Recall\<close>

lemma mmu_ok_new: "mmu_ok (ctx_mmu_new de)"
  by (rule mmu_sys.inv_start) (auto simp: mmu_start_def)

lemma request_config_simps [simp]:
  "cf_scope (request_config de scope b sh) = Some (scoped scope)" "private_only (request_config de scope b sh) = (\<not> sh)"
  "cf_token_budget (request_config de scope b sh) = (if 0 < b then max 64 (nat b div 4) else 4096)"
  by (auto simp: request_config_def Let_def ctx_mmu_config_default_def)

lemma scoped_nonempty: "scoped s \<noteq> []"
  by (simp add: scoped_def or_text_def cbuf_def MEM_SCOPE_MAX_def)

text \<open>C19: a private recall answers only with live records of the very scope it was asked for, a shared one
  also with global ones, and the texts together cost no more than a quarter of the character budget in tokens, or 64.\<close>

theorem runtime_recall_isolated:
  assumes "good_ids (elems (rs_items (mr_records rt)))" "b \<le> INT_MAX"
    and "memory_runtime_recall_ex e rt scope query b shared = (Some items, rt')"
  shows "(\<forall>it \<in> set items. \<exists>r. mem_records_find (mr_records rt) (record_id (it_page it)) = Some r \<and> live_status (m_status r) \<and>
      (m_scope r = scoped scope \<or> shared \<and> m_scope r \<in> {''global'', ''user/global''})) \<and>
    (\<Sum>it \<leftarrow> items. item_tokens it) \<le> (if 0 < b then max 64 (nat b div 4) else 4096)"
proof -
  let ?de = "re_double (rt_recall e)" and ?c = "request_config (re_double (rt_recall e)) scope b shared"
  obtain rs' m' where r: "ctx_mmu_recall (rt_recall e) (Some (hybrid_answer e (mr_vectors rt))) (ctx_mmu_new ?de)
      (mr_records rt) query (Some ?c) = (Some items, rs', m')"
    using assms(3) by (auto simp: memory_runtime_recall_ex_def split: if_splits prod.splits)
  have c: "cf_token_budget ?c < 2 ^ 64" using assms(2) by (auto simp: int_limits)
  then have cfg: "config_ok (Some ?c)" by (simp add: config_ok_def)
  have bud: "recall_budget (rt_recall e) (Some ?c) (ctx_mmu_new ?de) = cf_token_budget ?c"
    by (simp add: recall_budget_def Let_def)
  have "token_used (ctx_mmu_new ?de) \<le> recall_budget (rt_recall e) (Some ?c) (ctx_mmu_new ?de)" by (simp add: ctx_mmu_new_def)
  from recall_never_evicts [OF mmu_ok_new cfg assms(1) this r] recall_budget_ok [OF mmu_ok_new cfg assms(1) r] bud
  have "(\<Sum>it \<leftarrow> items. item_tokens it) \<le> cf_token_budget ?c" by linarith
  with recall_scope_ok [OF mmu_ok_new c assms(1) r, of "scoped scope"] scoped_nonempty show ?thesis by simp
qed

section \<open>Learning\<close>

text \<open>Rounding of the numbers that occur is off by at most a thousandth (for doubles it is by far less).\<close>

definition fl_near :: "double_env \<Rightarrow> bool" where
  "fl_near de \<longleftrightarrow> (\<forall>x. -1 \<le> x \<longrightarrow> x \<le> 3 \<longrightarrow> x - 1 / 1000 \<le> de_fl de x \<and> de_fl de x \<le> x + 1 / 1000)"

lemma fl_nearD: "fl_near de \<Longrightarrow> -1 \<le> x \<Longrightarrow> x \<le> 3 \<Longrightarrow> x - 1 / 1000 \<le> de_fl de x \<and> de_fl de x \<le> x + 1 / 1000"
  by (simp add: fl_near_def)

lemma weigh_near:
  assumes n: "fl_near de" and w: "0 \<le> w" "w \<le> 1" and x: "0 \<le> x" "x \<le> 1"
  shows "w * x - 2 / 1000 \<le> weigh de w x \<and> weigh de w x \<le> w * x + 2 / 1000"
proof -
  have f: "w - 1 / 1000 \<le> de_fl de w" "de_fl de w \<le> w + 1 / 1000" using fl_nearD [OF n, of w] w by auto
  have "(w - 1 / 1000) * x \<le> de_fl de w * x" "de_fl de w * x \<le> (w + 1 / 1000) * x"
    using f x by (auto intro: mult_right_mono)
  moreover have "w * x \<le> 1" using w x by (simp add: mult_le_one)
  moreover have "0 \<le> w * x" using w x by simp
  ultimately have p: "w * x - 1 / 1000 \<le> de_fl de w * x" "de_fl de w * x \<le> w * x + 1 / 1000" "0 \<le> w * x" "w * x \<le> 1"
    using x by (auto simp: algebra_simps)
  have "-1 \<le> de_fl de w * x" "de_fl de w * x \<le> 3" using p by linarith+
  from fl_nearD [OF n this] p show ?thesis unfolding weigh_def by linarith
qed

lemma clamp01_near: "0 \<le> x - d \<Longrightarrow> x + d \<le> 1 \<Longrightarrow> x - d \<le> y \<Longrightarrow> y \<le> x + d \<Longrightarrow> clamp01 y = y"
  by (auto simp: clamp01_def)

text \<open>What is learned passes the gate.\<close>

lemma learned_score:
  assumes n: "fl_near de" and c: "c = learned de scope task tc ac k all_ok" "cd_evidence c \<noteq> []"
  shows "promote_threshold (mem_gate_config_default de) \<le> mem_gate_score de c (Some (mem_gate_config_default de)) \<and>
    merge_threshold (mem_gate_config_default de) \<le> mem_gate_score de c (Some (mem_gate_config_default de))"
proof -
  note near = fl_nearD [OF n]
  have i: "71 / 100 \<le> clamp01 (cd_importance c)" "clamp01 (cd_importance c) \<le> 1"
    "67 / 100 \<le> clamp01 (cd_confidence c)" "clamp01 (cd_confidence c) \<le> 1"
    "69 / 100 \<le> clamp01 (cd_salience c)" "clamp01 (cd_salience c) \<le> 1"
    "69 / 100 \<le> outcome_weight de c" "outcome_weight de c \<le> 1"
    using near [of "72 / 100"] near [of "88 / 100"] near [of "68 / 100"] near [of "70 / 100"] near [of "7 / 10"]
    by (auto simp: c(1) learned_def clamp01_def outcome_weight_def)
  define a where "a = weigh de (40 / 100) (clamp01 (cd_importance c))"
  define b where "b = weigh de (30 / 100) (clamp01 (cd_confidence c))"
  define d where "d = weigh de (20 / 100) (outcome_weight de c)"
  define f where "f = weigh de (10 / 100) (clamp01 (cd_salience c))"
  have w: "28 / 100 \<le> a" "a \<le> 41 / 100" "19 / 100 \<le> b" "b \<le> 31 / 100" "13 / 100 \<le> d" "d \<le> 21 / 100" "6 / 100 \<le> f" "f \<le> 11 / 100"
    using weigh_near [OF n, of "40 / 100" "clamp01 (cd_importance c)"] weigh_near [OF n, of "30 / 100" "clamp01 (cd_confidence c)"]
      weigh_near [OF n, of "20 / 100" "outcome_weight de c"] weigh_near [OF n, of "10 / 100" "clamp01 (cd_salience c)"] i
    unfolding a_def b_def d_def f_def by auto
  define s1 where "s1 = de_fl de (a + b)"
  define s2 where "s2 = de_fl de (s1 + d)"
  define s3 where "s3 = de_fl de (s2 + f)"
  have s1: "46 / 100 \<le> s1" "s1 \<le> 73 / 100" using near [of "a + b"] w unfolding s1_def by linarith+
  have s2: "58 / 100 \<le> s2" "s2 \<le> 95 / 100" using near [of "s1 + d"] w s1 unfolding s2_def by linarith+
  have s3: "63 / 100 \<le> s3" using near [of "s2 + f"] w s2 unfolding s3_def by linarith
  have "mem_gate_score de c (Some (mem_gate_config_default de)) = clamp01 s3"
    using c(2) by (simp add: mem_gate_score_def Let_def dsum_def s3_def s2_def s1_def a_def b_def d_def f_def)
  moreover have "63 / 100 \<le> clamp01 s3" using s3 by (simp add: clamp01_def)
  ultimately show ?thesis
    using near [of "55 / 100"] near [of "35 / 100"] by (auto simp: mem_gate_config_default_def)
qed

lemma learned_evidence: "cd_evidence (learned de scope task tc ac k all_ok) \<noteq> []"
proof -
  have "int_str k \<noteq> []" using length_int_str by (auto simp: int_str_def)
  then show ?thesis by (simp add: learned_def cbuf_def MEM_EVIDENCE_MAX_def)
qed

text \<open>A scope, a task and an answer that leave a record which survives its file.\<close>

definition plain_scope :: "cstr option \<Rightarrow> bool" where
  "plain_scope s \<longleftrightarrow> fm_value (scoped s) \<and> nul_free (scoped s)"

lemma clamp01_bounds: "0 \<le> clamp01 x" "clamp01 x \<le> 1"
  by (simp_all add: clamp01_def)

lemma hash_digits_chars: "set (hash_digits n h) \<subseteq> set hexc"
proof (induction n arbitrary: h)
  case (Suc n)
  have "unat (h AND 0xF) < 16"
  proof -
    have "h AND 0xF \<le> 0xF" by (rule word_and_le1)
    then show ?thesis by (simp add: word_le_nat_alt)
  qed
  then have "hexc ! unat (h AND 0xF) \<in> set hexc" by (intro nth_mem) (simp add: hexc_def)
  with Suc show ?case by simp
qed simp

lemma hex12_chars: "c \<in> set (take 12 (hash_hex h)) \<Longrightarrow> c \<in> set hexc"
  using hash_digits_chars [of 16 h] by (auto simp: hash_hex_def dest: in_set_takeD)

lemma hex_id:
  assumes "length p = n" "n < 10" "\<forall>c \<in> set p. c \<noteq> CHR 0x0A \<and> c \<noteq> CHR 0x00 \<and> c \<noteq> CHR ''/''" "p \<noteq> []" "hd p \<noteq> CHR '' ''"
  shows "fm_value (cbuf MEM_ID_MAX (p @ take 12 (hash_hex h)))" "nul_free (cbuf MEM_ID_MAX (p @ take 12 (hash_hex h)))"
    "CHR ''/'' \<notin> set (cbuf MEM_ID_MAX (p @ take 12 (hash_hex h)))" "length (cbuf MEM_ID_MAX (p @ take 12 (hash_hex h))) < MEM_ID_MAX"
    "cbuf MEM_ID_MAX (p @ take 12 (hash_hex h)) \<noteq> []"
proof -
  have e: "cbuf MEM_ID_MAX (p @ take 12 (hash_hex h)) = p @ take 12 (hash_hex h)"
    using assms(1,2) by (intro cbuf_id) (simp add: MEM_ID_MAX_def)
  have x: "c \<noteq> CHR 0x0A \<and> c \<noteq> CHR 0x00 \<and> c \<noteq> CHR ''/''" if "c \<in> set (take 12 (hash_hex h))" for c
    using hex12_chars [OF that] by (auto simp: hexc_def)
  show "fm_value (cbuf MEM_ID_MAX (p @ take 12 (hash_hex h)))" "nul_free (cbuf MEM_ID_MAX (p @ take 12 (hash_hex h)))"
    "CHR ''/'' \<notin> set (cbuf MEM_ID_MAX (p @ take 12 (hash_hex h)))" "length (cbuf MEM_ID_MAX (p @ take 12 (hash_hex h))) < MEM_ID_MAX"
    "cbuf MEM_ID_MAX (p @ take 12 (hash_hex h)) \<noteq> []"
    unfolding e using assms x by (auto simp: fm_value_def nul_free_def MEM_ID_MAX_def)
qed

lemmas candidate_hex_id = hex_id [of "''mem_''" 4, simplified] and task_hex_id = hex_id [of "''task_''" 5, simplified]

lemma in_set_cbuf: "c \<in> set (cbuf n s) \<Longrightarrow> c \<in> set s"
  by (auto simp: cbuf_def dest: in_set_takeD)

lemma task_origin_text:
  "fm_value (task_origin s u)" "nul_free (task_origin s u)" "length (task_origin s u) < MEM_ID_MAX" "task_origin s u \<noteq> []"
  "cbuf MEM_ID_MAX (task_origin s u) = task_origin s u"
  using task_hex_id by (simp_all add: task_origin_def)

lemma candidate_id_text:
  "fm_value (candidate_id c)" "nul_free (candidate_id c)" "length (candidate_id c) < MEM_ID_MAX" "candidate_id c \<noteq> []"
  "CHR ''/'' \<notin> set (candidate_id c)"
  using candidate_hex_id by (simp_all add: candidate_id_def)

lemma evidence_text:
  "CHR 0x0A \<notin> set (cd_evidence (learned de scope task tc ac k all_ok))" "nul_free (cd_evidence (learned de scope task tc ac k all_ok))"
  "length (cd_evidence (learned de scope task tc ac k all_ok)) < MEM_EVIDENCE_MAX"
proof -
  let ?x = "int_str k @ '' successful tool receipt'' @ (if k = 1 then [] else ''s'')"
  have ev: "cd_evidence (learned de scope task tc ac k all_ok) = cbuf MEM_EVIDENCE_MAX ?x" by (simp add: learned_def)
  have b: "byte (CHR 0x0A) = 10" "byte (CHR 0x00) = 0" by code_simp+
  have d: "CHR 0x0A \<notin> set (int_str k)" "CHR 0x00 \<notin> set (int_str k)"
    using int_str_chars [of "CHR 0x0A" k] int_str_chars [of "CHR 0x00" k] b by (auto simp: c_digit_def)
  have s: "CHR 0x0A \<notin> set '' successful tool receipt''" "CHR 0x00 \<notin> set '' successful tool receipt''"
    "CHR 0x0A \<notin> set (if k = 1 then [] else ''s'')" "CHR 0x00 \<notin> set (if k = 1 then [] else ''s'')" by simp_all
  have "CHR 0x0A \<notin> set ?x" "CHR 0x00 \<notin> set ?x" using d s by (simp_all only: set_append Un_iff de_Morgan_disj simp_thms)
  then show "CHR 0x0A \<notin> set (cd_evidence (learned de scope task tc ac k all_ok))" "nul_free (cd_evidence (learned de scope task tc ac k all_ok))"
    unfolding ev nul_free_def by (blast dest: in_set_cbuf)+
  show "length (cd_evidence (learned de scope task tc ac k all_ok)) < MEM_EVIDENCE_MAX"
    unfolding ev by (rule length_cbuf) (simp add: MEM_EVIDENCE_MAX_def)
qed

definition plain_text :: "cstr \<Rightarrow> bool" where
  "plain_text s \<longleftrightarrow> s \<noteq> [] \<and> nul_free s"

lemma learned_content:
  assumes "nul_free tc" "nul_free ac"
  shows "\<exists>t. cd_content (learned de scope task tc ac k all_ok) = Some t \<and> t \<noteq> [] \<and> nul_free t"
proof -
  have "nul_free ''Task: ''" "nul_free nl" "nul_free ''Result: ''" by (simp_all add: nul_free_def nl_def)
  with assms show ?thesis by (simp add: learned_def)
qed

lemma storable_promoted:
  assumes "plain_scope scope" "nul_free tc" "nul_free ac" "LLONG_MIN \<le> now" "now \<le> LLONG_MAX"
  shows "storable (promoted_record now (learned de scope task tc ac k all_ok))"
proof -
  let ?c = "learned de scope task tc ac k all_ok"
  obtain t where t: "cd_content ?c = Some t" "nul_free t" using learned_content [OF assms(2,3)] by blast
  have f: "cd_scope ?c = scoped scope" "cd_source ?c = ''experience''" "cd_origin_id ?c = task_origin (scoped scope) task"
    "cd_valence ?c = 0"
    by (simp_all add: learned_def mem_candidate_init_def)
  have s: "cbuf MEM_SCOPE_MAX (scoped scope) = scoped scope" "length (scoped scope) < MEM_SCOPE_MAX"
    by (simp_all add: scoped_def length_cbuf MEM_SCOPE_MAX_def)
  have z: "0 < MEM_TITLE_MAX" by (simp add: MEM_TITLE_MAX_def)
  have e: "cbuf MEM_EVIDENCE_MAX (cd_evidence ?c) = cd_evidence ?c" using evidence_text(3) by (rule cbuf_id)
  have x: "fm_value ''experience''" "length ''experience'' < MEM_SOURCE_MAX" "nul_free ''experience''" "cbuf MEM_SOURCE_MAX ''experience'' = ''experience''"
    by (simp_all add: fm_value_def MEM_SOURCE_MAX_def nul_free_def cbuf_def)
  have c01: "\<bar>clamp01 y\<bar> \<le> 1000000" for y using clamp01_bounds [of y] by (simp add: abs_le_iff)
  show ?thesis
    unfolding storable_def fm_record_def promoted_record_def
    using assms(1,4,5) t x evidence_text [of de scope task tc ac k all_ok] s z scoped_nonempty candidate_id_text task_origin_text
    by (simp add: f e or_text_def c01 plain_scope_def int_limits)
qed

lemma storable_merged:
  assumes r: "storable org" "m_version org < INT_MAX" and c: "nul_free tc" "nul_free ac" and n: "LLONG_MIN \<le> now" "now \<le> LLONG_MAX"
  shows "storable (merged_record de g now (learned de' scope task tc ac k all_ok) org)"
proof -
  let ?c = "learned de' scope task tc ac k all_ok"
  obtain t where t: "cd_content ?c = Some t" "nul_free t" using learned_content [OF c] by blast
  have e: "cbuf MEM_EVIDENCE_MAX (cd_evidence ?c) = cd_evidence ?c" using evidence_text(3) by (rule cbuf_id)
  have c01: "\<bar>clamp01 y\<bar> \<le> 1000000" for y using clamp01_bounds [of y] by (simp add: abs_le_iff)
  have v: "INT_MIN \<le> m_version org + 1" "m_version org + 1 \<le> INT_MAX"
    using r by (auto simp: storable_def fm_record_def)
  show ?thesis
    using r n t v evidence_text [of de' scope task tc ac k all_ok]
    unfolding storable_def fm_record_def by (simp add: merged_record_def Let_def e c01)
qed

text \<open>An environment in which nothing fails.\<close>

definition learn_env :: "'e gate_env \<Rightarrow> bool" where
  "learn_env e \<longleftrightarrow> fl_near (ge_double e) \<and> ge_scan e \<and> ge_copy e \<and> ge_ok e \<and> ge_grow e \<and> LLONG_MIN \<le> ge_now e \<and> ge_now e \<le> LLONG_MAX"

lemma put_synced:
  assumes "synced rs fs" "storable r" "mem_records_put ps True True True rs r fs = (rc, rs', fs')"
  shows "rc = 0 \<and> synced rs' fs' \<and> mem_records_find rs' = (mem_records_find rs)(m_id r \<mapsto> cleaned ps r)"
  using put_succeeds [OF assms(1,2), of ps] synced_put [OF assms(1,2), of ps] assms(3) by simp

lemma gate_merge_synced:
  assumes "synced rs fs" "learn_env e" "storable (merged_record (ge_double e) g now c org)"
    and "gate_merge e g now s c org (rs, v, fs) = (res, rs', v', fs')"
  shows "gr_decision res = MEM_GATE_MERGE \<and> synced rs' fs' \<and>
    mem_records_find rs' = (mem_records_find rs)(m_id org \<mapsto> cleaned (ge_passwords e) (merged_record (ge_double e) g now c org))"
proof -
  obtain rc rs1 fs1 where p: "mem_records_put (ge_passwords e) True True True rs (merged_record (ge_double e) g now c org) fs = (rc, rs1, fs1)"
    by (metis prod_cases3)
  from put_synced [OF assms(1,3) p] p assms(2,4) show ?thesis
    by (auto simp: gate_merge_def learn_env_def Let_def)
qed

lemma gate_promote_synced:
  assumes "synced rs fs" "learn_env e" "storable (promoted_record now c)"
    and "gate_promote e now s c (rs, v, fs) = (res, rs', v', fs')"
  shows "gr_decision res = MEM_GATE_PROMOTE \<and> synced rs' fs' \<and>
    mem_records_find rs' = (mem_records_find rs)(candidate_id c \<mapsto> cleaned (ge_passwords e) (promoted_record now c))"
proof -
  obtain rc rs1 fs1 where p: "mem_records_put (ge_passwords e) True True True rs (promoted_record now c) fs = (rc, rs1, fs1)"
    by (metis prod_cases3)
  have "m_id (promoted_record now c) = candidate_id c" by (simp add: promoted_record_def)
  with put_synced [OF assms(1,3) p] p assms(2,4) show ?thesis
    by (auto simp: gate_promote_def learn_env_def Let_def)
qed

text \<open>The store has one record of an origin.\<close>

definition sole :: "mem_records \<Rightarrow> cstr \<Rightarrow> mem_record \<Rightarrow> bool" where
  "sole rs org r \<longleftrightarrow> mem_records_find rs (m_id r) = Some r \<and> origin_id r = org \<and>
     (\<forall>i q. mem_records_find rs i = Some q \<longrightarrow> origin_id q = org \<longrightarrow> q = r)"

definition unknown :: "mem_records \<Rightarrow> cstr \<Rightarrow> bool" where
  "unknown rs org \<longleftrightarrow> (\<forall>i q. mem_records_find rs i = Some q \<longrightarrow> origin_id q \<noteq> org)"

lemma find_id: "mem_records_find rs i = Some q \<Longrightarrow> m_id q = i"
  by (auto simp: mem_records_find_def List.find_Some_iff)

lemma in_store:
  assumes "synced rs fs"
  shows "r \<in> set (elems (rs_items rs)) \<longleftrightarrow> mem_records_find rs (m_id r) = Some r"
  using find_Some_iff [OF syncedD(2) [OF assms], of "m_id r" r] by (simp add: mem_records_find_def)

lemma find_origin_sole:
  assumes s: "synced rs fs" and o: "sole rs org r" "org \<noteq> []"
  shows "mem_records_find_origin rs (Some org) = Some r"
proof -
  have "r \<in> set (elems (rs_items rs))" "origin_id r = org" using o(1) in_store [OF s] by (auto simp: sole_def)
  then have "List.find (\<lambda>q. origin_id q = org) (elems (rs_items rs)) \<noteq> None" by (auto simp: find_None_iff)
  then obtain q where q: "List.find (\<lambda>q. origin_id q = org) (elems (rs_items rs)) = Some q" by blast
  then have "q \<in> set (elems (rs_items rs))" "origin_id q = org" by (auto simp: List.find_Some_iff)
  with o(1) in_store [OF s] have "q = r" by (auto simp: sole_def)
  with q o(2) show ?thesis by (simp add: mem_records_find_origin_def nonnull_or_def)
qed

lemma find_origin_unknown:
  assumes s: "synced rs fs" and u: "unknown rs org"
  shows "mem_records_find_origin rs (Some org) = None"
  using u in_store [OF s] by (auto simp: mem_records_find_origin_def unknown_def find_None_iff nonnull_or_def)

lemma utf8_truncate_plain: "nul_free s \<Longrightarrow> nul_free (utf8_truncate s n)"
  by (auto simp: nul_free_def utf8_truncate_def dest: in_set_takeD)

text \<open>One lesson.\<close>

lemma learn_step:
  assumes s: "synced (mr_records rt) fs" and e: "learn_env e" and sc: "plain_scope scope" and t: "plain_text task" "plain_text answer" "0 < n"
    and l: "memory_runtime_learn e True True (rt, fs) scope (Some task) (Some answer) n all_ok = (rc, rt', fs')"
    and org: "org = task_origin (scoped scope) task"
    and c: "c = learned (ge_double e) scope task (utf8_truncate task 2048) (utf8_truncate answer 4096) n all_ok"
  shows "unknown (mr_records rt) org \<Longrightarrow>
      rc = 1 \<and> synced (mr_records rt') fs' \<and> sole (mr_records rt') org (cleaned (ge_passwords e) (promoted_record (ge_now e) c))"
    "sole (mr_records rt) org r \<Longrightarrow> live_status (m_status r) \<Longrightarrow> m_version r < INT_MAX \<Longrightarrow>
      rc = 1 \<and> synced (mr_records rt') fs' \<and>
      sole (mr_records rt') org (cleaned (ge_passwords e) (merged_record (ge_double e) (mem_gate_config_default (ge_double e)) (ge_now e) c r))"
proof -
  let ?g = "mem_gate_config_default (ge_double e)" and ?s = "mem_gate_score (ge_double e) c (Some (mem_gate_config_default (ge_double e)))"
  let ?st = "(mr_records rt, Some (mr_vectors rt), fs)"
  have tx: "nul_free (utf8_truncate task 2048)" "nul_free (utf8_truncate answer 4096)"
    using t by (auto simp: plain_text_def intro: utf8_truncate_plain)
  have now: "LLONG_MIN \<le> ge_now e" "ge_now e \<le> LLONG_MAX" "gc_now_ms ?g = 0" "fl_near (ge_double e)"
    using e by (simp_all add: learn_env_def mem_gate_config_default_def)
  have o: "cd_origin_id c = org" "org \<noteq> []" using task_origin_text by (simp_all add: c org learned_def)
  obtain x where x: "cd_content c = Some x" "x \<noteq> []" using learned_content [OF tx] c by blast
  have sco: "promote_threshold ?g \<le> ?s" "\<not> ?s < merge_threshold ?g"
    using learned_score [OF now(4) c] learned_evidence by (auto simp: c)
  obtain res rs1 v1 fs1 where g: "mem_gate_apply e (Some ?g) c ?st = (res, rs1, v1, fs1)" by (metis prod_cases4)
  have r: "rc = (if gr_decision res = MEM_GATE_REJECT then 0 else 1)" "mr_records rt' = rs1" "fs' = fs1"
    using l g t by (auto simp: memory_runtime_learn_def bounded_copy_def plain_text_def nonnull_or_def c)
  have app: "mem_gate_apply e (Some ?g) c ?st =
      (case mem_records_find_origin (mr_records rt) (Some org) of
         Some q \<Rightarrow> if live_status (m_status q) then gate_merge e ?g (ge_now e) ?s c q ?st else gate_promote e (ge_now e) ?s c ?st
       | None \<Rightarrow> gate_promote e (ge_now e) ?s c ?st)"
    using x sco o now(3) by (auto simp: mem_gate_apply_def gate_origin_def nonnull_or_def Let_def split: option.split)
  {
    assume u: "unknown (mr_records rt) org"
    from app find_origin_unknown [OF s u] g have p: "gate_promote e (ge_now e) ?s c ?st = (res, rs1, v1, fs1)" by simp
    have st: "storable (promoted_record (ge_now e) c)" unfolding c using sc tx now(1,2) by (rule storable_promoted)
    have i: "m_id (promoted_record (ge_now e) c) = candidate_id c" "origin_id (promoted_record (ge_now e) c) = org"
      using task_origin_text(5) o by (simp_all add: promoted_record_def org)
    from gate_promote_synced [OF s e st p] r u i show
      "rc = 1 \<and> synced (mr_records rt') fs' \<and> sole (mr_records rt') org (cleaned (ge_passwords e) (promoted_record (ge_now e) c))"
      by (auto simp: sole_def unknown_def cleaned_def)
  next
    assume q: "sole (mr_records rt) org r" "live_status (m_status r)" "m_version r < INT_MAX"
    from app find_origin_sole [OF s q(1) o(2)] g q(2) have p: "gate_merge e ?g (ge_now e) ?s c r ?st = (res, rs1, v1, fs1)" by simp
    have "storable r" using q(1) in_store [OF s] syncedD(4) [OF s] by (auto simp: sole_def)
    then have st: "storable (merged_record (ge_double e) ?g (ge_now e) c r)" unfolding c using q(3) tx now(1,2) by (rule storable_merged)
    from gate_merge_synced [OF s e st p] r q(1) show
      "rc = 1 \<and> synced (mr_records rt') fs' \<and>
       sole (mr_records rt') org (cleaned (ge_passwords e) (merged_record (ge_double e) ?g (ge_now e) c r))"
      by (auto simp: sole_def cleaned_def dest: find_id)
  }
qed

text \<open>C20: three successful runs of a task that the memory does not know leave one record: provisional after the
  first, trusted after the second, verified after the third, with the text of the last answer (known passwords redacted), and
  the store in step with its directory.\<close>

theorem learning_matures:
  assumes "synced (mr_records rt0) fs0" "unknown (mr_records rt0) (task_origin (scoped scope) task)" "plain_scope scope" "plain_text task"
    and "learn_env e1" "learn_env e2" "learn_env e3" "plain_text a1" "plain_text a2" "plain_text a3" "0 < n1" "0 < n2" "0 < n3"
    and "memory_runtime_learn e1 True True (rt0, fs0) scope (Some task) (Some a1) n1 True = (rc1, rt1, fs1)"
    and "memory_runtime_learn e2 True True (rt1, fs1) scope (Some task) (Some a2) n2 True = (rc2, rt2, fs2)"
    and "memory_runtime_learn e3 True True (rt2, fs2) scope (Some task) (Some a3) n3 True = (rc3, rt3, fs3)"
  shows "rc1 = 1 \<and> rc2 = 1 \<and> rc3 = 1 \<and> (\<exists>i r1 r2 r3.
      sole (mr_records rt1) (task_origin (scoped scope) task) r1 \<and> m_id r1 = i \<and> m_status r1 = MEM_STATUS_PROVISIONAL \<and>
      sole (mr_records rt2) (task_origin (scoped scope) task) r2 \<and> m_id r2 = i \<and> m_status r2 = MEM_STATUS_TRUSTED \<and>
      sole (mr_records rt3) (task_origin (scoped scope) task) r3 \<and> m_id r3 = i \<and> m_status r3 = MEM_STATUS_VERIFIED \<and> m_version r3 = 3 \<and>
      m_content r3 = secret_redact_ssh_passwords True (ge_passwords e3)
        (''Task: '' @ utf8_truncate task 2048 @ nl @ ''Result: '' @ utf8_truncate a3 4096) None) \<and>
    synced (mr_records rt3) fs3"
proof -
  let ?o = "task_origin (scoped scope) task"
  let ?c = "\<lambda>e a n. learned (ge_double e) scope task (utf8_truncate task 2048) (utf8_truncate a 4096) n True"
  let ?m = "\<lambda>e a n r. cleaned (ge_passwords e) (merged_record (ge_double e) (mem_gate_config_default (ge_double e)) (ge_now e) (?c e a n) r)"
  define r1 where "r1 = cleaned (ge_passwords e1) (promoted_record (ge_now e1) (?c e1 a1 n1))"
  define r2 where "r2 = ?m e2 a2 n2 r1"
  define r3 where "r3 = ?m e3 a3 n3 r2"
  have st: "m_status (cleaned ps r) = m_status r" "m_version (cleaned ps r) = m_version r" for ps r by (simp_all add: cleaned_def)
  have ev: "cd_evidence (?c e a n) \<noteq> []" "cd_outcome (?c e a n) = MEM_OUTCOME_SUCCESS" for e :: "'a gate_env" and a n
    using learned_evidence by (simp_all add: learned_def)
  have f1: "m_status r1 = MEM_STATUS_PROVISIONAL" "m_version r1 = 1" by (simp_all add: r1_def st promoted_record_def)
  have f2: "m_status r2 = MEM_STATUS_TRUSTED" "m_version r2 = 2" "m_id r2 = m_id r1"
    using f1 ev by (simp_all add: r2_def st matured_status_def)
  have f3: "m_status r3 = MEM_STATUS_VERIFIED" "m_version r3 = 3" "m_id r3 = m_id r1"
    using f2 ev by (simp_all add: r3_def st matured_status_def)
  have "m_content r3 = map_option (\<lambda>x. the (secret_redact_ssh_passwords True (ge_passwords e3) x None)) (cd_content (?c e3 a3 n3))"
    by (simp add: r3_def cleaned_def)
  then have t3: "m_content r3 = secret_redact_ssh_passwords True (ge_passwords e3)
      (''Task: '' @ utf8_truncate task 2048 @ nl @ ''Result: '' @ utf8_truncate a3 4096) None"
    using redact_Some [of "ge_passwords e3" "''Task: '' @ utf8_truncate task 2048 @ nl @ ''Result: '' @ utf8_truncate a3 4096"]
    by (auto simp: learned_def)
  note s1 = learn_step(1) [OF assms(1,5,3,4,8,11,14) refl refl assms(2), folded r1_def]
  have s2: "rc2 = 1 \<and> synced (mr_records rt2) fs2 \<and> sole (mr_records rt2) ?o r2"
    unfolding r2_def using s1 f1 by (intro learn_step(2) [OF _ assms(6,3,4,9,12,15) refl refl]) (auto simp: live_status_def int_limits)
  have s3: "rc3 = 1 \<and> synced (mr_records rt3) fs3 \<and> sole (mr_records rt3) ?o r3"
    unfolding r3_def using s2 f2 by (intro learn_step(2) [OF _ assms(7,3,4,10,13,16) refl refl]) (auto simp: live_status_def int_limits)
  show ?thesis using s1 s2 s3 f1 f2 f3 t3 by blast
qed

section \<open>Witnesses\<close>

definition demo_rt_env :: "unit runtime_env" where
  "demo_rt_env =
     \<lparr>rt_recall = demo_env, rt_emb = (\<lambda>_. ()), rt_cosine = (\<lambda>_ _. 0), rt_keyword = (\<lambda>_ _. 0), rt_reparse = Some, rt_vec_ok = True,
      rt_mmu_ok = True\<rparr>"

definition demo_rt :: "unit memory_runtime" where
  "demo_rt =
     \<lparr>mr_records = \<lparr>rs_dir = ''s/records'', rs_items = \<lparr>elems = [demo_mem ''a'' ''s1'' 0, demo_mem ''b'' ''global'' 1], vcap = 16\<rparr>\<rparr>,
      mr_vectors = vectorstore_new\<rparr>"

lemma runtime_recall_isolated_witness:
  "\<exists>items rt'. memory_runtime_recall_ex demo_rt_env demo_rt (Some ''s1'') None 240 False = (Some items, rt') \<and>
     map (record_id \<circ> it_page) items = [''a''] \<and> (\<Sum>it \<leftarrow> items. item_tokens it) \<le> 64"
proof -
  obtain ans rt' where r: "memory_runtime_recall_ex demo_rt_env demo_rt (Some ''s1'') None 240 False = (ans, rt')" by fastforce
  have "map_option (map (\<lambda>it. record_id (it_page it))) (fst (memory_runtime_recall_ex demo_rt_env demo_rt (Some ''s1'') None 240 False)) = Some [''a'']"
    by code_simp
  with r obtain items where i: "ans = Some items" "map (\<lambda>it. record_id (it_page it)) items = [''a'']" by auto
  have g: "good_ids (elems (rs_items (mr_records demo_rt)))" "(240 :: int) \<le> INT_MAX"
    by (simp_all add: demo_rt_def good_ids_def demo_mem_def mem_record_zero_def mem_limits int_limits)
  from runtime_recall_isolated [OF g r [unfolded i(1)]] have "(\<Sum>it \<leftarrow> items. item_tokens it) \<le> 64" by simp
  with r i show ?thesis by (simp add: comp_def)
qed

definition demo_empty :: "unit memory_runtime" where
  "demo_empty = \<lparr>mr_records = \<lparr>rs_dir = ''s/records'', rs_items = vec_new\<rparr>, mr_vectors = vectorstore_new\<rparr>"

definition demo_disk :: fsys where
  "demo_disk = \<lparr>nodes = [(''s'', Dir 4096), (''s/records'', Dir 4096)], denied = []\<rparr>"

lemma demo_empty_ok: "synced (mr_records demo_empty) demo_disk" "unknown (mr_records demo_empty) x"
proof -
  have "good_dir ''s/records''" by (simp add: good_dir_def)
  moreover have "\<not> entry_of ''s/records'' ''s''" "\<not> entry_of ''s/records'' ''s/records''" "fs_is_dir demo_disk ''s/records''"
    by code_simp+
  ultimately show "synced (mr_records demo_empty) demo_disk"
    by (auto simp: synced_def demo_empty_def demo_disk_def vec_new_def vec_ok_def)
qed (simp add: unknown_def demo_empty_def mem_records_find_def vec_new_def)

lemma learning_matures_witness:
  "\<exists>rt1 fs1 rt2 fs2 rt3 fs3 r. memory_runtime_learn demo_gate True True (demo_empty, demo_disk) None (Some ''t'') (Some ''a'') 1 True = (1, rt1, fs1) \<and>
     memory_runtime_learn demo_gate True True (rt1, fs1) None (Some ''t'') (Some ''b'') 2 True = (1, rt2, fs2) \<and>
     memory_runtime_learn demo_gate True True (rt2, fs2) None (Some ''t'') (Some ''c'') 3 True = (1, rt3, fs3) \<and>
     sole (mr_records rt3) (task_origin ''global'' ''t'') r \<and> m_status r = MEM_STATUS_VERIFIED"
proof -
  have s: "scoped None = ''global''" by code_simp
  have h: "plain_scope None" "plain_text ''t''" "plain_text ''a''" "plain_text ''b''" "plain_text ''c''"
    by (simp_all add: plain_scope_def s fm_value_def nul_free_def plain_text_def)
  have e: "learn_env demo_gate" by (simp add: learn_env_def demo_gate_def fl_near_def int_limits)
  obtain rc1 rt1 fs1 where l1: "memory_runtime_learn demo_gate True True (demo_empty, demo_disk) None (Some ''t'') (Some ''a'') 1 True = (rc1, rt1, fs1)"
    by (metis prod_cases3)
  obtain rc2 rt2 fs2 where l2: "memory_runtime_learn demo_gate True True (rt1, fs1) None (Some ''t'') (Some ''b'') 2 True = (rc2, rt2, fs2)"
    by (metis prod_cases3)
  obtain rc3 rt3 fs3 where l3: "memory_runtime_learn demo_gate True True (rt2, fs2) None (Some ''t'') (Some ''c'') 3 True = (rc3, rt3, fs3)"
    by (metis prod_cases3)
  have n: "(0 :: int) < 1" "(0 :: int) < 2" "(0 :: int) < 3" by simp_all
  note learning_matures [OF demo_empty_ok h(1,2) e e e h(3-5) n l1 l2 l3]
  then obtain r where "rc1 = 1" "rc2 = 1" "rc3 = 1" "sole (mr_records rt3) (task_origin (scoped None) ''t'') r" "m_status r = MEM_STATUS_VERIFIED"
    by (elim conjE exE) (rule that)
  with l1 l2 l3 show ?thesis unfolding s by fast
qed

end
