(* ===== verification/WsCodec.thy ===== *)
theory WsCodec
  imports Util
begin

text \<open>
  The primitives of the websocket protocol, \<open>src/backend/src/api/websocket.c\<close>: SHA-1 over a context that takes its data in
  pieces, base64, the accept key of the handshake, and frames. A byte is an \<open>8 word\<close>; the memory that \<open>malloc\<close> returns holds the
  bytes of the parameter \<open>junk\<close>. Lengths are below \<open>2^64\<close>.
\<close>

unbundle bit_operations_syntax

type_synonym bytes = "8 word list"

definition bytes_of :: "cstr \<Rightarrow> bytes" where
  "bytes_of s = map (\<lambda>c. word_of_nat (byte c)) s"

section \<open>SHA-1\<close>

definition rol32 :: "32 word \<Rightarrow> nat \<Rightarrow> 32 word" where
  "rol32 v n = push_bit n v OR drop_bit (32 - n) v"

type_synonym sha_state = "32 word \<times> 32 word \<times> 32 word \<times> 32 word \<times> 32 word"

definition be32 :: "bytes \<Rightarrow> nat \<Rightarrow> 32 word" where
  "be32 p t = push_bit 24 (ucast (p ! (t * 4))) OR push_bit 16 (ucast (p ! (t * 4 + 1))) OR push_bit 8 (ucast (p ! (t * 4 + 2)))
     OR ucast (p ! (t * 4 + 3))"

definition sha1_w :: "bytes \<Rightarrow> 32 word list" where
  "sha1_w p =
     fold (\<lambda>t w. w @ [rol32 (w ! (t - 3) XOR w ! (t - 8) XOR w ! (t - 14) XOR w ! (t - 16)) 1]) [16..<80] (map (be32 p) [0..<16])"

definition sha1_f :: "nat \<Rightarrow> 32 word \<Rightarrow> 32 word \<Rightarrow> 32 word \<Rightarrow> 32 word \<times> 32 word" where
  "sha1_f t b c d =
     (if t < 20 then ((b AND c) OR (NOT b AND d), 0x5A827999)
      else if t < 40 then (b XOR c XOR d, 0x6ED9EBA1)
      else if t < 60 then ((b AND c) OR (b AND d) OR (c AND d), 0x8F1BBCDC)
      else (b XOR c XOR d, 0xCA62C1D6))"

definition sha1_round :: "32 word list \<Rightarrow> nat \<Rightarrow> sha_state \<Rightarrow> sha_state" where
  "sha1_round w t st =
     (case st of (a, b, c, d, e) \<Rightarrow> case sha1_f t b c d of (f, k) \<Rightarrow> (rol32 a 5 + f + e + k + w ! t, a, rol32 b 30, c, d))"

definition sha1_block :: "sha_state \<Rightarrow> bytes \<Rightarrow> sha_state" where
  "sha1_block h p =
     (case (h, fold (sha1_round (sha1_w p)) [0..<80] h) of
        ((h0, h1, h2, h3, h4), (a, b, c, d, e)) \<Rightarrow> (h0 + a, h1 + b, h2 + c, h3 + d, h4 + e))"

text \<open>The context, with the filled part of the block.\<close>

record sha1_ctx =
  sh_h :: sha_state
  sh_total :: "64 word"
  sh_block :: bytes

definition sha1_init :: sha1_ctx where
  "sha1_init = \<lparr>sh_h = (0x67452301, 0xEFCDAB89, 0x98BADCFE, 0x10325476, 0xC3D2E1F0), sh_total = 0, sh_block = []\<rparr>"

text \<open>The loop of \<open>sha1_update\<close>. It would not end on a context whose block is full; none ever is (\<open>sha1_loop_absorbs\<close>).\<close>

partial_function (option) sha1_loop :: "sha1_ctx \<Rightarrow> bytes \<Rightarrow> sha1_ctx option" where
  "sha1_loop s data =
     (if data = [] then Some s
      else let space = 64 - length (sh_block s); n = (if length data < space then length data else space);
               blk = sh_block s @ take n data
           in sha1_loop (if length blk = 64 then s\<lparr>sh_h := sha1_block (sh_h s) blk, sh_block := []\<rparr> else s\<lparr>sh_block := blk\<rparr>) (drop n data))"

definition sha1_update :: "sha1_ctx \<Rightarrow> bytes \<Rightarrow> sha1_ctx option" where
  "sha1_update s data = sha1_loop (s\<lparr>sh_total := sh_total s + word_of_nat (length data)\<rparr>) data"

partial_function (option) sha1_fill :: "sha1_ctx \<Rightarrow> sha1_ctx option" where
  "sha1_fill s = (if length (sh_block s) = 56 then Some s else Option.bind (sha1_update s [0]) sha1_fill)"

definition be_bytes64 :: "64 word \<Rightarrow> bytes" where
  "be_bytes64 w = map (\<lambda>i. ucast (drop_bit (56 - 8 * i) w)) [0..<8]"

definition be_bytes32 :: "32 word \<Rightarrow> bytes" where
  "be_bytes32 w = map (\<lambda>i. ucast (drop_bit (24 - 8 * i) w)) [0..<4]"

definition sha1_out :: "sha_state \<Rightarrow> bytes" where
  "sha1_out h = (case h of (a, b, c, d, e) \<Rightarrow> concat (map be_bytes32 [a, b, c, d, e]))"

definition sha1_final :: "sha1_ctx \<Rightarrow> bytes option" where
  "sha1_final s =
     Option.bind (sha1_update s [0x80]) (\<lambda>s1.
     Option.bind (sha1_fill s1) (\<lambda>s2.
     Option.bind (sha1_update s2 (be_bytes64 (sh_total s * 8))) (\<lambda>s3. Some (sha1_out (sh_h s3)))))"

definition sha1 :: "bytes \<Rightarrow> bytes option" where
  "sha1 data = Option.bind (sha1_update sha1_init data) sha1_final"

section \<open>Base64\<close>

definition b64_tab :: cstr where
  "b64_tab = ''ABCDEFGHIJKLMNOPQRSTUVWXYZabcdefghijklmnopqrstuvwxyz0123456789+/''"

text \<open>The character for the six bits of \<open>v\<close> from bit \<open>n\<close> on.\<close>

definition b64_char :: "32 word \<Rightarrow> nat \<Rightarrow> char" where
  "b64_char v n = b64_tab ! unat (drop_bit n v AND 63)"

text \<open>The loop takes three bytes at a time; what is left at its end are the last three equations.\<close>

fun base64_encode :: "bytes \<Rightarrow> cstr" where
  "base64_encode (a # b # c # ds) =
     (let v = push_bit 16 (ucast a) OR push_bit 8 (ucast b) OR ucast c
      in b64_char v 18 # b64_char v 12 # b64_char v 6 # b64_char v 0 # base64_encode ds)"
| "base64_encode [a] = (let v = push_bit 16 (ucast a) in [b64_char v 18, b64_char v 12, CHR ''='', CHR ''=''])"
| "base64_encode [a, b] =
     (let v = push_bit 16 (ucast a) OR push_bit 8 (ucast b) in [b64_char v 18, b64_char v 12, b64_char v 6, CHR ''=''])"
| "base64_encode [] = []"

definition b64_val :: "char \<Rightarrow> nat option" where
  "b64_val c =
     (let n = byte c in
      if 65 \<le> n \<and> n \<le> 90 then Some (n - 65)
      else if 97 \<le> n \<and> n \<le> 122 then Some (n - 97 + 26)
      else if 48 \<le> n \<and> n \<le> 57 then Some (n - 48 + 52)
      else if c = CHR ''+'' then Some 62
      else if c = CHR ''/'' then Some 63
      else None)"

text \<open>The state of the decoding loop: accumulator, number of bits in it, bytes so far.\<close>

fun b64_loop :: "nat \<Rightarrow> cstr \<Rightarrow> 32 word \<Rightarrow> nat \<Rightarrow> bytes \<Rightarrow> bytes option" where
  "b64_loop cap [] acc bits out = Some out"
| "b64_loop cap (c # cs) acc bits out =
     (if c = CHR ''='' \<or> c = CHR 0x0A \<or> c = CHR 0x0D then b64_loop cap cs acc bits out
      else case b64_val c of
             None \<Rightarrow> None
           | Some v \<Rightarrow>
               let acc' = push_bit 6 acc OR word_of_nat v in
               if 8 \<le> bits + 6
               then if cap \<le> length out then None
                    else b64_loop cap cs acc' (bits - 2) (out @ [ucast (drop_bit (bits - 2) acc' AND 0xFF)])
               else b64_loop cap cs acc' (bits + 6) out)"

definition base64_decode :: "cstr \<Rightarrow> nat \<Rightarrow> bytes option" where
  "base64_decode s cap = b64_loop cap s 0 0 []"

section \<open>Handshake\<close>

definition WS_GUID :: cstr where
  "WS_GUID = ''258EAFA5-E914-47DA-95CA-C5AB0DC85B11''"

text \<open>\<open>ok\<close>: the text can be allocated; the hash always returns (\<open>sha1_is_fips\<close>).\<close>

definition ws_accept_key :: "bool \<Rightarrow> cstr option \<Rightarrow> cstr" where
  "ws_accept_key ok key =
     cbuf 29 (if ok then base64_encode (the (sha1 (bytes_of (cbuf 256 (nonnull_or [] key @ WS_GUID))))) else [])"

section \<open>Frames\<close>

definition frame_header :: "int \<Rightarrow> bool \<Rightarrow> nat \<Rightarrow> bytes" where
  "frame_header opcode msk len =
     (0x80 OR (word_of_int opcode AND 0x0F)) #
     (let m = (if msk then 0x80 else 0) in
      if len < 126 then [m OR word_of_nat len]
      else if len < 65536 then [m OR 126, word_of_nat (len div 256), word_of_nat len]
      else (m OR 127) # be_bytes64 (word_of_nat len))"

text \<open>The key of a mask, from the clock.\<close>

definition key_step :: "64 word \<Rightarrow> 64 word" where
  "key_step s = (let a = s XOR push_bit 13 s; b = a XOR drop_bit 7 a in b XOR push_bit 17 b)"

definition mask_key :: "64 word \<Rightarrow> bytes" where
  "mask_key seed = map (\<lambda>i. ucast ((key_step ^^ Suc i) seed)) [0..<4]"

definition mask_bytes :: "bytes \<Rightarrow> bytes \<Rightarrow> bytes" where
  "mask_bytes key p = map (\<lambda>(j, b). b XOR key ! (j mod 4)) (enumerate 0 p)"

text \<open>The size that is computed for the header.\<close>

definition header_size :: "bool \<Rightarrow> nat \<Rightarrow> nat" where
  "header_size msk len =
     2 + (if 126 \<le> len then 2 else 0) + (if 65536 \<le> len then 8 else 0) + (if msk then 4 else 0)"

text \<open>The buffer has \<open>header_size + len\<close> bytes, and all of them are handed on.\<close>

definition ws_build_frame :: "(nat \<Rightarrow> 8 word) \<Rightarrow> bool \<Rightarrow> 64 word \<Rightarrow> int \<Rightarrow> bytes \<Rightarrow> bool \<Rightarrow> bytes option" where
  "ws_build_frame junk ok seed opcode payload msk =
     (if \<not> ok then None
      else let written = frame_header opcode msk (length payload)
                 @ (if msk then mask_key seed @ mask_bytes (mask_key seed) payload else payload)
           in Some (written @ map junk [length written ..< header_size msk (length payload) + length payload]))"

text \<open>Parsing one frame. \<open>Overrun\<close>: bytes beyond the buffer are read.\<close>

datatype parsed = Malformed | Overrun | Frame (f_payload: bytes) (f_opcode: nat) (f_fin: bool)

definition be_length :: "bytes \<Rightarrow> 64 word" where
  "be_length bs = foldl (\<lambda>p b. push_bit 8 p OR ucast b) 0 bs"

text \<open>The length field and the offset behind it; \<open>None\<close> when it is cut off.\<close>

definition length_field :: "bytes \<Rightarrow> (64 word \<times> nat) option" where
  "length_field buf =
     (let n = buf ! 1 AND 0x7F in
      if n = 126 then (if length buf < 4 then None else Some (be_length (take 2 (drop 2 buf)), 4))
      else if n = 127 then (if length buf < 10 then None else Some (be_length (take 8 (drop 2 buf)), 10))
      else Some (ucast n, 2))"

definition ws_parse_frame :: "bytes \<Rightarrow> parsed" where
  "ws_parse_frame buf =
     (if length buf < 2 then Malformed
      else case length_field buf of
             None \<Rightarrow> Malformed
           | Some (plen, off) \<Rightarrow>
               let masked = bit (buf ! 1) 7 in
               if masked \<and> length buf < off + 4 then Malformed
               else let off' = (if masked then off + 4 else off) in
                    if length buf < unat (word_of_nat off' + plen) then Malformed
                    else if length buf < off' + unat plen then Overrun
                    else let p = take (unat plen) (drop off' buf) in
                         Frame (if masked then mask_bytes (take 4 (drop off buf)) p else p) (unat (buf ! 0 AND 0x0F)) (bit (buf ! 0) 7))"


section \<open>The context absorbs bytes one by one\<close>

definition absorb1 :: "sha_state \<times> bytes \<Rightarrow> 8 word \<Rightarrow> sha_state \<times> bytes" where
  "absorb1 st b = (let blk = snd st @ [b] in if length blk = 64 then (sha1_block (fst st) blk, []) else (fst st, blk))"

definition absorbed :: "sha1_ctx \<Rightarrow> bytes \<Rightarrow> sha1_ctx" where
  "absorbed s data = (let st = foldl absorb1 (sh_h s, sh_block s) data in s\<lparr>sh_h := fst st, sh_block := snd st\<rparr>)"

definition sha_ok :: "sha1_ctx \<Rightarrow> bool" where
  "sha_ok s \<longleftrightarrow> length (sh_block s) < 64"

lemma absorbed_append: "absorbed s (xs @ ys) = absorbed (absorbed s xs) ys"
  by (simp add: absorbed_def Let_def)

lemma absorbed_Nil [simp]: "absorbed s [] = s"
  by (simp add: absorbed_def)

lemma absorbed_total [simp]: "sh_total (absorbed s xs) = sh_total s"
  by (simp add: absorbed_def Let_def)

lemma absorbed_set_total: "absorbed (s\<lparr>sh_total := n\<rparr>) xs = (absorbed s xs)\<lparr>sh_total := n\<rparr>"
  by (simp add: absorbed_def Let_def)

lemma absorb1_room: "length blk + length xs < 64 \<Longrightarrow> foldl absorb1 (h, blk) xs = (h, blk @ xs)"
  by (induction xs arbitrary: blk) (auto simp: absorb1_def)

lemma absorb1_fills:
  assumes "length blk + length xs = 64" and "length blk < 64"
  shows "foldl absorb1 (h, blk) xs = (sha1_block h (blk @ xs), [])"
proof -
  from assms obtain ys y where xs: "xs = ys @ [y]" by (cases xs rule: rev_cases) auto
  with assms have "foldl absorb1 (h, blk) ys = (h, blk @ ys)" by (intro absorb1_room) simp
  with xs assms show ?thesis by (simp add: absorb1_def)
qed

lemma absorb1_block_length: "length (snd st) < 64 \<Longrightarrow> length (snd (foldl absorb1 st xs)) = (length (snd st) + length xs) mod 64"
proof (induction xs arbitrary: st)
  case (Cons x xs)
  have "length (snd (absorb1 st x)) = (length (snd st) + 1) mod 64" using Cons.prems by (auto simp: absorb1_def Let_def)
  then have "length (snd (foldl absorb1 st (x # xs))) = ((length (snd st) + 1) mod 64 + length xs) mod 64" using Cons.IH by simp
  then show ?case by (simp add: mod_add_left_eq)
qed simp

lemma absorbed_ok: "sha_ok s \<Longrightarrow> sha_ok (absorbed s xs)"
  by (auto simp: sha_ok_def absorbed_def Let_def absorb1_block_length)

lemma absorbed_length: "sha_ok s \<Longrightarrow> length (sh_block (absorbed s xs)) = (length (sh_block s) + length xs) mod 64"
  by (simp add: sha_ok_def absorbed_def Let_def absorb1_block_length)

lemma sha1_loop_absorbs: "sha_ok s \<Longrightarrow> sha1_loop s data = Some (absorbed s data)"
proof (induction "length data" arbitrary: s data rule: less_induct)
  case less
  show ?case
  proof (cases "data = []")
    case True
    then show ?thesis by (simp add: sha1_loop.simps)
  next
    case False
    define n where "n = (if length data < 64 - length (sh_block s) then length data else 64 - length (sh_block s))"
    define s' where "s' = absorbed s (take n data)"
    have n: "0 < n" "n \<le> length data" "length (sh_block s) + n \<le> 64"
      using less.prems False by (auto simp: n_def sha_ok_def)
    have step: "s' = (if length (sh_block s @ take n data) = 64
        then s\<lparr>sh_h := sha1_block (sh_h s) (sh_block s @ take n data), sh_block := []\<rparr> else s\<lparr>sh_block := sh_block s @ take n data\<rparr>)"
      using n less.prems by (auto simp: s'_def absorbed_def Let_def sha_ok_def absorb1_fills absorb1_room)
    have "sha1_loop s data = sha1_loop s' (drop n data)"
      using False by (subst sha1_loop.simps) (simp only: step n_def Let_def if_False)
    also have "\<dots> = Some (absorbed s' (drop n data))"
      using less n False by (intro less.hyps) (auto simp: s'_def absorbed_ok)
    finally show ?thesis by (simp add: s'_def flip: absorbed_append)
  qed
qed

lemma sha1_update_absorbs:
  "sha_ok s \<Longrightarrow> sha1_update s data = Some ((absorbed s data)\<lparr>sh_total := sh_total s + word_of_nat (length data)\<rparr>)"
  by (simp add: sha1_update_def sha1_loop_absorbs sha_ok_def absorbed_set_total)

lemma sha1_fill_absorbs:
  assumes "sha_ok s" and "(length (sh_block s) + k) mod 64 = 56" and "k < 64"
  shows "\<exists>n. sha1_fill s = Some ((absorbed s (replicate k 0))\<lparr>sh_total := n\<rparr>)"
  using assms
proof (induction k arbitrary: s)
  case 0
  then have "sha1_fill s = Some s" by (simp add: sha1_fill.simps sha_ok_def)
  then show ?case by (intro exI [of _ "sh_total s"]) simp
next
  case (Suc k)
  let ?s = "(absorbed s [0])\<lparr>sh_total := sh_total s + 1\<rparr>"
  have len: "length (sh_block (absorbed s [0])) = (length (sh_block s) + 1) mod 64" using Suc.prems by (simp add: absorbed_length)
  have "length (sh_block s) < 64" using Suc.prems(1) by (simp add: sha_ok_def)
  have "length (sh_block s) \<noteq> 56"
  proof
    assume "length (sh_block s) = 56"
    then have "(57 + k) mod 64 = 56" using Suc.prems(2) by simp
    with Suc.prems(3) show False by (cases "57 + k < 64") (auto simp: le_mod_geq)
  qed
  then have "sha1_fill s = sha1_fill ?s"
    by (subst sha1_fill.simps) (simp add: sha1_update_absorbs [OF Suc.prems(1)])
  moreover have "\<exists>n. sha1_fill ?s = Some ((absorbed ?s (replicate k 0))\<lparr>sh_total := n\<rparr>)"
  proof (intro Suc.IH)
    show "sha_ok ?s" using absorbed_ok [OF Suc.prems(1), of "[0]"] by (simp add: sha_ok_def)
    show "(length (sh_block ?s) + k) mod 64 = 56" using Suc.prems(2) by (simp add: len mod_add_left_eq)
  qed (use Suc.prems in simp)
  ultimately show ?case
    by (simp add: absorbed_set_total flip: absorbed_append)
qed

section \<open>Equivalence with the standard\<close>

text \<open>FIPS 180: padding to a multiple of 64 bytes, then the blocks in order.\<close>

definition fips_pad :: "bytes \<Rightarrow> bytes" where
  "fips_pad m = m @ [0x80] @ replicate ((119 - length m mod 64) mod 64) 0 @ be_bytes64 (word_of_nat (8 * length m))"

function blocks64 :: "bytes \<Rightarrow> bytes list" where
  "blocks64 m = (if m = [] then [] else take 64 m # blocks64 (drop 64 m))"
  by pat_completeness auto

termination blocks64
  by (relation "measure length") auto

declare blocks64.simps [simp del]

definition fips_sha1 :: "bytes \<Rightarrow> bytes" where
  "fips_sha1 m = sha1_out (foldl sha1_block (sh_h sha1_init) (blocks64 (fips_pad m)))"

lemma absorb1_blocks: "length m mod 64 = 0 \<Longrightarrow> foldl absorb1 (h, []) m = (foldl sha1_block h (blocks64 m), [])"
proof (induction m arbitrary: h rule: blocks64.induct)
  case (1 m)
  show ?case
  proof (cases "m = []")
    case False
    with 1(2) have len: "64 \<le> length m" by (metis mod_less length_greater_0_conv not_le less_not_refl)
    have "foldl absorb1 (h, []) m = foldl absorb1 (foldl absorb1 (h, []) (take 64 m)) (drop 64 m)"
      by (metis append_take_drop_id foldl_append)
    also have "foldl absorb1 (h, []) (take 64 m) = (sha1_block h (take 64 m), [])" using len absorb1_fills [of "[]" "take 64 m" h] by simp
    finally show ?thesis using False 1(2) len "1.IH" by (simp add: blocks64.simps [of m] le_mod_geq)
  qed (simp add: blocks64.simps)
qed

lemma length_be_bytes64 [simp]: "length (be_bytes64 w) = 8"
  by (simp add: be_bytes64_def)

lemma pad_length: "((n::nat) + (1 + ((119 - n mod 64) mod 64 + 8))) mod 64 = 0"
proof -
  have "(n mod 64 + (1 + ((119 - n mod 64) mod 64 + 8))) mod 64 = 0"
    using mod_less_divisor [of 64 n] by (cases "n mod 64 < 56") (auto simp: le_mod_geq)
  then show ?thesis by (metis mod_add_left_eq)
qed

lemma pad_to_56: "((n mod 64 + 1) mod 64 + (119 - n mod 64) mod 64) mod 64 = (56::nat)"
proof -
  have "(n mod 64 + 1 + (119 - n mod 64) mod 64) mod 64 = 56"
    using mod_less_divisor [of 64 n] by (cases "n mod 64 < 56") (auto simp: le_mod_geq)
  then show ?thesis by (metis mod_add_left_eq)
qed

lemma length_fips_pad: "length (fips_pad m) mod 64 = 0"
  using pad_length [of "length m"] by (simp add: fips_pad_def)

text \<open>C23: The hash computed in pieces always returns, and it is the hash the standard defines: the message is padded to whole blocks
  with the bit length at the end, and the blocks are compressed in order.\<close>

theorem sha1_is_fips: "sha1 data = Some (fips_sha1 data)"
proof -
  let ?i = "sha1_init" and ?z = "(119 - length data mod 64) mod 64"
  define s where "s = (absorbed ?i data)\<lparr>sh_total := word_of_nat (length data)\<rparr>"
  have ok: "sha_ok ?i" by (simp add: sha_ok_def sha1_init_def)
  have u: "sha1_update ?i data = Some s" using sha1_update_absorbs [OF ok, of data] by (simp add: s_def sha1_init_def)
  have oks: "sha_ok s" using absorbed_ok [OF ok, of data] by (simp add: s_def sha_ok_def)
  have lens: "length (sh_block s) = length data mod 64" using absorbed_length [OF ok, of data] by (simp add: s_def sha1_init_def)
  define s1 where "s1 = (absorbed s [0x80])\<lparr>sh_total := sh_total s + 1\<rparr>"
  have u1: "sha1_update s [0x80] = Some s1" using sha1_update_absorbs [OF oks, of "[0x80]"] by (simp add: s1_def)
  have ok1: "sha_ok s1" using absorbed_ok [OF oks, of "[0x80]"] by (simp add: s1_def sha_ok_def)
  have len1: "(length (sh_block s1) + ?z) mod 64 = 56"
    using absorbed_length [OF oks, of "[0x80]"] pad_to_56 [of "length data"] by (simp add: s1_def lens)
  from sha1_fill_absorbs [OF ok1 len1] obtain n
    where u2: "sha1_fill s1 = Some ((absorbed s1 (replicate ?z 0))\<lparr>sh_total := n\<rparr>)" by auto
  define s2 where "s2 = (absorbed s1 (replicate ?z 0))\<lparr>sh_total := n\<rparr>"
  have ok2: "sha_ok s2" using absorbed_ok [OF ok1, of "replicate ?z 0"] by (simp add: s2_def sha_ok_def)
  let ?l = "be_bytes64 (sh_total s * 8)"
  have "sha1 data = Some (sha1_out (sh_h (absorbed s2 ?l)))"
    using u u1 u2 sha1_update_absorbs [OF ok2, of ?l] by (simp add: sha1_def sha1_final_def s2_def)
  moreover have "sh_h (absorbed s2 ?l) = sh_h (absorbed ?i (data @ [0x80] @ replicate ?z 0 @ ?l))"
    by (simp add: s2_def s1_def s_def absorbed_set_total absorbed_append [symmetric])
  moreover have "sh_total s * 8 = word_of_nat (8 * length data)" by (simp add: s_def mult.commute)
  moreover have "sh_h (absorbed ?i (fips_pad data)) = foldl sha1_block (sh_h ?i) (blocks64 (fips_pad data))"
    by (simp add: absorbed_def Let_def sha1_init_def absorb1_blocks length_fips_pad)
  ultimately show ?thesis by (simp add: fips_sha1_def fips_pad_def)
qed


section \<open>Base64 read back\<close>

lemma b64_tab_enum:
  "list_all (\<lambda>(k, c). b64_val c = Some k \<and> c \<noteq> CHR ''='' \<and> c \<noteq> CHR 0x0A \<and> c \<noteq> CHR 0x0D) (enumerate 0 b64_tab)"
  by (simp add: b64_tab_def b64_val_def byte_def)

lemma b64_tab_val:
  assumes "k < 64"
  shows "b64_val (b64_tab ! k) = Some k \<and> b64_tab ! k \<noteq> CHR ''='' \<and> b64_tab ! k \<noteq> CHR 0x0A \<and> b64_tab ! k \<noteq> CHR 0x0D"
proof -
  have "length b64_tab = 64" by (simp add: b64_tab_def)
  with assms have "(k, b64_tab ! k) \<in> set (enumerate 0 b64_tab)" by (auto simp: in_set_enumerate_eq)
  with b64_tab_enum show ?thesis unfolding list_all_iff by blast
qed

definition sextet :: "32 word \<Rightarrow> nat \<Rightarrow> 32 word" where
  "sextet v n = drop_bit n v AND 63"

definition acc_step :: "32 word \<Rightarrow> 32 word \<Rightarrow> 32 word" where
  "acc_step acc s = push_bit 6 acc OR s"

definition acc_byte :: "nat \<Rightarrow> 32 word \<Rightarrow> 8 word" where
  "acc_byte n acc = ucast (drop_bit n acc AND 0xFF)"

lemma sextet_less: "unat (sextet v n) < 64"
  using and_mask_less' [of 6 "drop_bit n v"] by (simp add: sextet_def mask_eq_exp_minus_1 word_less_nat_alt)

lemma b64_loop_char:
  "b64_loop cap (b64_char v n # cs) acc bits out =
     (let acc' = acc_step acc (sextet v n) in
      if 8 \<le> bits + 6
      then if cap \<le> length out then None else b64_loop cap cs acc' (bits - 2) (out @ [acc_byte (bits - 2) acc'])
      else b64_loop cap cs acc' (bits + 6) out)"
proof -
  have ch: "b64_char v n = b64_tab ! unat (sextet v n)" by (simp add: b64_char_def sextet_def)
  have w: "word_of_nat (unat (sextet v n)) = sextet v n" by simp
  from b64_tab_val [OF sextet_less [of v n]] show ?thesis
    unfolding ch b64_loop.simps w Let_def acc_step_def acc_byte_def by simp
qed

lemma less_8_cases: "n < 8 \<Longrightarrow> n = 0 \<or> n = 1 \<or> n = 2 \<or> n = 3 \<or> n = 4 \<or> n = 5 \<or> n = 6 \<or> n = (7::nat)"
  by presburger

lemma sextet_bytes:
  "acc_byte 4 (acc_step (acc_step acc (sextet v 18)) (sextet v 12)) = ucast (drop_bit 16 v)"
  "acc_byte 2 (acc_step (acc_step acc (sextet v 12)) (sextet v 6)) = ucast (drop_bit 8 v)"
  "acc_byte 0 (acc_step (acc_step acc (sextet v 6)) (sextet v 0)) = ucast v"
  unfolding acc_byte_def acc_step_def sextet_def
  by - (rule bit_word_eqI, simp, drule less_8_cases, auto simp: bit_simps)+

definition group24 :: "8 word \<Rightarrow> 8 word \<Rightarrow> 8 word \<Rightarrow> 32 word" where
  "group24 a b c = push_bit 16 (ucast a) OR push_bit 8 (ucast b) OR ucast c"

lemma byte_of_group:
  "(ucast (drop_bit 16 (group24 a b c)) :: 8 word) = a"
  "(ucast (drop_bit 8 (group24 a b c)) :: 8 word) = b"
  "(ucast (group24 a b c) :: 8 word) = c"
  unfolding group24_def by - (rule bit_word_eqI, simp, drule less_8_cases, auto simp: bit_simps dest: bit_imp_le_length)+

lemma encode_groups:
  "base64_encode (a # b # c # ds) =
     b64_char (group24 a b c) 18 # b64_char (group24 a b c) 12 # b64_char (group24 a b c) 6 # b64_char (group24 a b c) 0 # base64_encode ds"
  "base64_encode [a] = [b64_char (group24 a 0 0) 18, b64_char (group24 a 0 0) 12, CHR ''='', CHR ''='']"
  "base64_encode [a, b] = [b64_char (group24 a b 0) 18, b64_char (group24 a b 0) 12, b64_char (group24 a b 0) 6, CHR ''='']"
  by (simp_all add: group24_def Let_def)

lemma b64_loop_pad: "b64_loop cap (CHR ''='' # cs) acc bits out = b64_loop cap cs acc bits out"
  by simp

lemma b64_loop_encode: "length out + length d \<le> cap \<Longrightarrow> b64_loop cap (base64_encode d) acc 0 out = Some (out @ d)"
proof (induction d arbitrary: acc out rule: base64_encode.induct)
  case (1 a b c ds)
  have IH: "length out + length ds \<le> cap \<Longrightarrow> b64_loop cap (base64_encode ds) acc 0 out = Some (out @ ds)" for acc out
    using "1.IH" by blast
  from "1.prems" show ?case by (simp only: encode_groups) (simp add: b64_loop_char sextet_bytes byte_of_group IH del: b64_loop.simps(2))
next
  case (2 a)
  then show ?case by (simp only: encode_groups) (simp add: b64_loop_char b64_loop_pad sextet_bytes byte_of_group del: b64_loop.simps(2))
next
  case (3 a b)
  then show ?case by (simp only: encode_groups) (simp add: b64_loop_char b64_loop_pad sextet_bytes byte_of_group del: b64_loop.simps(2))
qed simp

text \<open>Whatever bytes are encoded, decoding the text into a buffer that has room for them gives them back.\<close>

theorem base64_roundtrip: "length d \<le> cap \<Longrightarrow> base64_decode (base64_encode d) cap = Some d"
  by (simp add: base64_decode_def b64_loop_encode)


section \<open>Frames read back\<close>

text \<open>A frame as the protocol defines it; for short payloads it is what is built.\<close>

definition wire :: "bool \<Rightarrow> bytes \<Rightarrow> int \<Rightarrow> bytes \<Rightarrow> bytes" where
  "wire msk key opcode p = frame_header opcode msk (length p) @ (if msk then key @ mask_bytes key p else p)"

definition length_code :: "nat \<Rightarrow> nat" where
  "length_code n = (if n < 126 then n else if n < 65536 then 126 else 127)"

definition length_ext :: "nat \<Rightarrow> bytes" where
  "length_ext n = (if n < 126 then [] else if n < 65536 then [word_of_nat (n div 256), word_of_nat n] else be_bytes64 (word_of_nat n))"

lemma frame_header_eq:
  "frame_header op msk n =
     (0x80 OR (word_of_int op AND 0x0F)) # ((if msk then 0x80 else 0) OR word_of_nat (length_code n)) # length_ext n"
  by (simp add: frame_header_def length_code_def length_ext_def Let_def)

lemma length_ext_length: "length (length_ext n) = (if n < 126 then 0 else if n < 65536 then 2 else 8)"
  by (simp add: length_ext_def)

lemma length_code_less: "length_code n < 128"
  by (simp add: length_code_def)

lemma second_byte:
  assumes "n < 128"
  shows "((if msk then 0x80 else 0) OR word_of_nat n :: 8 word) AND 0x7F = word_of_nat n"
    and "bit ((if msk then 0x80 else 0) OR word_of_nat n :: 8 word) 7 = msk"
proof -
  have n7: "\<not> bit n 7" using assms by (simp add: bit_iff_odd)
  show "((if msk then 0x80 else 0) OR word_of_nat n :: 8 word) AND 0x7F = word_of_nat n"
    by (rule bit_word_eqI, simp, drule less_8_cases) (use n7 in \<open>auto simp: bit_simps\<close>)
  show "bit ((if msk then 0x80 else 0) OR word_of_nat n :: 8 word) 7 = msk" using n7 by (simp add: bit_simps)
qed

lemma first_byte:
  assumes "0 \<le> op" "op < 16"
  shows "unat ((0x80 OR (word_of_int op AND 0x0F) :: 8 word) AND 0x0F) = nat op"
    and "bit (0x80 OR (word_of_int op AND 0x0F) :: 8 word) 7"
proof -
  have "(0x80 OR (word_of_int op AND 0x0F) :: 8 word) AND 0x0F = word_of_int op AND mask 4"
    by (rule bit_word_eqI, simp, drule less_8_cases) (auto simp: bit_simps)
  also have "word_of_int op AND mask 4 = (word_of_int (op AND mask 4) :: 8 word)" by (simp add: of_int_and_eq of_int_mask_eq)
  also have "op AND mask 4 = op" using assms by (simp add: take_bit_int_eq_self_iff flip: take_bit_eq_mask)
  finally show "unat ((0x80 OR (word_of_int op AND 0x0F) :: 8 word) AND 0x0F) = nat op"
    using assms by (simp add: unat_eq_nat_uint uint_word_of_int)
  show "bit (0x80 OR (word_of_int op AND 0x0F) :: 8 word) 7" by (simp add: bit_simps)
qed

lemma length_mask_bytes [simp]: "length (mask_bytes key p) = length p"
  by (simp add: mask_bytes_def)

lemma mask_bytes_twice: "mask_bytes key (mask_bytes key p) = p"
  by (rule nth_equalityI) (simp_all add: mask_bytes_def nth_enumerate_eq ac_simps)

lemma be_length_snoc: "be_length (xs @ [b]) = push_bit 8 (be_length xs) OR ucast b"
  by (simp add: be_length_def)

lemma be_length_prefix: "k \<le> 8 \<Longrightarrow> be_length (map (\<lambda>i. ucast (drop_bit (56 - 8 * i) w)) [0..<k]) = drop_bit (64 - 8 * k) w"
proof (induction k)
  case 0
  show ?case
  proof (rule bit_word_eqI)
    fix n
    show "bit (be_length (map (\<lambda>i. ucast (drop_bit (56 - 8 * i) w)) [0..<0])) n = bit (drop_bit (64 - 8 * 0) w) n"
      using bit_imp_le_length [of w "64 + n"] by (auto simp: be_length_def bit_drop_bit_eq)
  qed
next
  case (Suc k)
  then have IH: "be_length (map (\<lambda>i. ucast (drop_bit (56 - 8 * i) w)) [0..<k]) = drop_bit (64 - 8 * k) w" by simp
  have e: "64 - 8 * Suc k = 56 - 8 * k" by simp
  have "push_bit 8 (drop_bit (64 - 8 * k) w) OR ucast (ucast (drop_bit (56 - 8 * k) w) :: 8 word) = drop_bit (56 - 8 * k) w"
  proof (rule bit_word_eqI)
    fix n assume n: "n < LENGTH(64)"
    show "bit (push_bit 8 (drop_bit (64 - 8 * k) w) OR ucast (ucast (drop_bit (56 - 8 * k) w) :: 8 word)) n = bit (drop_bit (56 - 8 * k) w) n"
    proof (cases "n < 8")
      case False
      with Suc.prems have "64 - 8 * k + (n - 8) = 56 - 8 * k + n" by simp
      with False n show ?thesis by (simp add: bit_or_iff bit_push_bit_iff bit_drop_bit_eq bit_ucast_iff)
    qed (use n in \<open>simp add: bit_or_iff bit_push_bit_iff bit_drop_bit_eq bit_ucast_iff\<close>)
  qed
  then show ?case unfolding e by (simp add: be_length_snoc IH)
qed

lemma be_length_bytes64: "be_length (be_bytes64 w) = w"
  using be_length_prefix [of 8 w] by (simp add: be_bytes64_def)

lemma be_length_two:
  assumes "n < 65536"
  shows "be_length [word_of_nat (n div 256), word_of_nat n] = (word_of_nat n :: 64 word)"
proof (rule bit_word_eqI)
  fix i assume "i < LENGTH(64)"
  have "\<not> bit n i" if "16 \<le> i"
  proof -
    have "(2::nat) ^ 16 \<le> 2 ^ i" using that by (rule power_increasing) simp
    with assms show ?thesis by (simp add: bit_iff_odd)
  qed
  moreover have "bit (n div 256) j = bit n (8 + j)" for j using bit_drop_bit_eq [of 8 n] drop_bit_eq_div [of 8 n] by (simp add: fun_eq_iff)
  ultimately show "bit (be_length [word_of_nat (n div 256), word_of_nat n]) i = bit (word_of_nat n :: 64 word) i"
    using \<open>i < LENGTH(64)\<close>
    by (cases "i < 8"; cases "i < 16") (auto simp: be_length_def bit_or_iff bit_push_bit_iff bit_ucast_iff bit_simps)
qed

lemma length_field_wire:
  assumes "n < 2 ^ 64"
  shows "length_field (b # ((if msk then 0x80 else 0) OR word_of_nat (length_code n)) # length_ext n @ tl') =
    Some (word_of_nat n, 2 + length (length_ext n))"
proof -
  have c: "((if msk then 0x80 else 0) OR word_of_nat (length_code n) :: 8 word) AND 0x7F = word_of_nat (length_code n)"
    by (rule second_byte) (rule length_code_less)
  have w: "(ucast (word_of_nat n :: 8 word) :: 64 word) = word_of_nat n" if "n < 126"
    using that by (intro word_unat_eq_iff [THEN iffD2]) (simp add: unsigned_ucast_eq unsigned_of_nat take_bit_nat_eq_self)
  have ne: "word_of_nat n \<noteq> (126 :: 8 word) \<and> word_of_nat n \<noteq> (127 :: 8 word)" if "n < 126"
    using that by (simp add: word_unat_eq_iff unsigned_of_nat take_bit_nat_eq_self)
  show ?thesis
    using c w ne be_length_two [of n] be_length_bytes64 [of "word_of_nat n"]
    by (auto simp: length_field_def length_code_def length_ext_def Let_def)
qed

text \<open>A frame with the first byte \<open>b\<close>. Followed by whatever, it is read back as its payload if that is shorter than \<open>2^63\<close>.\<close>

definition wire_b :: "8 word \<Rightarrow> bool \<Rightarrow> bytes \<Rightarrow> bytes \<Rightarrow> bytes" where
  "wire_b b msk key p = b # ((if msk then 0x80 else 0) OR word_of_nat (length_code (length p))) # length_ext (length p)
     @ (if msk then key @ mask_bytes key p else p)"

lemma wire_wire_b: "wire msk key op p = wire_b (0x80 OR (word_of_int op AND 0x0F)) msk key p"
  by (simp add: wire_def wire_b_def frame_header_eq)

lemma wire_b_field:
  "length p < 2 ^ 64 \<Longrightarrow> length_field (wire_b b msk key p @ rest) = Some (word_of_nat (length p), 2 + length (length_ext (length p)))"
  using length_field_wire [of "length p"] by (simp add: wire_b_def)

lemma length_wire_b:
  "length key = 4 \<Longrightarrow> length (wire_b b msk key p) = 2 + length (length_ext (length p)) + (if msk then 4 else 0) + length p"
  by (simp add: wire_b_def)

lemma wire_b_mask_bit: "bit ((wire_b b msk key p @ rest) ! 1) 7 = msk"
  unfolding wire_b_def by (simp add: second_byte(2) [OF length_code_less])

lemma parse_wire_b:
  assumes "length p < 2 ^ 63" "length key = 4"
  shows "ws_parse_frame (wire_b b msk key p @ rest) = Frame p (unat (b AND 0x0F)) (bit b 7)"
proof -
  define n where "n = length p"
  define body where "body = (if msk then key @ mask_bytes key p else p) @ rest"
  define buf where "buf = wire_b b msk key p @ rest"
  define off where "off = 2 + length (length_ext n)"
  define off' where "off' = off + (if msk then 4 else 0)"
  have lf: "length_field buf = Some (word_of_nat n, off)"
    unfolding buf_def off_def n_def using assms(1) by (intro wire_b_field) simp
  have off: "off' < 15" by (simp add: off_def off'_def length_ext_length)
  have u: "unat (word_of_nat n :: 64 word) = n" using assms(1) by (simp add: n_def unsigned_of_nat take_bit_nat_eq_self)
  have s: "unat (word_of_nat off' + word_of_nat n :: 64 word) = off' + n"
    using assms(1) off by (simp add: n_def unsigned_of_nat take_bit_nat_eq_self flip: of_nat_add)
  have b0: "buf ! 0 = b" by (simp add: buf_def wire_b_def)
  have b1: "bit (buf ! 1) 7 = msk" unfolding buf_def by (rule wire_b_mask_bit)
  have len: "length buf = off' + n + length rest" using assms(2) by (simp add: buf_def length_wire_b off_def off'_def n_def)
  have drop_off: "drop off buf = body" by (simp add: buf_def wire_b_def off_def body_def n_def)
  have pay: "drop off' buf = (if msk then mask_bytes key p else p) @ rest"
    using assms(2) by (simp add: buf_def wire_b_def off_def off'_def n_def)
  have key: "take 4 (drop off buf) = key" if msk using assms(2) that by (simp add: drop_off body_def)
  have eo: "(if msk then off + 4 else off) = off'" by (simp add: off'_def)
  have ln: "\<not> (msk \<and> length buf < off + 4)" "\<not> length buf < 2" "\<not> length buf < off' + n" by (auto simp: len off'_def off_def)
  have "ws_parse_frame buf =
    Frame (if msk then mask_bytes key (take n (drop off' buf)) else take n (drop off' buf)) (unat (b AND 0x0F)) (bit b 7)"
    unfolding ws_parse_frame_def lf Let_def option.case prod.case b0 b1 eo u s using ln key by simp
  moreover have "take n (drop off' buf) = (if msk then mask_bytes key p else p)" by (simp add: pay n_def)
  ultimately have "ws_parse_frame buf = Frame p (unat (b AND 0x0F)) (bit b 7)" by (simp add: mask_bytes_twice)
  then show ?thesis by (simp only: buf_def)
qed

lemma parse_wire:
  assumes "length p < 2 ^ 63" "0 \<le> op" "op < 16" "length key = 4"
  shows "ws_parse_frame (wire msk key op p @ rest) = Frame p (nat op) True"
  using assms by (simp add: wire_wire_b parse_wire_b first_byte)

lemma length_mask_key [simp]: "length (mask_key seed) = 4"
  by (simp add: mask_key_def)

lemma length_wire: "length key = 4 \<Longrightarrow> length (wire msk key op p) = 2 + length (length_ext (length p)) + (if msk then 4 else 0) + length p"
  by (simp add: wire_def frame_header_eq)

text \<open>What is built is the frame and, for a long payload, two bytes of the allocated memory behind it.\<close>

lemma build_frame_wire:
  "ws_build_frame junk True seed op p msk =
     Some (wire msk (mask_key seed) op p @
       (if length p < 65536 then []
        else (let n = length (wire msk (mask_key seed) op p) in [junk n, junk (n + 1)])))"
proof -
  let ?n = "length (wire msk (mask_key seed) op p)"
  have n: "?n = 2 + length (length_ext (length p)) + (if msk then 4 else 0) + length p" by (rule length_wire) simp
  have h: "header_size msk (length p) + length p = (if length p < 65536 then ?n else ?n + 2)"
    unfolding n by (simp add: header_size_def length_ext_length)
  have "frame_header op msk (length p) @ (if msk then mask_key seed @ mask_bytes (mask_key seed) p else p) = wire msk (mask_key seed) op p"
    by (simp add: wire_def)
  then show ?thesis unfolding ws_build_frame_def Let_def h by (auto simp: upt_rec)
qed

text \<open>C24: A frame built for a payload of less than 64 KiB, masked or not and whatever follows it, is read back as
  exactly that payload with its opcode and the final flag.\<close>

theorem ws_frame_roundtrip:
  assumes "length p < 65536" "0 \<le> op" "op < 16"
  shows "\<exists>f. ws_build_frame junk True seed op p msk = Some f \<and> ws_parse_frame (f @ rest) = Frame p (nat op) True"
  using assms by (simp add: build_frame_wire parse_wire)

theorem ws_frame_roundtrip_witness:
  "\<exists>f. ws_build_frame (\<lambda>_. 0) True 7 1 (bytes_of ''hi'') True = Some f \<and> ws_parse_frame (f @ [0xFF]) = Frame (bytes_of ''hi'') 1 True"
proof -
  have "length (bytes_of ''hi'') < 65536" by (simp add: bytes_of_def)
  from ws_frame_roundtrip [OF this, of 1 "\<lambda>_. 0" 7 True "[0xFF]"] show ?thesis by simp
qed

text \<open>C25: For a payload of 64 KiB or more the header is counted two bytes too long: the bytes handed to the socket are
  the frame and two bytes of uninitialised memory, which the peer reads as the start of the next frame.\<close>

theorem ws_long_frame_junk:
  assumes "65536 \<le> length p"
  shows "ws_build_frame junk True seed op p False =
    Some (wire False [] op p @ [junk (length p + 10), junk (length p + 11)])"
proof -
  have "wire False (mask_key seed) op p = wire False [] op p" by (simp add: wire_def)
  moreover have "length (wire False [] op p) = length p + 10" using assms by (simp add: wire_def frame_header_eq length_ext_length)
  ultimately show ?thesis using assms by (simp add: build_frame_wire add.commute)
qed

theorem ws_long_frame_junk_witness:
  "ws_build_frame (\<lambda>i. of_nat i) True 0 1 (replicate 65536 0x41) False =
    Some (wire False [] 1 (replicate 65536 0x41) @ [10, 11])"
  using ws_long_frame_junk [of "replicate 65536 0x41" "\<lambda>i. of_nat i" 0 1] by simp

text \<open>The parser alone does not bound the length field: with \<open>2^64 - 8\<close> in it the sum wraps, and bytes past the buffer are read.\<close>

lemma parse_overrun:
  "ws_parse_frame ([0x82, 0xFF] @ be_bytes64 (- 8) @ [1, 2, 3, 4]) = Overrun"
  using be_length_bytes64 [of "- 8"] by (simp add: ws_parse_frame_def length_field_def Let_def bit_simps)

theorem base64_roundtrip_witness: "base64_decode (base64_encode [1, 2, 255, 0]) 4 = Some [1, 2, 255, 0]"
  using base64_roundtrip [of "[1, 2, 255, 0]" 4] by simp

end
