(* ===== verification/WsServer.thy ===== *)
theory WsServer
  imports WsCodec Fs
begin

text \<open>
  The websocket server, \<open>src/backend/src/api/ws_server.c\<close>: the turns of a client's reader thread, the frames it dispatches, and the
  table of clients with its handshake and broadcast. The thread's read buffer is part of its state; what the socket, the allocator and
  the message handler do is read from an environment.
\<close>

unbundle bit_operations_syntax

section \<open>Clients\<close>

definition MAX_WS_PAYLOAD :: nat where
  "MAX_WS_PAYLOAD = 1024 * 1024"

definition chars_of :: "bytes \<Rightarrow> cstr" where
  "chars_of p = map (\<lambda>b. char_of (unat b)) p"

text \<open>\<open>wc_wire\<close>: the bytes the socket took; \<open>wc_got\<close>: the texts the handler was called with; \<open>wc_sock_closes\<close>: how often the socket was
  closed and freed.\<close>

record ws_client =
  wc_id :: int
  wc_queue :: strbuf
  wc_fragment :: strbuf
  wc_frag_op :: nat
  wc_closed :: bool
  wc_wire :: bytes
  wc_got :: "cstr list"
  wc_sock_closes :: nat

definition ws_client_new :: "int \<Rightarrow> ws_client" where
  "ws_client_new i = \<lparr>wc_id = i, wc_queue = strbuf_init, wc_fragment = strbuf_init, wc_frag_op = 0, wc_closed = False,
     wc_wire = [], wc_got = [], wc_sock_closes = 0\<rparr>"

text \<open>\<open>we_mem c n\<close>: the allocation of \<open>n\<close> bytes succeeds; \<open>we_send c f\<close>: how many bytes of \<open>f\<close> the socket takes; \<open>we_handler\<close>: a
  message handler is set.\<close>

record ws_env =
  we_mem :: "ws_client \<Rightarrow> nat \<Rightarrow> bool"
  we_junk :: "nat \<Rightarrow> 8 word"
  we_send :: "ws_client \<Rightarrow> bytes \<Rightarrow> nat"
  we_handler :: bool

definition ws_send_frame :: "ws_env \<Rightarrow> ws_client \<Rightarrow> int \<Rightarrow> bytes \<Rightarrow> ws_client" where
  "ws_send_frame e c opcode p =
     (if wc_closed c then c
      else case ws_build_frame (we_junk e) (we_mem e c (header_size False (length p) + length p)) 0 opcode p False of
             None \<Rightarrow> c
           | Some f \<Rightarrow>
               let n = we_send e c f; c1 = c\<lparr>wc_wire := wc_wire c @ take n f\<rparr> in
               if n \<noteq> length f then c1\<lparr>wc_closed := True\<rparr> else c1)"

text \<open>The queued texts that are complete, and what stays.\<close>

definition queue_keep :: "cstr \<Rightarrow> nat" where
  "queue_keep q = length q - length (takeWhile (\<lambda>c. c \<noteq> CHR 0x0A) (rev q))"

fun queue_lines :: "cstr \<Rightarrow> cstr \<Rightarrow> cstr list" where
  "queue_lines cur [] = []"
| "queue_lines cur (c # cs) = (if c = CHR 0x0A then cur # queue_lines [] cs else queue_lines (cur @ [c]) cs)"

definition ws_client_flush :: "ws_env \<Rightarrow> ws_client \<Rightarrow> ws_client" where
  "ws_client_flush e c =
     (let q = sb_buf (wc_queue c); keep = queue_keep q in
      if q = [] \<or> keep = 0 \<or> \<not> we_mem e c keep then c
      else fold (\<lambda>l c. ws_send_frame e c 1 (bytes_of l)) (queue_lines [] (take keep q))
             (c\<lparr>wc_queue := (wc_queue c)\<lparr>sb_buf := drop keep q\<rparr>\<rparr>))"

section \<open>Receiving\<close>

text \<open>The size of the frame at the start of the buffer: 0 when it is incomplete, \<open>SIZE_MAX\<close> when it is too long.\<close>

definition ws_frame_len :: "bytes \<Rightarrow> nat" where
  "ws_frame_len b =
     (if length b < 2 then 0
      else case length_field b of
             None \<Rightarrow> 0
           | Some (plen, off) \<Rightarrow>
               if MAX_WS_PAYLOAD < unat plen \<or> SIZE_MAX - off - 4 < unat plen then SIZE_MAX
               else let off' = (if bit (b ! 1) 7 then off + 4 else off) in
                    if length b < off' + unat plen then 0 else off' + unat plen)"

text \<open>One frame. The outer \<open>None\<close> would be an append that never returns; a first fragment is appended without a check.\<close>

definition frag_append :: "ws_env \<Rightarrow> ws_client \<Rightarrow> bytes \<Rightarrow> strbuf option" where
  "frag_append e c p = strbuf_append_n (we_mem e c (length p)) (wc_fragment c) (Some (chars_of p)) (length p)"

definition on_text :: "ws_env \<Rightarrow> ws_client \<Rightarrow> bool \<Rightarrow> bytes \<Rightarrow> ws_client option" where
  "on_text e c fin p =
     (if fin \<and> wc_frag_op c = 0 \<and> we_handler e then Some (c\<lparr>wc_got := wc_got c @ [c_string (chars_of p)]\<rparr>)
      else if \<not> fin \<and> wc_frag_op c = 0 then map_option (\<lambda>f. c\<lparr>wc_frag_op := 1, wc_fragment := f\<rparr>) (frag_append e c p)
      else Some (c\<lparr>wc_closed := True\<rparr>))"

definition on_continuation :: "ws_env \<Rightarrow> ws_client \<Rightarrow> bool \<Rightarrow> bytes \<Rightarrow> ws_client option" where
  "on_continuation e c fin p =
     (let before = length (sb_buf (wc_fragment c)) in
      if wc_frag_op c = 0 then Some (c\<lparr>wc_closed := True\<rparr>)
      else if before \<le> MAX_WS_PAYLOAD \<and> MAX_WS_PAYLOAD - before < length p then Some (c\<lparr>wc_closed := True\<rparr>)
      else Option.bind (frag_append e c p) (\<lambda>f.
        let c1 = c\<lparr>wc_fragment := f\<rparr> in
        Some (if length (sb_buf f) \<noteq> before + length p then c1\<lparr>wc_closed := True\<rparr>
              else if fin
              then c1\<lparr>wc_got := wc_got c @ (if we_handler e then [c_string (sb_buf f)] else []), wc_fragment := strbuf_init, wc_frag_op := 0\<rparr>
              else c1)))"

definition ws_dispatch :: "ws_env \<Rightarrow> ws_client \<Rightarrow> nat \<Rightarrow> bool \<Rightarrow> bytes \<Rightarrow> ws_client option" where
  "ws_dispatch e c opcode fin p =
     (if opcode = 1 then on_text e c fin p
      else if opcode = 0 then on_continuation e c fin p
      else if opcode = 9 then Some (if \<not> fin \<or> 125 < length p then c\<lparr>wc_closed := True\<rparr> else ws_send_frame e c 10 p)
      else if opcode = 8 then Some ((if fin \<and> length p \<le> 125 then ws_send_frame e c 8 p else c)\<lparr>wc_closed := True\<rparr>)
      else Some (c\<lparr>wc_closed := True\<rparr>))"

text \<open>The frames of the read buffer. \<open>None\<close> is a read beyond the buffer or an append that never returns.\<close>

function ws_frames :: "ws_env \<Rightarrow> ws_client \<Rightarrow> bytes \<Rightarrow> (ws_client \<times> bytes) option" where
  "ws_frames e c b =
     (if b = [] then Some (c, b)
      else let total = ws_frame_len b in
           if total = SIZE_MAX then Some (c\<lparr>wc_closed := True\<rparr>, b)
           else if total = 0 then Some (c, b)
           else case ws_parse_frame (take total b) of
                  Overrun \<Rightarrow> None
                | Malformed \<Rightarrow> Some (c\<lparr>wc_closed := True\<rparr>, b)
                | Frame p opcode fin \<Rightarrow>
                    if \<not> we_mem e c (length p + 1) then Some (c\<lparr>wc_closed := True\<rparr>, b)
                    else Option.bind (ws_dispatch e c opcode fin p) (\<lambda>c'.
                      if wc_closed c' then Some (c', drop total b) else ws_frames e c' (drop total b)))"
  by pat_completeness auto

termination ws_frames
  by (relation "measure (\<lambda>(e, c, b). length b)") auto

declare ws_frames.simps [simp del]

text \<open>The reader thread: its client and its buffer.\<close>

record ws_reader =
  rd_client :: ws_client
  rd_buf :: bytes
  rd_cap :: nat

datatype ws_read = Broken | Quiet | Data bytes

text \<open>The doubling of the capacity, from a positive one.\<close>

function double_cap :: "nat \<Rightarrow> nat \<Rightarrow> nat" where
  "double_cap cap need = (if 0 < cap \<and> cap < need then double_cap (cap * 2) need else cap)"
  by pat_completeness auto

termination double_cap
  by (relation "measure (\<lambda>(cap, need). need - cap)") auto

declare double_cap.simps [simp del]

definition ws_receive :: "ws_env \<Rightarrow> ws_reader \<Rightarrow> bytes \<Rightarrow> (bool \<times> ws_reader) option" where
  "ws_receive e r d =
     (let c = rd_client r; need = length (rd_buf r) + length d;
          cap = (if rd_cap r < need then double_cap (if rd_cap r = 0 then 8192 else rd_cap r) need else rd_cap r) in
      if MAX_WS_PAYLOAD + 14 < need \<or> rd_cap r < need \<and> \<not> we_mem e c cap
      then Some (False, r\<lparr>rd_client := c\<lparr>wc_closed := True\<rparr>\<rparr>)
      else map_option (\<lambda>(c', b). (True, \<lparr>rd_client = c', rd_buf = b, rd_cap = cap\<rparr>)) (ws_frames e c (rd_buf r @ d)))"

text \<open>One round of the loop; \<open>False\<close>: it ends.\<close>

definition ws_turn :: "ws_env \<Rightarrow> ws_reader \<Rightarrow> ws_read \<Rightarrow> (bool \<times> ws_reader) option" where
  "ws_turn e r rd =
     (if wc_closed (rd_client r) then Some (False, r)
      else let r1 = r\<lparr>rd_client := ws_client_flush e (rd_client r)\<rparr> in
           if wc_closed (rd_client r1) then Some (False, r1)
           else case rd of Broken \<Rightarrow> Some (False, r1) | Quiet \<Rightarrow> Some (True, r1) | Data d \<Rightarrow> ws_receive e r1 d)"

fun ws_turns :: "ws_env \<Rightarrow> ws_reader \<Rightarrow> ws_read list \<Rightarrow> (bool \<times> ws_reader) option" where
  "ws_turns e r [] = Some (True, r)"
| "ws_turns e r (rd # rds) = Option.bind (ws_turn e r rd) (\<lambda>(go, r'). if go then ws_turns e r' rds else Some (False, r'))"

section \<open>The server\<close>

text \<open>The readers of the registered clients, in the order of the array.\<close>

record ws_server =
  ss_readers :: "ws_reader vec"
  ss_next_id :: int
  ss_handler :: bool

definition ws_server_new :: "bool \<Rightarrow> ws_server option" where
  "ws_server_new ok = (if ok then Some \<lparr>ss_readers = vec_new, ss_next_id = 0, ss_handler = False\<rparr> else None)"

definition ws_server_on_message :: "ws_server option \<Rightarrow> bool \<Rightarrow> ws_server option" where
  "ws_server_on_message s fn = map_option (\<lambda>s. s\<lparr>ss_handler := fn\<rparr>) s"

definition ws_server_remove :: "ws_server \<Rightarrow> ws_client \<Rightarrow> ws_server" where
  "ws_server_remove s c =
     (case find_index (\<lambda>r. wc_id (rd_client r) = wc_id c) (elems (ss_readers s)) of
        None \<Rightarrow> s
      | Some i \<Rightarrow> s\<lparr>ss_readers := (ss_readers s)\<lparr>elems := remove_at i (elems (ss_readers s))\<rparr>\<rparr>)"

text \<open>The end of the reader thread: the socket is closed and freed, the client leaves the table.\<close>

definition ws_client_end :: "ws_server \<Rightarrow> ws_reader \<Rightarrow> ws_server \<times> ws_reader" where
  "ws_client_end s r =
     (let c = (rd_client r)\<lparr>wc_sock_closes := wc_sock_closes (rd_client r) + 1\<rparr>
      in (ws_server_remove s c, r\<lparr>rd_client := c\<rparr>))"

definition crlf :: cstr where
  "crlf = [CHR 0x0D, CHR 0x0A]"

definition handshake :: "cstr \<Rightarrow> cstr" where
  "handshake key = ''HTTP/1.1 101 Switching Protocols'' @ crlf @ ''Upgrade: websocket'' @ crlf @ ''Connection: Upgrade'' @ crlf
     @ ''Sec-WebSocket-Accept: '' @ key @ crlf @ crlf"

text \<open>\<open>sent\<close>: the bytes the socket takes of the response; \<open>ok64\<close>, \<open>ok\<close>, \<open>grow\<close>: the allocations of the key, the client and the array succeed;
  \<open>started\<close>: the thread. The result has the response and whether the socket was closed.\<close>

definition ws_server_accept :: "ws_server \<Rightarrow> cstr option \<Rightarrow> nat \<Rightarrow> bool \<Rightarrow> bool \<Rightarrow> bool \<Rightarrow> bool \<Rightarrow> int \<times> ws_server \<times> cstr \<times> bool" where
  "ws_server_accept s key sent ok64 ok grow started =
     (case key of
        None \<Rightarrow> (-1, s, [], False)
      | Some k \<Rightarrow>
          let resp = cbuf 512 (handshake (ws_accept_key ok64 (Some k))) in
          if sent \<noteq> length resp \<or> \<not> ok then (-1, s, take sent resp, True)
          else let c = ws_client_new (ss_next_id s); r = \<lparr>rd_client = c, rd_buf = [], rd_cap = 0\<rparr> in
               case vec_push 8 grow r (ss_readers s) of
                 None \<Rightarrow> (-1, s, resp, True)
               | Some v \<Rightarrow>
                   let s1 = s\<lparr>ss_readers := v, ss_next_id := ss_next_id s + 1\<rparr> in
                   if started then (0, s1, resp, False) else (-1, ws_server_remove s1 c, resp, True))"

text \<open>\<open>ok c\<close>: the client's queue can be enlarged.\<close>

definition queue_text :: "(ws_client \<Rightarrow> bool) \<Rightarrow> cstr \<Rightarrow> ws_client \<Rightarrow> ws_client" where
  "queue_text ok t c =
     (if wc_closed c then c
      else let q = wc_queue c; need = length (sb_buf q) + length t + 2;
               q1 = (if sb_cap q < need \<and> ok c then q\<lparr>sb_cap := need * 2\<rparr> else q) in
           c\<lparr>wc_queue := (if need \<le> sb_cap q1 then q1\<lparr>sb_buf := sb_buf q1 @ t @ [CHR 0x0A]\<rparr> else q1)\<rparr>)"

definition ws_server_broadcast :: "(ws_client \<Rightarrow> bool) \<Rightarrow> ws_server \<Rightarrow> cstr option \<Rightarrow> ws_server" where
  "ws_server_broadcast ok s json_text =
     (case json_text of
        None \<Rightarrow> s
      | Some t \<Rightarrow> s\<lparr>ss_readers := (ss_readers s)\<lparr>elems :=
          map (\<lambda>r. r\<lparr>rd_client := queue_text ok t (rd_client r)\<rparr>) (elems (ss_readers s))\<rparr>\<rparr>)"

text \<open>The readers that are left to themselves when the server is freed.\<close>

definition ws_server_free :: "ws_server \<Rightarrow> ws_reader list" where
  "ws_server_free s =
     map (\<lambda>r. r\<lparr>rd_client := (rd_client r)\<lparr>wc_closed := True, wc_sock_closes := wc_sock_closes (rd_client r) + 1\<rparr>\<rparr>)
       (elems (ss_readers s))"

section \<open>Every buffer stays within its bounds\<close>

definition client_ok :: "ws_client \<Rightarrow> bool" where
  "client_ok c \<longleftrightarrow> sb_ok (wc_fragment c) \<and> length (sb_buf (wc_fragment c)) \<le> MAX_WS_PAYLOAD \<and> wc_frag_op c \<le> 1
     \<and> (wc_frag_op c = 0 \<longrightarrow> sb_buf (wc_fragment c) = [])"


lemma sb_ok_init: "sb_ok strbuf_init" "sb_buf strbuf_init = []"
  by (simp_all add: sb_ok_def strbuf_init_def)

lemma client_ok_new [simp]: "client_ok (ws_client_new i)"
  by (simp add: client_ok_def ws_client_new_def sb_ok_def strbuf_init_def)

lemma client_ok_upd [simp]:
  "client_ok (c\<lparr>wc_closed := b\<rparr>) = client_ok c" "client_ok (c\<lparr>wc_queue := q\<rparr>) = client_ok c"
  "client_ok (c\<lparr>wc_wire := w\<rparr>) = client_ok c" "client_ok (c\<lparr>wc_got := g\<rparr>) = client_ok c"
  by (simp_all add: client_ok_def)

lemma send_frame_ok [simp]: "client_ok (ws_send_frame e c op p) = client_ok c"
  by (auto simp: ws_send_frame_def Let_def split: option.splits)

lemma flush_ok [simp]: "client_ok (ws_client_flush e c) = client_ok c"
proof -
  have "client_ok (fold (\<lambda>l c. ws_send_frame e c 1 (bytes_of l)) ls c') = client_ok c'" for ls c'
    by (induction ls arbitrary: c') simp_all
  then show ?thesis by (simp add: ws_client_flush_def Let_def)
qed

lemma frag_append_returns:
  assumes "client_ok c" "length p \<le> MAX_WS_PAYLOAD"
  shows "\<exists>f. frag_append e c p = Some f \<and> sb_ok f \<and>
    (sb_buf f = sb_buf (wc_fragment c) \<and> \<not> we_mem e c (length p) \<or> sb_buf f = sb_buf (wc_fragment c) @ chars_of p)"
proof -
  let ?sb = "wc_fragment c" and ?ok = "we_mem e c (length p)"
  have sb: "sb_ok ?sb" and len: "length (sb_buf ?sb) + length p + 1 \<le> SIZE_MAX"
    using assms by (auto simp: client_ok_def MAX_WS_PAYLOAD_def SIZE_MAX_def)
  from strbuf_grow_returns [OF sb len]
  obtain g sb' where g: "strbuf_grow ?ok ?sb (length (sb_buf ?sb) + length p + 1) = Some (g, sb')" "sb_buf sb' = sb_buf ?sb"
    "sb_cap sb' \<le> SIZE_MAX" "?ok \<longrightarrow> g" "if g then length (sb_buf ?sb) + length p + 1 \<le> sb_cap sb' else sb' = ?sb" by blast
  with sb len show ?thesis by (auto simp: frag_append_def strbuf_append_n_def sb_ok_def chars_of_def split: if_splits)
qed

lemma length_chars_of [simp]: "length (chars_of p) = length p"
  by (simp add: chars_of_def)








section \<open>Messages arrive whole\<close>

text \<open>What a client sends: per frame the first byte, the mask key and the payload. A message is cut into fragments, the first with the text
  opcode, the others with opcode 0, the last with the final flag.\<close>

type_synonym frame = "8 word \<times> bytes \<times> bytes"

fun msg_frames :: "8 word \<Rightarrow> (bytes \<times> bytes) list \<Rightarrow> frame list" where
  "msg_frames op [] = []"
| "msg_frames op [(k, p)] = [(0x80 OR op, k, p)]"
| "msg_frames op ((k, p) # q # qs) = (op, k, p) # msg_frames 0 (q # qs)"

fun frame_bytes :: "frame \<Rightarrow> bytes" where
  "frame_bytes (b, k, p) = wire_b b True k p"

definition client_bytes :: "frame list \<Rightarrow> bytes" where
  "client_bytes fs = concat (map frame_bytes fs)"

fun frame_fits :: "frame \<Rightarrow> bool" where
  "frame_fits (b, k, p) \<longleftrightarrow> length k = 4 \<and> length p \<le> MAX_WS_PAYLOAD"

lemma length_field_take:
  assumes "length_field b = Some (plen, off)" "2 \<le> n" "n \<le> length b"
  shows "length_field (take n b) = (if n < off then None else Some (plen, off))"
  using assms by (auto simp: length_field_def Let_def min_def take_drop split: if_splits)

lemma wire_field:
  assumes "length p \<le> MAX_WS_PAYLOAD"
  shows "length_field (wire_b b True k p @ rest) = Some (word_of_nat (length p), 2 + length (length_ext (length p)))"
    and "unat (word_of_nat (length p) :: 64 word) = length p"
proof -
  have "length p < 2 ^ 64" using assms by (simp add: MAX_WS_PAYLOAD_def)
  from wire_b_field [OF this] show "length_field (wire_b b True k p @ rest) = Some (word_of_nat (length p), 2 + length (length_ext (length p)))" .
  show "unat (word_of_nat (length p) :: 64 word) = length p"
    using assms by (simp add: MAX_WS_PAYLOAD_def unsigned_of_nat take_bit_nat_eq_self)
qed

lemma frame_len_wire:
  assumes "length p \<le> MAX_WS_PAYLOAD" "length k = 4"
  shows "ws_frame_len (wire_b b True k p @ rest) = length (wire_b b True k p)"
  using assms wire_field [OF assms(1)] wire_b_mask_bit [of b True k p rest] length_ext_length [of "length p"]
  by (auto simp: ws_frame_len_def length_wire_b MAX_WS_PAYLOAD_def SIZE_MAX_def)

lemma frame_len_prefix:
  assumes "length p \<le> MAX_WS_PAYLOAD" "length k = 4" "x @ y = wire_b b True k p @ rest" "length x < length (wire_b b True k p)"
  shows "ws_frame_len x = 0"
proof (cases "length x < 2")
  case False
  let ?w = "wire_b b True k p @ rest"
  have x: "x = take (length x) ?w" by (metis append_eq_conv_conj assms(3))
  have le: "length x \<le> length ?w" using assms(4) by simp
  have lf: "length_field x = (if length x < 2 + length (length_ext (length p)) then None
      else Some (word_of_nat (length p), 2 + length (length_ext (length p))))"
    using length_field_take [OF wire_field(1) [OF assms(1)] _ le] False x by (metis linorder_not_less)
  have b1: "bit (x ! 1) 7" using wire_b_mask_bit [of b True k p rest] False x by (metis lessI less_le_trans linorder_not_less nth_take numeral_2_eq_2 One_nat_def)
  show ?thesis
    using lf b1 wire_field(2) [OF assms(1)] assms length_ext_length [of "length p"] False
    by (auto simp: ws_frame_len_def length_wire_b MAX_WS_PAYLOAD_def SIZE_MAX_def)
qed (simp add: ws_frame_len_def)

text \<open>The frames dispatched one after the other, none of which closes the connection.\<close>

fun runs :: "ws_env \<Rightarrow> ws_client \<Rightarrow> frame list \<Rightarrow> ws_client option" where
  "runs e c [] = Some c"
| "runs e c ((b, k, p) # fs) =
     (case ws_dispatch e c (unat (b AND 0x0F)) (bit b 7) p of None \<Rightarrow> None | Some c' \<Rightarrow> if wc_closed c' then None else runs e c' fs)"

lemma frames_prefix:
  assumes "\<And>c n. we_mem e c n" "list_all frame_fits fs" "b @ x = client_bytes fs" "runs e c fs = Some cz" "\<not> wc_closed c"
  shows "\<exists>fs2 c' r. ws_frames e c b = Some (c', r) \<and> runs e c' fs2 = Some cz \<and> \<not> wc_closed c' \<and> set fs2 \<subseteq> set fs \<and>
    r @ x = client_bytes fs2 \<and> (if fs2 = [] then r = [] else length r < length (frame_bytes (hd fs2)))"
  using assms(2-5)
proof (induction fs arbitrary: b c)
  case Nil
  then show ?case by (intro exI [of _ "[]"]) (auto simp: client_bytes_def ws_frames.simps)
next
  case (Cons f fs)
  obtain b0 k p where f: "f = (b0, k, p)" by (cases f)
  let ?w = "wire_b b0 True k p"
  have kp: "length p \<le> MAX_WS_PAYLOAD" "length k = 4" using Cons.prems(1) by (simp_all add: f)
  have bx: "b @ x = ?w @ client_bytes fs" using Cons.prems(2) by (simp add: f client_bytes_def)
  show ?case
  proof (cases "length b < length ?w")
    case True
    from frame_len_prefix [OF kp bx True] have "ws_frames e c b = Some (c, b)" by (simp add: ws_frames.simps SIZE_MAX_def)
    with True Cons.prems show ?thesis by (intro exI [of _ "f # fs"]) (auto simp: f)
  next
    case False
    define b' where "b' = drop (length ?w) b"
    have "take (length ?w) b = take (length ?w) (b @ x)" using False by simp
    also have "\<dots> = ?w" unfolding bx by simp
    finally have be: "b = ?w @ b'" unfolding b'_def by (metis append_take_drop_id)
    with bx have b': "b = ?w @ b'" "b' @ x = client_bytes fs" by simp_all
    from Cons.prems(3) obtain c1 where c1: "ws_dispatch e c (unat (b0 AND 0x0F)) (bit b0 7) p = Some c1" "\<not> wc_closed c1" "runs e c1 fs = Some cz"
      by (auto simp: f split: option.splits if_splits)
    have fl: "ws_frame_len b = length ?w" unfolding b' by (rule frame_len_wire [OF kp])
    have "0 < length ?w" "length ?w < SIZE_MAX"
      using kp length_ext_length [of "length p"] by (auto simp: length_wire_b SIZE_MAX_def MAX_WS_PAYLOAD_def)
    then have "length ?w \<noteq> 0" "length ?w \<noteq> SIZE_MAX" "b \<noteq> []" by (auto simp: b')
    moreover have "ws_parse_frame (take (length ?w) b) = Frame p (unat (b0 AND 0x0F)) (bit b0 7)"
      using parse_wire_b [of p k b0 True "[]"] kp by (simp add: b' MAX_WS_PAYLOAD_def)
    ultimately have "ws_frames e c b = ws_frames e c1 b'"
      using fl c1 assms(1) by (subst ws_frames.simps) (simp add: b')
    moreover from Cons.IH [OF _ b'(2) c1(3,2)] Cons.prems(1) obtain fs2 c' r where
      "ws_frames e c1 b' = Some (c', r)" "runs e c' fs2 = Some cz" "\<not> wc_closed c'" "set fs2 \<subseteq> set fs" "r @ x = client_bytes fs2"
      "if fs2 = [] then r = [] else length r < length (frame_bytes (hd fs2))" by auto
    ultimately show ?thesis by (intro exI [of _ fs2] exI [of _ c'] exI [of _ r]) auto
  qed
qed


lemma dispatch_queue: "ws_dispatch e c op fin p = Some c' \<Longrightarrow> wc_queue c' = wc_queue c"
  by (auto simp: ws_dispatch_def on_text_def on_continuation_def ws_send_frame_def Let_def bind_eq_Some_conv
      split: if_splits option.splits)

lemma frames_queue: "ws_frames e c b = Some (c', r) \<Longrightarrow> wc_queue c' = wc_queue c"
proof (induction "length b" arbitrary: c b rule: less_induct)
  case less
  have "wc_queue c' = wc_queue c \<or> (\<exists>p op fin c1. b \<noteq> [] \<and> ws_frame_len b \<noteq> 0 \<and> ws_dispatch e c op fin p = Some c1 \<and>
      ws_frames e c1 (drop (ws_frame_len b) b) = Some (c', r))"
    using less.prems dispatch_queue by (subst (asm) ws_frames.simps) (fastforce simp: Let_def bind_eq_Some_conv split: if_splits parsed.splits)
  then show ?case
  proof (elim disjE exE conjE)
    fix p op fin c1
    assume h: "b \<noteq> []" "ws_frame_len b \<noteq> 0" "ws_dispatch e c op fin p = Some c1" "ws_frames e c1 (drop (ws_frame_len b) b) = Some (c', r)"
    from h have "length (drop (ws_frame_len b) b) < length b" by simp
    from less.hyps [OF this h(4)] dispatch_queue [OF h(3)] show "wc_queue c' = wc_queue c" by simp
  qed
qed

lemma turns_deliver:
  assumes "\<And>c n. we_mem e c n" "list_all frame_fits fs" "\<forall>f \<in> set fs. length (frame_bytes f) \<le> MAX_WS_PAYLOAD + 14 - 8192"
    "\<forall>d \<in> set ds. length d \<le> 8192" "rd_buf r @ concat ds = client_bytes fs" "runs e (rd_client r) fs = Some cz"
    "\<not> wc_closed (rd_client r)" "sb_buf (wc_queue (rd_client r)) = []"
    "if fs = [] then rd_buf r = [] else length (rd_buf r) < length (frame_bytes (hd fs))"
  shows "\<exists>r'. ws_turns e r (map Data ds) = Some (True, r') \<and> rd_client r' = cz \<and> rd_buf r' = []"
  using assms(2-9)
proof (induction ds arbitrary: r fs)
  case Nil
  then show ?case by (cases fs) (auto simp: client_bytes_def)
next
  case (Cons d ds)
  let ?c = "rd_client r" and ?need = "length (rd_buf r) + length d"
  have flush: "ws_client_flush e ?c = ?c" using Cons.prems(7) by (simp add: ws_client_flush_def)
  have "length (rd_buf r) \<le> MAX_WS_PAYLOAD + 14 - 8192"
    using Cons.prems(2,8) by (cases fs) (auto simp: dual_order.trans less_imp_le)
  with Cons.prems(3) have need: "?need \<le> MAX_WS_PAYLOAD + 14" by (simp add: MAX_WS_PAYLOAD_def)
  have "(rd_buf r @ d) @ concat ds = client_bytes fs" using Cons.prems(4) by simp
  from frames_prefix [OF assms(1) Cons.prems(1) this Cons.prems(5,6)]
  obtain fs2 c' b where f: "ws_frames e ?c (rd_buf r @ d) = Some (c', b)" "runs e c' fs2 = Some cz" "\<not> wc_closed c'" "set fs2 \<subseteq> set fs"
    "b @ concat ds = client_bytes fs2" "if fs2 = [] then b = [] else length b < length (frame_bytes (hd fs2))" by blast
  obtain r1 where r1: "ws_turn e r (Data d) = Some (True, r1)" "rd_client r1 = c'" "rd_buf r1 = b"
    using Cons.prems(6) need f(1) assms(1) by (simp add: ws_turn_def flush ws_receive_def Let_def)
  have fits: "list_all frame_fits fs2" using Cons.prems(1) f(4) by (auto simp: list_all_iff)
  have short: "\<forall>f \<in> set fs2. length (frame_bytes f) \<le> MAX_WS_PAYLOAD + 14 - 8192" using Cons.prems(2) f(4) by blast
  have "sb_buf (wc_queue c') = []" using frames_queue [OF f(1)] Cons.prems(7) by simp
  with Cons.IH [of fs2 r1, OF fits short] f r1 Cons.prems(3) show ?case by simp
qed

lemma chars_of_append [simp]: "chars_of (p @ q) = chars_of p @ chars_of q"
  by (simp add: chars_of_def)

lemma frag_append_ok:
  assumes "client_ok c" "length p \<le> MAX_WS_PAYLOAD" "\<And>c n. we_mem e c n"
  shows "\<exists>f. frag_append e c p = Some f \<and> sb_ok f \<and> sb_buf f = sb_buf (wc_fragment c) @ chars_of p"
  using frag_append_returns [OF assms(1,2), of e] assms(3) by auto

lemma and_nibble [simp]: "unat ((0x80 OR 0) AND 0x0F :: 8 word) = 0" "unat ((0x80 OR 1) AND 0x0F :: 8 word) = 1"
  by simp_all

text \<open>The continuation frames complete a started message.\<close>

lemma continuation_runs:
  assumes "\<And>c n. we_mem e c n" "we_handler e" "ps \<noteq> []" "client_ok c" "wc_frag_op c = 1" "\<not> wc_closed c"
    "length (sb_buf (wc_fragment c)) + length (concat (map snd ps)) \<le> MAX_WS_PAYLOAD"
  shows "runs e c (msg_frames 0 ps) = Some (c\<lparr>wc_frag_op := 0, wc_fragment := strbuf_init,
    wc_got := wc_got c @ [c_string (sb_buf (wc_fragment c) @ chars_of (concat (map snd ps)))]\<rparr>)"
  using assms(3-7)
proof (induction ps arbitrary: c rule: induct_list012)
  case (2 kp)
  obtain k p where kp: "kp = (k, p)" by (cases kp)
  have "length p \<le> MAX_WS_PAYLOAD" using "2.prems"(5) by (simp add: kp)
  from frag_append_ok [OF "2.prems"(2) this assms(1)] obtain f where
    "frag_append e c p = Some f" "sb_buf f = sb_buf (wc_fragment c) @ chars_of p" by blast
  with "2.prems" assms(2) show ?case by (simp add: kp ws_dispatch_def on_continuation_def Let_def bit_simps)
next
  case (3 kp q qs)
  obtain k p where kp: "kp = (k, p)" by (cases kp)
  have "length p \<le> MAX_WS_PAYLOAD" using "3.prems"(5) by (simp add: kp)
  from frag_append_ok [OF "3.prems"(2) this assms(1)] obtain f where
    f: "frag_append e c p = Some f" "sb_ok f" "sb_buf f = sb_buf (wc_fragment c) @ chars_of p" by blast
  let ?c = "c\<lparr>wc_fragment := f\<rparr>"
  have step: "ws_dispatch e c (unat ((0 :: 8 word) AND 0x0F)) (bit (0 :: 8 word) 7) p = Some ?c"
    using "3.prems" f by (simp add: kp ws_dispatch_def on_continuation_def Let_def)
  have "client_ok ?c" using "3.prems" f by (simp add: client_ok_def kp)
  with "3.IH"(2) [of ?c] "3.prems" f step show ?case by (simp add: kp)
qed simp

lemma message_runs:
  assumes "\<And>c n. we_mem e c n" "we_handler e" "m \<noteq> []" "length (concat (map snd m)) \<le> MAX_WS_PAYLOAD"
    "wc_frag_op c = 0" "wc_fragment c = strbuf_init" "\<not> wc_closed c"
  shows "runs e c (msg_frames 1 m) = Some (c\<lparr>wc_got := wc_got c @ [c_string (chars_of (concat (map snd m)))]\<rparr>)"
proof (cases m rule: remdups_adj.cases)
  case (2 kp)
  with assms show ?thesis by (cases kp) (simp add: ws_dispatch_def on_text_def bit_simps)
next
  case (3 kp q qs)
  obtain k p where kp: "kp = (k, p)" by (cases kp)
  have ok: "client_ok c" using assms by (simp add: client_ok_def sb_ok_init)
  have "length p \<le> MAX_WS_PAYLOAD" using assms(4) by (simp add: 3 kp)
  from frag_append_ok [OF ok this assms(1)] obtain f where
    f: "frag_append e c p = Some f" "sb_ok f" "sb_buf f = chars_of p" using assms(6) sb_ok_init(2) by auto
  let ?c = "c\<lparr>wc_frag_op := 1, wc_fragment := f\<rparr>"
  have step: "ws_dispatch e c (unat ((1 :: 8 word) AND 0x0F)) (bit (1 :: 8 word) 7) p = Some ?c"
    using assms f by (simp add: ws_dispatch_def on_text_def bit_simps)
  have "client_ok ?c" using f assms(4) by (simp add: client_ok_def 3 kp)
  from continuation_runs [OF assms(1,2) _ this, of "q # qs"] assms f step
  show ?thesis by (simp add: 3 kp)
qed (use assms in simp)


lemma messages_run:
  assumes "\<And>c n. we_mem e c n" "we_handler e" "\<forall>m \<in> set ms. m \<noteq> [] \<and> length (concat (map snd m)) \<le> MAX_WS_PAYLOAD"
    "wc_frag_op c = 0" "wc_fragment c = strbuf_init" "\<not> wc_closed c"
  shows "runs e c (concat (map (msg_frames 1) ms)) =
    Some (c\<lparr>wc_got := wc_got c @ map (\<lambda>m. c_string (chars_of (concat (map snd m)))) ms\<rparr>)"
  using assms(3-6)
proof (induction ms arbitrary: c)
  case (Cons m ms)
  have run_app: "runs e c (fs @ gs) = (case runs e c fs of None \<Rightarrow> None | Some c' \<Rightarrow> runs e c' gs)" for c fs gs
    by (induction fs arbitrary: c) (auto split: option.splits if_splits)
  from Cons.prems message_runs [OF assms(1,2), of m c] Cons.IH [of "c\<lparr>wc_got := wc_got c @ [c_string (chars_of (concat (map snd m)))]\<rparr>"]
  show ?case by (simp add: run_app)
qed simp

lemma msg_frames_fits:
  "\<forall>(k, p) \<in> set m. length k = 4 \<and> length p \<le> n \<Longrightarrow> (b, k, p) \<in> set (msg_frames op m) \<Longrightarrow> length k = 4 \<and> length p \<le> n"
  by (induction op m rule: msg_frames.induct) auto

text \<open>C27: Text messages of up to 1 MiB, each cut into masked frames of at most 8 KiB less than that, arrive at the handler
  exactly once, in order and whole (up to a NUL byte in them), however the byte stream is cut into reads of up to 8 KiB; the connection
  stays open, nothing is sent, and no byte is left over.\<close>

theorem ws_messages_delivered:
  assumes "\<And>c n. we_mem e c n" "we_handler e"
    and "\<forall>m \<in> set ms. m \<noteq> [] \<and> length (concat (map snd m)) \<le> MAX_WS_PAYLOAD \<and>
      (\<forall>(k, p) \<in> set m. length k = 4 \<and> length p \<le> MAX_WS_PAYLOAD - 8192)"
    and "concat chunks = client_bytes (concat (map (msg_frames 1) ms))" "\<forall>d \<in> set chunks. length d \<le> 8192"
  shows "\<exists>r'. ws_turns e \<lparr>rd_client = ws_client_new i, rd_buf = [], rd_cap = 0\<rparr> (map Data chunks) = Some (True, r') \<and>
    wc_got (rd_client r') = map (\<lambda>m. c_string (chars_of (concat (map snd m)))) ms \<and>
    rd_buf r' = [] \<and> \<not> wc_closed (rd_client r') \<and> wc_wire (rd_client r') = []"
proof -
  let ?fs = "concat (map (msg_frames 1) ms)" and ?c = "ws_client_new i"
  let ?cz = "?c\<lparr>wc_got := wc_got ?c @ map (\<lambda>m. c_string (chars_of (concat (map snd m)))) ms\<rparr>"
  have fit: "length k = 4 \<and> length p \<le> MAX_WS_PAYLOAD - 8192" if "(b, k, p) \<in> set ?fs" for b k p
    using that assms(3) by (auto dest!: msg_frames_fits [rotated])
  have fits: "list_all frame_fits ?fs"
    unfolding list_all_iff
  proof
    fix f assume "f \<in> set ?fs"
    moreover obtain b k p where f: "f = (b, k, p)" by (cases f)
    ultimately show "frame_fits f" using fit [of b k p] by auto
  qed
  have wires: "\<forall>f \<in> set ?fs. length (frame_bytes f) \<le> MAX_WS_PAYLOAD + 14 - 8192"
  proof
    fix f assume "f \<in> set ?fs"
    moreover obtain b k p where f: "f = (b, k, p)" by (cases f)
    ultimately show "length (frame_bytes f) \<le> MAX_WS_PAYLOAD + 14 - 8192"
      using fit [of b k p] by (auto simp: length_wire_b length_ext_length MAX_WS_PAYLOAD_def)
  qed
  have run: "runs e ?c ?fs = Some ?cz"
    using assms(3) by (intro messages_run [OF assms(1,2)]) (auto simp: ws_client_new_def)
  have "if ?fs = [] then rd_buf \<lparr>rd_client = ?c, rd_buf = [], rd_cap = 0\<rparr> = []
      else length (rd_buf \<lparr>rd_client = ?c, rd_buf = [], rd_cap = 0\<rparr>) < length (frame_bytes (hd ?fs))"
    by (cases "hd ?fs") (auto simp: wire_b_def)
  from turns_deliver [OF assms(1) fits wires assms(5) _ _ _ _ this, of ?cz] assms(4) run
  show ?thesis by (auto simp: ws_client_new_def strbuf_init_def)
qed

theorem ws_messages_delivered_witness:
  "\<exists>r'. ws_turns \<lparr>we_mem = \<lambda>_ _. True, we_junk = \<lambda>_. 0, we_send = \<lambda>_ _. 0, we_handler = True\<rparr>
      \<lparr>rd_client = ws_client_new 0, rd_buf = [], rd_cap = 0\<rparr>
      (map Data [client_bytes [(1, [1, 2, 3, 4], [0x68])], client_bytes [(0x80, [5, 6, 7, 8], [0x69])]]) = Some (True, r') \<and>
    wc_got (rd_client r') = [''hi'']"
proof -
  let ?m = "[([1, 2, 3, 4], [0x68]), ([5, 6, 7, 8], [0x69])] :: (bytes \<times> bytes) list"
  have "concat [client_bytes [(1, [1, 2, 3, 4], [0x68])], client_bytes [(0x80, [5, 6, 7, 8], [0x69])]] =
    client_bytes (concat (map (msg_frames 1) [?m]))" by (simp add: client_bytes_def)
  note stream = this
  have hi: "c_string (chars_of [0x68, 0x69]) = ''hi''" by code_simp
  from ws_messages_delivered [OF _ _ _ stream, of "\<lparr>we_mem = \<lambda>_ _. True, we_junk = \<lambda>_. 0, we_send = \<lambda>_ _. 0, we_handler = True\<rparr>" 0]
  show ?thesis by (simp add: MAX_WS_PAYLOAD_def client_bytes_def wire_b_def length_ext_def hi) blast
qed

section \<open>Broadcast\<close>

lemma queue_text_open:
  assumes "\<not> wc_closed c" "\<And>c. ok c"
  shows "\<exists>q. queue_text ok t c = c\<lparr>wc_queue := q\<rparr> \<and> sb_buf q = sb_buf (wc_queue c) @ t @ [CHR 0x0A]"
  using assms by (auto simp: queue_text_def Let_def)

lemma queue_texts:
  assumes "\<not> wc_closed c" "\<And>c. ok c"
  shows "\<exists>q. fold (queue_text ok) ts c = c\<lparr>wc_queue := q\<rparr> \<and> sb_buf q = sb_buf (wc_queue c) @ concat (map (\<lambda>t. t @ [CHR 0x0A]) ts)"
  using assms(1)
proof (induction ts arbitrary: c)
  case Nil
  show ?case by (intro exI [of _ "wc_queue c"]) simp
next
  case (Cons t ts)
  from queue_text_open [of c ok t] Cons.prems assms(2) obtain q where
    q: "queue_text ok t c = c\<lparr>wc_queue := q\<rparr>" "sb_buf q = sb_buf (wc_queue c) @ t @ [CHR 0x0A]" by blast
  from Cons.IH [of "c\<lparr>wc_queue := q\<rparr>"] Cons.prems q show ?case by auto
qed

lemma queue_lines_text: "CHR 0x0A \<notin> set t \<Longrightarrow> queue_lines cur (t @ CHR 0x0A # q) = (cur @ t) # queue_lines [] q"
  by (induction t arbitrary: cur) auto

lemma queue_lines_texts:
  "\<forall>t \<in> set ts. CHR 0x0A \<notin> set t \<Longrightarrow> queue_lines [] (concat (map (\<lambda>t. t @ [CHR 0x0A]) ts)) = ts"
  by (induction ts) (auto simp: queue_lines_text)

lemma queue_keep_texts: "queue_keep (concat (map (\<lambda>t. t @ [CHR 0x0A]) ts)) = length (concat (map (\<lambda>t. t @ [CHR 0x0A]) ts))"
proof (cases ts rule: rev_cases)
  case (snoc us u)
  then show ?thesis by (simp add: queue_keep_def)
qed (simp add: queue_keep_def)

lemma broadcasts_elems:
  "elems (ss_readers (fold (\<lambda>t s. ws_server_broadcast ok s (Some t)) ts s)) =
     map (\<lambda>r. r\<lparr>rd_client := fold (queue_text ok) ts (rd_client r)\<rparr>) (elems (ss_readers s))"
  by (induction ts arbitrary: s) (simp_all add: ws_server_broadcast_def comp_def)

text \<open>C28: Texts without line feeds and shorter than 64 KiB that are broadcast reach every open client with an empty
  queue in its next round, each as one text frame, in the order of the broadcasts and nothing else between them.\<close>

theorem ws_broadcast_delivered:
  assumes "r \<in> set (elems (ss_readers (fold (\<lambda>t s. ws_server_broadcast ok s (Some t)) ts s)))"
    and "\<forall>r \<in> set (elems (ss_readers s)). \<not> wc_closed (rd_client r) \<and> sb_buf (wc_queue (rd_client r)) = [] \<and> wc_wire (rd_client r) = []"
    and "\<And>c. ok c" "\<And>c n. we_mem e c n" "\<And>c f. we_send e c f = length f"
    and "\<forall>t \<in> set ts. CHR 0x0A \<notin> set t \<and> length t < 65536"
  shows "\<exists>r'. ws_turn e r Quiet = Some (True, r') \<and> sb_buf (wc_queue (rd_client r')) = [] \<and>
    wc_wire (rd_client r') = concat (map (\<lambda>t. wire False [] 1 (bytes_of t)) ts)"
proof -
  from assms(1) obtain r0 where r0: "r0 \<in> set (elems (ss_readers s))" "r = r0\<lparr>rd_client := fold (queue_text ok) ts (rd_client r0)\<rparr>"
    by (auto simp: broadcasts_elems)
  let ?c0 = "rd_client r0" and ?all = "concat (map (\<lambda>t. t @ [CHR 0x0A]) ts)"
  from r0(1) assms(2) have open0: "\<not> wc_closed ?c0" "sb_buf (wc_queue ?c0) = []" "wc_wire ?c0 = []" by auto
  from queue_texts [of ?c0 ok ts] open0(1) assms(3) obtain q where q: "rd_client r = ?c0\<lparr>wc_queue := q\<rparr>" "sb_buf q = ?all"
    by (auto simp: r0(2) open0)
  have send: "fold (\<lambda>l c. ws_send_frame e c 1 (bytes_of l)) us c =
      c\<lparr>wc_wire := wc_wire c @ concat (map (\<lambda>t. wire False [] 1 (bytes_of t)) us)\<rparr>"
    if "\<not> wc_closed c" "\<forall>t \<in> set us. length t < 65536" for us c
    using that
  proof (induction us arbitrary: c)
    case (Cons u us)
    have "wire False key 1 p = wire False [] 1 p" for key p by (simp add: wire_def)
    with Cons.prems have "ws_send_frame e c 1 (bytes_of u) = c\<lparr>wc_wire := wc_wire c @ wire False [] 1 (bytes_of u)\<rparr>"
      by (simp add: ws_send_frame_def build_frame_wire assms(4,5) bytes_of_def)
    with Cons.IH [of "c\<lparr>wc_wire := wc_wire c @ wire False [] 1 (bytes_of u)\<rparr>"] Cons.prems show ?case by simp
  qed simp
  have "ws_client_flush e (rd_client r) =
    ?c0\<lparr>wc_queue := q\<lparr>sb_buf := []\<rparr>, wc_wire := concat (map (\<lambda>t. wire False [] 1 (bytes_of t)) ts)\<rparr>"
  proof (cases "ts = []")
    case True
    with q open0 show ?thesis by (simp add: ws_client_flush_def)
  next
    case False
    then have "?all \<noteq> []" by auto
    with q open0 assms(4,6) show ?thesis
      by (simp add: ws_client_flush_def Let_def queue_keep_texts queue_lines_texts send del: concat_eq_Nil_conv)
  qed
  with q open0 show ?thesis by (simp add: ws_turn_def)
qed

theorem ws_broadcast_delivered_witness:
  "\<exists>r'. ws_turn \<lparr>we_mem = \<lambda>_ _. True, we_junk = \<lambda>_. 0, we_send = \<lambda>_ f. length f, we_handler = True\<rparr>
      \<lparr>rd_client = queue_text (\<lambda>_. True) ''ok'' (ws_client_new 0), rd_buf = [], rd_cap = 0\<rparr> Quiet = Some (True, r') \<and>
    wc_wire (rd_client r') = wire False [] 1 (bytes_of ''ok'')"
proof -
  let ?r = "\<lparr>rd_client = ws_client_new 0, rd_buf = [], rd_cap = 0\<rparr>"
  let ?s = "\<lparr>ss_readers = \<lparr>elems = [?r], vcap = 8\<rparr>, ss_next_id = 1, ss_handler = True\<rparr>"
  from ws_broadcast_delivered [of "?r\<lparr>rd_client := queue_text (\<lambda>_. True) ''ok'' (ws_client_new 0)\<rparr>" "\<lambda>_. True" "[''ok'']" ?s
      "\<lparr>we_mem = \<lambda>_ _. True, we_junk = \<lambda>_. 0, we_send = \<lambda>_ f. length f, we_handler = True\<rparr>"]
  show ?thesis by (auto simp: ws_server_broadcast_def ws_client_new_def strbuf_init_def)
qed

text \<open>Without a handler a complete text message closes the connection.\<close>

lemma no_handler_closes:
  "\<not> we_handler e \<Longrightarrow> wc_frag_op c = 0 \<Longrightarrow> ws_dispatch e c 1 True p = Some (c\<lparr>wc_closed := True\<rparr>)"
  by (simp add: ws_dispatch_def on_text_def)

text \<open>A frame of the largest size that is followed by one byte of the next in the same read closes the connection.\<close>

lemma full_size_closes:
  assumes "length (rd_buf r) = MAX_WS_PAYLOAD + 13" "2 \<le> length d"
  shows "ws_receive e r d = Some (False, r\<lparr>rd_client := (rd_client r)\<lparr>wc_closed := True\<rparr>\<rparr>)"
  using assms by (simp add: ws_receive_def Let_def)

text \<open>After the server is freed, every reader that was registered closes and frees its socket a second time when it ends.\<close>

lemma free_closes_twice:
  assumes "r' \<in> set (ws_server_free s)" "\<forall>r \<in> set (elems (ss_readers s)). wc_sock_closes (rd_client r) = 0"
  shows "\<exists>r1. ws_turn e r' rd = Some (False, r1) \<and> wc_sock_closes (rd_client (snd (ws_client_end s1 r1))) = 2"
  using assms by (auto simp: ws_server_free_def ws_turn_def ws_client_end_def Let_def)

end
