(* ===== verification/StateStore.thy ===== *)
theory StateStore
  imports Fs KvStore
begin

text \<open>
  The state store, \<open>src/backend/src/runtime/state_store.c\<close>: values under a namespace and a key, kept in one JSON file once a path is set.
  Every operation holds the lock and is one step over the store and the file system. \<open>print\<close> and \<open>parse\<close> are the printer and parser of
  the JSON library; \<open>ok\<close> and \<open>grow\<close> say whether strings can be copied and the array can grow.
\<close>

section \<open>Entries\<close>

type_synonym ss_entry = "(cstr \<times> cstr) \<times> cstr"

record state_store =
  ss_items :: "ss_entry vec"
  ss_path :: "cstr option"

definition state_store_new :: "bool \<Rightarrow> state_store option" where
  "state_store_new ok = (if ok then Some \<lparr>ss_items = vec_new, ss_path = None\<rparr> else None)"

definition ss_find :: "cstr \<Rightarrow> cstr \<Rightarrow> state_store \<Rightarrow> nat option" where
  "ss_find ns key s = find_index (\<lambda>e. fst e = (ns, key)) (elems (ss_items s))"

text \<open>The boolean: the contents changed.\<close>

definition ss_put :: "bool \<Rightarrow> bool \<Rightarrow> cstr \<Rightarrow> cstr \<Rightarrow> cstr option \<Rightarrow> state_store \<Rightarrow> bool \<times> state_store" where
  "ss_put ok grow ns key val s =
     (let es = elems (ss_items s) in
      case ss_find ns key s of
        Some i \<Rightarrow>
          (case val of
             None \<Rightarrow> (True, s\<lparr>ss_items := (ss_items s)\<lparr>elems := remove_at i es\<rparr>\<rparr>)
           | Some v \<Rightarrow>
               if snd (es ! i) = v \<or> \<not> ok then (False, s)
               else (True, s\<lparr>ss_items := (ss_items s)\<lparr>elems := es[i := (fst (es ! i), v)]\<rparr>\<rparr>))
      | None \<Rightarrow>
          (case val of
             None \<Rightarrow> (False, s)
           | Some v \<Rightarrow>
               (case vec_push 16 grow ((ns, key), v) (ss_items s) of
                  None \<Rightarrow> (False, s)
                | Some vec \<Rightarrow>
                    if ok then (True, s\<lparr>ss_items := vec\<rparr>) else (False, s\<lparr>ss_items := vec\<lparr>elems := es\<rparr>\<rparr>))))"

section \<open>The JSON form\<close>




section \<open>Operations\<close>





definition state_store_count :: "state_store \<Rightarrow> nat" where
  "state_store_count s = length (elems (ss_items s))"

definition state_store_count_ns :: "state_store \<Rightarrow> cstr option \<Rightarrow> nat" where
  "state_store_count_ns s ns =
     (case ns of None \<Rightarrow> 0 | Some n \<Rightarrow> length (filter (\<lambda>e. fst (fst e) = n) (elems (ss_items s))))"









section \<open>A keyed store\<close>

definition ss_lookup :: "state_store \<Rightarrow> cstr \<times> cstr \<Rightarrow> cstr option" where
  "ss_lookup s = map_of (elems (ss_items s))"

definition ss_ok :: "state_store \<Rightarrow> bool" where
  "ss_ok s \<longleftrightarrow> distinct (map fst (elems (ss_items s))) \<and> vec_ok (ss_items s)"

lemma find_index_map_of: "map_option (\<lambda>i. snd (xs ! i)) (find_index (\<lambda>e. fst e = k) xs) = map_of xs k"
  by (induction xs) (auto simp: option.map_comp o_def)


lemma ss_find_None: "ss_find ns key s = None \<longleftrightarrow> ss_lookup s (ns, key) = None"
  by (metis find_index_map_of option.map_disc_iff ss_find_def ss_lookup_def)

lemma ss_find_Some: "ss_find ns key s = Some i \<Longrightarrow> i < length (elems (ss_items s)) \<and> fst (elems (ss_items s) ! i) = (ns, key)"
  by (auto simp: ss_find_def dest: find_index_SomeD)

text \<open>What one operation does, failed allocations included: it changes the value or leaves all as it was.\<close>

lemma ss_put_spec:
  assumes "ss_ok s" "ss_put ok grow ns key val s = (mutated, s')"
  shows "ss_ok s'" "ss_path s' = ss_path s" "\<not> mutated \<Longrightarrow> elems (ss_items s') = elems (ss_items s)"
    "ss_lookup s' = (ss_lookup s)((ns, key) := val) \<or> elems (ss_items s') = elems (ss_items s) \<and> (\<not> ok \<or> \<not> grow)"
proof -
  let ?es = "elems (ss_items s)"
  have "ss_ok s' \<and> ss_path s' = ss_path s \<and> (\<not> mutated \<longrightarrow> elems (ss_items s') = ?es) \<and>
    (ss_lookup s' = (ss_lookup s)((ns, key) := val) \<or> elems (ss_items s') = ?es \<and> (\<not> ok \<or> \<not> grow))"
  proof (cases "ss_find ns key s")
    case None
    then have new: "ss_lookup s (ns, key) = None" by (simp add: ss_find_None)
    show ?thesis
    proof (cases val)
      case None
      with \<open>ss_find ns key s = None\<close> assms new show ?thesis by (auto simp: ss_put_def Let_def)
    next
      case (Some v)
      show ?thesis
      proof (cases "vec_push 16 grow ((ns, key), v) (ss_items s)")
        case None
        with \<open>ss_find ns key s = None\<close> Some assms show ?thesis by (auto simp: ss_put_def Let_def vec_push_None_iff)
      next
        case vec: (Some w)
        note w = vec_push_elems [OF vec] vec_ok_push [OF vec]
        have fresh: "(ns, key) \<notin> fst ` set ?es" using new by (simp add: ss_lookup_def map_of_eq_None_iff)
        have "length (elems w) \<le> vcap w" using w(2) assms(1) by (simp add: ss_ok_def vec_ok_def)
        with \<open>ss_find ns key s = None\<close> Some assms vec w fresh show ?thesis
          by (auto simp: ss_put_def Let_def ss_ok_def ss_lookup_def vec_ok_def map_of_snoc simp del: map_of_append split: if_splits)
      qed
    qed
  next
    case (Some i)
    note i = ss_find_Some [OF Some]
    show ?thesis
    proof (cases val)
      case None
      with Some i assms map_of_remove_at [of ?es i] show ?thesis
        by (auto simp: ss_put_def Let_def ss_ok_def ss_lookup_def vec_ok_def map_remove_at distinct_remove_at length_remove_at)
    next
      case v: (Some v)
      have keys: "map fst (?es[i := ((ns, key), v)]) = map fst ?es" using i by (simp add: map_update) (metis list_update_id length_map nth_map)
      have same: "ss_lookup s (ns, key) = Some (snd (?es ! i))"
        using find_index_map_of [of ?es "(ns, key)"] Some by (simp add: ss_find_def ss_lookup_def)
      have upd: "map_of (?es[i := ((ns, key), v)]) = (map_of ?es)((ns, key) \<mapsto> v)"
        using map_of_update_at [of ?es i v] i assms(1) by (simp add: ss_ok_def)
      have triv: "(map_of ?es)((ns, key) \<mapsto> v) = map_of ?es" if "snd (?es ! i) = v"
        using same that by (simp add: ss_lookup_def fun_upd_idem)
      show ?thesis
      proof (cases "snd (?es ! i) = v \<or> \<not> ok")
        case True
        with Some v assms triv show ?thesis by (auto simp: ss_put_def Let_def ss_lookup_def)
      next
        case False
        with Some v assms i have "mutated" "s' = s\<lparr>ss_items := (ss_items s)\<lparr>elems := ?es[i := ((ns, key), v)]\<rparr>\<rparr>"
          by (auto simp: ss_put_def Let_def)
        with v assms(1) keys upd show ?thesis by (simp add: ss_ok_def ss_lookup_def vec_ok_def)
      qed
    qed
  qed
  then show "ss_ok s'" "ss_path s' = ss_path s" "\<not> mutated \<Longrightarrow> elems (ss_items s') = elems (ss_items s)"
    "ss_lookup s' = (ss_lookup s)((ns, key) := val) \<or> elems (ss_items s') = elems (ss_items s) \<and> (\<not> ok \<or> \<not> grow)" by blast+
qed

definition ss_set :: "cstr \<times> cstr \<Rightarrow> cstr \<Rightarrow> state_store \<Rightarrow> state_store" where
  "ss_set k v s = snd (ss_put True True (fst k) (snd k) (Some v) s)"

definition ss_drop :: "cstr \<times> cstr \<Rightarrow> state_store \<Rightarrow> state_store" where
  "ss_drop k s = snd (ss_put True True (fst k) (snd k) None s)"

interpretation states: keyed_store ss_lookup ss_set ss_drop ss_ok
proof
  fix s k v
  assume ok: "ss_ok s"
  obtain m s' where p: "ss_put True True (fst k) (snd k) (Some v) s = (m, s')" by fastforce
  from ss_put_spec [OF ok p] p show "ss_lookup (ss_set k v s) = (ss_lookup s)(k \<mapsto> v)" "ss_ok (ss_set k v s)" by (auto simp: ss_set_def)
  obtain m s' where p: "ss_put True True (fst k) (snd k) None s = (m, s')" by fastforce
  from ss_put_spec [OF ok p] p show "ss_lookup (ss_drop k s) = (ss_lookup s)(k := None)" "ss_ok (ss_drop k s)" by (auto simp: ss_drop_def)
qed


section \<open>The file always holds the store\<close>















end
