(* ===== verification/Tasklog.thy ===== *)
theory Tasklog
  imports MemStore
begin

text \<open>
  The durable task journal, \<open>src/backend/src/runtime/tasklog.c\<close>: a file of JSON lines with one record per transition of a task, two
  alternating checkpoint files per running task, and the recovery at start-up. \<open>print\<close> and \<open>parse\<close> are the printer and parser of the
  JSON library; its allocations and those of the records succeed in the model. Every operation holds the lock of the journal for its
  access to the file.
\<close>

section \<open>State\<close>

record tasklog =
  tl_path :: cstr
  tl_states :: "(cstr \<times> json) list option"

definition session_state_set :: "int \<Rightarrow> cstr option \<Rightarrow> cstr option \<Rightarrow> (cstr \<times> json) list \<Rightarrow> (cstr \<times> json) list" where
  "session_state_set i session status st =
     (let key = nonempty_or ''default'' session;
          o1 = JObj [(''id'', JNum (of_int i)), (''status'', JStr (nonnull_or ''?'' status))]
      in (case find_index (\<lambda>kv. fst kv = key) st of None \<Rightarrow> st | Some n \<Rightarrow> remove_at n st) @ [(key, o1)])"

definition tasklog_path :: "cstr option \<Rightarrow> fsys \<Rightarrow> cstr \<times> fsys" where
  "tasklog_path state_root fs =
     (let dir = path_join 600 (Some (nonnull_or ''state'' state_root)) (Some ''journal'')
      in (path_join 600 (Some dir) (Some ''tasks.jsonl''), snd (fs_mkdirs dir fs)))"

definition tasklog_new :: "bool \<Rightarrow> cstr option \<Rightarrow> fsys \<Rightarrow> tasklog option \<times> fsys" where
  "tasklog_new ok state_root fs =
     (if ok then (let (p, fs') = tasklog_path state_root fs in (Some \<lparr>tl_path = p, tl_states = None\<rparr>, fs')) else (None, fs))"

section \<open>Checkpoints\<close>

definition checkpoint_path :: "tasklog \<Rightarrow> int \<Rightarrow> nat \<Rightarrow> cstr" where
  "checkpoint_path lg i slot = cbuf 700 (tl_path lg @ ''.'' @ int_str i @ ''.progress.'' @ nat_str slot)"

definition checkpoint_json :: "int \<Rightarrow> nat \<Rightarrow> json \<Rightarrow> json" where
  "checkpoint_json i seq trace = JObj [(''id'', JNum (of_int i)), (''seq'', JNum (of_nat seq)), (''trace'', trace)]"

fun json_is_array :: "json option \<Rightarrow> bool" where
  "json_is_array (Some (JArr _)) = True"
| "json_is_array _ = False"

definition tasklog_checkpoint ::
    "(json \<Rightarrow> cstr) \<Rightarrow> (cstr \<Rightarrow> json option) \<Rightarrow> tasklog \<Rightarrow> int \<Rightarrow> nat \<Rightarrow> cstr option \<Rightarrow> fsys \<Rightarrow> int \<times> fsys" where
  "tasklog_checkpoint print parse lg i seq trace fs =
     (if i < 0 then (-1, fs)
      else case trace of
             None \<Rightarrow> (-1, fs)
           | Some t \<Rightarrow>
               (case parse t of
                  Some (JArr js) \<Rightarrow> fs_write_file (checkpoint_path lg i (seq mod 2)) (print (checkpoint_json i seq (JArr js))) fs
                | _ \<Rightarrow> (-1, fs)))"

text \<open>What a slot holds for the task: the sequence number and the trace.\<close>

definition checkpoint_slot :: "(cstr \<Rightarrow> json option) \<Rightarrow> tasklog \<Rightarrow> int \<Rightarrow> fsys \<Rightarrow> nat \<Rightarrow> (rat \<times> json) option" where
  "checkpoint_slot parse lg i fs slot =
     (let j = Option.bind (map_option c_string (fs_read_file fs (checkpoint_path lg i slot))) parse;
          trace = json_get ''trace'' j in
      case (json_num (json_get ''id'' j), json_num (json_get ''seq'' j)) of
        (Some n, Some v) \<Rightarrow> if n = of_int i \<and> json_is_array trace then Some (v, the trace) else None
      | _ \<Rightarrow> None)"

definition checkpoint_better :: "(cstr \<Rightarrow> json option) \<Rightarrow> tasklog \<Rightarrow> int \<Rightarrow> fsys \<Rightarrow> nat \<Rightarrow> rat \<times> json option \<Rightarrow> rat \<times> json option" where
  "checkpoint_better parse lg i fs slot best =
     (case checkpoint_slot parse lg i fs slot of
        Some (v, t) \<Rightarrow> if fst best < v then (v, Some t) else best
      | None \<Rightarrow> best)"

definition checkpoint_read :: "(json \<Rightarrow> cstr) \<Rightarrow> (cstr \<Rightarrow> json option) \<Rightarrow> tasklog \<Rightarrow> int \<Rightarrow> fsys \<Rightarrow> cstr option" where
  "checkpoint_read print parse lg i fs =
     map_option print (snd (checkpoint_better parse lg i fs 1 (checkpoint_better parse lg i fs 0 (-1, None))))"

section \<open>Records\<close>

text \<open>A text that parses to an array is kept.\<close>

definition array_member :: "(cstr \<Rightarrow> json option) \<Rightarrow> cstr \<Rightarrow> cstr option \<Rightarrow> (cstr \<times> json) list" where
  "array_member parse key s =
     (case s of
        None \<Rightarrow> []
      | Some t \<Rightarrow> if t = [] then [] else (case parse t of Some (JArr js) \<Rightarrow> [(key, JArr js)] | _ \<Rightarrow> []))"

definition record_json :: "(cstr \<Rightarrow> json option) \<Rightarrow> int \<Rightarrow> int \<Rightarrow> cstr option \<Rightarrow> cstr option \<Rightarrow> cstr option \<Rightarrow> cstr option \<Rightarrow>
    cstr option \<Rightarrow> cstr option \<Rightarrow> int \<Rightarrow> json" where
  "record_json parse now i status session input out trace_json spans_json permission_mode =
     JObj ([(''id'', JNum (of_int i)), (''status'', JStr (nonnull_or ''?'' status)),
            (''permission_mode'', JNum (of_int (if 0 \<le> permission_mode \<and> permission_mode \<le> 2 then permission_mode else 1))),
            (''session'', JStr (nonnull_or [] session)), (''input'', JStr (nonnull_or [] input))]
       @ (if nonnull_or [] out = [] then [] else [(''output'', JStr (nonnull_or [] (str_utf8_sanitize out)))])
       @ array_member parse ''trace'' trace_json @ array_member parse ''spans'' spans_json @ [(''ts'', JNum (of_int (now * 1000)))])"

text \<open>The line is appended; a line without its end, left by a crash, is ended first. \<open>None\<close>: the file cannot be opened.\<close>

definition journal_append :: "cstr \<Rightarrow> cstr \<Rightarrow> fsys \<Rightarrow> fsys option" where
  "journal_append path line fs =
     (if path \<in> set (denied fs) then None
      else case fs_get fs path of
             Some (File b True) \<Rightarrow>
               Some (put_node path (File (b @ (if b \<noteq> [] \<and> last b \<noteq> CHR 0x0A then [CHR 0x0A] else []) @ line @ [CHR 0x0A]) True) fs)
           | None \<Rightarrow> Some (put_node path (File (line @ [CHR 0x0A]) True) fs)
           | _ \<Rightarrow> None)"

definition task_live :: "cstr option \<Rightarrow> bool" where
  "task_live status \<longleftrightarrow> status = Some ''RUNNING'' \<or> status = Some ''QUEUED''"

definition tasklog_record_access :: "(json \<Rightarrow> cstr) \<Rightarrow> (cstr \<Rightarrow> json option) \<Rightarrow> int \<Rightarrow> int \<Rightarrow> cstr option \<Rightarrow> cstr option \<Rightarrow> cstr option \<Rightarrow>
    cstr option \<Rightarrow> cstr option \<Rightarrow> cstr option \<Rightarrow> int \<Rightarrow> tasklog \<times> fsys \<Rightarrow> tasklog \<times> fsys" where
  "tasklog_record_access print parse now i status session input out trace_json spans_json permission_mode st =
     (case st of (lg, fs) \<Rightarrow>
        if i < 0 then (lg, fs)
        else case journal_append (tl_path lg)
                    (print (record_json parse now i status session input out trace_json spans_json permission_mode)) fs of
               None \<Rightarrow> (lg, fs)
             | Some fs1 \<Rightarrow>
                 (lg\<lparr>tl_states := map_option (session_state_set i session status) (tl_states lg)\<rparr>,
                  if status \<noteq> None \<and> \<not> task_live status
                  then snd (fs_remove (checkpoint_path lg i 1) (snd (fs_remove (checkpoint_path lg i 0) fs1)))
                  else fs1))"

definition tasklog_record :: "(json \<Rightarrow> cstr) \<Rightarrow> (cstr \<Rightarrow> json option) \<Rightarrow> int \<Rightarrow> int \<Rightarrow> cstr option \<Rightarrow> cstr option \<Rightarrow> cstr option \<Rightarrow>
    cstr option \<Rightarrow> cstr option \<Rightarrow> cstr option \<Rightarrow> tasklog \<times> fsys \<Rightarrow> tasklog \<times> fsys" where
  "tasklog_record print parse now i status session input out trace_json spans_json st =
     tasklog_record_access print parse now i status session input out trace_json spans_json 0 st"

section \<open>Reading the journal\<close>

text \<open>The bytes of the file; a directory opens and reads as empty.\<close>

definition journal_bytes :: "fsys \<Rightarrow> cstr \<Rightarrow> cstr option" where
  "journal_bytes fs path =
     (case fs_get fs path of Some (File b True) \<Rightarrow> Some b | Some (Dir _) \<Rightarrow> Some [] | _ \<Rightarrow> None)"

fun journal_lines :: "cstr \<Rightarrow> cstr \<Rightarrow> cstr list" where
  "journal_lines cur [] = (if cur = [] then [] else [cur])"
| "journal_lines cur (c # cs) =
     (if c = CHR 0x0A then if cur = [] then journal_lines [] cs else cur # journal_lines [] cs
      else journal_lines (cur @ [c]) cs)"

text \<open>The cast to \<open>int64_t\<close>, for values in its range.\<close>

definition to_int64 :: "rat \<Rightarrow> int" where
  "to_int64 r = (if 0 \<le> r then \<lfloor>r\<rfloor> else \<lceil>r\<rceil>)"

definition drop_previous :: "rat \<Rightarrow> json list \<Rightarrow> json list" where
  "drop_previous v arr =
     (case find_index (\<lambda>j. json_num (json_get ''id'' (Some j)) = Some v) (rev arr) of
        None \<Rightarrow> arr
      | Some n \<Rightarrow> rev (remove_at n (rev arr)))"

definition journal_keep :: "nat \<Rightarrow> int option \<Rightarrow> cstr option \<Rightarrow> json \<Rightarrow> json list \<Rightarrow> json list" where
  "journal_keep limit pick session j arr =
     (let num = json_num (json_get ''id'' (Some j)) in
      if session \<noteq> None \<and> nonempty_or ''default'' (json_string (json_get ''session'' (Some j))) \<noteq> the session then arr
      else let arr1 = (if session \<noteq> None \<and> num \<noteq> None then drop_previous (the num) arr else arr) in
           if pick \<noteq> None \<and> map_option to_int64 num \<noteq> pick then arr1
           else let arr2 = arr1 @ [j] in if 0 < limit \<and> limit < length arr2 then tl arr2 else arr2)"

definition journal_entry :: "(cstr \<Rightarrow> json option) \<Rightarrow> cstr \<Rightarrow> json option" where
  "journal_entry parse line = Option.bind (str_utf8_sanitize (Some (c_string line))) parse"

definition journal_parse_session ::
    "(cstr \<Rightarrow> json option) \<Rightarrow> fsys \<Rightarrow> cstr \<Rightarrow> nat \<Rightarrow> int option \<Rightarrow> cstr option \<Rightarrow> json list option" where
  "journal_parse_session parse fs path limit pick session =
     map_option (\<lambda>b. fold (journal_keep limit pick session) (List.map_filter (journal_entry parse) (journal_lines [] b)) [])
       (journal_bytes fs path)"

definition journal_parse :: "(cstr \<Rightarrow> json option) \<Rightarrow> fsys \<Rightarrow> cstr \<Rightarrow> nat \<Rightarrow> int option \<Rightarrow> json list option" where
  "journal_parse parse fs path limit pick = journal_parse_session parse fs path limit pick None"

definition tasklog_session_json :: "(json \<Rightarrow> cstr) \<Rightarrow> (cstr \<Rightarrow> json option) \<Rightarrow> tasklog \<Rightarrow> cstr option \<Rightarrow> fsys \<Rightarrow> cstr" where
  "tasklog_session_json print parse lg session fs =
     (case journal_parse_session parse fs (tl_path lg) 0 None (Some (nonempty_or ''default'' session)) of
        None \<Rightarrow> ''[]''
      | Some js \<Rightarrow> print (JArr js))"

definition tasklog_json :: "(json \<Rightarrow> cstr) \<Rightarrow> (cstr \<Rightarrow> json option) \<Rightarrow> tasklog \<Rightarrow> int \<Rightarrow> fsys \<Rightarrow> cstr" where
  "tasklog_json print parse lg limit fs =
     (case journal_parse parse fs (tl_path lg) (nat limit) None of None \<Rightarrow> ''[]'' | Some js \<Rightarrow> print (JArr js))"

definition state_of_record :: "json \<Rightarrow> (cstr \<times> json) list \<Rightarrow> (cstr \<times> json) list" where
  "state_of_record j st =
     (case json_num (json_get ''id'' (Some j)) of
        None \<Rightarrow> st
      | Some v \<Rightarrow> session_state_set (to_int64 v) (json_string (json_get ''session'' (Some j))) (json_string (json_get ''status'' (Some j))) st)"

definition tasklog_session_states_json :: "(json \<Rightarrow> cstr) \<Rightarrow> (cstr \<Rightarrow> json option) \<Rightarrow> tasklog \<Rightarrow> fsys \<Rightarrow> cstr \<times> tasklog" where
  "tasklog_session_states_json print parse lg fs =
     (let st = (case tl_states lg of
                  Some st \<Rightarrow> st
                | None \<Rightarrow> fold state_of_record (case journal_parse parse fs (tl_path lg) 0 None of None \<Rightarrow> [] | Some js \<Rightarrow> js) [])
      in (print (JObj st), lg\<lparr>tl_states := Some st\<rparr>))"

definition record_mode :: "json \<Rightarrow> int \<Rightarrow> int" where
  "record_mode j mode =
     (case json_get ''permission_mode'' (Some j) of
        None \<Rightarrow> mode
      | Some (JNum v) \<Rightarrow> if 0 \<le> v \<and> v \<le> 2 \<and> of_int \<lfloor>v\<rfloor> = v then sat_int v else 1
      | Some _ \<Rightarrow> 1)"

definition tasklog_permission_mode :: "(cstr \<Rightarrow> json option) \<Rightarrow> tasklog \<Rightarrow> int \<Rightarrow> fsys \<Rightarrow> int" where
  "tasklog_permission_mode parse lg i fs =
     (case journal_parse parse fs (tl_path lg) 0 (Some i) of None \<Rightarrow> 1 | Some js \<Rightarrow> fold record_mode js 0)"

text \<open>The newest record of the task with a status: status, session, input and output.\<close>

definition tasklog_find :: "(cstr \<Rightarrow> json option) \<Rightarrow> tasklog \<Rightarrow> int \<Rightarrow> fsys \<Rightarrow>
    (cstr option \<times> cstr option \<times> cstr option \<times> cstr option) option" where
  "tasklog_find parse lg i fs =
     (if i < 0 then None
      else case journal_parse parse fs (tl_path lg) 0 (Some i) of
             None \<Rightarrow> None
           | Some js \<Rightarrow>
               let hit = fold (\<lambda>j h. if json_string (json_get ''status'' (Some j)) \<noteq> None then Some j else h) js None;
                   field = (\<lambda>k. json_string (json_get k hit)) in
               if hit = None then None
               else Some (field ''status'', (if field ''session'' = Some [] then None else field ''session''), field ''input'', field ''output''))"

section \<open>Recovery\<close>

record recovery_record =
  rr_id :: int
  rr_json :: json

definition recovery_of :: "json \<Rightarrow> recovery_record option" where
  "recovery_of j =
     (case json_num (json_get ''id'' (Some j)) of
        Some v \<Rightarrow> if 0 \<le> v \<and> v < 9007199254740991 \<and> of_int \<lfloor>v\<rfloor> = v then Some \<lparr>rr_id = \<lfloor>v\<rfloor>, rr_json = j\<rparr> else None
      | None \<Rightarrow> None)"

definition next_after :: "recovery_record \<Rightarrow> int \<Rightarrow> int" where
  "next_after r n = (if n < rr_id r + 1 then rr_id r + 1 else n)"

definition restart_text :: cstr where
  "restart_text = ''Runtime restarted before task completion; inspect checkpoint and explicitly resume. Saved usage is last-known only; an in-flight request may have unreported cost.''"

definition recovered_mode :: "json \<Rightarrow> int" where
  "recovered_mode j =
     (case json_get ''permission_mode'' (Some j) of
        None \<Rightarrow> 0
      | Some (JNum v) \<Rightarrow> if 0 \<le> v \<and> v \<le> 2 \<and> of_int (sat_int v) = v then sat_int v else 1
      | Some _ \<Rightarrow> 1)"

text \<open>The sorted records one by one; only the last one of an id counts.\<close>

fun recover_loop :: "(json \<Rightarrow> cstr) \<Rightarrow> (cstr \<Rightarrow> json option) \<Rightarrow> int \<Rightarrow> recovery_record list \<Rightarrow> tasklog \<times> fsys \<Rightarrow> nat \<times> tasklog \<times> fsys" where
  "recover_loop print parse now [] st = (0, st)"
| "recover_loop print parse now (r # rs) st =
     (let j = Some (rr_json r); status = json_string (json_get ''status'' j) in
      if rs \<noteq> [] \<and> rr_id r = rr_id (hd rs) \<or> \<not> task_live status then recover_loop print parse now rs st
      else let st1 = tasklog_record_access print parse now (rr_id r) (Some ''INTERRUPTED'') (json_string (json_get ''session'' j))
                       (json_string (json_get ''input'' j)) (Some restart_text) (checkpoint_read print parse (fst st) (rr_id r) (snd st)) None
                       (recovered_mode (rr_json r)) st;
               (n, st2) = recover_loop print parse now rs st1
           in (n + 1, st2))"

text \<open>The result, the next id and the state. \<open>qsort\<close> orders by id and, among equal ids, by position, as a stable sort does.\<close>

definition tasklog_recover :: "(json \<Rightarrow> cstr) \<Rightarrow> (cstr \<Rightarrow> json option) \<Rightarrow> int \<Rightarrow> tasklog \<times> fsys \<Rightarrow> int \<times> int \<times> tasklog \<times> fsys" where
  "tasklog_recover print parse now st =
     (case st of (lg, fs) \<Rightarrow>
        case journal_parse parse fs (tl_path lg) 0 None of
          None \<Rightarrow> (if 0 < fs_file_size fs (tl_path lg) then -1 else 0, 0, lg, fs)
        | Some js \<Rightarrow>
            if js = [] \<and> 0 < fs_file_size fs (tl_path lg) then (-1, 0, lg, fs)
            else let records = List.map_filter recovery_of js;
                     (n, st') = recover_loop print parse now (sort_key rr_id records) st
                 in (int n, fold next_after records 0, st'))"


section \<open>Lines\<close>

lemma journal_lines_split: "journal_lines cur (xs @ CHR 0x0A # ys) = journal_lines cur xs @ journal_lines [] ys"
  by (induction cur xs rule: journal_lines.induct) auto

lemma journal_lines_plain: "CHR 0x0A \<notin> set xs \<Longrightarrow> journal_lines cur xs = (if cur @ xs = [] then [] else [cur @ xs])"
  by (induction cur xs rule: journal_lines.induct) auto


text \<open>The documented behaviour of the library for one tree: it prints as one line without a NUL and is read back.\<close>

definition prints_back :: "(json \<Rightarrow> cstr) \<Rightarrow> (cstr \<Rightarrow> json option) \<Rightarrow> json \<Rightarrow> bool" where
  "prints_back print parse j \<longleftrightarrow> print j \<noteq> [] \<and> CHR 0x0A \<notin> set (print j) \<and> CHR 0x00 \<notin> set (print j) \<and> utf8_valid (print j) \<and> parse (print j) = Some j"


lemma keep_all: "fold (journal_keep 0 None None) js arr = arr @ js"
  by (induction js arbitrary: arr) (simp_all add: journal_keep_def Let_def)

lemma journal_parse_all:
  "journal_parse parse fs p 0 None = map_option (\<lambda>b. List.map_filter (journal_entry parse) (journal_lines [] b)) (journal_bytes fs p)"
  by (simp add: journal_parse_def journal_parse_session_def keep_all)




section \<open>Recovery settles every task\<close>

text \<open>The records that count: the last of each group of equal ids.\<close>

fun group_lasts :: "recovery_record list \<Rightarrow> recovery_record list" where
  "group_lasts [] = []"
| "group_lasts (r # rs) = (if rs \<noteq> [] \<and> rr_id r = rr_id (hd rs) then group_lasts rs else r # group_lasts rs)"

definition live_record :: "recovery_record \<Rightarrow> bool" where
  "live_record r \<longleftrightarrow> task_live (json_string (json_get ''status'' (Some (rr_json r))))"










lemma recovery_of_bounds: "recovery_of j = Some r \<Longrightarrow> 0 \<le> rr_id r \<and> rr_id r < 9007199254740991"
  by (auto simp: recovery_of_def split: option.splits if_splits)



lemma recover_loop_idle: "\<forall>r \<in> set (group_lasts rs). \<not> live_record r \<Longrightarrow> recover_loop print parse now rs st = (0, st)"
  by (induction rs) (auto simp: live_record_def Let_def split: if_splits)







section \<open>Checkpoints survive a torn write\<close>

lemma checkpoint_paths_differ:
  assumes "length (tl_path lg) < 600" "0 \<le> i" "i < 10 ^ 19" "a < 2" "b < 2" "a \<noteq> b"
  shows "checkpoint_path lg i a \<noteq> checkpoint_path lg i b"
proof -
  have "nat \<bar>i\<bar> < nat (10 ^ 19)" using assms(2,3) by linarith
  then have "nat \<bar>i\<bar> < 10 ^ Suc 18" by simp
  from length_nat_str [OF this] length_int_str [of i] have "length (int_str i) \<le> 20" by linarith
  moreover have "length (nat_str k) = 1" if "k < 2" for k using that by (simp add: nat_str.simps)
  ultimately have "length (tl_path lg @ ''.'' @ int_str i @ ''.progress.'' @ nat_str k) < 700" if "k < 2" for k
    using assms(1) that by simp
  then have p: "checkpoint_path lg i k = tl_path lg @ ''.'' @ int_str i @ ''.progress.'' @ nat_str k" if "k < 2" for k
    using that by (simp add: checkpoint_path_def cbuf_id)
  have "nat_str a \<noteq> nat_str b"
  proof
    assume "nat_str a = nat_str b"
    then have "digits_val (nat_str a) = digits_val (nat_str b)" by simp
    with assms(6) show False by simp
  qed
  with p [OF assms(4)] p [OF assms(5)] show ?thesis by simp
qed

lemma checkpoint_slot_cong:
  "fs_read_file fs (checkpoint_path lg i s) = fs_read_file fs' (checkpoint_path lg i s) \<Longrightarrow> checkpoint_slot parse lg i fs s = checkpoint_slot parse lg i fs' s"
  by (simp add: checkpoint_slot_def)

lemma checkpoint_slot_written:
  assumes "fs_read_file fs (checkpoint_path lg i s) = Some (print (checkpoint_json i seq (JArr js)))"
    and "prints_back print parse (checkpoint_json i seq (JArr js))"
  shows "checkpoint_slot parse lg i fs s = Some (of_nat seq, JArr js)"
  using assms by (simp add: checkpoint_slot_def prints_back_def c_string_id Let_def) (simp add: checkpoint_json_def)

text \<open>C30: After a checkpoint was written with a number above the one in the other slot, the task reads back its trace; and it
  still does when the write of the next checkpoint is torn and leaves anything that is no snapshot of the task.\<close>

theorem checkpoint_torn:
  assumes "length (tl_path lg) < 600" "i < 10 ^ 19" "parse t = Some (JArr js)" "prints_back print parse (checkpoint_json i seq (JArr js))"
    and ck: "tasklog_checkpoint print parse lg i seq (Some t) fs = (0, fs1)"
    and "\<forall>b. fs_get fs (checkpoint_path lg i (seq mod 2)) \<noteq> Some (File b False)"
    and "\<forall>v tr. checkpoint_slot parse lg i fs (Suc seq mod 2) = Some (v, tr) \<longrightarrow> v < of_nat seq"
  shows "checkpoint_read print parse lg i fs1 = Some (print (JArr js)) \<and>
    (\<forall>torn r. checkpoint_slot parse lg i (put_node (checkpoint_path lg i (Suc seq mod 2)) (File torn r) fs1) (Suc seq mod 2) = None \<longrightarrow>
      checkpoint_read print parse lg i (put_node (checkpoint_path lg i (Suc seq mod 2)) (File torn r) fs1) = Some (print (JArr js)))"
proof -
  let ?p = "checkpoint_path lg i (seq mod 2)" and ?q = "checkpoint_path lg i (Suc seq mod 2)"
  from ck have i0: "0 \<le> i" and w: "fs_write_file ?p (print (checkpoint_json i seq (JArr js))) fs = (0, fs1)"
    by (auto simp: tasklog_checkpoint_def assms(3) split: if_splits)
  have "seq mod 2 \<noteq> Suc seq mod 2" by presburger
  then have pq: "?p \<noteq> ?q" by (intro checkpoint_paths_differ [OF assms(1) i0 assms(2)]) auto
  have rp: "fs_read_file fs1 ?p = Some (print (checkpoint_json i seq (JArr js)))"
    using w assms(6) by (auto simp: fs_write_file_def fs_read_file_def split: if_splits option.splits node.splits)
  have oq: "checkpoint_slot parse lg i fs1 (Suc seq mod 2) = checkpoint_slot parse lg i fs (Suc seq mod 2)"
    using fs_write_other [OF pq [symmetric], of _ fs] w by (intro checkpoint_slot_cong) (simp add: fs_read_file_def, metis snd_conv)
  have read: "checkpoint_read print parse lg i f = Some (print (JArr js))"
    if "checkpoint_slot parse lg i f (seq mod 2) = Some (of_nat seq, JArr js)"
      "\<forall>v tr. checkpoint_slot parse lg i f (Suc seq mod 2) = Some (v, tr) \<longrightarrow> v < of_nat seq" for f
  proof -
    have "seq mod 2 = 0 \<and> Suc seq mod 2 = 1 \<or> seq mod 2 = 1 \<and> Suc seq mod 2 = 0" by presburger
    with that show ?thesis
      by (auto simp: checkpoint_read_def checkpoint_better_def split: option.splits prod.splits)
  qed
  note sp = checkpoint_slot_written [OF rp assms(4)]
  have "checkpoint_read print parse lg i fs1 = Some (print (JArr js))" using assms(7) by (intro read [OF sp]) (simp add: oq)
  moreover have "checkpoint_read print parse lg i (put_node ?q (File torn r) fs1) = Some (print (JArr js))"
    if "checkpoint_slot parse lg i (put_node ?q (File torn r) fs1) (Suc seq mod 2) = None" for torn r
  proof (rule read)
    show "checkpoint_slot parse lg i (put_node ?q (File torn r) fs1) (seq mod 2) = Some (of_nat seq, JArr js)"
      using rp pq by (intro checkpoint_slot_written [OF _ assms(4)]) (simp add: fs_read_file_def)
  qed (simp add: that)
  ultimately show ?thesis by blast
qed


theorem checkpoint_torn_witness:
  "\<exists>print parse lg fs fs1. tasklog_checkpoint print parse lg 5 1 (Some ''t'') fs = (0, fs1) \<and>
     checkpoint_read print parse lg 5 fs1 = Some (print (JArr [])) \<and>
     checkpoint_read print parse lg 5 (put_node (checkpoint_path lg 5 0) (File ''{'' True) fs1) = Some (print (JArr []))"
proof -
  define parse where "parse s = (if s = ''t'' then Some (JArr []) else if s = ''c'' then Some (checkpoint_json 5 1 (JArr [])) else None)" for s
  define print where "print j = ''c''" for j :: json
  define lg where "lg = \<lparr>tl_path = ''j'', tl_states = None\<rparr>"
  define fs where "fs = \<lparr>nodes = [], denied = []\<rparr>"
  have "utf8_valid ''c''"
    by (simp add: utf8_first_def utf8_seq_len_def utf8_conts_def utf8_cp_def utf8_bad_cp_def byte_def)
  then have pb: "prints_back print parse (checkpoint_json 5 1 (JArr []))"
    by (simp add: prints_back_def print_def parse_def del: utf8_valid.simps)
  obtain fs1 where ck: "tasklog_checkpoint print parse lg 5 1 (Some ''t'') fs = (0, fs1)"
    by (simp add: tasklog_checkpoint_def parse_def fs_def fs_write_file_def fs_get_def)
  have empty: "\<forall>b. fs_get fs (checkpoint_path lg 5 (1 mod 2)) \<noteq> Some (File b False)"
    "\<forall>v tr. checkpoint_slot parse lg 5 fs (Suc 1 mod 2) = Some (v, tr) \<longrightarrow> v < of_nat 1"
    by (simp_all add: fs_def fs_get_def checkpoint_slot_def fs_read_file_def Let_def)
  have torn: "checkpoint_slot parse lg 5 (put_node (checkpoint_path lg 5 (Suc 1 mod 2)) (File ''{'' True) fs1) (Suc 1 mod 2) = None"
    by (simp add: checkpoint_slot_def fs_read_file_def c_string_def parse_def Let_def)
  have "parse ''t'' = Some (JArr [])" by (simp add: parse_def)
  from checkpoint_torn [OF _ _ this pb ck empty] torn have
    "checkpoint_read print parse lg 5 fs1 = Some (print (JArr [])) \<and>
     checkpoint_read print parse lg 5 (put_node (checkpoint_path lg 5 0) (File ''{'' True) fs1) = Some (print (JArr []))"
    by (simp add: lg_def)
  with ck show ?thesis by blast
qed

text \<open>The search for a resumable task takes a running one as well.\<close>

lemma find_returns_running:
  assumes "0 \<le> i" "journal_parse parse fs (tl_path lg) 0 (Some i) = Some [JObj [(''id'', JNum (of_int i)), (''status'', JStr ''RUNNING'')]]"
  shows "tasklog_find parse lg i fs = Some (Some ''RUNNING'', None, None, None)"
  using assms by (simp add: tasklog_find_def Let_def)

text \<open>A record that a crash cut off is passed over: with a line of task 3 before it, the next id is 4 whatever id the cut line had.\<close>

lemma torn_record_forgotten:
  assumes "journal_bytes fs (tl_path lg) = Some (l @ [CHR 0x0A] @ torn)" "CHR 0x0A \<notin> set l" "CHR 0x0A \<notin> set torn" "l \<noteq> []"
    "journal_entry parse l = Some j" "recovery_of j = Some r" "journal_entry parse torn = None" "\<not> live_record r"
  shows "tasklog_recover print parse now (lg, fs) = (0, rr_id r + 1, lg, fs)"
proof -
  have "0 \<le> rr_id r" using recovery_of_bounds [OF assms(6)] by simp
  moreover have "journal_lines [] (l @ [CHR 0x0A] @ torn) = l # (if torn = [] then [] else [torn])"
    using assms(2-4) journal_lines_split [of "[]" l torn] by (simp add: journal_lines_plain)
  ultimately show ?thesis
    using assms recover_loop_idle [of "[r]"]
    by (simp add: tasklog_recover_def journal_parse_all List.map_filter_def Let_def next_after_def)
qed

end
