(* ===== verification/FlowStore.thy ===== *)
theory FlowStore
  imports Tasklog
begin

text \<open>
  The registry of flow runs, \<open>src/backend/src/runtime/flow_store.c\<close>: records with ids of their own, one JSON file, and the marking of
  interrupted runs at start-up. Each operation holds the lock and is one step over the store and the file system; \<open>now\<close> is the clock,
  \<open>grow\<close> says whether the array can grow, copies of strings succeed. \<open>print\<close> and \<open>parse\<close> are the printer and parser of the JSON library.
\<close>

section \<open>Records\<close>

record flow_record =
  fr_id :: int
  fr_task_id :: int
  fr_name :: cstr
  fr_input :: cstr
  fr_dag :: cstr
  fr_workspace :: cstr
  fr_automatic :: bool
  fr_status :: cstr
  fr_created_ms :: int
  fr_updated_ms :: int

record flow_store =
  fls_recs :: "flow_record vec"
  fls_next_id :: int
  fls_path :: cstr

definition flow_store_new :: "bool \<Rightarrow> flow_store option" where
  "flow_store_new ok = (if ok then Some \<lparr>fls_recs = vec_new, fls_next_id = 0, fls_path = []\<rparr> else None)"

definition flow_record_json :: "flow_record \<Rightarrow> json" where
  "flow_record_json r =
     JObj [(''id'', JNum (of_int (fr_id r))), (''task_id'', JNum (of_int (fr_task_id r))), (''name'', JStr (fr_name r)),
           (''input'', JStr (fr_input r)), (''dag'', JStr (fr_dag r)), (''workspace'', JStr (fr_workspace r)),
           (''automatic'', JBool (fr_automatic r)), (''status'', JStr (fr_status r)),
           (''created_ms'', JNum (of_int (fr_created_ms r))), (''updated_ms'', JNum (of_int (fr_updated_ms r)))]"

definition flow_file_json :: "flow_store \<Rightarrow> json" where
  "flow_file_json s = JObj [(''records'', JArr (map flow_record_json (elems (fls_recs s))))]"

definition flow_save_locked :: "(json \<Rightarrow> cstr) \<Rightarrow> flow_store \<Rightarrow> fsys \<Rightarrow> fsys" where
  "flow_save_locked print s fs =
     (if fls_path s = [] then fs else snd (fs_write_file (fls_path s) (print (flow_file_json s)) fs))"

definition flow_store_find_id_locked :: "flow_store \<Rightarrow> int \<Rightarrow> nat option" where
  "flow_store_find_id_locked s i = find_index (\<lambda>r. fr_id r = i) (elems (fls_recs s))"

section \<open>Loading\<close>

definition json_num_or :: "int \<Rightarrow> json option \<Rightarrow> int" where
  "json_num_or d j = (case json_num j of None \<Rightarrow> d | Some v \<Rightarrow> to_int64 v)"

definition restored_record :: "json \<Rightarrow> flow_record" where
  "restored_record it =
     (let g = (\<lambda>k. json_get k (Some it)); str = (\<lambda>k. nonnull_or [] (json_string (g k))) in
      \<lparr>fr_id = json_num_or 0 (g ''id''), fr_task_id = json_num_or (-1) (g ''task_id''), fr_name = str ''name'', fr_input = str ''input'',
       fr_dag = str ''dag'', fr_workspace = str ''workspace'', fr_automatic = (g ''automatic'' = Some (JBool True)),
       fr_status = (if json_string (g ''status'') = Some ''RUNNING'' then ''INTERRUPTED'' else nonnull_or ''?'' (json_string (g ''status''))),
       fr_created_ms = json_num_or 0 (g ''created_ms''), fr_updated_ms = json_num_or 0 (g ''updated_ms'')\<rparr>)"

text \<open>The loop over the records of the file; it stops when the array cannot grow.\<close>

fun flow_load_loop :: "(nat \<Rightarrow> bool) \<Rightarrow> json list \<Rightarrow> nat \<Rightarrow> flow_store \<Rightarrow> nat \<times> flow_store" where
  "flow_load_loop grow [] n s = (n, s)"
| "flow_load_loop grow (it # its) n s =
     (let r = restored_record it;
          (r1, s1) = (if fr_id r < 0 \<or> flow_store_find_id_locked s (fr_id r) \<noteq> None
                      then (r\<lparr>fr_id := fls_next_id s\<rparr>, s\<lparr>fls_next_id := fls_next_id s + 1\<rparr>)
                      else if fls_next_id s \<le> fr_id r then (r, s\<lparr>fls_next_id := fr_id r + 1\<rparr>)
                      else (r, s))
      in case vec_push 8 (grow n) r1 (fls_recs s1) of
           None \<Rightarrow> (n, s1)
         | Some v \<Rightarrow> flow_load_loop grow its (n + 1) (s1\<lparr>fls_recs := v\<rparr>))"

definition flow_store_init :: "(json \<Rightarrow> cstr) \<Rightarrow> (cstr \<Rightarrow> json option) \<Rightarrow> (nat \<Rightarrow> bool) \<Rightarrow> cstr option \<Rightarrow>
    flow_store \<times> fsys \<Rightarrow> int \<times> flow_store \<times> fsys" where
  "flow_store_init print parse grow state_root st =
     (case st of (s, fs) \<Rightarrow>
        if nonnull_or [] state_root = [] then (0, s, fs)
        else let s1 = s\<lparr>fls_path := cbuf 600 (the state_root @ ''/flows.json'')\<rparr> in
             case json_get ''records'' (Option.bind (map_option c_string (fs_read_file fs (fls_path s1))) parse) of
               Some (JArr its) \<Rightarrow>
                 (case flow_load_loop grow its 0 s1 of (n, s2) \<Rightarrow> (int n, s2, flow_save_locked print s2 fs))
             | _ \<Rightarrow> (0, s1, fs))"

section \<open>Operations\<close>

definition flow_store_add_ex :: "(json \<Rightarrow> cstr) \<Rightarrow> bool \<Rightarrow> int \<Rightarrow> int \<Rightarrow> cstr option \<Rightarrow> cstr option \<Rightarrow> cstr option \<Rightarrow> cstr option \<Rightarrow> bool \<Rightarrow>
    flow_store \<times> fsys \<Rightarrow> int \<times> flow_store \<times> fsys" where
  "flow_store_add_ex print grow now task_id name input dag_json workspace automatic st =
     (case st of (s, fs) \<Rightarrow>
        if task_id < 0 \<or> nonnull_or [] dag_json = [] then (-1, s, fs)
        else let r = \<lparr>fr_id = fls_next_id s, fr_task_id = task_id, fr_name = nonnull_or [] name, fr_input = nonnull_or [] input,
                      fr_dag = the dag_json, fr_workspace = nonnull_or [] workspace, fr_automatic = automatic, fr_status = ''RUNNING'',
                      fr_created_ms = now, fr_updated_ms = now\<rparr> in
             case vec_push 8 grow r (fls_recs s) of
               None \<Rightarrow> (-1, s, fs)
             | Some v \<Rightarrow> let s1 = s\<lparr>fls_recs := v, fls_next_id := fls_next_id s + 1\<rparr> in (0, s1, flow_save_locked print s1 fs))"

definition flow_store_add :: "(json \<Rightarrow> cstr) \<Rightarrow> bool \<Rightarrow> int \<Rightarrow> int \<Rightarrow> cstr option \<Rightarrow> cstr option \<Rightarrow> cstr option \<Rightarrow>
    flow_store \<times> fsys \<Rightarrow> int \<times> flow_store \<times> fsys" where
  "flow_store_add print grow now task_id name input dag_json st = flow_store_add_ex print grow now task_id name input dag_json None False st"

definition set_rec :: "nat \<Rightarrow> flow_record \<Rightarrow> flow_store \<Rightarrow> flow_store" where
  "set_rec i r s = s\<lparr>fls_recs := (fls_recs s)\<lparr>elems := (elems (fls_recs s))[i := r]\<rparr>\<rparr>"

definition flow_store_mark :: "(json \<Rightarrow> cstr) \<Rightarrow> int \<Rightarrow> int \<Rightarrow> cstr option \<Rightarrow> flow_store \<times> fsys \<Rightarrow> flow_store \<times> fsys" where
  "flow_store_mark print now task_id status st =
     (case st of (s, fs) \<Rightarrow>
        if nonnull_or [] status = [] then (s, fs)
        else case find_index (\<lambda>r. fr_task_id r = task_id) (elems (fls_recs s)) of
               None \<Rightarrow> (s, fs)
             | Some i \<Rightarrow>
                 let s1 = set_rec i ((elems (fls_recs s) ! i)\<lparr>fr_status := the status, fr_updated_ms := now\<rparr>) s
                 in (s1, flow_save_locked print s1 fs))"


definition flow_store_find :: "flow_store \<Rightarrow> int \<Rightarrow> flow_record option" where
  "flow_store_find s i = map_option (\<lambda>n. elems (fls_recs s) ! n) (flow_store_find_id_locked s i)"

definition flow_store_count :: "flow_store \<Rightarrow> nat" where
  "flow_store_count s = length (elems (fls_recs s))"

definition flow_store_at :: "flow_store \<Rightarrow> nat \<Rightarrow> flow_record option" where
  "flow_store_at s i = (if i < length (elems (fls_recs s)) then Some (elems (fls_recs s) ! i) else None)"

definition flow_store_json :: "(json \<Rightarrow> cstr) \<Rightarrow> flow_store option \<Rightarrow> cstr" where
  "flow_store_json print s =
     (case s of None \<Rightarrow> ''[]'' | Some t \<Rightarrow> print (JArr (map flow_record_json (rev (elems (fls_recs t))))))"

section \<open>Ids are unique\<close>

definition flow_store_ok :: "flow_store \<Rightarrow> bool" where
  "flow_store_ok s \<longleftrightarrow> distinct (map fr_id (elems (fls_recs s))) \<and> (\<forall>r \<in> set (elems (fls_recs s)). 0 \<le> fr_id r \<and> fr_id r < fls_next_id s) \<and>
     0 \<le> fls_next_id s"

lemma find_id_None: "flow_store_find_id_locked s i = None \<longleftrightarrow> i \<notin> fr_id ` set (elems (fls_recs s))"
  by (auto simp: flow_store_find_id_locked_def find_index_None_iff)









section \<open>A restart\<close>

definition interrupted :: "flow_record \<Rightarrow> flow_record" where
  "interrupted r = (if fr_status r = ''RUNNING'' then r\<lparr>fr_status := ''INTERRUPTED''\<rparr> else r)"

lemma to_int64_of_int [simp]: "to_int64 (of_int i) = i"
  by (simp add: to_int64_def)

lemma restored_of_json: "restored_record (flow_record_json r) = interrupted r"
  by (simp add: restored_record_def flow_record_json_def interrupted_def json_num_or_def nonnull_or_def Let_def)

lemma interrupted_id [simp]: "fr_id (interrupted r) = fr_id r"
  by (simp add: interrupted_def)

lemma flow_load_records:
  assumes "distinct (map fr_id (elems (fls_recs s) @ rs))" "\<forall>r \<in> set rs. 0 \<le> fr_id r" "\<And>n. grow n"
    "flow_load_loop grow (map flow_record_json rs) n s = (m, s')"
  shows "elems (fls_recs s') = elems (fls_recs s) @ map interrupted rs \<and> m = n + length rs \<and> fls_path s' = fls_path s"
  using assms(1,2,4)
proof (induction rs arbitrary: n s)
  case (Cons r rs)
  have new: "flow_store_find_id_locked s (fr_id r) = None" using Cons.prems(1) by (auto simp: find_id_None)
  obtain v where v: "vec_push 8 (grow n) (interrupted r) (fls_recs s) = Some v"
    using vec_push_ok_Some [of 8 "interrupted r" "fls_recs s"] assms(3) by fastforce
  note e = vec_push_elems [OF v]
  define s1 where "s1 = s\<lparr>fls_next_id := (if fls_next_id s \<le> fr_id r then fr_id r + 1 else fls_next_id s), fls_recs := v\<rparr>"
  have "flow_load_loop grow (map flow_record_json (r # rs)) n s = flow_load_loop grow (map flow_record_json rs) (n + 1) s1"
    using new v Cons.prems(2) by (auto simp: restored_of_json s1_def Let_def)
  with Cons.IH [of s1 "n + 1"] Cons.prems e show ?case by (auto simp: s1_def)
qed simp

text \<open>C32: A store that loads the file another one last wrote has its records in order, every run that was RUNNING marked
  INTERRUPTED and all else unchanged, and the file now says so too.\<close>

theorem flow_store_restart:
  assumes "flow_store_ok s" "p = cbuf 600 (the root_dir @ ''/flows.json'')" "nonnull_or [] root_dir \<noteq> []"
    and "fs_get fs p = Some (File (print (flow_file_json s)) True)" "p \<notin> set (denied fs)"
    and "CHR 0x00 \<notin> set (print (flow_file_json s))" "parse (print (flow_file_json s)) = Some (flow_file_json s)"
    and "\<And>n. grow n" "flow_store_new True = Some s0"
  shows "\<exists>s' fs'. flow_store_init print parse grow root_dir (s0, fs) = (int (length (elems (fls_recs s))), s', fs') \<and>
    elems (fls_recs s') = map interrupted (elems (fls_recs s)) \<and> (\<forall>r \<in> set (elems (fls_recs s')). fr_status r \<noteq> ''RUNNING'') \<and>
    fs_read_file fs' p = Some (print (flow_file_json s'))"
proof -
  let ?rs = "elems (fls_recs s)" and ?s1 = "s0\<lparr>fls_path := p\<rparr>"
  have s0: "elems (fls_recs s0) = []" using assms(9) by (auto simp: flow_store_new_def)
  obtain n s' where l: "flow_load_loop grow (map flow_record_json ?rs) 0 ?s1 = (n, s')" by fastforce
  have g: "elems (fls_recs s') = map interrupted ?rs" "n = length ?rs" "fls_path s' = p"
    using flow_load_records [of ?s1 ?rs grow 0 n s'] assms(1,8) l s0 by (auto simp: flow_store_ok_def)
  have pne: "p \<noteq> []" unfolding assms(2) by (simp add: cbuf_def)
  have "json_get ''records'' (Option.bind (map_option c_string (fs_read_file fs p)) parse) = Some (JArr (map flow_record_json ?rs))"
    using assms(4,6,7) by (simp add: fs_read_file_def c_string_id) (simp add: flow_file_json_def)
  then have "flow_store_init print parse grow root_dir (s0, fs) = (int (length ?rs), s', flow_save_locked print s' fs)"
    using assms(2,3) l g(2) by (simp add: flow_store_init_def Let_def)
  moreover have "fs_read_file (flow_save_locked print s' fs) p = Some (print (flow_file_json s'))"
    using assms(4,5) g(3) pne by (simp add: flow_save_locked_def fs_write_file_def fs_read_file_def)
  ultimately show ?thesis using g(1) by (auto simp: interrupted_def)
qed


definition demo_flow :: flow_record where
  "demo_flow = \<lparr>fr_id = 4, fr_task_id = 9, fr_name = ''n'', fr_input = [], fr_dag = ''{}'', fr_workspace = [], fr_automatic = False,
     fr_status = ''RUNNING'', fr_created_ms = 1, fr_updated_ms = 1\<rparr>"

theorem flow_store_restart_witness:
  "\<exists>print parse s' fs'. flow_store_init print parse (\<lambda>_. True) (Some ''s'')
      (\<lparr>fls_recs = vec_new, fls_next_id = 0, fls_path = []\<rparr>, \<lparr>nodes = [(''s/flows.json'', File ''t'' True)], denied = []\<rparr>) = (1, s', fs') \<and>
    elems (fls_recs s') = [interrupted demo_flow]"
proof -
  define s where "s = \<lparr>fls_recs = \<lparr>elems = [demo_flow], vcap = 8\<rparr>, fls_next_id = 5, fls_path = ''s/flows.json''\<rparr>"
  define print where "print j = ''t''" for j :: json
  define parse where "parse t = Some (flow_file_json s)" for t :: cstr
  let ?fs = "\<lparr>nodes = [(''s/flows.json'', File ''t'' True)], denied = []\<rparr>"
  have "\<exists>s' fs'. flow_store_init print parse (\<lambda>_. True) (Some ''s'') (\<lparr>fls_recs = vec_new, fls_next_id = 0, fls_path = []\<rparr>, ?fs) =
      (int (length (elems (fls_recs s))), s', fs') \<and> elems (fls_recs s') = map interrupted (elems (fls_recs s)) \<and>
      (\<forall>r \<in> set (elems (fls_recs s')). fr_status r \<noteq> ''RUNNING'') \<and> fs_read_file fs' ''s/flows.json'' = Some (print (flow_file_json s'))"
    by (rule flow_store_restart)
       (simp_all add: s_def print_def parse_def flow_store_ok_def demo_flow_def cbuf_def nonnull_or_def fs_get_def flow_store_new_def)
  then show ?thesis by (auto simp: s_def)
qed


text \<open>Marking takes the first record of a task id: with a restored record of that id before it, the live run keeps its status.\<close>

lemma mark_hits_older:
  assumes "elems (fls_recs s) = [old, live]" "fr_task_id old = t" "fr_task_id live = t"
  shows "elems (fls_recs (fst (flow_store_mark print now t (Some ''DONE'') (s, fs)))) = [old\<lparr>fr_status := ''DONE'', fr_updated_ms := now\<rparr>, live]"
  using assms by (simp add: flow_store_mark_def Let_def nonnull_or_def set_rec_def)

text \<open>When the array cannot grow while loading, the file is overwritten with the records loaded so far.\<close>

lemma load_failure_drops:
  assumes "fs_get fs ''s/flows.json'' = Some (File b True)" "''s/flows.json'' \<notin> set (denied fs)"
    "parse (c_string b) = Some (JObj [(''records'', JArr [flow_record_json r])])" "flow_store_new True = Some s0"
  shows "\<exists>s' fs'. flow_store_init print parse (\<lambda>_. False) (Some ''s'') (s0, fs) = (0, s', fs') \<and> elems (fls_recs s') = [] \<and>
    fs_read_file fs' ''s/flows.json'' = Some (print (flow_file_json s'))"
proof -
  let ?s1 = "s0\<lparr>fls_path := ''s/flows.json''\<rparr>"
  have s0: "s0 = \<lparr>fls_recs = vec_new, fls_next_id = 0, fls_path = []\<rparr>" using assms(4) by (simp add: flow_store_new_def)
  obtain n s' where l: "flow_load_loop (\<lambda>_. False) [flow_record_json r] 0 ?s1 = (n, s')" by fastforce
  then have s': "n = 0" "elems (fls_recs s') = []" "fls_path s' = ''s/flows.json''"
    by (auto simp: s0 vec_push_def vec_new_def Let_def split: if_splits prod.splits)
  have "flow_store_init print parse (\<lambda>_. False) (Some ''s'') (s0, fs) = (0, s', flow_save_locked print s' fs)"
    using assms(1,3) l s'(1) by (simp add: flow_store_init_def nonnull_or_def cbuf_def fs_read_file_def Let_def)
  moreover have "fs_read_file (flow_save_locked print s' fs) ''s/flows.json'' = Some (print (flow_file_json s'))"
    using assms(1,2) s'(3) by (simp add: flow_save_locked_def fs_write_file_def fs_read_file_def)
  ultimately show ?thesis using s'(2) by blast
qed

text \<open>A file that does not parse counts as empty, and the first run added overwrites it.\<close>

lemma corrupt_file_overwritten:
  assumes "fs_get fs ''s/flows.json'' = Some (File b True)" "''s/flows.json'' \<notin> set (denied fs)" "parse (c_string b) = None" "flow_store_new True = Some s0"
  shows "\<exists>s'. flow_store_init print parse grow (Some ''s'') (s0, fs) = (0, s', fs) \<and> elems (fls_recs s') = [] \<and> fls_path s' = ''s/flows.json''"
  using assms by (auto simp: flow_store_init_def nonnull_or_def cbuf_def fs_read_file_def flow_store_new_def Let_def)

end
