(* ===== verification/SecretBoundary.thy ===== *)
theory SecretBoundary
  imports Tools
begin

text \<open>
  The guards at the border to the language model, \<open>src/backend/src/security/secret_boundary.c\<close>, and the audit file they write,
  \<open>src/backend/src/infra/audit.c\<close>: mode, counters and sinks, the guards of whole messages, and the filter of a stream that holds back
  a tail. The registry of passwords is fixed during one call; every match of its scan has severity high and the kind
  \<open>ssh_password\<close>. The parameters \<open>mem\<close> say whether the allocations of a step succeed.
\<close>

section \<open>The audit file\<close>

definition dq :: cstr where
  "dq = [CHR 0x22]"

definition audit_escape :: "cstr \<Rightarrow> cstr" where
  "audit_escape s =
     concat (map (\<lambda>c. if c = CHR 0x22 then [CHR 0x5C, CHR 0x22] else if c = CHR 0x5C then [CHR 0x5C, CHR 0x5C]
                     else if c = CHR 0x0A then [CHR 0x5C, CHR ''n''] else if c = CHR 0x09 then [CHR 0x5C, CHR ''t''] else [c]) s)"

text \<open>A line of the file, with its end.\<close>

definition audit_line :: "cstr \<Rightarrow> cstr option \<Rightarrow> cstr option \<Rightarrow> cstr option \<Rightarrow> cstr option \<Rightarrow> cstr" where
  "audit_line ts action subject result detail_json =
     (let d = nonnull_or [] detail_json;
          detail = (if CHR 0x0A \<in> set d \<or> CHR 0x09 \<in> set d \<or> CHR 0x22 \<in> set d then audit_escape d else d);
          field = (\<lambda>k v. dq @ k @ dq @ '':'' @ dq @ nonnull_or [] v @ dq @ '','')
      in ''{'' @ field ''ts'' (Some (cbuf 40 ts)) @ field ''action'' action @ field ''subject'' subject @ field ''result'' result
         @ dq @ ''detail'' @ dq @ '':'' @ detail @ ''}'' @ [CHR 0x0A])"

text \<open>An open audit file is the bytes appended to it.\<close>

definition audit_open :: "bool \<Rightarrow> cstr option" where
  "audit_open mem = (if mem then Some [] else None)"

definition audit_log :: "cstr \<Rightarrow> cstr option \<Rightarrow> cstr option \<Rightarrow> cstr option \<Rightarrow> cstr option \<Rightarrow> cstr option \<Rightarrow> cstr option" where
  "audit_log ts action subject result detail_json a = map_option (\<lambda>b. b @ audit_line ts action subject result detail_json) a"

section \<open>Mode, sinks and counters\<close>

record boundary =
  bd_strict :: bool
  bd_audit :: "cstr option"
  bd_metrics :: "metrics option"
  bd_scans :: int
  bd_low :: int
  bd_medium :: int
  bd_high :: int
  bd_redactions :: int
  bd_blocked :: int

definition boundary_init :: boundary where
  "boundary_init = \<lparr>bd_strict = False, bd_audit = None, bd_metrics = None, bd_scans = 0, bd_low = 0, bd_medium = 0, bd_high = 0,
     bd_redactions = 0, bd_blocked = 0\<rparr>"

definition counter_add :: "int \<Rightarrow> int \<Rightarrow> int \<Rightarrow> int \<Rightarrow> int \<Rightarrow> int \<Rightarrow> boundary \<Rightarrow> boundary" where
  "counter_add scans sev_low sev_medium sev_high redacted blocked b =
     b\<lparr>bd_scans := bd_scans b + scans, bd_low := bd_low b + sev_low, bd_medium := bd_medium b + sev_medium, bd_high := bd_high b + sev_high,
       bd_redactions := bd_redactions b + redacted, bd_blocked := bd_blocked b + blocked\<rparr>"

definition count_metric :: "cstr \<Rightarrow> boundary \<Rightarrow> boundary" where
  "count_metric name b = b\<lparr>bd_metrics := map_option (\<lambda>m. metrics_inc m name) (bd_metrics b)\<rparr>"

text \<open>All \<open>n\<close> matches are high.\<close>

definition audit_detail :: "cstr \<Rightarrow> nat \<Rightarrow> cstr" where
  "audit_detail bnd n =
     cbuf 256 (''{'' @ dq @ ''boundary'' @ dq @ '':'' @ dq @ bnd @ dq @ '','' @ dq @ ''high'' @ dq @ '':'' @ nat_str n @ '','' @ dq @ ''medium'' @ dq @ '':0}'')"

definition audit_scan :: "cstr \<Rightarrow> cstr \<Rightarrow> nat \<Rightarrow> boundary \<Rightarrow> boundary" where
  "audit_scan ts bnd n b =
     (if bd_audit b = None \<or> n = 0 then b
      else count_metric ''secret_detect_high_total''
             (b\<lparr>bd_audit := audit_log ts (Some ''secret.detect'') (Some ''ssh_password'') (Some ''high'') (Some (audit_detail bnd n)) (bd_audit b)\<rparr>))"

definition secret_set_mode :: "cstr option \<Rightarrow> boundary \<Rightarrow> int \<times> boundary" where
  "secret_set_mode mode b =
     (let m = nonnull_or [] mode in
      if m = [] \<or> m = ''passthrough'' then (0, b\<lparr>bd_strict := False\<rparr>)
      else if m = ''strict'' then (0, b\<lparr>bd_strict := True\<rparr>) else (-1, b))"

definition secret_mode :: "boundary \<Rightarrow> cstr" where
  "secret_mode b = (if bd_strict b then ''strict'' else ''passthrough'')"

definition secret_audit_close :: "boundary \<Rightarrow> boundary" where
  "secret_audit_close b = b\<lparr>bd_audit := None\<rparr>"

definition secret_audit_open :: "bool \<Rightarrow> cstr option \<Rightarrow> boundary \<Rightarrow> boundary" where
  "secret_audit_open mem path b =
     (let b1 = secret_audit_close b in if nonnull_or [] path = [] then b1 else b1\<lparr>bd_audit := audit_open mem\<rparr>)"

definition secret_metrics_bind :: "metrics option \<Rightarrow> boundary \<Rightarrow> boundary" where
  "secret_metrics_bind m b = b\<lparr>bd_metrics := m\<rparr>"

definition secret_stats :: "boundary \<Rightarrow> cstr \<times> int \<times> int \<times> int \<times> int \<times> int \<times> int" where
  "secret_stats b = (secret_mode b, bd_scans b, bd_low b, bd_medium b, bd_high b, bd_redactions b, bd_blocked b)"

definition secret_stats_reset :: "boundary \<Rightarrow> boundary" where
  "secret_stats_reset b = b\<lparr>bd_scans := 0, bd_low := 0, bd_medium := 0, bd_high := 0, bd_redactions := 0, bd_blocked := 0\<rparr>"

section \<open>Whole messages\<close>

text \<open>Whether a password was found in one of the contents, and the books.\<close>

fun llm_input_loop :: "bool \<Rightarrow> cstr list \<Rightarrow> cstr \<Rightarrow> cstr option list \<Rightarrow> bool \<times> boundary \<Rightarrow> bool \<times> boundary" where
  "llm_input_loop mem ps ts [] st = st"
| "llm_input_loop mem ps ts (c # cs) (worst, b) =
     (let txt = nonnull_or [] c in
      case secret_scan_ssh_passwords mem ps txt of
        Some ms \<Rightarrow>
          if txt = [] \<or> ms = [] then llm_input_loop mem ps ts cs (worst, b)
          else llm_input_loop mem ps ts cs (True, counter_add 1 1 1 1 0 0 (audit_scan ts ''llm_input'' (length ms) b))
      | None \<Rightarrow> llm_input_loop mem ps ts cs (worst, b))"

definition secret_guard_llm_input :: "bool \<Rightarrow> cstr list \<Rightarrow> cstr \<Rightarrow> cstr option list \<Rightarrow> boundary \<Rightarrow> int \<times> boundary" where
  "secret_guard_llm_input mem ps ts contents b =
     (case llm_input_loop mem ps ts contents (False, b) of
        (worst, b1) \<Rightarrow>
          if bd_strict b1 \<and> worst then (-1, count_metric ''secret_blocked_total'' (counter_add 0 0 0 0 0 1 b1)) else (0, b1))"

text \<open>Whether something was replaced, and the text.\<close>

fun untrusted_from :: "cstr \<Rightarrow> nat \<Rightarrow> secret_match list \<Rightarrow> bool \<times> cstr" where
  "untrusted_from text pos [] = (False, drop pos text)"
| "untrusted_from text pos (m # ms) =
     (if ms_end m \<le> ms_start m \<or> ms_start m < pos then untrusted_from text pos ms
      else (True, take (ms_start m - pos) (drop pos text) @ ''[REDACTED:ssh_password]'' @ snd (untrusted_from text (ms_end m) ms)))"

definition redact_untrusted_matches :: "cstr \<Rightarrow> secret_match list \<Rightarrow> cstr option" where
  "redact_untrusted_matches text ms = (case untrusted_from text 0 ms of (changed, out1) \<Rightarrow> if changed then Some out1 else None)"

definition filter_failed :: cstr where
  "filter_failed = ''[SSH password filtering failed]''"

definition secret_guard_llm_output :: "bool \<Rightarrow> cstr list \<Rightarrow> cstr \<Rightarrow> cstr option \<Rightarrow> boundary \<Rightarrow> cstr option \<times> boundary" where
  "secret_guard_llm_output mem ps ts content b =
     (let txt = nonnull_or [] content in
      if txt = [] then (content, b)
      else case secret_scan_ssh_passwords mem ps txt of
             None \<Rightarrow> (Some filter_failed, b)
           | Some ms \<Rightarrow>
               if ms = [] then (content, b)
               else let b1 = counter_add 1 1 1 1 0 0 (audit_scan ts ''llm_output'' (length ms) b) in
                    (case redact_untrusted_matches txt ms of
                       None \<Rightarrow> (content, b1)
                     | Some clean \<Rightarrow> (Some clean, count_metric ''secret_redactions_total'' (counter_add 0 0 0 0 1 0 b1))))"

section \<open>Streams\<close>

definition GUARD_TAIL :: nat where
  "GUARD_TAIL = 6145"

text \<open>\<open>sg_sent\<close>: what the consumer was called with.\<close>

record stream_guard =
  sg_inner :: bool
  sg_hold :: cstr
  sg_sent :: "cstr list"

definition secret_stream_guard_new :: "bool \<Rightarrow> bool \<Rightarrow> stream_guard option" where
  "secret_stream_guard_new mem inner = (if mem then Some \<lparr>sg_inner = inner, sg_hold = [], sg_sent = []\<rparr> else None)"

definition send :: "cstr \<Rightarrow> stream_guard \<Rightarrow> stream_guard" where
  "send s g = (if sg_inner g then g\<lparr>sg_sent := sg_sent g @ [s]\<rparr> else g)"

definition guard_carry :: "cstr list \<Rightarrow> nat" where
  "guard_carry ps =
     (let n = secret_ssh_password_max_length ps; n1 = (if n \<noteq> 0 \<and> n < 32 then 32 else n) in if n1 \<noteq> 0 then n1 - 1 else 0)"

text \<open>A match across the cut is sent whole.\<close>

definition extend_cut :: "secret_match \<Rightarrow> nat \<Rightarrow> nat" where
  "extend_cut m cp = (if ms_start m < cp \<and> cp < ms_end m then ms_end m else cp)"

definition guard_cut :: "cstr list \<Rightarrow> nat \<Rightarrow> secret_match list \<Rightarrow> nat" where
  "guard_cut ps wlen ms = fold extend_cut ms (if guard_carry ps < wlen then wlen - guard_carry ps else 0)"

text \<open>\<open>mem\<close> scans, \<open>okp\<close> copies the prefix, \<open>okr\<close> redacts it.\<close>

definition guard_emit_window :: "bool \<Rightarrow> bool \<Rightarrow> bool \<Rightarrow> cstr list \<Rightarrow> cstr \<Rightarrow> cstr \<Rightarrow> stream_guard \<times> boundary \<Rightarrow> stream_guard \<times> boundary" where
  "guard_emit_window mem okp okr ps ts window st =
     (case st of (g, b) \<Rightarrow>
        case secret_scan_ssh_passwords mem ps window of
          None \<Rightarrow> ((send filter_failed g)\<lparr>sg_hold := []\<rparr>, b)
        | Some ms \<Rightarrow>
            let cp = guard_cut ps (length window) ms;
                b1 = (if ms \<noteq> [] then counter_add 1 1 1 1 1 0 (audit_scan ts ''llm_stream'' (length ms) b) else b);
                out1 = (if okp then secret_redact_ssh_passwords okr ps (take cp window) None else None);
                g1 = (if cp \<noteq> 0 then send (case out1 of None \<Rightarrow> filter_failed | Some s \<Rightarrow> s) g else g)
            in (g1\<lparr>sg_hold := drop cp window\<rparr>, b1))"

definition secret_stream_guard_cb :: "bool \<Rightarrow> bool \<Rightarrow> bool \<Rightarrow> bool \<Rightarrow> cstr list \<Rightarrow> cstr \<Rightarrow> cstr option \<Rightarrow>
    stream_guard \<times> boundary \<Rightarrow> stream_guard \<times> boundary" where
  "secret_stream_guard_cb okw mem okp okr ps ts delta st =
     (case st of (g, b) \<Rightarrow>
        if delta = None \<or> \<not> sg_inner g \<or> the delta = [] then (g, b)
        else if \<not> okw then ((send filter_failed g)\<lparr>sg_hold := []\<rparr>, b)
        else guard_emit_window mem okp okr ps ts (sg_hold g @ the delta) (g, b))"

text \<open>The end of the stream; the result is what was sent.\<close>

definition secret_stream_guard_free :: "bool \<Rightarrow> bool \<Rightarrow> cstr list \<Rightarrow> cstr \<Rightarrow> stream_guard \<times> boundary \<Rightarrow> cstr list \<times> boundary" where
  "secret_stream_guard_free mem okr ps ts st =
     (case st of (g, b) \<Rightarrow>
        if sg_hold g = [] \<or> \<not> sg_inner g then (sg_sent g, b)
        else case secret_scan_ssh_passwords mem ps (sg_hold g) of
               None \<Rightarrow> (sg_sent (send filter_failed g), b)
             | Some ms \<Rightarrow>
                 if ms = [] then (sg_sent (send (sg_hold g) g), b)
                 else (sg_sent (send (case secret_redact_ssh_passwords okr ps (sg_hold g) None of None \<Rightarrow> filter_failed | Some s \<Rightarrow> s) g),
                       counter_add 1 1 1 1 0 0 (audit_scan ts ''llm_stream'' (length ms) b)))"


section \<open>What a scan covers\<close>

lemma merge_match_covered:
  assumes "\<forall>k \<in> set kept. \<forall>x. ms_start k \<le> x \<longrightarrow> x < ms_end k \<longrightarrow> C x" "\<forall>x. ms_start m \<le> x \<longrightarrow> x < ms_end m \<longrightarrow> C x"
  shows "\<forall>k \<in> set (merge_match kept m). \<forall>x. ms_start k \<le> x \<longrightarrow> x < ms_end k \<longrightarrow> C x"
proof (cases "kept \<noteq> [] \<and> ms_start m < ms_end (last kept) \<and> ms_end (last kept) < ms_end m")
  case True
  then obtain ks k where k: "kept = ks @ [k]" by (metis append_butlast_last_id)
  have "C x" if "ms_start k \<le> x" "x < ms_end m" for x
    using assms that True by (cases "x < ms_end k") (auto simp: k)
  with True assms show ?thesis by (auto simp: merge_match_def k)
qed (use assms in \<open>auto simp: merge_match_def\<close>)

lemma merge_all_covered:
  assumes "\<forall>k \<in> set kept. \<forall>x. ms_start k \<le> x \<longrightarrow> x < ms_end k \<longrightarrow> C x" "\<forall>m \<in> set ms. \<forall>x. ms_start m \<le> x \<longrightarrow> x < ms_end m \<longrightarrow> C x"
  shows "\<forall>k \<in> set (foldl merge_match kept ms). \<forall>x. ms_start k \<le> x \<longrightarrow> x < ms_end k \<longrightarrow> C x"
  using assms
proof (induction ms arbitrary: kept)
  case (Cons m ms)
  have "\<forall>k \<in> set (merge_match kept m). \<forall>x. ms_start k \<le> x \<longrightarrow> x < ms_end k \<longrightarrow> C x"
    using Cons.prems by (intro merge_match_covered) auto
  with Cons.IH [of "merge_match kept m"] Cons.prems(2) show ?case by simp
qed simp

definition raw_match :: "cstr list \<Rightarrow> cstr \<Rightarrow> secret_match \<Rightarrow> bool" where
  "raw_match ps text q \<longleftrightarrow> (\<exists>p \<in> set ps. q \<in> set (password_matches text p))"

lemma scan_covers:
  assumes ne: "\<forall>p \<in> set ps. p \<noteq> []" and s: "secret_scan_ssh_passwords mem ps text = Some ms"
  shows "raw_match ps text q \<Longrightarrow> \<exists>k \<in> set ms. ms_start k \<le> ms_start q \<and> ms_end q \<le> ms_end k"
    and "k \<in> set ms \<Longrightarrow> ms_start k \<le> x \<Longrightarrow> x < ms_end k \<Longrightarrow> \<exists>q. raw_match ps text q \<and> ms_start q \<le> x \<and> x < ms_end q"
proof -
  let ?all = "sort_key match_key (concat (map (password_matches text) ps))"
  have all: "q \<in> set ?all \<longleftrightarrow> raw_match ps text q" for q by (auto simp: raw_match_def)
  have "sorted (map match_key ?all)" by (rule sorted_sort_key)
  then have "sorted (map ms_start ?all)"
    by (simp add: sorted_map match_key_def) (erule sorted_wrt_mono_rel [rotated], auto)
  moreover have "\<forall>m \<in> set ?all. ms_start m < ms_end m" using ne by (force dest: matches_bounds)
  ultimately have m: "\<forall>m \<in> set ?all. \<exists>k \<in> set (foldl merge_match [] ?all). spans k m" using merge_all [of "[]" ?all] by simp
  have c: "\<forall>k \<in> set (foldl merge_match [] ?all). \<forall>x. ms_start k \<le> x \<longrightarrow> x < ms_end k \<longrightarrow> (\<exists>q \<in> set ?all. ms_start q \<le> x \<and> x < ms_end q)"
    by (rule merge_all_covered) auto
  have no_text: "password_matches [] p = []" if "p \<in> set ps" for p using ne that by (auto simp: password_matches_def)
  have "ms = foldl merge_match [] ?all"
  proof (cases "text = []")
    case True
    then have "ms = []" using s by (simp add: secret_scan_ssh_passwords_def)
    moreover have c: "concat (map (password_matches text) ps) = []" using no_text True by simp
    ultimately show ?thesis unfolding c by simp
  qed (use s in \<open>auto simp: secret_scan_ssh_passwords_def Let_def split: if_splits\<close>)
  then show "raw_match ps text q \<Longrightarrow> \<exists>k \<in> set ms. ms_start k \<le> ms_start q \<and> ms_end q \<le> ms_end k"
    "k \<in> set ms \<Longrightarrow> ms_start k \<le> x \<Longrightarrow> x < ms_end k \<Longrightarrow> \<exists>q. raw_match ps text q \<and> ms_start q \<le> x \<and> x < ms_end q"
    using m c all by (auto simp: spans_def) blast+
qed

lemma raw_match_bounds: "raw_match ps text q \<Longrightarrow> ms_end q \<le> length text"
  by (auto simp: raw_match_def dest: matches_bounds)

lemma chain_nonempty: "chain pos ms \<Longrightarrow> k \<in> set ms \<Longrightarrow> ms_start k < ms_end k"
  by (induction ms arbitrary: pos) auto

lemma scan_bounds:
  assumes "\<forall>p \<in> set ps. p \<noteq> []" "secret_scan_ssh_passwords mem ps text = Some ms" "k \<in> set ms"
  shows "ms_end k \<le> length text"
proof -
  have "ms_start k < ms_end k" using chain_nonempty [OF scan_spec(1) [OF assms(1,2)] assms(3)] .
  then have "ms_start k \<le> ms_end k - 1" "ms_end k - 1 < ms_end k" by simp_all
  from scan_covers(2) [OF assms(1,2,3) this] obtain q where "raw_match ps text q" "ms_end k - 1 < ms_end q" by blast
  with raw_match_bounds show ?thesis by fastforce
qed

text \<open>The spans of a scan keep apart.\<close>

lemma chain_apart: "chain pos ms \<Longrightarrow> k \<in> set ms \<Longrightarrow> m \<in> set ms \<Longrightarrow> k = m \<or> ms_end k \<le> ms_start m \<or> ms_end m \<le> ms_start k"
proof (induction ms arbitrary: pos)
  case (Cons a ms)
  then show ?case using chain_ge [of "ms_end a" ms] by auto
qed simp

section \<open>The cut\<close>

text \<open>The cut is the first one or the end of a match across it, and no match lies across the final cut.\<close>

lemma extend_cuts_beyond: "\<forall>m \<in> set ms. cp \<le> ms_start m \<Longrightarrow> fold extend_cut ms cp = cp"
  by (induction ms) (auto simp: extend_cut_def)

lemma extend_cuts:
  assumes "chain pos ms"
  shows "(fold extend_cut ms cp = cp \<or> (\<exists>m \<in> set ms. ms_start m < cp \<and> cp < ms_end m \<and> fold extend_cut ms cp = ms_end m)) \<and>
    (\<forall>m \<in> set ms. ms_end m \<le> fold extend_cut ms cp \<or> fold extend_cut ms cp \<le> ms_start m)"
  using assms
proof (induction ms arbitrary: pos)
  case (Cons a ms)
  then have IH: "fold extend_cut ms cp = cp \<or> (\<exists>m \<in> set ms. ms_start m < cp \<and> cp < ms_end m \<and> fold extend_cut ms cp = ms_end m)"
    "\<forall>m \<in> set ms. ms_end m \<le> fold extend_cut ms cp \<or> fold extend_cut ms cp \<le> ms_start m" by auto
  show ?case
  proof (cases "ms_start a < cp \<and> cp < ms_end a")
    case True
    have "\<forall>m \<in> set ms. ms_end a \<le> ms_start m" using Cons.prems chain_ge by auto
    then have "fold extend_cut (a # ms) cp = ms_end a" using True by (simp add: extend_cut_def [of a] extend_cuts_beyond)
    with True \<open>\<forall>m \<in> set ms. ms_end a \<le> ms_start m\<close> show ?thesis by auto
  next
    case False
    have after: "ms_end a \<le> ms_start m" if "m \<in> set ms" for m using Cons.prems that chain_ge by auto
    have "ms_end a \<le> fold extend_cut ms cp \<or> fold extend_cut ms cp \<le> ms_start a"
    proof (cases "fold extend_cut ms cp = cp")
      case True
      with False Cons.prems show ?thesis by auto
    next
      case ext: False
      with IH(1) obtain m where "m \<in> set ms" "fold extend_cut ms cp = ms_end m" "cp < ms_end m" by blast
      moreover have "ms_start m < ms_end m" using Cons.prems chain_nonempty [of "ms_end a" ms m] \<open>m \<in> set ms\<close> by simp
      ultimately show ?thesis using after [of m] by simp
    qed
    moreover have "fold extend_cut (a # ms) cp = fold extend_cut ms cp" using False by (auto simp: extend_cut_def [of a])
    ultimately show ?thesis using IH by auto
  qed
qed simp

lemma max_length_ge: "p \<in> set ps \<Longrightarrow> length p \<le> secret_ssh_password_max_length ps"
proof -
  have "n \<le> foldl (\<lambda>n p. if n < length p then length p else n) n ps \<and>
      (\<forall>p \<in> set ps. length p \<le> foldl (\<lambda>n p. if n < length p then length p else n) n ps)" for n and ps :: "cstr list"
  proof (induction ps arbitrary: n)
    case (Cons q ps)
    from Cons [of "if n < length q then length q else n"] show ?case by (auto split: if_splits)
  qed simp
  then show "p \<in> set ps \<Longrightarrow> length p \<le> secret_ssh_password_max_length ps" by (simp add: secret_ssh_password_max_length_def)
qed

lemma max_length_le: "\<forall>p \<in> set ps. length p \<le> k \<Longrightarrow> secret_ssh_password_max_length ps \<le> k"
proof -
  have "n \<le> k \<Longrightarrow> \<forall>p \<in> set ps. length p \<le> k \<Longrightarrow> foldl (\<lambda>n p. if n < length p then length p else n) n ps \<le> k" for n
    by (induction ps arbitrary: n) auto
  then show "\<forall>p \<in> set ps. length p \<le> k \<Longrightarrow> secret_ssh_password_max_length ps \<le> k" by (simp add: secret_ssh_password_max_length_def)
qed

lemma carry_ge: "p \<in> set ps \<Longrightarrow> length p \<le> guard_carry ps + 1"
  using max_length_ge [of p ps] by (auto simp: guard_carry_def Let_def)

lemma guard_cut_le:
  assumes "\<forall>p \<in> set ps. p \<noteq> []" "secret_scan_ssh_passwords mem ps w = Some ms"
  shows "guard_cut ps (length w) ms \<le> length w" and "length w - guard_cut ps (length w) ms \<le> guard_carry ps"
proof -
  let ?c0 = "if guard_carry ps < length w then length w - guard_carry ps else 0"
  have "fold extend_cut ms ?c0 = ?c0 \<or> (\<exists>m \<in> set ms. ?c0 < ms_end m \<and> fold extend_cut ms ?c0 = ms_end m)"
    using extend_cuts [OF scan_spec(1) [OF assms], of ?c0] by blast
  moreover have "ms_end m \<le> length w" if "m \<in> set ms" for m using scan_bounds [OF assms that] .
  ultimately show "guard_cut ps (length w) ms \<le> length w" "length w - guard_cut ps (length w) ms \<le> guard_carry ps"
    by (auto simp: guard_cut_def)
qed

lemma label_begin_take: "i \<le> n \<Longrightarrow> label_begin (take n s) i = label_begin s i"
  by (induction i) auto

lemma label_begin_le: "label_begin s i \<le> i"
  by (induction i) auto

lemma short_label_take:
  assumes "i \<le> n"
  shows "short_password_label (take n s) i = short_password_label s i"
proof -
  have "take (length l) (drop (label_begin s i - length l) (take n s)) = take (length l) (drop (label_begin s i - length l) s)"
    if "length l \<le> label_begin s i" for l :: cstr
  proof -
    have "length l \<le> n - (label_begin s i - length l)" using that assms label_begin_le [of s i] by linarith
    then show ?thesis by (simp add: drop_take)
  qed
  then show ?thesis using assms by (simp add: short_password_label_def Let_def label_begin_take list_ex_iff cong: conj_cong)
qed

lemma raw_match_take: "raw_match ps text q \<Longrightarrow> ms_end q \<le> n \<Longrightarrow> raw_match ps (take n text) q"
proof -
  assume "raw_match ps text q" "ms_end q \<le> n"
  then obtain p where p: "p \<in> set ps" "q \<in> set (password_matches text p)" by (auto simp: raw_match_def)
  then obtain i where i: "q = \<lparr>ms_start = i, ms_end = i + length p\<rparr>" "password_at text p i" "i + length p \<le> length text"
    by (auto simp: password_matches_def image_iff simp del: upt_Suc split: if_splits)
  with \<open>ms_end q \<le> n\<close> have "i + length p \<le> n" by simp
  then have "take (length p) (drop i (take n text)) = take (length p) (drop i text)" by (simp add: take_drop min_def)
  with i \<open>i + length p \<le> n\<close> have "password_at (take n text) p i" by (simp add: password_at_def short_label_take)
  with i \<open>i + length p \<le> n\<close> have "q \<in> set (password_matches (take n text) p)"
    by (auto simp: password_matches_def image_iff simp del: upt_Suc)
  with p(1) show ?thesis by (auto simp: raw_match_def)
qed

text \<open>What is cut off is redacted so that no occurrence that starts in it, here or in whatever follows, stays in the clear.\<close>

lemma cut_covers:
  assumes ne: "\<forall>p \<in> set ps. p \<noteq> []" and ms: "secret_scan_ssh_passwords mem ps w = Some ms" and cp: "cp = guard_cut ps (length w) ms"
    and ms': "secret_scan_ssh_passwords mem' ps (take cp w) = Some ms'"
    and p: "p \<in> set ps" "4 \<le> length p" and z: "take (length w) z = w" "take (length p) (drop j z) = p" "j + length p \<le> length z" "j < cp"
  shows "\<exists>k \<in> set ms'. ms_start k < j + length p \<and> j < ms_end k"
proof -
  let ?c0 = "if guard_carry ps < length w then length w - guard_carry ps else 0"
  note ch = scan_spec(1) [OF ne ms]
  have ext: "cp = ?c0 \<or> (\<exists>m \<in> set ms. ms_start m < ?c0 \<and> ?c0 < ms_end m \<and> cp = ms_end m)"
    and across: "\<forall>m \<in> set ms. ms_end m \<le> cp \<or> cp \<le> ms_start m"
    using extend_cuts [OF ch, of ?c0] by (auto simp: cp guard_cut_def)
  have covered: "\<exists>q. raw_match ps w q \<and> ms_start q \<le> j \<and> j < ms_end q \<and> ms_end q \<le> cp"
  proof -
    obtain m where m: "m \<in> set ms" "ms_start m \<le> j" "j < ms_end m" "ms_end m \<le> cp"
    proof (cases "j + length p \<le> length w")
      case True
      have "take (length p) (drop j w) = p" using z(1,2) True by (metis take_drop take_take min.absorb1 add.commute)
      from scan_spec(2) [OF ne ms p this True] obtain k where k: "k \<in> set ms" "ms_start k \<le> j" "j + length p \<le> ms_end k" by blast
      with across z(4) p(2) have "ms_end k \<le> cp" by fastforce
      with k p(2) that [of k] show ?thesis by simp
    next
      case False
      have "?c0 \<le> j" using False carry_ge [OF p(1)] by auto
      with z(4) ext obtain m where "m \<in> set ms" "ms_start m < ?c0" "cp = ms_end m" by auto
      with \<open>?c0 \<le> j\<close> z(4) that [of m] show ?thesis by simp
    qed
    from scan_covers(2) [OF ne ms m(1-3)] obtain q where q: "raw_match ps w q" "ms_start q \<le> j" "j < ms_end q" by blast
    from scan_covers(1) [OF ne ms q(1)] obtain k where k: "k \<in> set ms" "ms_start k \<le> ms_start q" "ms_end q \<le> ms_end k" by blast
    have "k = m" using chain_apart [OF ch k(1) m(1)] k q m by fastforce
    with k m q show ?thesis by auto
  qed
  then obtain q where q: "raw_match ps w q" "ms_start q \<le> j" "j < ms_end q" "ms_end q \<le> cp" by blast
  from scan_covers(1) [OF ne ms' raw_match_take [OF q(1,4)]] obtain k where "k \<in> set ms'" "ms_start k \<le> ms_start q" "ms_end q \<le> ms_end k" by blast
  with q p(2) show ?thesis by (intro bexI [of _ k]) auto
qed

section \<open>The stream as a whole\<close>

definition shift_match :: "nat \<Rightarrow> secret_match \<Rightarrow> secret_match" where
  "shift_match a m = \<lparr>ms_start = ms_start m + a, ms_end = ms_end m + a\<rparr>"

lemma redact_shift: "redact_from (a @ b) rep (pos + length a) (map (shift_match (length a)) ms) = redact_from b rep pos ms"
  by (induction ms arbitrary: pos) (auto simp: shift_match_def)

lemma redact_append:
  assumes "chain pos ms" "\<forall>m \<in> set ms. ms_end m \<le> length a" "pos \<le> length a"
  shows "redact_from (a @ b) rep pos (ms @ map (shift_match (length a)) ms') = redact_from a rep pos ms @ redact_from b rep 0 ms'"
  using assms
proof (induction ms arbitrary: pos)
  case Nil
  show ?case
  proof (cases ms')
    case (Cons m ms2)
    have "redact_from (a @ b) rep (ms_end m + length a) (map (shift_match (length a)) ms2) = redact_from b rep (ms_end m) ms2" by (rule redact_shift)
    with Nil Cons show ?thesis by (simp add: shift_match_def [of _ m])
  qed (use Nil in simp)
next
  case (Cons m ms)
  then have "ms_start m \<le> length a" by auto
  with Cons show ?case by (simp add: take_drop)
qed

lemma chain_append_shift:
  assumes "chain pos ms" "\<forall>m \<in> set ms. ms_end m \<le> a" "pos \<le> a" "chain 0 ms'"
  shows "chain pos (ms @ map (shift_match a) ms')"
proof -
  have "chain (p + a) (map (shift_match a) ms')" if "chain p ms'" for p using that
    by (induction ms' arbitrary: p) (auto simp: shift_match_def)
  then have "chain a (map (shift_match a) ms')" using assms(4) by force
  moreover have weaken: "chain p ms'' \<Longrightarrow> q \<le> p \<Longrightarrow> chain q ms''" for p q ms'' by (cases ms'') auto
  ultimately show ?thesis using assms(1-3)
    by (induction ms arbitrary: pos) (auto intro: weaken)
qed

lemma scan_some: "\<exists>ms. secret_scan_ssh_passwords True ps s = Some ms"
  by (cases "s = []") (auto simp: secret_scan_ssh_passwords_def Let_def)

lemma redact_scan:
  "secret_scan_ssh_passwords mem ps text = Some ms \<Longrightarrow>
   secret_redact_ssh_passwords mem ps text None = Some (redact_from text ''[REDACTED:ssh_password]'' 0 ms)"
  by (simp add: secret_redact_ssh_passwords_def nonnull_or_def)

text \<open>Of the stream \<open>x\<close> so far the first \<open>c\<close> bytes were sent, masked at \<open>ms\<close>.\<close>

definition sent_upto :: "cstr list \<Rightarrow> cstr \<Rightarrow> nat \<Rightarrow> secret_match list \<Rightarrow> bool" where
  "sent_upto ps x c ms \<longleftrightarrow> c \<le> length x \<and> chain 0 ms \<and> (\<forall>m \<in> set ms. ms_end m \<le> c) \<and>
     (\<forall>p \<in> set ps. 4 \<le> length p \<longrightarrow> (\<forall>y i. take (length x) y = x \<longrightarrow> take (length p) (drop i y) = p \<longrightarrow> i + length p \<le> length y \<longrightarrow> i < c \<longrightarrow>
       (\<exists>k \<in> set ms. ms_start k < i + length p \<and> i < ms_end k))) \<and>
     ((\<forall>p \<in> set ps. \<not> str_contains p x) \<longrightarrow> ms = [])"

definition stream_inv :: "cstr list \<Rightarrow> cstr \<Rightarrow> stream_guard \<Rightarrow> bool" where
  "stream_inv ps x g \<longleftrightarrow> sg_inner g \<and> (\<exists>c ms. sent_upto ps x c ms \<and> sg_hold g = drop c x \<and>
     concat (sg_sent g) = redact_from (take c x) ''[REDACTED:ssh_password]'' 0 ms)"

lemma sent_more:
  assumes ne: "\<forall>p \<in> set ps. p \<noteq> []" and old: "sent_upto ps x c ms" and w: "w = drop c x @ d" and sw: "secret_scan_ssh_passwords mem ps w = Some mw"
    and cp: "cp = guard_cut ps (length w) mw" and sp: "secret_scan_ssh_passwords mem' ps (take cp w) = Some mp"
  shows "sent_upto ps (x @ d) (c + cp) (ms @ map (shift_match c) mp)"
proof -
  from old have c: "c \<le> length x" "chain 0 ms" "\<forall>m \<in> set ms. ms_end m \<le> c" by (auto simp: sent_upto_def)
  have wd: "w = drop c (x @ d)" using c(1) by (simp add: w)
  have cpl: "cp \<le> length w" unfolding cp by (rule guard_cut_le(1) [OF ne sw])
  have ends: "ms_end k \<le> cp" if "k \<in> set mp" for k using scan_bounds [OF ne sp that] cpl by simp
  have "\<exists>k \<in> set (ms @ map (shift_match c) mp). ms_start k < i + length p \<and> i < ms_end k"
    if p: "p \<in> set ps" "4 \<le> length p" and y: "take (length (x @ d)) y = x @ d" "take (length p) (drop i y) = p" "i + length p \<le> length y" "i < c + cp" for p y i
  proof (cases "i < c")
    case True
    have "take (length x) (take (length (x @ d)) y) = x" by (simp only: y(1)) simp
    then have "take (length x) y = x" by (simp add: min_def split: if_splits)
    with old p y True have "\<exists>k \<in> set ms. ms_start k < i + length p \<and> i < ms_end k" by (auto simp: sent_upto_def)
    then show ?thesis by auto
  next
    case False
    define z where "z = drop c y"
    have "take (length w) z = w" using y(1) c(1) by (simp add: z_def wd take_drop)
    moreover have "take (length p) (drop (i - c) z) = p" using y(2) False by (simp add: z_def)
    moreover have "i - c + length p \<le> length z" "i - c < cp" using y(3,4) False by (auto simp: z_def)
    ultimately have "\<exists>k \<in> set mp. ms_start k < i - c + length p \<and> i - c < ms_end k" by (rule cut_covers [OF ne sw cp sp p])
    then obtain k where "k \<in> set mp" "ms_start k < i - c + length p" "i - c < ms_end k" by blast
    with False show ?thesis by (intro bexI [of _ "shift_match c k"]) (auto simp: shift_match_def)
  qed
  moreover have "chain 0 (ms @ map (shift_match c) mp)" using c scan_spec(1) [OF ne sp] by (intro chain_append_shift) auto
  moreover have "\<forall>m \<in> set (ms @ map (shift_match c) mp). ms_end m \<le> c + cp" using c(3) ends by (force simp: shift_match_def)
  moreover have "c + cp \<le> length (x @ d)" using cpl c(1) by (simp add: w)
  moreover have "ms @ map (shift_match c) mp = []" if none: "\<forall>p \<in> set ps. \<not> str_contains p (x @ d)"
  proof -
    have x: "\<forall>p \<in> set ps. \<not> str_contains p x" using none by (metis str_contains_iff append.assoc)
    have "x @ d = take c x @ take cp w @ drop cp w" unfolding append_take_drop_id by (simp add: w)
    then have "\<forall>p \<in> set ps. \<not> str_contains p (take cp w)" using none by (metis str_contains_iff append.assoc)
    with x old show ?thesis using scan_nothing [of ps "take cp w" mem'] sp by (auto simp: sent_upto_def)
  qed
  ultimately show ?thesis by (simp add: sent_upto_def)
qed

lemma cb_step:
  assumes inv: "stream_inv ps x g" and ne: "\<forall>p \<in> set ps. p \<noteq> []"
  shows "stream_inv ps (x @ d) (fst (secret_stream_guard_cb True True True True ps ts (Some d) (g, b)))"
proof (cases "d = []")
  case False
  let ?rep = "''[REDACTED:ssh_password]''"
  obtain c ms where cm: "sent_upto ps x c ms" "sg_hold g = drop c x" "concat (sg_sent g) = redact_from (take c x) ?rep 0 ms"
    and inner: "sg_inner g" using inv by (auto simp: stream_inv_def)
  define w where "w = drop c x @ d"
  obtain mw where mw: "secret_scan_ssh_passwords True ps w = Some mw" using scan_some by blast
  define cp where "cp = guard_cut ps (length w) mw"
  obtain mp where mp: "secret_scan_ssh_passwords True ps (take cp w) = Some mp" using scan_some by blast
  have c: "c \<le> length x" "chain 0 ms" "\<forall>m \<in> set ms. ms_end m \<le> c" using cm(1) by (auto simp: sent_upto_def)
  define g1 where "g1 = fst (secret_stream_guard_cb True True True True ps ts (Some d) (g, b))"
  have step: "g1 = (if cp \<noteq> 0 then send (redact_from (take cp w) ?rep 0 mp) g else g)\<lparr>sg_hold := drop cp w\<rparr>"
    using False inner cm(2) mw
    by (simp add: g1_def secret_stream_guard_cb_def guard_emit_window_def Let_def cp_def [symmetric] redact_scan [OF mp] flip: w_def)
  have "redact_from (take cp w) ?rep 0 mp = []" if "cp = 0" using mp that by (simp add: secret_scan_ssh_passwords_def)
  then have sent: "concat (sg_sent g1) = concat (sg_sent g) @ redact_from (take cp w) ?rep 0 mp"
    using inner by (auto simp: step send_def)
  have wx: "take c x @ w = x @ d" by (simp add: w_def)
  have len: "length (take c x) = c" using c(1) by simp
  have "take (c + cp) (take c x @ w) = take c x @ take cp w" "drop (c + cp) (take c x @ w) = drop cp w" using len by simp_all
  then have parts: "take (c + cp) (x @ d) = take c x @ take cp w" "drop (c + cp) (x @ d) = drop cp w" by (simp_all only: wx)
  have "redact_from (take c x @ take cp w) ?rep 0 (ms @ map (shift_match (length (take c x))) mp) =
      redact_from (take c x) ?rep 0 ms @ redact_from (take cp w) ?rep 0 mp"
    using c by (intro redact_append) auto
  with sent cm(3) have "concat (sg_sent g1) = redact_from (take (c + cp) (x @ d)) ?rep 0 (ms @ map (shift_match c) mp)"
    by (simp only: parts len)
  moreover have "sent_upto ps (x @ d) (c + cp) (ms @ map (shift_match c) mp)" by (rule sent_more [OF ne cm(1) w_def mw cp_def mp])
  moreover have "sg_hold g1 = drop (c + cp) (x @ d)" "sg_inner g1" unfolding parts using inner by (auto simp: step send_def)
  ultimately show ?thesis unfolding stream_inv_def g1_def by blast
qed (use inv in \<open>auto simp: secret_stream_guard_cb_def\<close>)

lemma cb_steps:
  assumes "stream_inv ps x g" "\<forall>p \<in> set ps. p \<noteq> []"
  shows "stream_inv ps (x @ concat ds) (fst (fold (\<lambda>d. secret_stream_guard_cb True True True True ps ts (Some d)) ds (g, b)))"
  using assms(1)
proof (induction ds arbitrary: x g b)
  case (Cons d ds)
  obtain g1 b1 where g1: "secret_stream_guard_cb True True True True ps ts (Some d) (g, b) = (g1, b1)" by fastforce
  with cb_step [OF Cons.prems assms(2), of d ts b] have "stream_inv ps (x @ d) g1" by simp
  from Cons.IH [OF this, of b1] show ?case by (simp add: g1)
qed simp

text \<open>What a stream delivers: the deltas are fed one by one, then the guard is freed.\<close>

definition guarded_stream :: "cstr list \<Rightarrow> cstr \<Rightarrow> cstr list \<Rightarrow> boundary \<Rightarrow> cstr list" where
  "guarded_stream ps ts ds b =
     (case secret_stream_guard_new True True of
        None \<Rightarrow> []
      | Some g \<Rightarrow> fst (secret_stream_guard_free True True ps ts (fold (\<lambda>d. secret_stream_guard_cb True True True True ps ts (Some d)) ds (g, b))))"

lemma sent_upto_start: "sent_upto ps [] 0 []"
  by (simp add: sent_upto_def)

lemma stream_sent:
  assumes ne: "\<forall>p \<in> set ps. p \<noteq> []"
  shows "\<exists>ms. chain 0 ms \<and> (\<forall>m \<in> set ms. ms_end m \<le> length (concat ds)) \<and>
    concat (guarded_stream ps ts ds b) = redact_from (concat ds) ''[REDACTED:ssh_password]'' 0 ms \<and>
    (\<forall>p \<in> set ps. 4 \<le> length p \<longrightarrow> (\<forall>i. take (length p) (drop i (concat ds)) = p \<longrightarrow> i + length p \<le> length (concat ds) \<longrightarrow>
       (\<exists>k \<in> set ms. ms_start k < i + length p \<and> i < ms_end k))) \<and>
    ((\<forall>p \<in> set ps. \<not> str_contains p (concat ds)) \<longrightarrow> ms = [])"
proof -
  let ?g = "\<lparr>sg_inner = True, sg_hold = [], sg_sent = []\<rparr>" and ?x = "concat ds"
  obtain g b1 where gb: "fold (\<lambda>d. secret_stream_guard_cb True True True True ps ts (Some d)) ds (?g, b) = (g, b1)" by fastforce
  have "stream_inv ps [] ?g" using sent_upto_start [of ps] by (auto simp: stream_inv_def intro!: exI [of _ "0::nat"] exI [of _ "[]"])
  from cb_steps [OF this ne, of ds ts b] have inv: "stream_inv ps ?x g" by (simp add: gb)
  then obtain c ms where cm: "sent_upto ps ?x c ms" "sg_hold g = drop c ?x" "concat (sg_sent g) = redact_from (take c ?x) ''[REDACTED:ssh_password]'' 0 ms"
    and inner: "sg_inner g" by (auto simp: stream_inv_def)
  have c: "c \<le> length ?x" "chain 0 ms" "\<forall>m \<in> set ms. ms_end m \<le> c" using cm(1) by (auto simp: sent_upto_def)
  obtain mw where mw: "secret_scan_ssh_passwords True ps (drop c ?x) = Some mw" using scan_some by blast
  let ?all = "ms @ map (shift_match c) mw"
  have "concat (guarded_stream ps ts ds b) = concat (sg_sent g) @ redact_from (drop c ?x) ''[REDACTED:ssh_password]'' 0 mw"
    using inner cm(2) mw gb redact_scan [OF mw]
    by (cases "drop c ?x = []")
      (auto simp: guarded_stream_def secret_stream_guard_new_def secret_stream_guard_free_def send_def secret_scan_ssh_passwords_def Let_def simp del: drop_eq_Nil)
  also have "\<dots> = redact_from (take c ?x @ drop c ?x) ''[REDACTED:ssh_password]'' 0 (ms @ map (shift_match (length (take c ?x))) mw)"
    unfolding cm(3) using c by (intro redact_append [symmetric]) auto
  finally have out1: "concat (guarded_stream ps ts ds b) = redact_from ?x ''[REDACTED:ssh_password]'' 0 ?all" using c(1) by simp
  have "chain 0 ?all" using c scan_spec(1) [OF ne mw] by (intro chain_append_shift) auto
  moreover have "\<forall>m \<in> set ?all. ms_end m \<le> length ?x" using c scan_bounds [OF ne mw] by (force simp: shift_match_def)
  moreover have "\<exists>k \<in> set ?all. ms_start k < i + length p \<and> i < ms_end k"
    if p: "p \<in> set ps" "4 \<le> length p" and i: "take (length p) (drop i ?x) = p" "i + length p \<le> length ?x" for p i
  proof (cases "i < c")
    case True
    moreover have "take (length ?x) ?x = ?x" by simp
    ultimately have "\<exists>k \<in> set ms. ms_start k < i + length p \<and> i < ms_end k" using cm(1) p i unfolding sent_upto_def by blast
    then show ?thesis by auto
  next
    case False
    then have "take (length p) (drop (i - c) (drop c ?x)) = p" "i - c + length p \<le> length (drop c ?x)" using i by auto
    from scan_spec(2) [OF ne mw p this] obtain k where "k \<in> set mw" "ms_start k \<le> i - c" "i - c + length p \<le> ms_end k" by blast
    with False p(2) show ?thesis by (intro bexI [of _ "shift_match c k"]) (auto simp: shift_match_def)
  qed
  moreover have "?all = []" if none: "\<forall>p \<in> set ps. \<not> str_contains p ?x"
  proof -
    have "\<forall>p \<in> set ps. \<not> str_contains p (drop c ?x)" using none by (metis str_contains_iff append.assoc append_take_drop_id)
    with none cm(1) show ?thesis using scan_nothing [of ps "drop c ?x" True] mw by (auto simp: sent_upto_def)
  qed
  ultimately show ?thesis using out1 by blast
qed

section \<open>Nothing leaks\<close>

text \<open>C34: However a language model's answer is cut into deltas, what the stream guard sends on is the whole
  answer with a marker in place of disjoint spans, and no registered password of at least four bytes is left in the text between
  the markers, also none that was split over several deltas; an answer in which no registered value occurs is delivered unchanged.\<close>

theorem stream_guard_complete:
  assumes "\<forall>p \<in> set ps. p \<noteq> []"
  shows "(\<exists>ms. concat (guarded_stream ps ts ds b) = join ''[REDACTED:ssh_password]'' (pieces (concat ds) 0 ms) \<and> chain 0 ms \<and>
      (\<forall>p \<in> set ps. 4 \<le> length p \<longrightarrow> (\<forall>s \<in> set (pieces (concat ds) 0 ms). \<not> str_contains p s))) \<and>
    ((\<forall>p \<in> set ps. \<not> str_contains p (concat ds)) \<longrightarrow> concat (guarded_stream ps ts ds b) = concat ds)"
proof -
  obtain ms where ms: "chain 0 ms" "concat (guarded_stream ps ts ds b) = redact_from (concat ds) ''[REDACTED:ssh_password]'' 0 ms"
    "\<forall>p \<in> set ps. 4 \<le> length p \<longrightarrow> (\<forall>i. take (length p) (drop i (concat ds)) = p \<longrightarrow> i + length p \<le> length (concat ds) \<longrightarrow>
       (\<exists>k \<in> set ms. ms_start k < i + length p \<and> i < ms_end k))"
    "(\<forall>p \<in> set ps. \<not> str_contains p (concat ds)) \<longrightarrow> ms = []"
    using stream_sent [OF assms, of ds ts b] by blast
  have "\<not> str_contains p s" if p: "p \<in> set ps" "4 \<le> length p" and s: "s \<in> set (pieces (concat ds) 0 ms)" for p s
  proof
    assume "str_contains p s"
    then obtain u v where "s = u @ p @ v" by (auto simp: str_contains_iff)
    moreover have "p \<noteq> []" using p(2) by auto
    ultimately obtain i where i: "take (length p) (drop i (concat ds)) = p" "i + length p \<le> length (concat ds)"
      "\<forall>m \<in> set ms. ms_end m \<le> i \<or> i + length p \<le> ms_start m"
      using pieces_gap [OF ms(1) s] by blast
    then obtain k where "k \<in> set ms" "ms_start k < i + length p" "i < ms_end k" using ms(3) p by blast
    with i(3) show False by fastforce
  qed
  with ms show ?thesis by (auto simp: redact_join)
qed

theorem stream_guard_complete_witness:
  "\<exists>ms. concat (guarded_stream [''hunter22''] ''t'' [''key: hun'', ''ter22 ok''] boundary_init) =
      join ''[REDACTED:ssh_password]'' (pieces ''key: hunter22 ok'' 0 ms) \<and> \<not> str_contains ''hunter22'' (last (pieces ''key: hunter22 ok'' 0 ms))"
proof -
  obtain ms where "concat (guarded_stream [''hunter22''] ''t'' [''key: hun'', ''ter22 ok''] boundary_init) =
      join ''[REDACTED:ssh_password]'' (pieces (concat [''key: hun'', ''ter22 ok'']) 0 ms)"
    "\<forall>s \<in> set (pieces (concat [''key: hun'', ''ter22 ok'']) 0 ms). \<not> str_contains ''hunter22'' s"
    using stream_guard_complete [of "[''hunter22'']" "''t''" "[''key: hun'', ''ter22 ok'']" boundary_init] by auto
  then show ?thesis using last_in_set [OF pieces_nonempty] by (intro exI [of _ ms]) auto
qed

text \<open>The same stream, computed.\<close>

lemma stream_example:
  "guarded_stream [''hunter22''] ''t'' [''key: hun'', ''ter22 ok''] boundary_init = [''key: [REDACTED:ssh_password] ok'']"
  by code_simp

lemma hold_bounded:
  assumes ne: "\<forall>p \<in> set ps. p \<noteq> [] \<and> length p \<le> 6144" and h: "length (sg_hold g) < GUARD_TAIL"
  shows "length (sg_hold (fst (secret_stream_guard_cb okw mem okp okr ps ts d (g, b)))) < GUARD_TAIL"
proof (cases "d = None \<or> \<not> sg_inner g \<or> the d = [] \<or> \<not> okw")
  case False
  have ne': "\<forall>p \<in> set ps. p \<noteq> []" using ne by simp
  have small: "guard_carry ps < GUARD_TAIL"
    using max_length_le [of ps 6144] ne by (auto simp: guard_carry_def GUARD_TAIL_def Let_def)
  show ?thesis
  proof (cases "secret_scan_ssh_passwords mem ps (sg_hold g @ the d)")
    case (Some ms)
    from guard_cut_le(2) [OF ne' Some] small show ?thesis
      using False Some by (auto simp: secret_stream_guard_cb_def guard_emit_window_def Let_def)
  qed (use False in \<open>auto simp: secret_stream_guard_cb_def guard_emit_window_def GUARD_TAIL_def\<close>)
qed (use h in \<open>auto simp: secret_stream_guard_cb_def GUARD_TAIL_def\<close>)

text \<open>A short password far behind its label is masked in a whole message and sent in the clear in a stream, even of one delta.\<close>

lemma short_password_split:
  "concat (guarded_stream [''pw''] ''t'' [''Password:'' @ replicate 24 CHR 0x20 @ ''pw''] boundary_init) =
     ''Password:'' @ replicate 24 CHR 0x20 @ ''pw''"
  "fst (secret_guard_llm_output True [''pw''] ''t'' (Some (''Password:'' @ replicate 24 CHR 0x20 @ ''pw'')) boundary_init) =
     Some (''Password:'' @ replicate 24 CHR 0x20 @ ''[REDACTED:ssh_password]'')"
  by code_simp+

end
