(* ===== verification/Spec2Isabelle.thy ===== *)
theory Spec2Isabelle
  imports SchedulerRun RingConc EventBus Hooks KvStore Policy Util Tx Orchestrator Cron MemRuntime WsServer StateStore FlowStore SecretBoundary
begin

text \<open>
  A verification development for the native runtime of the cognitive OS agent (the C sources under \<open>src/backend/src\<close>).

  \<^bold>\<open>The program.\<close> A server runs tasks for agents that are driven by a language model. A submitted task goes through the
  priority scheduler to a worker thread. The worker runs the reasoning loop, or decomposes the task with the
  orchestrator and runs the resulting flow, a dependency graph of agent runs. A reasoning loop calls tools; every call
  passes the registry's gate (schema, policy) and, when it changes files, an action transaction that captures the files
  in the snapshot engine first. The components report on the event bus (over the lock-free ring buffer) and through
  hooks, and share facts on the blackboard.

  \<^bold>\<open>Theories and sources.\<close>
  \<^item> \<open>CBase\<close>: C strings, growable arrays, linear search and \<open>memmove\<close> removal, and the interfaces (locales) of keyed stores
    and queues; \<open>Json\<close>: the tree of the vendored cJSON and its accessors.
  \<^item> \<open>ReadyQueue\<close>, \<open>TaskModel\<close>, \<open>Scheduler\<close>, \<open>SchedulerInv\<close>, \<open>SchedulerRun\<close>: \<open>runtime/scheduler.c\<close>, \<open>runtime/task.c\<close>. The heap,
    the task record with its trace and messages, the worker loop cut at its critical sections, the invariant, and runs
    (a step relation over all interleavings).
  \<^item> \<open>RingBuf\<close>, \<open>RingConc\<close>: \<open>infra/ringbuf.c\<close>, called one at a time on 64-bit positions, and interleaved at every atomic
    access. \<open>EventBus\<close>: \<open>runtime/event_bus.c\<close>. \<open>Hooks\<close>: \<open>runtime/hook.c\<close>, \<open>runtime/state_machine.c\<close>.
  \<^item> \<open>KvStore\<close>: \<open>memory/kv.c\<close>, \<open>cognition/blackboard.c\<close>. \<open>Policy\<close>: \<open>runtime/policy_engine.c\<close>, \<open>plugin_runtime/capability.c\<close>, the
    deny list of \<open>plugin_runtime/sandbox.c\<close>.
  \<^item> \<open>Util\<close>: \<open>infra/util.c\<close>. \<open>Fs\<close>: \<open>os/posix/fs.c\<close>. \<open>Snapshot\<close>: \<open>snapshot/cow.c\<close>, \<open>snapshot/snapshot.c\<close>. \<open>SshSecrets\<close>:
    \<open>security/ssh_passwords.c\<close>. \<open>Tools\<close>: \<open>infra/metrics.c\<close>, \<open>action/tools.c\<close>. \<open>Tx\<close>: \<open>tx/tx.c\<close>.
  \<^item> \<open>AgentPool\<close>: \<open>runtime/agent.c\<close>. \<open>FlowDag\<close> and \<open>FlowLayer\<close>: the compiler half of \<open>runtime/flow.c\<close> (\<open>flow_parse\<close>, \<open>flow_layer\<close>,
    \<open>flow_validate\<close>) and the correctness of its layering. \<open>FlowProg\<close>, \<open>FlowRun\<close>, \<open>FlowOrder\<close>: its progress registry, its
    execution half (\<open>flow_worker\<close>, \<open>flow_substitute\<close>, \<open>flow_run\<close>), and what a run guarantees. \<open>Orchestrator\<close>:
    \<open>runtime/orchestrator.c\<close>. \<open>Cron\<close>: \<open>runtime/cron.c\<close>.
  \<^item> \<open>CText\<close>: reading and printing of numbers as the C library does it. \<open>VectorStore\<close>: \<open>memory/vector.c\<close>. \<open>MemRecord\<close>,
    \<open>MemStore\<close>: \<open>memory/record.c\<close>, the record with its Markdown form, and the store over the file system. \<open>Mmu\<close>, \<open>MmuInv\<close>:
    \<open>context/mmu.c\<close> and its invariant. \<open>Promotion\<close>: \<open>memory/promotion.c\<close>. \<open>MemRuntime\<close>: \<open>memory/runtime.c\<close>.
  A definition has the name of the C function it translates; helpers name a loop or a block of one. State is a record
  with the fields of the C struct, passed and returned; a handle is its contents.

  \<^bold>\<open>What the lemmas show.\<close>
  \<^item> Scheduling: in every reachable state a task is owned exactly once, none in use is freed, some worker can always step
    unless the scheduler is idle, admission and history respect their limits, completed tasks do not change. Cron
    submits due jobs, an interval job never more often than its interval.
  \<^item> Queues and events: the ring buffer is a bounded queue, and under any interleaving no item is lost or taken twice; a
    published event reaches its subscribers in order; hooks run in the order the registry promises.
  \<^item> Files: rolling back a transaction or a snapshot restores the files, commits get fresh ids, manifests read back.
  \<^item> Guarding: a tool runs only when registered, valid and allowed; known passwords do not survive redaction; a large
    output is in the answer or in a file.
  \<^item> Flows: validation ends and accepts exactly the acyclic documents, layers are longest paths, an agent starts only
    after its dependencies succeeded in whatever order threads run, the result is 0 exactly when all succeeded; a plan
    compiles to an acyclic flow and a roster restriction is kept.
  \<^item> Memory: what the record store holds is what its directory holds; the context manager books exactly the tokens of its
    resident pages and stays in its budget; a private recall answers with records of its own scope only; a record's status
    rises only on evidence, one step per lesson, and three lessons verify it.
  \<^item> Data: stores refine finite maps, the agent pool's hash index agrees with a linear search, files read back what was
    saved, UTF-8 validation accepts exactly UTF-8.
  Some theorems show a fault instead: a second capture of the same path makes rollback keep the first call's change, a time
  of day that is accepted but cut off makes a job due at every tick, a claim without evidence replaces a verified text.

  \<^bold>\<open>Bounds and loops.\<close> Loops that the C code does not bound (probing a hash index, doubling a buffer, searching a fresh id,
  Kahn's queue, the event drain) are partial functions or fuelled, and are proved to return: the index keeps its load under
  seven tenths, the buffer size is under the address space, an id is fresh after as many attempts as there are
  snapshots, a queue entry is taken once per node. The drain takes at most 4096 events, as in the code. Machine
  integers are words where they wrap (hash, ring positions), otherwise naturals or integers with the code's guards.

  \<^bold>\<open>Parameters.\<close> The JSON parser and printer, the clock, the outcome of allocations and of file writes, thread order, the
  replies of the language model, an agent's run and a tool's own code are arguments. A round trip assumes that the
  parser reads what the printer wrote, for the document at hand.

  \<^bold>\<open>Not modelled.\<close> The reasoning loop and the planner, the HTTP and websocket servers, the language model and messaging
  clients, the individual tools, the secret detectors, plugin generation and the operating system layers other than
  files: they are input and output, prompts, or third-party protocols, and appear as parameters of the components above.
  Memory management (\<open>free\<close>, destructors) carries no state here. The episodes, summaries and the knowledge graph of the
  memory and the flow and state stores are not modelled yet. Floating point is modelled by rational numbers with a rounding
  function as parameter; infinities and NaN do not occur in it.
\<close>

end
